(* ===== verification/Prelude.thy ===== *)
theory Prelude
  imports Main "HOL-Library.Word" "HOL-Library.Monad_Syntax"
begin

text \<open>
  Shared vocabulary of the development: the C++ machine types, the ways a C++ operation can
  fail, the operations of \<open>std::vector\<close> that the sources use, and the generic facts about
  lists and words that the component theories rely on.

  \<^item> \<open>size_t\<close> is the 64-bit unsigned word, with wrap-around;
  \<^item> \<open>byte\<close> is \<open>char\<close>, so that buffers, strings and \<open>std::string\<close> are all \<open>char list\<close>;
  \<^item> \<open>cpp_error\<close> lists the abnormal outcomes: a C++ exception, the abort of a
    \<open>LOG_FATAL\<close>, or an access that the language leaves undefined.
\<close>

named_theorems sz_simps \<open>moving size_t comparisons and differences to the naturals\<close>

type_synonym size_t = "64 word"
type_synonym byte = char
type_synonym fd = int

datatype cpp_error =
    Length_error            \<comment> \<open>\<open>std::length_error\<close>, thrown by a vector that cannot grow\<close>
  | Bad_alloc               \<comment> \<open>\<open>std::bad_alloc\<close>, thrown when memory is exhausted\<close>
  | Runtime_error string    \<comment> \<open>\<open>std::runtime_error\<close>\<close>
  | Aborted                 \<comment> \<open>\<open>abort()\<close>, reached through \<open>LOG_FATAL\<close>\<close>
  | Null_deref              \<comment> \<open>a null pointer is dereferenced\<close>
  | Dangling_deref          \<comment> \<open>an object is used or freed outside its lifetime\<close>
  | Div_by_zero             \<comment> \<open>an integer division by zero\<close>
  | Out_of_bounds           \<comment> \<open>an access outside the storage of an object\<close>

type_synonym 'a result = "cpp_error + 'a"

text \<open>Going on after a call that may have thrown.\<close>

definition andthen :: "'a result \<Rightarrow> ('a \<Rightarrow> 'b result) \<Rightarrow> 'b result" where
  "andthen r f = (case r of Inl e \<Rightarrow> Inl e | Inr x \<Rightarrow> f x)"

lemma andthen_simps [simp]: "andthen (Inl e) f = Inl e" "andthen (Inr x) f = f x"
  by (simp_all add: andthen_def)

lemma andthen_Inr_iff: "andthen r f = Inr y \<longleftrightarrow> (\<exists>x. r = Inr x \<and> f x = Inr y)"
  by (cases r) simp_all

subsection \<open>Vectors of bytes\<close>

text \<open>
  \<open>std::vector<char>::max_size()\<close> is \<open>PTRDIFF_MAX\<close>. \<open>vec_resize\<close> is
  \<open>resize(n)\<close>: it throws above that bound, truncates, or pads with zero bytes.
  \<open>vec_write\<close> is a \<open>std::copy\<close> of a range to an offset inside the vector; writing past
  the end is undefined in C++ and an error here.
\<close>

definition vec_max :: nat where
  "vec_max = 2 ^ 63 - 1"

definition vec_resize :: "byte list \<Rightarrow> nat \<Rightarrow> byte list result" where
  "vec_resize xs n =
     (if vec_max < n then Inl Length_error
      else Inr (take n xs @ replicate (n - length xs) (CHR 0x00)))"

definition vec_write :: "byte list \<Rightarrow> nat \<Rightarrow> byte list \<Rightarrow> byte list result" where
  "vec_write xs off ys =
     (if off + length ys \<le> length xs
      then Inr (take off xs @ ys @ drop (off + length ys) xs)
      else Inl Out_of_bounds)"

definition seg :: "nat \<Rightarrow> nat \<Rightarrow> 'a list \<Rightarrow> 'a list" where
  "seg i j xs = take (j - i) (drop i xs)"

lemma length_seg [simp]: "length (seg i j xs) = min (j - i) (length xs - i)"
  by (simp add: seg_def min.commute)

lemma seg_empty [simp]: "seg i i xs = []"
  by (simp add: seg_def)

lemma seg_append_adjacent:
  "i \<le> j \<Longrightarrow> j \<le> k \<Longrightarrow> seg i j xs @ seg j k xs = seg i k xs"
proof -
  assume "i \<le> j" "j \<le> k"
  then have "seg i k xs = take ((j - i) + (k - j)) (drop i xs)" by (simp add: seg_def)
  also have "\<dots> = take (j - i) (drop i xs) @ take (k - j) (drop (j - i) (drop i xs))"
    by (rule take_add)
  finally show ?thesis using \<open>i \<le> j\<close> by (simp add: seg_def)
qed

lemma drop_seg: "drop n (seg i j xs) = seg (i + n) j xs"
  by (simp add: seg_def drop_take add.commute)

lemma take_seg: "i + n \<le> j \<Longrightarrow> take n (seg i j xs) = seg i (i + n) xs"
  by (simp add: seg_def)

lemma seg_prefix: "j \<le> length xs \<Longrightarrow> seg i j (xs @ ys) = seg i j xs"
  by (cases "i \<le> j") (simp_all add: seg_def)

lemma seg_take: "j \<le> n \<Longrightarrow> seg i j (take n xs) = seg i j xs"
  by (simp add: seg_def drop_take min_def)

lemma vec_write_Inr [simp]:
  "off + length ys \<le> length xs \<Longrightarrow>
   vec_write xs off ys = Inr (take off xs @ ys @ drop (off + length ys) xs)"
  by (simp add: vec_write_def)

lemma seg_written:
  assumes "off + length ys \<le> length xs"
  shows "seg off (off + length ys) (take off xs @ ys @ drop (off + length ys) xs) = ys"
  using assms by (simp add: seg_def)

lemma seg_before_written:
  assumes "j \<le> off" and "off + length ys \<le> length xs"
  shows "seg i j (take off xs @ ys @ drop (off + length ys) xs) = seg i j xs"
proof -
  have "seg i j (take off xs @ ys @ drop (off + length ys) xs) = seg i j (take off xs)"
    using assms by (intro seg_prefix) simp
  also have "\<dots> = seg i j xs"
    using assms(1) by (rule seg_take)
  finally show ?thesis .
qed

subsection \<open>Words\<close>

lemma unat_sub_le [sz_simps]: "(b :: size_t) \<le> a \<Longrightarrow> unat (a - b) = unat a - unat b"
  by (rule unat_sub)

lemma unat_add_lt [sz_simps]:
  "unat a + unat b < 2 ^ 64 \<Longrightarrow> unat (a + b :: size_t) = unat a + unat b"
  by (simp add: unat_add_lem [THEN iffD1])

lemma unat_of_nat_size [sz_simps]: "n < 2 ^ 64 \<Longrightarrow> unat (of_nat n :: size_t) = n"
  by (simp add: unat_of_nat)

lemmas [sz_simps] = word_less_nat_alt word_le_nat_alt

subsection \<open>Decimal numbers\<close>

text \<open>What \<open>std::to_string\<close> and the conversion \<open>%d\<close> print for a number that is not negative.\<close>

definition digit :: "nat \<Rightarrow> char" where
  "digit d = char_of (48 + d)"

fun dec :: "nat \<Rightarrow> string" where
  "dec n = (if n < 10 then [digit n] else dec (n div 10) @ [digit (n mod 10)])"

declare dec.simps [simp del]

definition digits_value :: "string \<Rightarrow> nat" where
  "digits_value ds = foldl (\<lambda>v c. v * 10 + (of_char c - 48)) 0 ds"

lemma of_char_digit: "d < 10 \<Longrightarrow> of_char (digit d) = (48 + d :: nat)"
  by (simp add: digit_def of_char_of)

lemma dec_value [simp]: "digits_value (dec n) = n"
proof (induction n rule: dec.induct)
  case (1 n)
  then show ?case
    by (subst dec.simps) (auto simp: digits_value_def of_char_digit)
qed

lemma dec_inject [simp]: "dec m = dec n \<longleftrightarrow> m = n"
  using dec_value by metis

lemma digit_chars [simp]:
  "digit 0 = CHR ''0''" "digit (Suc 0) = CHR ''1''" "digit 1 = CHR ''1''" "digit 2 = CHR ''2''"
  "digit 3 = CHR ''3''" "digit 4 = CHR ''4''" "digit 5 = CHR ''5''" "digit 6 = CHR ''6''"
  "digit 7 = CHR ''7''" "digit 8 = CHR ''8''" "digit 9 = CHR ''9''"
  by code_simp+

lemma dec_not_Nil [simp]: "dec n \<noteq> []"
  by (subst dec.simps) simp

lemma length_dec: "n < 10 ^ k \<Longrightarrow> 0 < k \<Longrightarrow> length (dec n) \<le> k"
proof (induction n arbitrary: k rule: dec.induct)
  case (1 n)
  show ?case
  proof (cases "n < 10")
    case True
    then show ?thesis using "1.prems" by (subst dec.simps) simp
  next
    case False
    then have k: "k = Suc (k - 1)" "0 < k - 1" using "1.prems" by (cases k; cases "k - 1"; simp)+
    then have "n div 10 < 10 ^ (k - 1)" using "1.prems"(1) by (metis less_mult_imp_div_less power_Suc2)
    then have "length (dec (n div 10)) \<le> k - 1" using "1.IH" [OF False] k(2) by simp
    then show ?thesis using False k by (subst dec.simps) simp
  qed
qed

subsection \<open>Simulation\<close>

text \<open>
  The shape of the refinement proofs: a concrete step relation, an invariant that its steps keep, and an
  abstract relation that follows every concrete step with some number of its own. What the components
  prove of one step then holds of whole runs.
\<close>

locale simulation =
  fixes step :: "'s \<Rightarrow> 's \<Rightarrow> bool"
    and inv :: "'s \<Rightarrow> bool"
    and spec :: "'a \<Rightarrow> 'a \<Rightarrow> bool"
    and abs :: "'s \<Rightarrow> 'a"
  assumes inv_step: "inv s \<Longrightarrow> step s s' \<Longrightarrow> inv s'"
    and spec_step: "inv s \<Longrightarrow> step s s' \<Longrightarrow> spec\<^sup>*\<^sup>* (abs s) (abs s')"
begin

lemma inv_runs: "step\<^sup>*\<^sup>* s s' \<Longrightarrow> inv s \<Longrightarrow> inv s'"
  by (induction rule: rtranclp_induct) (auto intro: inv_step)

lemma spec_runs: "step\<^sup>*\<^sup>* s s' \<Longrightarrow> inv s \<Longrightarrow> spec\<^sup>*\<^sup>* (abs s) (abs s')"
proof (induction rule: rtranclp_induct)
  case (step y z)
  then show ?case using inv_runs spec_step by (meson rtranclp_trans)
qed simp

end

end
