(* ===== verification/Net_Buffer.thy ===== *)
theory Net_Buffer
  imports Prelude
begin

text \<open>
  The growable byte buffer of \<open>include/net/Buffer.h\<close> and \<open>src/net/Buffer.cc\<close>: its storage
  and the two indices as a record, every public operation, and the private \<open>makeSpace\<close>.
  The system calls \<open>readv\<close> and \<open>write\<close> are parameters of \<open>readFd\<close> and \<open>writeFd\<close>.

  The interface that connections rely on is the locale \<open>byte_queue\<close>: a first-in first-out
  queue of bytes. The buffer is an instance of it.
\<close>

section \<open>The data and the operations\<close>

definition kCheapPrepend :: size_t where
  "kCheapPrepend = 8"

definition kInitialSize :: size_t where
  "kInitialSize = 1024"

record Buffer =
  buffer :: "byte list"
  readerIndex :: size_t
  writerIndex :: size_t

definition Buffer_new :: "size_t \<Rightarrow> Buffer result" where
  "Buffer_new initalSize =
     (case vec_resize [] (unat (kCheapPrepend + initalSize)) of
        Inl e \<Rightarrow> Inl e
      | Inr v \<Rightarrow> Inr \<lparr>buffer = v, readerIndex = kCheapPrepend, writerIndex = kCheapPrepend\<rparr>)"

definition Buffer_readableBytes :: "Buffer \<Rightarrow> size_t" where
  "Buffer_readableBytes b = writerIndex b - readerIndex b"

definition Buffer_writableBytes :: "Buffer \<Rightarrow> size_t" where
  "Buffer_writableBytes b = of_nat (length (buffer b)) - writerIndex b"

definition Buffer_prependableBytes :: "Buffer \<Rightarrow> size_t" where
  "Buffer_prependableBytes b = readerIndex b"

text \<open>A pointer into the storage is what it points to: the bytes from there to the end.\<close>

definition Buffer_peek :: "Buffer \<Rightarrow> byte list" where
  "Buffer_peek b = drop (unat (readerIndex b)) (buffer b)"

definition Buffer_retrieveAll :: "Buffer \<Rightarrow> Buffer" where
  "Buffer_retrieveAll b = b\<lparr>readerIndex := kCheapPrepend, writerIndex := kCheapPrepend\<rparr>"

definition Buffer_retrieve :: "Buffer \<Rightarrow> size_t \<Rightarrow> Buffer" where
  "Buffer_retrieve b len =
     (if len < Buffer_readableBytes b
      then b\<lparr>readerIndex := readerIndex b + len\<rparr>
      else Buffer_retrieveAll b)"

definition Buffer_retrieveAsString :: "Buffer \<Rightarrow> size_t \<Rightarrow> (string \<times> Buffer) result" where
  "Buffer_retrieveAsString b len =
     (if unat len \<le> length (Buffer_peek b)
      then Inr (take (unat len) (Buffer_peek b), Buffer_retrieve b len)
      else Inl Out_of_bounds)"

definition Buffer_retrieveAllAsString :: "Buffer \<Rightarrow> (string \<times> Buffer) result" where
  "Buffer_retrieveAllAsString b = Buffer_retrieveAsString b (Buffer_readableBytes b)"

definition Buffer_makeSpace :: "Buffer \<Rightarrow> size_t \<Rightarrow> Buffer result" where
  "Buffer_makeSpace b len =
     (if Buffer_writableBytes b + Buffer_prependableBytes b < len + kCheapPrepend
      then (case vec_resize (buffer b) (unat (writerIndex b + len)) of
              Inl e \<Rightarrow> Inl e
            | Inr v \<Rightarrow> Inr (b\<lparr>buffer := v\<rparr>))
      else (let readable = Buffer_readableBytes b in
            case vec_write (buffer b) (unat kCheapPrepend)
                   (seg (unat (readerIndex b)) (unat (writerIndex b)) (buffer b)) of
              Inl e \<Rightarrow> Inl e
            | Inr v \<Rightarrow> Inr (b\<lparr>buffer := v, readerIndex := kCheapPrepend,
                              writerIndex := kCheapPrepend + readable\<rparr>)))"

definition Buffer_ensureWritableBytes :: "Buffer \<Rightarrow> size_t \<Rightarrow> Buffer result" where
  "Buffer_ensureWritableBytes b len =
     (if Buffer_writableBytes b < len then Buffer_makeSpace b len else Inr b)"

text \<open>The pair of a pointer and a length that \<open>append\<close> takes is the list of those bytes.\<close>

definition Buffer_append :: "Buffer \<Rightarrow> byte list \<Rightarrow> Buffer result" where
  "Buffer_append b data =
     (let len = of_nat (length data) in
      case Buffer_ensureWritableBytes b len of
        Inl e \<Rightarrow> Inl e
      | Inr b' \<Rightarrow>
          (case vec_write (buffer b') (unat (writerIndex b')) data of
             Inl e \<Rightarrow> Inl e
           | Inr v \<Rightarrow> Inr (b'\<lparr>buffer := v, writerIndex := writerIndex b' + len\<rparr>)))"

text \<open>
  \<open>readv\<close> is given the descriptor and the lengths of the io vectors; it answers with the
  error number, or with the bytes it stored (into the first vector, then into the second).
  The result of \<open>readFd\<close> is the returned \<open>ssize_t\<close>, the saved error number if one was
  stored, and the buffer.
\<close>

type_synonym readv_call = "fd \<Rightarrow> size_t list \<Rightarrow> int + byte list"
type_synonym write_call = "fd \<Rightarrow> byte list \<Rightarrow> int + nat"

definition Buffer_readFd :: "readv_call \<Rightarrow> fd \<Rightarrow> Buffer \<Rightarrow> (int \<times> int option \<times> Buffer) result" where
  "Buffer_readFd readv fd b =
     (let writable = Buffer_writableBytes b;
          lens = (if writable < 65536 then [writable, 65536] else [writable]) in
      case readv fd lens of
        Inl err \<Rightarrow> Inr (-1, Some err, b)
      | Inr bytes \<Rightarrow>
          (let n = length bytes in
           case vec_write (buffer b) (unat (writerIndex b)) (take (unat writable) bytes) of
             Inl e \<Rightarrow> Inl e
           | Inr v \<Rightarrow>
               if n \<le> unat writable
               then Inr (int n, None, b\<lparr>buffer := v, writerIndex := writerIndex b + of_nat n\<rparr>)
               else (case Buffer_append (b\<lparr>buffer := v, writerIndex := of_nat (length v)\<rparr>)
                            (drop (unat writable) bytes) of
                       Inl e \<Rightarrow> Inl e
                     | Inr b' \<Rightarrow> Inr (int n, None, b'))))"

definition Buffer_writeFd :: "write_call \<Rightarrow> fd \<Rightarrow> Buffer \<Rightarrow> int \<times> int option" where
  "Buffer_writeFd write fd b =
     (case write fd (take (unat (Buffer_readableBytes b)) (Buffer_peek b)) of
        Inl err \<Rightarrow> (-1, Some err)
      | Inr n \<Rightarrow> (int n, None))"

text \<open>
  What the system calls promise: \<open>readv\<close> stores no more bytes than the vectors hold, and
  \<open>write\<close> reports no more bytes than it was given.
\<close>

definition readv_spec :: "readv_call \<Rightarrow> bool" where
  "readv_spec readv \<longleftrightarrow>
     (\<forall>fd lens bytes. readv fd lens = Inr bytes \<longrightarrow> length bytes \<le> sum_list (map unat lens))"

definition write_spec :: "write_call \<Rightarrow> bool" where
  "write_spec write \<longleftrightarrow> (\<forall>fd bs n. write fd bs = Inr n \<longrightarrow> n \<le> length bs)"

section \<open>Well-formed buffers and their contents\<close>

definition Buffer_wf :: "Buffer \<Rightarrow> bool" where
  "Buffer_wf b \<longleftrightarrow>
     8 \<le> unat (readerIndex b) \<and> unat (readerIndex b) \<le> unat (writerIndex b) \<and>
     unat (writerIndex b) \<le> length (buffer b) \<and> length (buffer b) \<le> vec_max"

definition Buffer_contents :: "Buffer \<Rightarrow> byte list" where
  "Buffer_contents b = seg (unat (readerIndex b)) (unat (writerIndex b)) (buffer b)"

text \<open>The size of the storage once \<open>n\<close> bytes have been made writable: unchanged when they fit
  behind the data or after moving the data to the front, and exactly as long as needed if not.\<close>

definition Buffer_capacity_after :: "Buffer \<Rightarrow> nat \<Rightarrow> nat" where
  "Buffer_capacity_after b n =
     (let size = length (buffer b); w = unat (writerIndex b); r = unat (readerIndex b) in
      if n \<le> size - w \<or> n + 8 \<le> size - w + r then size else w + n)"

definition Buffer_room :: "Buffer \<Rightarrow> nat \<Rightarrow> bool" where
  "Buffer_room b n \<longleftrightarrow> unat (writerIndex b) + n \<le> vec_max"

lemma vec_max_less: "vec_max < 2 ^ 64"
  by (simp add: vec_max_def)

lemma kCheapPrepend_unat [simp]: "unat kCheapPrepend = 8"
  by (simp add: kCheapPrepend_def)

lemma unat_length [sz_simps]: "n \<le> vec_max \<Longrightarrow> unat (of_nat n :: size_t) = n"
  using vec_max_less by (simp add: sz_simps)

lemma unat_add_vec [sz_simps]:
  "unat a + unat b \<le> vec_max \<Longrightarrow> unat (a + b :: size_t) = unat a + unat b"
  using vec_max_less by (intro unat_add_lt) linarith

lemma unat_readableBytes:
  "Buffer_wf b \<Longrightarrow> unat (Buffer_readableBytes b) = unat (writerIndex b) - unat (readerIndex b)"
  by (simp add: Buffer_wf_def Buffer_readableBytes_def sz_simps)

lemma unat_writableBytes:
  "Buffer_wf b \<Longrightarrow> unat (Buffer_writableBytes b) = length (buffer b) - unat (writerIndex b)"
  by (simp add: Buffer_wf_def Buffer_writableBytes_def sz_simps)

lemma length_contents:
  "Buffer_wf b \<Longrightarrow> length (Buffer_contents b) = unat (Buffer_readableBytes b)"
  by (simp add: Buffer_contents_def unat_readableBytes) (auto simp: Buffer_wf_def)

lemma peek_contents:
  "Buffer_wf b \<Longrightarrow> take (unat (Buffer_readableBytes b)) (Buffer_peek b) = Buffer_contents b"
  by (simp add: Buffer_contents_def seg_def Buffer_peek_def unat_readableBytes)

lemma retrieveAll_wf [simp]: "Buffer_wf b \<Longrightarrow> Buffer_wf (Buffer_retrieveAll b)"
  by (simp add: Buffer_wf_def Buffer_retrieveAll_def)

lemma retrieveAll_contents [simp]: "Buffer_contents (Buffer_retrieveAll b) = []"
  by (simp add: Buffer_contents_def Buffer_retrieveAll_def)

lemma retrieve_wf_contents:
  assumes "Buffer_wf b"
  shows "Buffer_wf (Buffer_retrieve b n)"
    and "Buffer_contents (Buffer_retrieve b n) = drop (unat n) (Buffer_contents b)"
proof -
  have idx: "unat (readerIndex b + n) = unat (readerIndex b) + unat n"
    if "n < Buffer_readableBytes b"
    using that assms unat_readableBytes [OF assms] vec_max_less
    by (intro unat_add_lt) (auto simp: Buffer_wf_def word_less_nat_alt)
  show "Buffer_wf (Buffer_retrieve b n)"
  proof (cases "n < Buffer_readableBytes b")
    case True
    then show ?thesis
      using assms unat_readableBytes [OF assms] idx
      by (simp add: Buffer_retrieve_def Buffer_wf_def word_less_nat_alt)
  next
    case False
    with assms show ?thesis by (simp add: Buffer_retrieve_def)
  qed
  show "Buffer_contents (Buffer_retrieve b n) = drop (unat n) (Buffer_contents b)"
  proof (cases "n < Buffer_readableBytes b")
    case True
    with idx show ?thesis
      by (simp add: Buffer_retrieve_def Buffer_contents_def drop_seg)
  next
    case False
    then have "length (Buffer_contents b) \<le> unat n"
      using length_contents [OF assms] by (simp add: word_less_nat_alt)
    with False show ?thesis by (simp add: Buffer_retrieve_def)
  qed
qed

lemma makeSpace_grow:
  assumes "Buffer_wf b" and "Buffer_room b n"
    and small: "length (buffer b) - unat (writerIndex b) < n"
    and tight: "length (buffer b) - unat (writerIndex b) + unat (readerIndex b) < n + 8"
  shows "Buffer_makeSpace b (of_nat n) =
    Inr (b\<lparr>buffer := buffer b @ replicate (unat (writerIndex b) + n - length (buffer b)) (CHR 0x00)\<rparr>)"
proof -
  note wf = assms(1) [unfolded Buffer_wf_def] and room = assms(2) [unfolded Buffer_room_def]
  have n: "unat (of_nat n :: size_t) = n"
    using room by (intro unat_length) linarith
  have sum: "unat (writerIndex b + of_nat n) = unat (writerIndex b) + n"
    using room n by (simp add: sz_simps)
  have lhs: "unat (Buffer_writableBytes b + Buffer_prependableBytes b)
      = length (buffer b) - unat (writerIndex b) + unat (readerIndex b)"
    using wf unat_writableBytes [OF assms(1)]
    by (subst unat_add_vec) (auto simp: Buffer_prependableBytes_def)
  have rhs: "unat (of_nat n + kCheapPrepend) = n + 8"
    using room wf n by (subst unat_add_vec) auto
  have "Buffer_writableBytes b + Buffer_prependableBytes b < of_nat n + kCheapPrepend"
    using tight by (simp add: word_less_nat_alt lhs rhs)
  then show ?thesis
    using wf room small sum by (auto simp: Buffer_makeSpace_def vec_resize_def)
qed

lemma makeSpace_move:
  assumes "Buffer_wf b" and "Buffer_room b n"
    and fits: "n + 8 \<le> length (buffer b) - unat (writerIndex b) + unat (readerIndex b)"
  obtains b' where "Buffer_makeSpace b (of_nat n) = Inr b'"
    and "Buffer_wf b'" and "Buffer_contents b' = Buffer_contents b"
    and "length (buffer b') = length (buffer b)"
    and "unat (writerIndex b') + n \<le> length (buffer b')"
    and "unat (writerIndex b') \<le> unat (writerIndex b)"
proof -
  note wf = assms(1) [unfolded Buffer_wf_def] and room = assms(2) [unfolded Buffer_room_def]
  let ?r = "unat (readerIndex b)" and ?w = "unat (writerIndex b)"
  let ?d = "seg ?r ?w (buffer b)"
  let ?v = "take 8 (buffer b) @ ?d @ drop (8 + length ?d) (buffer b)"
  have n: "unat (of_nat n :: size_t) = n"
    using room by (intro unat_length) linarith
  have d: "length ?d = ?w - ?r" using wf by auto
  have lhs: "unat (Buffer_writableBytes b + Buffer_prependableBytes b)
      = length (buffer b) - ?w + ?r"
    using wf unat_writableBytes [OF assms(1)]
    by (subst unat_add_vec) (auto simp: Buffer_prependableBytes_def)
  have rhs: "unat (of_nat n + kCheapPrepend) = n + 8"
    using room wf n by (subst unat_add_vec) auto
  have guard: "\<not> Buffer_writableBytes b + Buffer_prependableBytes b < of_nat n + kCheapPrepend"
    using fits by (simp add: word_less_nat_alt lhs rhs)
  have w': "unat (kCheapPrepend + Buffer_readableBytes b) = 8 + (?w - ?r)"
    using wf unat_readableBytes [OF assms(1)] by (subst unat_add_vec) auto
  have in_range: "8 + length ?d \<le> length (buffer b)"
    using wf fits unfolding d by linarith
  let ?b = "b\<lparr>buffer := ?v, readerIndex := kCheapPrepend,
              writerIndex := kCheapPrepend + Buffer_readableBytes b\<rparr>"
  have eq: "Buffer_makeSpace b (of_nat n) = Inr ?b"
    using guard in_range by (simp add: Buffer_makeSpace_def Let_def)
  have len: "length (buffer ?b) = length (buffer b)"
    using in_range by simp
  have idx: "unat (writerIndex ?b) = 8 + (?w - ?r)"
    using w' by simp
  have wf': "Buffer_wf ?b"
    unfolding Buffer_wf_def len idx using wf in_range d by auto
  have cont: "Buffer_contents ?b = Buffer_contents b"
    using seg_written [OF in_range] w' d by (simp add: Buffer_contents_def)
  have space: "unat (writerIndex ?b) + n \<le> length (buffer ?b)"
    unfolding len idx using fits wf by linarith
  have before: "unat (writerIndex ?b) \<le> ?w"
    unfolding idx using wf by linarith
  show ?thesis by (rule that [OF eq wf' cont len space before])
qed

lemma ensureWritableBytes_ok:
  assumes "Buffer_wf b" and "Buffer_room b n"
  obtains b' where "Buffer_ensureWritableBytes b (of_nat n) = Inr b'"
    and "Buffer_wf b'" and "Buffer_contents b' = Buffer_contents b"
    and "unat (writerIndex b') + n \<le> length (buffer b')"
    and "unat (writerIndex b') \<le> unat (writerIndex b)"
    and "length (buffer b') = Buffer_capacity_after b n"
proof -
  note wf = assms(1) [unfolded Buffer_wf_def] and room = assms(2) [unfolded Buffer_room_def]
  have n: "unat (of_nat n :: size_t) = n"
    using room by (intro unat_length) linarith
  note less = word_less_nat_alt n unat_writableBytes [OF assms(1)]
  consider (enough) "n \<le> length (buffer b) - unat (writerIndex b)"
    | (grow) "length (buffer b) - unat (writerIndex b) < n"
        "length (buffer b) - unat (writerIndex b) + unat (readerIndex b) < n + 8"
    | (move) "length (buffer b) - unat (writerIndex b) < n"
        "n + 8 \<le> length (buffer b) - unat (writerIndex b) + unat (readerIndex b)"
    by linarith
  then show ?thesis
  proof cases
    case enough
    then show ?thesis
      using assms(1) wf by (intro that [of b]) (auto simp: Buffer_ensureWritableBytes_def less
          Buffer_capacity_after_def Let_def)
  next
    case grow
    let ?b = "b\<lparr>buffer := buffer b @
      replicate (unat (writerIndex b) + n - length (buffer b)) (CHR 0x00)\<rparr>"
    have "Buffer_ensureWritableBytes b (of_nat n) = Inr ?b"
      using grow makeSpace_grow [OF assms grow] by (simp add: Buffer_ensureWritableBytes_def less)
    moreover have "Buffer_contents ?b = Buffer_contents b"
      using wf by (simp add: Buffer_contents_def seg_prefix)
    ultimately show ?thesis
      using wf room grow by (intro that [of ?b]) (auto simp: Buffer_wf_def Buffer_capacity_after_def Let_def)
  next
    case move
    then have "length (buffer b) = Buffer_capacity_after b n"
      by (simp add: Buffer_capacity_after_def Let_def)
    with move makeSpace_move [OF assms move(2)] show ?thesis
      by (metis Buffer_ensureWritableBytes_def less that)
  qed
qed

lemma append_ok:
  assumes "Buffer_wf b" and "Buffer_room b (length bs)"
  obtains b' where "Buffer_append b bs = Inr b'" and "Buffer_wf b'"
    and "Buffer_contents b' = Buffer_contents b @ bs"
    and "unat (writerIndex b') \<le> unat (writerIndex b) + length bs"
    and "length (buffer b') = Buffer_capacity_after b (length bs)"
proof -
  obtain c where c: "Buffer_ensureWritableBytes b (of_nat (length bs)) = Inr c"
      "Buffer_wf c" "Buffer_contents c = Buffer_contents b"
      "unat (writerIndex c) + length bs \<le> length (buffer c)"
      "unat (writerIndex c) \<le> unat (writerIndex b)"
      "length (buffer c) = Buffer_capacity_after b (length bs)"
    using ensureWritableBytes_ok [OF assms] by metis
  note wf = c(2) [unfolded Buffer_wf_def]
  let ?w = "unat (writerIndex c)"
  let ?v = "take ?w (buffer c) @ bs @ drop (?w + length bs) (buffer c)"
  let ?b = "c\<lparr>buffer := ?v, writerIndex := writerIndex c + of_nat (length bs)\<rparr>"
  have w: "unat (writerIndex c + of_nat (length bs)) = ?w + length bs"
    using c(4) wf by (subst unat_add_vec) (simp_all add: sz_simps)
  have len: "length ?v = length (buffer c)" using c(4) by simp
  have "Buffer_append b bs = Inr ?b"
    using c(1,4) by (simp add: Buffer_append_def Let_def)
  moreover have "Buffer_wf ?b"
    using wf w len c(4) unfolding Buffer_wf_def by simp
  moreover have "Buffer_contents ?b = Buffer_contents b @ bs"
  proof -
    have "Buffer_contents ?b
        = seg (unat (readerIndex c)) ?w ?v @ seg ?w (?w + length bs) ?v"
      using wf by (simp add: Buffer_contents_def w seg_append_adjacent)
    also have "\<dots> = Buffer_contents c @ bs"
      using c(4) by (simp only: seg_before_written [OF le_refl c(4)] seg_written [OF c(4)]
          Buffer_contents_def)
    finally show ?thesis using c(3) by simp
  qed
  moreover have "length (buffer ?b) = Buffer_capacity_after b (length bs)"
    using len c(6) by simp
  ultimately show ?thesis using w c(5) by (intro that [of ?b]) simp_all
qed

section \<open>The queue interface\<close>

text \<open>
  What a connection relies on: bytes leave in the order in which they entered, every operation
  keeps the invariant, and an append succeeds while there is room.
\<close>

datatype queue_op = Append "byte list" | Retrieve size_t

fun op_bytes :: "queue_op \<Rightarrow> nat" where
  "op_bytes (Append bs) = length bs"
| "op_bytes (Retrieve _) = 0"

fun queue_spec :: "byte list \<Rightarrow> queue_op list \<Rightarrow> byte list" where
  "queue_spec q [] = q"
| "queue_spec q (Append bs # ops) = queue_spec (q @ bs) ops"
| "queue_spec q (Retrieve n # ops) = queue_spec (drop (unat n) q) ops"

fun queue_run ::
  "('b \<Rightarrow> byte list \<Rightarrow> 'b result) \<Rightarrow> ('b \<Rightarrow> size_t \<Rightarrow> 'b) \<Rightarrow> 'b \<Rightarrow> queue_op list \<Rightarrow> 'b result" where
  "queue_run app ret b [] = Inr b"
| "queue_run app ret b (Append bs # ops) =
     (case app b bs of Inl e \<Rightarrow> Inl e | Inr b' \<Rightarrow> queue_run app ret b' ops)"
| "queue_run app ret b (Retrieve n # ops) = queue_run app ret (ret b n) ops"

locale byte_queue =
  fixes invar :: "'b \<Rightarrow> bool"
    and contents :: "'b \<Rightarrow> byte list"
    and room :: "'b \<Rightarrow> nat \<Rightarrow> bool"
    and app :: "'b \<Rightarrow> byte list \<Rightarrow> 'b result"
    and ret :: "'b \<Rightarrow> size_t \<Rightarrow> 'b"
  assumes app_ok: "invar b \<Longrightarrow> room b (length bs + k) \<Longrightarrow>
      \<exists>b'. app b bs = Inr b' \<and> invar b' \<and> contents b' = contents b @ bs \<and> room b' k"
    and ret_invar: "invar b \<Longrightarrow> invar (ret b n)"
    and ret_contents: "invar b \<Longrightarrow> contents (ret b n) = drop (unat n) (contents b)"
    and ret_room: "invar b \<Longrightarrow> room b k \<Longrightarrow> room (ret b n) k"
begin

lemma app_run:
  "invar b \<Longrightarrow> room b (length bs) \<Longrightarrow>
     \<exists>b'. app b bs = Inr b' \<and> invar b' \<and> contents b' = contents b @ bs"
  using app_ok [of b bs 0] by auto

lemma run_refines:
  assumes "invar b" and "room b (sum_list (map op_bytes ops) + k)"
  shows "\<exists>b'. queue_run app ret b ops = Inr b' \<and> invar b' \<and>
     contents b' = queue_spec (contents b) ops \<and> room b' k"
  using assms
proof (induction ops arbitrary: b)
  case Nil
  then show ?case by simp
next
  case (Cons op ops)
  show ?case
  proof (cases op)
    case (Append bs)
    with Cons.prems have "room b (length bs + (sum_list (map op_bytes ops) + k))"
      by (simp add: add.assoc)
    from app_ok [OF Cons.prems(1) this] obtain b' where b': "app b bs = Inr b'" "invar b'"
        "contents b' = contents b @ bs" "room b' (sum_list (map op_bytes ops) + k)"
      by auto
    from Cons.IH [OF b'(2,4)] b' Append show ?thesis by simp
  next
    case (Retrieve n)
    with Cons.prems have "room (ret b n) (sum_list (map op_bytes ops) + k)"
      by (simp add: ret_room)
    from Cons.IH [OF ret_invar [OF Cons.prems(1)] this] Retrieve show ?thesis
      by (simp add: ret_contents [OF Cons.prems(1)])
  qed
qed

end

interpretation bq: byte_queue Buffer_wf Buffer_contents Buffer_room Buffer_append Buffer_retrieve
proof unfold_locales
  fix b and bs :: "byte list" and k
  assume b: "Buffer_wf b" "Buffer_room b (length bs + k)"
  then have "Buffer_room b (length bs)" by (simp add: Buffer_room_def)
  from append_ok [OF b(1) this] obtain b' where "Buffer_append b bs = Inr b'" "Buffer_wf b'"
      "Buffer_contents b' = Buffer_contents b @ bs"
      "unat (writerIndex b') \<le> unat (writerIndex b) + length bs"
    by metis
  with b(2) show "\<exists>b'. Buffer_append b bs = Inr b' \<and> Buffer_wf b' \<and>
      Buffer_contents b' = Buffer_contents b @ bs \<and> Buffer_room b' k"
    by (auto simp: Buffer_room_def)
next
  fix b k n
  assume "Buffer_wf b" "Buffer_room b k"
  then show "Buffer_room (Buffer_retrieve b n) k"
    by (auto simp: Buffer_room_def Buffer_wf_def Buffer_retrieve_def Buffer_retrieveAll_def)
qed (simp_all add: retrieve_wf_contents)

section \<open>Properties\<close>

lemma example_buffer_wf:
  "Buffer_wf \<lparr>buffer = replicate 12 (CHR 0x00), readerIndex = 8, writerIndex = 8\<rparr>"
  by (simp add: Buffer_wf_def vec_max_def)

lemma Buffer_new_wf:
  assumes "unat n + 8 \<le> vec_max"
  obtains b where "Buffer_new n = Inr b" and "Buffer_wf b" and "Buffer_contents b = []"
proof -
  have "unat (kCheapPrepend + n) = 8 + unat n"
    using assms by (subst unat_add_vec) simp_all
  with assms that show ?thesis
    by (simp add: Buffer_new_def vec_resize_def Buffer_wf_def Buffer_contents_def)
qed

text \<open>
  C10. Refinement of the buffer to a byte queue: from a well-formed buffer, every sequence of
  \<open>append\<close> and \<open>retrieve\<close> calls whose appended bytes fit below \<open>max_size\<close> runs without
  exception and without leaving the storage, keeps the index invariant, and leaves as readable
  bytes exactly what the same operations leave in a first-in first-out queue.
\<close>

theorem Buffer_refines_queue:
  assumes "Buffer_wf b"
    and "unat (writerIndex b) + sum_list (map op_bytes ops) \<le> vec_max"
  shows "\<exists>b'. queue_run Buffer_append Buffer_retrieve b ops = Inr b' \<and> Buffer_wf b' \<and>
     Buffer_contents b' = queue_spec (Buffer_contents b) ops"
proof -
  have "Buffer_room b (sum_list (map op_bytes ops) + 0)"
    using assms(2) by (simp add: Buffer_room_def)
  from bq.run_refines [OF assms(1) this] show ?thesis by blast
qed

theorem Buffer_refines_queue_witness:
  "\<exists>b'. queue_run Buffer_append Buffer_retrieve
      \<lparr>buffer = replicate 12 (CHR 0x00), readerIndex = 8, writerIndex = 8\<rparr>
      [Append ''abc'', Retrieve 2, Append ''defg''] = Inr b' \<and> Buffer_contents b' = ''cdefg''"
  using Buffer_refines_queue [OF example_buffer_wf, of "[Append ''abc'', Retrieve 2, Append ''defg'']"]
  by (auto simp: vec_max_def Buffer_contents_def)

text \<open>The bytes that \<open>readv\<close> put into the writable part, seen as contents of the buffer.\<close>

lemma readFd_stored:
  fixes b bytes
  assumes "Buffer_wf b"
  defines "w \<equiv> unat (writerIndex b)" and "first \<equiv> take (unat (Buffer_writableBytes b)) bytes"
  defines "v \<equiv> take w (buffer b) @ first @ drop (w + length first) (buffer b)"
  shows "w + length first \<le> length (buffer b)"
    and "seg (unat (readerIndex b)) (w + length first) v = Buffer_contents b @ first"
proof -
  note wf = assms(1) [unfolded Buffer_wf_def]
  show fits: "w + length first \<le> length (buffer b)"
    using wf unat_writableBytes [OF assms(1)] by (auto simp: w_def first_def)
  have "seg (unat (readerIndex b)) (w + length first) v
      = seg (unat (readerIndex b)) w v @ seg w (w + length first) v"
    using wf by (simp add: seg_append_adjacent w_def)
  then show "seg (unat (readerIndex b)) (w + length first) v = Buffer_contents b @ first"
    by (simp only: v_def seg_before_written [OF le_refl fits] seg_written [OF fits])
      (simp add: Buffer_contents_def w_def)
qed

lemma readFd_inside:
  assumes wf: "Buffer_wf b" and le: "length bytes \<le> unat (Buffer_writableBytes b)"
    and rd: "readv fd (if Buffer_writableBytes b < 65536 then [Buffer_writableBytes b, 65536]
               else [Buffer_writableBytes b]) = Inr bytes"
  shows "\<exists>b'. Buffer_readFd readv fd b = Inr (int (length bytes), None, b') \<and>
     Buffer_wf b' \<and> Buffer_contents b' = Buffer_contents b @ bytes"
proof -
  let ?w = "unat (writerIndex b)"
  let ?v = "take ?w (buffer b) @ bytes @ drop (?w + length bytes) (buffer b)"
  let ?b = "b\<lparr>buffer := ?v, writerIndex := writerIndex b + of_nat (length bytes)\<rparr>"
  have st: "?w + length bytes \<le> length (buffer b)"
      "seg (unat (readerIndex b)) (?w + length bytes) ?v = Buffer_contents b @ bytes"
    using readFd_stored [OF wf, of bytes] le by simp_all
  have w': "unat (writerIndex b + of_nat (length bytes)) = ?w + length bytes"
    using wf [unfolded Buffer_wf_def] st(1) by (subst unat_add_vec) (simp_all add: sz_simps)
  have "Buffer_readFd readv fd b = Inr (int (length bytes), None, ?b)"
    using rd le st(1) by (simp add: Buffer_readFd_def Let_def)
  moreover have "Buffer_wf ?b" using wf w' st(1) by (simp add: Buffer_wf_def)
  moreover have "Buffer_contents ?b = Buffer_contents b @ bytes"
    using st(2) w' by (simp add: Buffer_contents_def)
  ultimately show ?thesis by auto
qed

lemma readFd_spill:
  assumes wf: "Buffer_wf b" and gt: "unat (Buffer_writableBytes b) < length bytes"
    and rd: "readv fd (if Buffer_writableBytes b < 65536 then [Buffer_writableBytes b, 65536]
               else [Buffer_writableBytes b]) = Inr bytes"
    and snd: "length bytes - unat (Buffer_writableBytes b) \<le> 65536"
    and room: "length (buffer b) + 65536 \<le> vec_max"
  shows "\<exists>b'. Buffer_readFd readv fd b = Inr (int (length bytes), None, b') \<and>
     Buffer_wf b' \<and> Buffer_contents b' = Buffer_contents b @ bytes"
proof -
  let ?wr = "unat (Buffer_writableBytes b)" and ?w = "unat (writerIndex b)"
  let ?fst = "take ?wr bytes" and ?snd = "drop ?wr bytes"
  define v where "v = take ?w (buffer b) @ ?fst @ drop (?w + length ?fst) (buffer b)"
  let ?b = "b\<lparr>buffer := v, writerIndex := of_nat (length v)\<rparr>"
  note st = readFd_stored [OF wf, of bytes, folded v_def]
  have full: "?w + length ?fst = length (buffer b)"
    using wf gt unat_writableBytes [OF wf] by (simp add: Buffer_wf_def)
  have len: "length v = length (buffer b)" using st(1) by (simp add: v_def)
  have w': "unat (of_nat (length v) :: size_t) = length (buffer b)"
    using len wf by (simp add: sz_simps Buffer_wf_def)
  have b: "Buffer_wf ?b" "Buffer_contents ?b = Buffer_contents b @ ?fst"
    using wf w' len st(2) full by (auto simp add: Buffer_wf_def Buffer_contents_def)
  have "Buffer_room ?b (length ?snd)" using w' snd room by (simp add: Buffer_room_def)
  from bq.app_run [OF b(1) this] obtain b' where b': "Buffer_append ?b ?snd = Inr b'"
      "Buffer_wf b'" "Buffer_contents b' = (Buffer_contents b @ ?fst) @ ?snd"
    using b(2) by auto
  have "Buffer_readFd readv fd b = Inr (int (length bytes), None, b')"
    using rd gt st(1) b'(1) [unfolded v_def] by (simp add: Buffer_readFd_def Let_def)
  with b'(2,3) show ?thesis by simp
qed

lemma readFd_spec:
  assumes wf: "Buffer_wf b" and rv: "readv_spec readv" and room: "length (buffer b) + 65536 \<le> vec_max"
  defines "lens \<equiv> (if Buffer_writableBytes b < 65536 then [Buffer_writableBytes b, 65536]
                    else [Buffer_writableBytes b])"
  shows "(case readv fd lens of
            Inl err \<Rightarrow> Buffer_readFd readv fd b = Inr (-1, Some err, b)
          | Inr bytes \<Rightarrow> \<exists>b'. Buffer_readFd readv fd b = Inr (int (length bytes), None, b') \<and>
              Buffer_wf b' \<and> Buffer_contents b' = Buffer_contents b @ bytes)"
proof (cases "readv fd lens")
  case (Inl err)
  then show ?thesis by (simp add: Buffer_readFd_def lens_def Let_def)
next
  case (Inr bytes)
  note rd = Inr [unfolded lens_def]
  have total: "length bytes \<le> sum_list (map unat lens)"
    using rv Inr by (simp add: readv_spec_def)
  show ?thesis
  proof (cases "length bytes \<le> unat (Buffer_writableBytes b)")
    case True
    from readFd_inside [OF wf this, of readv fd] rd Inr show ?thesis by simp
  next
    case False
    then have "length bytes - unat (Buffer_writableBytes b) \<le> 65536"
      using total by (auto simp: lens_def split: if_splits)
    with readFd_spill [OF wf, of bytes readv fd] False rd room Inr show ?thesis by simp
  qed
qed

lemma readFd_wf:
  assumes "Buffer_wf b" and "readv_spec readv" and "length (buffer b) + 65536 \<le> vec_max"
  shows "\<exists>n se b'. Buffer_readFd readv fd b = Inr (n, se, b') \<and> Buffer_wf b'"
  using readFd_spec [OF assms, of fd] assms(1) by (auto split: sum.splits)

text \<open>
  C28. \<open>readFd\<close> stores what arrived, on every branch: with a \<open>readv\<close> that respects its
  vectors, a read of \<open>n\<close> bytes returns \<open>n\<close> and appends exactly these bytes, whether they
  fit in the writable part or spill over into the stack buffer; an error returns -1, saves the
  error number and changes nothing.
\<close>

theorem Buffer_readFd_appends:
  assumes "Buffer_wf b" and "readv_spec readv"
    and "length (buffer b) + 65536 \<le> vec_max"
  defines "lens \<equiv> (if Buffer_writableBytes b < 65536 then [Buffer_writableBytes b, 65536]
                    else [Buffer_writableBytes b])"
  shows "(case readv fd lens of
            Inl err \<Rightarrow> Buffer_readFd readv fd b = Inr (-1, Some err, b)
          | Inr bytes \<Rightarrow> \<exists>b'. Buffer_readFd readv fd b = Inr (int (length bytes), None, b') \<and>
              Buffer_wf b' \<and> Buffer_contents b' = Buffer_contents b @ bytes)"
  using readFd_spec [OF assms(1-3)] unfolding lens_def .

theorem Buffer_readFd_appends_witness:
  "\<exists>b'. Buffer_readFd (\<lambda>fd lens. Inr ''hello'') 7
       \<lparr>buffer = replicate 12 (CHR 0x00), readerIndex = 8, writerIndex = 8\<rparr>
       = Inr (5, None, b') \<and> Buffer_contents b' = ''hello''"
proof -
  let ?b = "\<lparr>buffer = replicate 12 (CHR 0x00), readerIndex = 8, writerIndex = 8\<rparr> :: Buffer"
  let ?rv = "\<lambda>fd lens. if 5 \<le> sum_list (map unat lens) then Inr ''hello'' else Inl (11 :: int)"
  have wr: "Buffer_writableBytes ?b = 4" by (simp add: Buffer_writableBytes_def)
  have "readv_spec ?rv" by (simp add: readv_spec_def)
  from Buffer_readFd_appends [OF example_buffer_wf this, where fd = 7]
  obtain b' where "Buffer_readFd ?rv 7 ?b = Inr (5, None, b')" "Buffer_contents b' = ''hello''"
    by (auto simp: wr vec_max_def Buffer_contents_def)
  moreover have "Buffer_readFd ?rv 7 ?b = Buffer_readFd (\<lambda>fd lens. Inr ''hello'') 7 ?b"
    by (simp add: Buffer_readFd_def wr)
  ultimately show ?thesis by auto
qed

lemma retrieveAllAsString_ok:
  assumes wf: "Buffer_wf b"
  shows "\<exists>b'. Buffer_retrieveAllAsString b = Inr (Buffer_contents b, b') \<and> Buffer_wf b' \<and> Buffer_contents b' = [] \<and>
     buffer b' = buffer b"
proof -
  have "unat (Buffer_readableBytes b) \<le> length (Buffer_peek b)"
    using wf unat_readableBytes [OF wf] by (auto simp: Buffer_peek_def Buffer_wf_def)
  then have "Buffer_retrieveAllAsString b = Inr (Buffer_contents b, Buffer_retrieveAll b)"
    using wf peek_contents
    by (simp add: Buffer_retrieveAllAsString_def Buffer_retrieveAsString_def Buffer_retrieve_def)
  moreover have "Buffer_wf (Buffer_retrieveAll b)" by (rule retrieveAll_wf [OF wf])
  ultimately show ?thesis by (simp add: Buffer_retrieveAll_def Buffer_contents_def)
qed

text \<open>
  Round trip: what is appended to a well-formed buffer comes back, after what was already
  there, from \<open>retrieveAllAsString\<close>, which leaves the buffer empty, well-formed, and with the
  storage size that \<open>append\<close> needed: unchanged if the bytes fit behind the data or after
  moving the data to the front, and exactly \<open>writerIndex + len\<close> otherwise.
\<close>

theorem Buffer_append_roundtrip:
  assumes "Buffer_wf b" and "unat (writerIndex b) + length bs \<le> vec_max"
  shows "\<exists>b' b''. Buffer_append b bs = Inr b' \<and>
     Buffer_retrieveAllAsString b' = Inr (Buffer_contents b @ bs, b'') \<and>
     Buffer_wf b'' \<and> Buffer_contents b'' = [] \<and>
     length (buffer b'') = Buffer_capacity_after b (length bs)"
proof -
  have "Buffer_room b (length bs)" using assms(2) by (simp add: Buffer_room_def)
  from append_ok [OF assms(1) this] obtain b' where b': "Buffer_append b bs = Inr b'"
      "Buffer_wf b'" "Buffer_contents b' = Buffer_contents b @ bs"
      "length (buffer b') = Buffer_capacity_after b (length bs)"
    by metis
  obtain b'' where "Buffer_retrieveAllAsString b' = Inr (Buffer_contents b', b'')" "Buffer_wf b''" "Buffer_contents b'' = []"
      "buffer b'' = buffer b'"
    using retrieveAllAsString_ok [OF b'(2)] by blast
  with b' show ?thesis by auto
qed

theorem Buffer_append_roundtrip_witness:
  "\<exists>b' b''. Buffer_append \<lparr>buffer = replicate 12 (CHR 0x00), readerIndex = 8, writerIndex = 8\<rparr>
       ''hello'' = Inr b' \<and> Buffer_retrieveAllAsString b' = Inr (''hello'', b'') \<and>
     length (buffer b'') = 13"
  using Buffer_append_roundtrip [OF example_buffer_wf, of "''hello''"]
  by (auto simp: vec_max_def Buffer_contents_def Buffer_capacity_after_def)

end
