(* ===== verification/Mem_Heap.thy ===== *)
theory Mem_Heap
  imports Prelude
begin

text \<open>
  The memory that the pool manages, as its code sees it: pointer-sized cells at addresses,
  with the free lists threaded through the first cell of each free block. Address 0 is
  \<open>nullptr\<close>; an address outside the domain of the heap is not mapped, and touching it is a
  fault (\<open>None\<close>). \<open>path\<close> and \<open>chain\<close> describe the linked lists that live in the heap.
\<close>

type_synonym addr = nat
type_synonym heap = "addr \<rightharpoonup> addr"

definition load :: "heap \<Rightarrow> addr \<Rightarrow> addr option" where
  "load h a = h a"

definition store :: "heap \<Rightarrow> addr \<Rightarrow> addr \<Rightarrow> heap option" where
  "store h a v = (case h a of None \<Rightarrow> None | Some _ \<Rightarrow> Some (h(a \<mapsto> v)))"

text \<open>\<open>mmap\<close> followed by \<open>memset\<close>: \<open>n\<close> bytes from \<open>a\<close> on become mapped and zero.\<close>

definition map_zero :: "heap \<Rightarrow> addr \<Rightarrow> nat \<Rightarrow> heap" where
  "map_zero h a n = (\<lambda>x. if a \<le> x \<and> x < a + n then Some 0 else h x)"

primrec path :: "heap \<Rightarrow> addr \<Rightarrow> addr list \<Rightarrow> addr \<Rightarrow> bool" where
  "path h p [] q \<longleftrightarrow> p = q"
| "path h p (a # as) q \<longleftrightarrow>
     p = a \<and> a \<noteq> 0 \<and> (case h a of None \<Rightarrow> False | Some r \<Rightarrow> path h r as q)"

abbreviation chain :: "heap \<Rightarrow> addr \<Rightarrow> addr list \<Rightarrow> bool" where
  "chain h p xs \<equiv> path h p xs 0"

lemma store_mapped: "a \<in> dom h \<Longrightarrow> store h a v = Some (h(a \<mapsto> v))"
  by (auto simp: store_def)

lemma path_append: "path h p (xs @ ys) q \<longleftrightarrow> (\<exists>r. path h p xs r \<and> path h r ys q)"
  by (induction xs arbitrary: p) (auto split: option.splits)

lemma path_frame: "\<forall>a \<in> set xs. h a = h' a \<Longrightarrow> path h p xs q = path h' p xs q"
  by (induction xs arbitrary: p) (auto split: option.splits)

lemma path_upd [simp]: "a \<notin> set xs \<Longrightarrow> path (h(a := v)) p xs q = path h p xs q"
  by (rule path_frame) auto

lemma path_mapped: "path h p xs q \<Longrightarrow> set xs \<subseteq> dom h"
  by (induction xs arbitrary: p) (auto split: option.splits)

lemma path_nonnull: "path h p xs q \<Longrightarrow> 0 \<notin> set xs"
  by (induction xs arbitrary: p) (auto split: option.splits)

lemma chain_null [simp]: "chain h 0 xs \<longleftrightarrow> xs = []"
  by (cases xs) auto

lemma chain_Cons_ex: "p \<noteq> 0 \<Longrightarrow> chain h p xs \<Longrightarrow> \<exists>r ys. xs = p # ys \<and> h p = Some r \<and> chain h r ys"
  by (cases xs) (auto split: option.splits)

lemma chain_head_in: "p \<noteq> 0 \<Longrightarrow> chain h p xs \<Longrightarrow> p \<in> set xs"
  by (drule (1) chain_Cons_ex) auto

lemma chain_unique: "chain h p xs \<Longrightarrow> chain h p ys \<Longrightarrow> xs = ys"
proof (induction xs arbitrary: p ys)
  case Nil
  then show ?case by simp
next
  case (Cons a xs)
  then show ?case by (cases ys) (auto split: option.splits)
qed

lemma chain_distinct: "chain h p xs \<Longrightarrow> distinct xs"
proof (induction xs arbitrary: p)
  case Nil
  then show ?case by simp
next
  case (Cons a xs)
  then obtain r where r: "h a = Some r" "chain h r xs" "a \<noteq> 0" by (auto split: option.splits)
  have "a \<notin> set xs"
  proof
    assume "a \<in> set xs"
    then obtain us vs where xs: "xs = us @ a # vs" by (auto dest: split_list)
    then have "chain h a (a # vs)" using r(2) by (auto simp: path_append split: option.splits)
    moreover have "chain h a (a # xs)" using r by simp
    ultimately have "a # vs = a # xs" by (rule chain_unique)
    with xs show False by simp
  qed
  with Cons.IH r(2) show ?case by simp
qed

text \<open>Cutting a list behind one of its elements, and joining two lists.\<close>

lemma chain_cut:
  assumes "chain h p (xs @ a # ys)"
  shows "chain (h(a \<mapsto> 0)) p (xs @ [a])"
    and "\<exists>r. h a = Some r \<and> chain h r ys \<and> chain (h(a \<mapsto> 0)) r ys"
proof -
  have d: "distinct (xs @ a # ys)" using assms by (rule chain_distinct)
  then have "a \<notin> set xs" "a \<notin> set ys" by auto
  moreover obtain r where "path h p xs a" "a \<noteq> 0" "h a = Some r" "chain h r ys"
    using assms by (auto simp: path_append split: option.splits)
  ultimately show "chain (h(a \<mapsto> 0)) p (xs @ [a])"
    "\<exists>r. h a = Some r \<and> chain h r ys \<and> chain (h(a \<mapsto> 0)) r ys"
    by (auto simp: path_append)
qed

lemma chain_join:
  assumes "chain h p (xs @ a # zs)" and "chain h q ys" and "a \<notin> set ys"
  shows "chain (h(a \<mapsto> q)) p (xs @ a # ys)"
proof -
  have "a \<notin> set xs" using chain_distinct [OF assms(1)] by auto
  moreover have "path h p xs a" "a \<noteq> 0"
    using assms(1) by (auto simp: path_append split: option.splits)
  ultimately show ?thesis using assms(2,3) by (auto simp: path_append)
qed

text \<open>A row of blocks of equal size, linked one to the next.\<close>

definition row :: "addr \<Rightarrow> nat \<Rightarrow> nat \<Rightarrow> nat \<Rightarrow> addr list" where
  "row start sz i j = map (\<lambda>k. start + k * sz) [i..<j]"

lemma set_row: "set (row start sz i j) = (\<lambda>k. start + k * sz) ` {i..<j}"
  by (simp add: row_def)

lemma row_empty [simp]: "j \<le> i \<Longrightarrow> row start sz i j = []"
  by (simp add: row_def)

lemma row_Cons: "i < j \<Longrightarrow> row start sz i j = (start + i * sz) # row start sz (Suc i) j"
  by (simp add: row_def upt_conv_Cons)

lemma row_snoc: "i \<le> j \<Longrightarrow> row start sz i (Suc j) = row start sz i j @ [start + j * sz]"
  by (simp add: row_def)

lemma path_row:
  assumes "0 < start" and "i \<le> j"
    and "\<forall>k. i \<le> k \<and> k < j \<longrightarrow> h (start + k * sz) = Some (start + (k + 1) * sz)"
  shows "path h (start + i * sz) (row start sz i j) (start + j * sz)"
  using assms(2,3)
proof (induction "j - i" arbitrary: i)
  case 0
  then show ?case by simp
next
  case (Suc n)
  then have "i < j" by simp
  moreover have "path h (start + Suc i * sz) (row start sz (Suc i) j) (start + j * sz)"
    using Suc by (intro Suc.hyps(1)) auto
  ultimately show ?case using Suc.prems assms(1) by (simp add: row_Cons)
qed

lemma chain_row:
  assumes "0 < start" and "i < j"
    and "\<forall>k. i \<le> k \<and> k + 1 < j \<longrightarrow> h (start + k * sz) = Some (start + (k + 1) * sz)"
    and "h (start + (j - 1) * sz) = Some 0"
  shows "chain h (start + i * sz) (row start sz i j)"
proof -
  have "row start sz i j = row start sz i (j - 1) @ [start + (j - 1) * sz]"
    using row_snoc [of i "j - 1"] assms(2) by simp
  moreover have "path h (start + i * sz) (row start sz i (j - 1)) (start + (j - 1) * sz)"
    using assms by (intro path_row) auto
  ultimately show ?thesis using assms(1,4) by (simp add: path_append)
qed

end
