(* ===== verification/Mem_SizeClass.thy ===== *)
theory Mem_SizeClass
  imports Prelude
begin

unbundle bit_operations_syntax

text \<open>
  The constants and the size classes of the memory pool (\<open>include/memory/Common.h\<close>) and the
  batch size of the thread cache (\<open>ThreadCache::getBatchNum\<close>). Sizes are 64-bit words, the
  rounding is the bit mask of the source.
\<close>

definition ALIGNMENT :: size_t where
  "ALIGNMENT = 8"

definition MAX_BYTES :: size_t where
  "MAX_BYTES = 256 * 1024"

definition FREE_LIST_SIZE :: size_t where
  "FREE_LIST_SIZE = MAX_BYTES div ALIGNMENT"

definition SizeClass_roundUp :: "size_t \<Rightarrow> size_t" where
  "SizeClass_roundUp bytes = (bytes + ALIGNMENT - 1) AND NOT (ALIGNMENT - 1)"

definition SizeClass_getIndex :: "size_t \<Rightarrow> size_t" where
  "SizeClass_getIndex bytes =
     (let bytes = max bytes ALIGNMENT in (bytes + ALIGNMENT - 1) div ALIGNMENT - 1)"

text \<open>
  \<open>getBatchNum\<close>. The lower bound is written as \<open>sizeof(1)\<close>, the size of an \<open>int\<close>, which is 4.
\<close>

definition sizeof_int :: size_t where
  "sizeof_int = 4"

definition ThreadCache_getBatchNum :: "size_t \<Rightarrow> size_t" where
  "ThreadCache_getBatchNum sz =
     (let MAX_BATCH_SIZE = 4 * 1024;
          baseNum = (if sz \<le> 32 then 64
                     else if sz \<le> 64 then 32
                     else if sz \<le> 128 then 16
                     else if sz \<le> 256 then 8
                     else if sz \<le> 512 then 4
                     else if sz \<le> 1024 then 2
                     else 1);
          maxNum = max 1 (MAX_BATCH_SIZE div sz)
      in max sizeof_int (min maxNum baseNum))"

section \<open>Facts\<close>

lemma size_consts [simp]:
  "unat ALIGNMENT = 8" "unat MAX_BYTES = 262144" "unat FREE_LIST_SIZE = 32768"
  by (simp_all add: ALIGNMENT_def MAX_BYTES_def FREE_LIST_SIZE_def)

lemma mask3: "NOT (ALIGNMENT - 1) = NOT (mask 3)"
  by (simp add: ALIGNMENT_def mask_eq_exp_minus_1)

lemma unat_and_not_mask3: "unat ((x :: size_t) AND NOT (mask 3)) = unat x div 8 * 8"
proof -
  have "x - take_bit 3 x = x AND NOT (take_bit 3 x)"
    by (rule disjunctive_diff) (simp add: bit_take_bit_iff)
  also have "\<dots> = x AND NOT (mask 3)"
    by (rule bit_word_eqI) (auto simp: bit_simps)
  finally have "x AND NOT (mask 3) = x - take_bit 3 x" by simp
  moreover have "take_bit 3 x \<le> x"
    by (simp add: word_le_nat_alt unsigned_take_bit_eq)
  ultimately have "unat (x AND NOT (mask 3)) = unat x - unat (take_bit 3 x)"
    by (simp add: unat_sub)
  then show ?thesis
    by (simp add: take_bit_eq_mod unat_mod minus_mod_eq_div_mult)
qed

lemma unat_plus_ALIGNMENT:
  "unat b + 8 \<le> 2 ^ 64 \<Longrightarrow> unat (b + ALIGNMENT - 1) = unat b + 7"
proof -
  assume a: "unat b + 8 \<le> 2 ^ 64"
  have "b + ALIGNMENT - 1 = b + 7" by (simp add: ALIGNMENT_def)
  moreover have "unat (b + 7) = unat b + 7"
    using a by (subst unat_add_lt) simp_all
  ultimately show ?thesis by (simp only:)
qed

lemma unat_roundUp:
  "unat b + 8 \<le> 2 ^ 64 \<Longrightarrow> unat (SizeClass_roundUp b) = (unat b + 7) div 8 * 8"
  by (simp add: SizeClass_roundUp_def mask3 unat_and_not_mask3 unat_plus_ALIGNMENT)

lemma unat_getIndex:
  assumes "b \<le> MAX_BYTES"
  shows "unat (SizeClass_getIndex b) = (max (unat b) 8 + 7) div 8 - 1"
proof -
  let ?b = "max b ALIGNMENT"
  have b: "unat ?b = max (unat b) 8"
    by (auto simp: max_def word_le_nat_alt)
  have le: "unat ?b \<le> 262144"
    using assms b by (simp add: word_le_nat_alt)
  have q: "unat ((?b + ALIGNMENT - 1) div ALIGNMENT) = (max (unat b) 8 + 7) div 8"
    using le b by (simp add: unat_div unat_plus_ALIGNMENT)
  moreover have "(1 :: size_t) \<le> (?b + ALIGNMENT - 1) div ALIGNMENT"
    using b by (simp add: word_le_nat_alt q div_greater_zero_iff)
  ultimately show ?thesis
    by (simp add: SizeClass_getIndex_def Let_def unat_sub)
qed

text \<open>The size in bytes of the blocks of class \<open>i\<close>.\<close>

definition class_bytes :: "nat \<Rightarrow> nat" where
  "class_bytes i = (i + 1) * 8"

lemma getIndex_less: "b \<le> MAX_BYTES \<Longrightarrow> unat (SizeClass_getIndex b) < 32768"
  by (simp add: unat_getIndex word_le_nat_alt)

lemma class_bytes_getIndex:
  assumes "b \<le> MAX_BYTES"
  shows "class_bytes (unat (SizeClass_getIndex b)) = (max (unat b) 8 + 7) div 8 * 8"
proof -
  have "1 \<le> (max (unat b) 8 + 7) div 8" by simp
  then show ?thesis
    by (simp add: class_bytes_def unat_getIndex [OF assms] algebra_simps)
qed

lemma getIndex_fits:
  assumes "b \<le> MAX_BYTES"
  shows "unat b \<le> class_bytes (unat (SizeClass_getIndex b))"
    and "class_bytes (unat (SizeClass_getIndex b)) < max (unat b) 1 + 8"
  unfolding class_bytes_getIndex [OF assms] by (cases "unat b \<le> 8"; simp add: max_def)+

lemma getBatchNum_bounds:
  "4 \<le> unat (ThreadCache_getBatchNum sz)" "unat (ThreadCache_getBatchNum sz) \<le> 64"
  by (auto simp: ThreadCache_getBatchNum_def Let_def sizeof_int_def max_def min_def word_le_nat_alt)

section \<open>Properties\<close>

text \<open>
  C29. The size classes are sound for every request the pool serves (up to \<open>MAX_BYTES\<close>): the
  index stays inside the free-list arrays, and the blocks of that class hold the request. For a request of at least one byte they waste
  less than one alignment unit, and \<open>roundUp\<close> yields that same block size, with no wrap-around. A request of no bytes is
  the exception: it gets a block of the first class, of 8 bytes, while \<open>roundUp\<close> yields 0 (which \<open>returnToCentralCache\<close> relies on
  wrongly, as \<open>Mem_ThreadCache\<close> shows).
\<close>

theorem SizeClass_sound:
  assumes "bytes \<le> MAX_BYTES"
  shows "SizeClass_getIndex bytes < FREE_LIST_SIZE \<and>
     unat bytes \<le> class_bytes (unat (SizeClass_getIndex bytes)) \<and>
     (bytes \<noteq> 0 \<longrightarrow> class_bytes (unat (SizeClass_getIndex bytes)) < unat bytes + 8 \<and>
        unat (SizeClass_roundUp bytes) = class_bytes (unat (SizeClass_getIndex bytes))) \<and>
     (bytes = 0 \<longrightarrow> SizeClass_getIndex bytes = 0 \<and> class_bytes (unat (SizeClass_getIndex bytes)) = 8 \<and> SizeClass_roundUp bytes = 0)"
proof -
  have "unat bytes + 8 \<le> 2 ^ 64"
    using assms by (simp add: word_le_nat_alt)
  then have up: "unat (SizeClass_roundUp bytes) = (unat bytes + 7) div 8 * 8"
    by (rule unat_roundUp)
  have "unat (SizeClass_roundUp bytes) = class_bytes (unat (SizeClass_getIndex bytes))"
    if "bytes \<noteq> 0"
  proof -
    have "0 < unat bytes" using that by (simp add: unat_gt_0)
    then have "(unat bytes + 7) div 8 = (max (unat bytes) 8 + 7) div 8"
      by (cases "unat bytes \<le> 8") (simp_all add: max_def)
    then show ?thesis unfolding up class_bytes_getIndex [OF assms] by (simp only:)
  qed
  moreover have "SizeClass_getIndex bytes < FREE_LIST_SIZE"
    using getIndex_less [OF assms] by (simp add: word_less_nat_alt)
  moreover have "max (unat bytes) 1 = unat bytes" if "bytes \<noteq> 0" using that unat_gt_0 [of bytes] by (simp add: max_def)
  moreover have "SizeClass_getIndex 0 = 0" "class_bytes (unat (SizeClass_getIndex 0)) = 8" "SizeClass_roundUp 0 = 0"
    using class_bytes_getIndex [of 0] by (simp_all add: class_bytes_def unat_eq_zero SizeClass_roundUp_def ALIGNMENT_def)
  ultimately show ?thesis using getIndex_fits [OF assms] by (cases "bytes = 0") simp_all
qed

theorem SizeClass_sound_witness:
  "(12 :: size_t) \<le> MAX_BYTES \<and> SizeClass_getIndex 12 < FREE_LIST_SIZE \<and>
   unat (SizeClass_roundUp 12) = class_bytes (unat (SizeClass_getIndex 12))"
proof -
  have h: "(12 :: size_t) \<le> MAX_BYTES" by (simp add: MAX_BYTES_def)
  show ?thesis using h SizeClass_sound [OF h] by simp
qed

end
