(* ===== verification/Mem_PageCache.thy ===== *)
theory Mem_PageCache
  imports Mem_Heap Mem_SizeClass
begin

text \<open>
  The page cache (\<open>include/memory/PageCache.h\<close>, \<open>src/memory/PageCache.cpp\<close>). The \<open>Span\<close>
  objects live in a store of their own and are referred to by pointers (0 is \<open>nullptr\<close>), since
  the same object is reachable from \<open>freeSpans_\<close> and from \<open>spanMap_\<close>. \<open>freeSpans_\<close> is a
  \<open>std::map\<close>: an association list kept sorted by key. \<open>mmap\<close> is a parameter. A null pointer
  dereference makes the result \<open>None\<close>.
\<close>

section \<open>The data\<close>

record Span =
  pageAddr :: addr
  numPages :: size_t
  "next" :: addr

record PageCache =
  freeSpans :: "(size_t \<times> addr) list"
  spanMap :: "addr \<rightharpoonup> addr"
  spans :: "addr \<rightharpoonup> Span"
  nextSpan :: addr

definition PAGE_SIZE :: size_t where
  "PAGE_SIZE = 4096"

definition PageCache_init :: PageCache where
  "PageCache_init = \<lparr>freeSpans = [], spanMap = Map.empty, spans = Map.empty, nextSpan = 1\<rparr>"

type_synonym mmap_call = "heap \<Rightarrow> nat \<Rightarrow> addr option"

section \<open>The operations of std::map\<close>

definition lower_bound :: "size_t \<Rightarrow> (size_t \<times> addr) list \<Rightarrow> (size_t \<times> addr) option" where
  "lower_bound k m = List.find (\<lambda>(k', _). k \<le> k') m"

fun map_at :: "size_t \<Rightarrow> (size_t \<times> addr) list \<Rightarrow> addr" where
  "map_at k [] = 0"
| "map_at k ((k', v) # m) = (if k = k' then v else map_at k m)"

fun map_put :: "size_t \<Rightarrow> addr \<Rightarrow> (size_t \<times> addr) list \<Rightarrow> (size_t \<times> addr) list" where
  "map_put k v [] = [(k, v)]"
| "map_put k v ((k', v') # m) =
     (if k < k' then (k, v) # (k', v') # m
      else if k = k' then (k, v) # m
      else (k', v') # map_put k v m)"

definition map_erase :: "size_t \<Rightarrow> (size_t \<times> addr) list \<Rightarrow> (size_t \<times> addr) list" where
  "map_erase k m = filter (\<lambda>(k', _). k' \<noteq> k) m"

section \<open>The operations of the page cache\<close>

definition PageCache_systemAlloc :: "mmap_call \<Rightarrow> heap \<Rightarrow> size_t \<Rightarrow> heap \<times> addr" where
  "PageCache_systemAlloc mmap h n =
     (let sz = n * PAGE_SIZE in
      case mmap h (unat sz) of
        None \<Rightarrow> (h, 0)
      | Some ptr \<Rightarrow> (map_zero h ptr (unat sz), ptr))"

text \<open>\<open>new Span\<close>, with its three fields.\<close>

definition new_Span :: "PageCache \<Rightarrow> Span \<Rightarrow> PageCache \<times> addr" where
  "new_Span pc s =
     (pc\<lparr>spans := (spans pc)(nextSpan pc \<mapsto> s), nextSpan := nextSpan pc + 1\<rparr>, nextSpan pc)"

definition PageCache_allocateSpan ::
  "mmap_call \<Rightarrow> PageCache \<Rightarrow> heap \<Rightarrow> size_t \<Rightarrow> (PageCache \<times> heap \<times> addr) option" where
  "PageCache_allocateSpan mmap pc h n =
     (case lower_bound n (freeSpans pc) of
        Some (k, sp) \<Rightarrow> do {
          span \<leftarrow> spans pc sp;
          let pc = (if next span \<noteq> 0
                    then pc\<lparr>freeSpans := map_put k (next span) (freeSpans pc)\<rparr>
                    else pc\<lparr>freeSpans := map_erase k (freeSpans pc)\<rparr>);
          let pc = (if n < numPages span
                    then (let rest = numPages span - n;
                              (pc, newSpan) = new_Span pc
                                \<lparr>pageAddr = pageAddr span + unat (n * PAGE_SIZE),
                                 numPages = rest,
                                 next = map_at rest (freeSpans pc)\<rparr>
                          in pc\<lparr>freeSpans := map_put rest newSpan (freeSpans pc),
                                spans := (spans pc)(sp \<mapsto> span\<lparr>numPages := n\<rparr>)\<rparr>)
                    else pc);
          Some (pc\<lparr>spanMap := (spanMap pc)(pageAddr span \<mapsto> sp)\<rparr>, h, pageAddr span)
        }
      | None \<Rightarrow>
          (let (h, memory) = PageCache_systemAlloc mmap h n in
           if memory = 0 then Some (pc, h, 0)
           else (let (pc, span) = new_Span pc \<lparr>pageAddr = memory, numPages = n, next = 0\<rparr>
                 in Some (pc\<lparr>spanMap := (spanMap pc)(memory \<mapsto> span)\<rparr>, h, memory))))"

text \<open>
  The loop of \<open>deallocateSpan\<close> that looks for \<open>nextSpan\<close> behind the head of its free list and
  unlinks it. Each turn moves to another \<open>Span\<close> of a list without cycles, so as many turns as
  there are \<open>Span\<close> objects suffice; the outer \<open>None\<close> is a dereferenced null pointer or a cycle.
\<close>

fun unlink_span :: "nat \<Rightarrow> (addr \<rightharpoonup> Span) \<Rightarrow> addr \<Rightarrow> addr \<Rightarrow> ((addr \<rightharpoonup> Span) \<times> bool) option" where
  "unlink_span 0 sps prev target = None"
| "unlink_span (Suc fuel) sps prev target = do {
     p \<leftarrow> sps prev;
     if next p = 0 then Some (sps, False)
     else if next p = target then do {
       t \<leftarrow> sps target;
       Some (sps(prev \<mapsto> p\<lparr>next := next t\<rparr>), True)
     }
     else unlink_span fuel sps (next p) target
   }"

definition PageCache_deallocateSpan :: "PageCache \<Rightarrow> addr \<Rightarrow> size_t \<Rightarrow> PageCache option" where
  "PageCache_deallocateSpan pc ptr n =
     (case spanMap pc ptr of
        None \<Rightarrow> Some pc
      | Some sp \<Rightarrow> do {
          let nextAddr = ptr + unat (n * PAGE_SIZE);
          pc \<leftarrow>
            (case spanMap pc nextAddr of
               None \<Rightarrow> Some pc
             | Some nsp \<Rightarrow> do {
                 nextSp \<leftarrow> spans pc nsp;
                 let k = numPages nextSp;
                 let nextList = map_at k (freeSpans pc);
                 let pc = pc\<lparr>freeSpans := map_put k nextList (freeSpans pc)\<rparr>;
                 (pc, found) \<leftarrow>
                   (if nextList = nsp
                    then Some (pc\<lparr>freeSpans := map_put k (next nextSp) (freeSpans pc)\<rparr>, True)
                    else if nextList \<noteq> 0
                    then do {
                      (sps, found) \<leftarrow> unlink_span (nextSpan pc) (spans pc) nextList nsp;
                      Some (pc\<lparr>spans := sps\<rparr>, found)
                    }
                    else Some (pc, False));
                 if found
                 then do {
                   span \<leftarrow> spans pc sp;
                   Some (pc\<lparr>spans := ((spans pc)(sp \<mapsto> span\<lparr>numPages := numPages span + k\<rparr>))(nsp := None),
                            spanMap := (spanMap pc)(nextAddr := None)\<rparr>)
                 }
                 else Some pc
               });
          span \<leftarrow> spans pc sp;
          let list = map_at (numPages span) (freeSpans pc);
          Some (pc\<lparr>spans := (spans pc)(sp \<mapsto> span\<lparr>next := list\<rparr>),
                   freeSpans := map_put (numPages span) sp (freeSpans pc)\<rparr>)
        })"

text \<open>What \<open>mmap\<close> promises: a page-aligned range, not null, that was not mapped before.\<close>

definition mmap_spec :: "mmap_call \<Rightarrow> bool" where
  "mmap_spec mmap \<longleftrightarrow>
     (\<forall>h n a. mmap h n = Some a \<longrightarrow>
        0 < a \<and> a mod 4096 = 0 \<and> (\<forall>x. a \<le> x \<and> x < a + n \<longrightarrow> h x = None))"

section \<open>Facts about the sorted map\<close>

definition map_wf :: "(size_t \<times> addr) list \<Rightarrow> bool" where
  "map_wf m \<longleftrightarrow> sorted_wrt (<) (map fst m)"

lemma map_wf_simps [simp]:
  "map_wf []" "map_wf ((k, v) # m) \<longleftrightarrow> (\<forall>(k', v') \<in> set m. k < k') \<and> map_wf m"
  by (auto simp: map_wf_def)

lemma set_map_put:
  "map_wf m \<Longrightarrow> set (map_put k v m) = insert (k, v) {e \<in> set m. fst e \<noteq> k}"
proof (induction k v m rule: map_put.induct)
  case (1 k v)
  then show ?case by simp
next
  case (2 k v k' v' m)
  then have above: "\<And>e. e \<in> set m \<Longrightarrow> k' < fst e" by auto
  consider "k < k'" | "k = k'" | "k' < k" by force
  then show ?case
  proof cases
    case 1
    with above have "\<And>e. e \<in> set m \<Longrightarrow> fst e \<noteq> k" by (metis order.strict_trans order.strict_iff_not)
    with 1 show ?thesis by auto
  next
    case 2
    with above have "\<And>e. e \<in> set m \<Longrightarrow> fst e \<noteq> k" by force
    with 2 show ?thesis by auto
  next
    case 3
    with "2.IH" "2.prems" show ?thesis by auto
  qed
qed

lemma map_wf_put [simp]: "map_wf m \<Longrightarrow> map_wf (map_put k v m)"
proof (induction k v m rule: map_put.induct)
  case (1 k v)
  then show ?case by simp
next
  case (2 k v k' v' m)
  then show ?case
    by (auto simp: set_map_put less_le_trans dest: order.strict_trans split: prod.splits)
qed

lemma map_at_put [simp]: "map_wf m \<Longrightarrow> map_at k (map_put k' v m) = (if k = k' then v else map_at k m)"
  by (induction k' v m rule: map_put.induct) auto

lemma lower_bound_present:
  assumes "map_wf m" and "(k, v) \<in> set m"
  shows "lower_bound k m = Some (k, v)"
  using assms
proof (induction m)
  case Nil
  then show ?case by simp
next
  case (Cons e m)
  obtain k' v' where e: "e = (k', v')" by fastforce
  show ?case
  proof (cases "k \<le> k'")
    case True
    with Cons.prems e have "(k, v) = (k', v')" by auto
    then show ?thesis by (simp add: lower_bound_def e)
  next
    case False
    with Cons e show ?thesis by (auto simp: lower_bound_def)
  qed
qed

lemma lower_bound_mem: "lower_bound n m = Some (k, sp) \<Longrightarrow> (k, sp) \<in> set m \<and> n \<le> k"
  by (auto simp: lower_bound_def find_Some_iff set_conv_nth)

section \<open>Properties\<close>

lemma allocateSpan_fresh:
  assumes "freeSpans pc = []" and "mmap_spec mmap"
  shows "\<exists>pc'. freeSpans pc' = [] \<and>
     PageCache_allocateSpan mmap pc h n =
       (case mmap h (unat (n * PAGE_SIZE)) of
          None \<Rightarrow> Some (pc', h, 0)
        | Some a \<Rightarrow> Some (pc', map_zero h a (unat (n * PAGE_SIZE)), a))"
proof (cases "mmap h (unat (n * PAGE_SIZE))")
  case None
  with assms show ?thesis
    by (intro exI [of _ pc])
      (simp add: PageCache_allocateSpan_def lower_bound_def PageCache_systemAlloc_def Let_def)
next
  case (Some a)
  with assms(2) have "a \<noteq> 0" by (auto simp: mmap_spec_def)
  with Some assms(1) show ?thesis
    by (simp add: PageCache_allocateSpan_def lower_bound_def PageCache_systemAlloc_def Let_def
        new_Span_def)
qed

text \<open>
  A defect of \<open>deallocateSpan\<close>, for every state in which it shows: when the span behind the
  freed one is free and alone in its list, merging the two leaves the key of that list in
  \<open>freeSpans_\<close> with a null pointer, and the next \<open>allocateSpan\<close> of that many pages finds the
  entry and dereferences the null pointer.
\<close>

theorem PageCache_merge_leaves_null_entry:
  assumes "spanMap pc ptr = Some sp" and "spans pc sp = Some s"
    and "spanMap pc (ptr + unat (n * PAGE_SIZE)) = Some nsp" and "spans pc nsp = Some t"
    and "nsp \<noteq> sp" and "numPages s \<noteq> 0" and "spans pc 0 = None"
    and "map_wf (freeSpans pc)" and "map_at (numPages t) (freeSpans pc) = nsp" and "next t = 0"
  shows "\<exists>pc'. PageCache_deallocateSpan pc ptr n = Some pc' \<and>
     PageCache_allocateSpan mmap pc' h (numPages t) = None"
proof -
  let ?k = "numPages t"
  let ?m = "map_put ?k 0 (map_put ?k nsp (freeSpans pc))"
  let ?total = "numPages s + ?k"
  let ?pc = "pc\<lparr>freeSpans := map_put ?total sp ?m,
     spanMap := (spanMap pc)(ptr + unat (n * PAGE_SIZE) := None),
     spans := ((spans pc)(nsp := None))(sp \<mapsto> s\<lparr>numPages := ?total, next := map_at ?total ?m\<rparr>)\<rparr>"
  have "PageCache_deallocateSpan pc ptr n = Some ?pc"
    using assms by (simp add: PageCache_deallocateSpan_def Let_def fun_upd_twist)
  moreover have "(?k, 0) \<in> set (freeSpans ?pc)"
    using assms(6,8) by (auto simp: set_map_put)
  then have "lower_bound ?k (freeSpans ?pc) = Some (?k, 0)"
    using assms(8) by (intro lower_bound_present) simp_all
  moreover have "sp \<noteq> 0"
    using assms(2,7) by (metis option.distinct(1))
  then have "spans ?pc 0 = None"
    using assms(7) by simp
  ultimately show ?thesis
    by (intro exI [of _ ?pc]) (simp add: PageCache_allocateSpan_def)
qed

text \<open>
  The state of the example: two neighbouring one-page spans at 4096 and 8192, the first in use
  and the second free, as \<open>allocateSpan(2)\<close>, \<open>deallocateSpan\<close>, two times \<open>allocateSpan(1)\<close> and
  the \<open>deallocateSpan\<close> of the second page leave it.
\<close>

definition only_first_mmap :: mmap_call where
  "only_first_mmap h n = (if h = Map.empty then Some 4096 else None)"

definition split_example :: "(PageCache \<times> heap) option" where
  "split_example = do {
     (pc, h, a) \<leftarrow> PageCache_allocateSpan only_first_mmap PageCache_init Map.empty 2;
     pc \<leftarrow> PageCache_deallocateSpan pc a 2;
     (pc, h, p) \<leftarrow> PageCache_allocateSpan only_first_mmap pc h 1;
     (pc, h, q) \<leftarrow> PageCache_allocateSpan only_first_mmap pc h 1;
     pc \<leftarrow> PageCache_deallocateSpan pc q 1;
     Some (pc, h)
   }"

lemmas page_cache_eval = PageCache_allocateSpan_def PageCache_deallocateSpan_def
  PageCache_systemAlloc_def PageCache_init_def new_Span_def lower_bound_def map_erase_def
  only_first_mmap_def PAGE_SIZE_def Let_def

lemma split_example_eq:
  "split_example = Some (\<lparr>freeSpans = [(1, 2)], spanMap = [4096 \<mapsto> 1, 8192 \<mapsto> 2],
     spans = [1 \<mapsto> \<lparr>pageAddr = 4096, numPages = 1, next = 0\<rparr>,
              2 \<mapsto> \<lparr>pageAddr = 8192, numPages = 1, next = 0\<rparr>], nextSpan = 3\<rparr>,
     map_zero Map.empty 4096 8192)"
  by (simp add: split_example_def page_cache_eval) (simp add: numeral_2_eq_2)

theorem PageCache_merge_leaves_null_entry_witness:
  "\<exists>pc h pc'. split_example = Some (pc, h) \<and> PageCache_deallocateSpan pc 4096 1 = Some pc' \<and>
     PageCache_allocateSpan only_first_mmap pc' h 1 = None"
proof -
  let ?pc = "\<lparr>freeSpans = [(1, 2)], spanMap = [4096 \<mapsto> 1, 8192 \<mapsto> 2],
     spans = [1 \<mapsto> \<lparr>pageAddr = 4096, numPages = 1, next = 0\<rparr>,
              2 \<mapsto> \<lparr>pageAddr = 8192, numPages = 1, next = 0\<rparr>], nextSpan = 3\<rparr> :: PageCache"
  let ?t = "\<lparr>pageAddr = 8192, numPages = 1, next = 0\<rparr> :: Span"
  have "\<exists>pc'. PageCache_deallocateSpan ?pc 4096 1 = Some pc' \<and>
     PageCache_allocateSpan only_first_mmap pc' (map_zero Map.empty 4096 8192) (numPages ?t) = None"
    by (rule PageCache_merge_leaves_null_entry [where sp = 1 and nsp = 2
        and s = "\<lparr>pageAddr = 4096, numPages = 1, next = 0\<rparr>"])
      (simp_all add: PAGE_SIZE_def)
  then show ?thesis using split_example_eq by auto
qed

end
