(* ===== verification/Mem_CentralCache.thy ===== *)
theory Mem_CentralCache
  imports Mem_PageCache
begin

text \<open>
  The central cache (\<open>include/memory/CentralCache.h\<close>, \<open>src/memory/CentralCache.cpp\<close>): one free
  list per size class, threaded through the free blocks. \<open>fetchRange\<close> takes up to \<open>batchNum\<close>
  blocks from a list, or carves a new span from the page cache; \<open>returnRange\<close> puts a list back.
  Both hold the spin lock of their class from beginning to end and release it on every path, so
  they are atomic steps of the shared state here. An access to unmapped memory is \<open>None\<close>.
\<close>

section \<open>The operations\<close>

definition SPAN_PAGES :: size_t where
  "SPAN_PAGES = 8"

record Shared =
  mem :: heap
  pages :: PageCache
  centralFreeList :: "nat \<Rightarrow> addr"

definition CentralCache_init :: "heap \<Rightarrow> Shared" where
  "CentralCache_init h = \<lparr>mem = h, pages = PageCache_init, centralFreeList = (\<lambda>_. 0)\<rparr>"

definition CentralCache_fetchFromPageCache ::
  "mmap_call \<Rightarrow> PageCache \<Rightarrow> heap \<Rightarrow> size_t \<Rightarrow> (PageCache \<times> heap \<times> addr) option" where
  "CentralCache_fetchFromPageCache mmap pc h sz =
     (let numPages = (sz + PAGE_SIZE - 1) div PAGE_SIZE in
      if sz \<le> SPAN_PAGES * PAGE_SIZE
      then PageCache_allocateSpan mmap pc h SPAN_PAGES
      else PageCache_allocateSpan mmap pc h numPages)"

text \<open>
  The loop \<open>for (i; i < n; ++i) *(start + (i - 1) * size) = start + i * size\<close>, which occurs twice.
\<close>

function link_blocks :: "heap \<Rightarrow> addr \<Rightarrow> nat \<Rightarrow> nat \<Rightarrow> nat \<Rightarrow> heap option" where
  "link_blocks h start sz i n =
     (if i < n then do {
        h \<leftarrow> store h (start + (i - 1) * sz) (start + i * sz);
        link_blocks h start sz (i + 1) n
      } else Some h)"
  by pat_completeness auto
termination
  by (relation "measure (\<lambda>(h, start, sz, i, n). n - i)") auto

text \<open>The loop that walks at most \<open>batchNum\<close> blocks of a list, remembering the previous one.\<close>

function walk :: "heap \<Rightarrow> addr \<Rightarrow> addr \<Rightarrow> nat \<Rightarrow> nat \<Rightarrow> (addr \<times> addr) option" where
  "walk h prev current count batchNum =
     (if current \<noteq> 0 \<and> count < batchNum then do {
        nxt \<leftarrow> load h current;
        walk h current nxt (count + 1) batchNum
      } else Some (prev, current))"
  by pat_completeness auto
termination
  by (relation "measure (\<lambda>(h, prev, current, count, batchNum). batchNum - count)") auto

text \<open>The loop of \<open>returnRange\<close> that looks for the last block, counting up to \<open>size\<close>.\<close>

function find_end :: "heap \<Rightarrow> addr \<Rightarrow> nat \<Rightarrow> nat \<Rightarrow> addr option" where
  "find_end h end count sz = do {
     nxt \<leftarrow> load h end;
     if nxt \<noteq> 0 \<and> count < sz then find_end h nxt (count + 1) sz else Some end
   }"
  by pat_completeness auto
termination
  by (relation "measure (\<lambda>(h, end, count, sz). sz - count)") auto

declare link_blocks.simps [simp del] walk.simps [simp del] find_end.simps [simp del]

text \<open>Cutting a new span into blocks: the batch for the caller, the rest for the central list.\<close>

definition carve_span :: "Shared \<Rightarrow> nat \<Rightarrow> addr \<Rightarrow> nat \<Rightarrow> nat \<Rightarrow> Shared option" where
  "carve_span s index start sz batchNum = do {
     let totalBlocks = unat (SPAN_PAGES * PAGE_SIZE) div sz;
     let allocBlocks = min batchNum totalBlocks;
     h \<leftarrow> (if allocBlocks > 1 then do {
             h \<leftarrow> link_blocks (mem s) start sz 1 allocBlocks;
             store h (start + (allocBlocks - 1) * sz) 0
           } else Some (mem s));
     if totalBlocks > allocBlocks then do {
       let remainStart = start + allocBlocks * sz;
       h \<leftarrow> link_blocks h start sz (allocBlocks + 1) totalBlocks;
       h \<leftarrow> store h (start + (totalBlocks - 1) * sz) 0;
       Some (s\<lparr>mem := h, centralFreeList := (centralFreeList s)(index := remainStart)\<rparr>)
     } else Some (s\<lparr>mem := h\<rparr>)
   }"

definition CentralCache_fetchRange ::
  "mmap_call \<Rightarrow> Shared \<Rightarrow> size_t \<Rightarrow> size_t \<Rightarrow> (Shared \<times> addr) option" where
  "CentralCache_fetchRange mmap s index batchNum =
     (if FREE_LIST_SIZE \<le> index \<or> batchNum = 0 then Some (s, 0)
      else (let result = centralFreeList s (unat index) in
        if result = 0 then do {
          let sz = (index + 1) * ALIGNMENT;
          (pc, h, result) \<leftarrow> CentralCache_fetchFromPageCache mmap (pages s) (mem s) sz;
          let s = s\<lparr>pages := pc, mem := h\<rparr>;
          if result = 0 then Some (s, 0)
          else do {
            s \<leftarrow> carve_span s (unat index) result (unat sz) (unat batchNum);
            Some (s, result)
          }
        }
        else do {
          (prev, current) \<leftarrow> walk (mem s) 0 result 0 (unat batchNum);
          h \<leftarrow> (if prev \<noteq> 0 then store (mem s) prev 0 else Some (mem s));
          Some (s\<lparr>mem := h, centralFreeList := (centralFreeList s)(unat index := current)\<rparr>, result)
        }))"

definition CentralCache_returnRange :: "Shared \<Rightarrow> addr \<Rightarrow> size_t \<Rightarrow> size_t \<Rightarrow> Shared option" where
  "CentralCache_returnRange s start sz index =
     (if start = 0 \<or> FREE_LIST_SIZE \<le> index then Some s
      else do {
        end \<leftarrow> find_end (mem s) start 1 (unat sz);
        h \<leftarrow> store (mem s) end (centralFreeList s (unat index));
        Some (s\<lparr>mem := h, centralFreeList := (centralFreeList s)(unat index := start)\<rparr>)
      })"

section \<open>The loops\<close>

lemma link_blocks_spec:
  assumes "0 < sz" and "1 \<le> i"
    and "\<forall>k. i - 1 \<le> k \<and> k + 1 < n \<longrightarrow> start + k * sz \<in> dom h"
  shows "\<exists>h'. link_blocks h start sz i n = Some h' \<and> dom h' = dom h \<and>
     (\<forall>k. i - 1 \<le> k \<and> k + 1 < n \<longrightarrow> h' (start + k * sz) = Some (start + (k + 1) * sz)) \<and>
     (\<forall>x. (\<forall>k. i - 1 \<le> k \<and> k + 1 < n \<longrightarrow> x \<noteq> start + k * sz) \<longrightarrow> h' x = h x)"
  using assms
proof (induction h start sz i n rule: link_blocks.induct)
  case (1 h start sz i n)
  show ?case
  proof (cases "i < n")
    case False
    then show ?thesis using "1.prems" by (subst link_blocks.simps) auto
  next
    case True
    let ?a = "start + (i - 1) * sz"
    let ?h = "h(?a \<mapsto> start + i * sz)"
    have a: "?a \<in> dom h" using "1.prems"(2,3) True by auto
    then have st: "store h ?a (start + i * sz) = Some ?h" by (rule store_mapped)
    have "start + k * sz \<in> dom ?h" if "i \<le> k" "k + 1 < n" for k
    proof -
      have "start + k * sz \<in> dom h" using "1.prems"(3) that by simp
      then show ?thesis by simp
    qed
    then have "\<forall>k. i + 1 - 1 \<le> k \<and> k + 1 < n \<longrightarrow> start + k * sz \<in> dom ?h" by simp
    note IH = "1.IH" [OF True st "1.prems"(1) le_add2 this, unfolded add_diff_cancel_right']
    obtain h' where h':
      "link_blocks ?h start sz (i + 1) n = Some h'" "dom h' = dom ?h"
      "\<forall>k. i \<le> k \<and> k + 1 < n \<longrightarrow> h' (start + k * sz) = Some (start + (k + 1) * sz)"
      "\<forall>x. (\<forall>k. i \<le> k \<and> k + 1 < n \<longrightarrow> x \<noteq> start + k * sz) \<longrightarrow> h' x = ?h x"
      using IH by blast
    have neq: "?a \<noteq> start + k * sz" if "i \<le> k" for k
      using that "1.prems"(1,2) by auto
    have "h' ?a = ?h ?a" using h'(4) neq by blast
    then have first: "h' ?a = Some (start + i * sz)" by simp
    have "link_blocks h start sz i n = Some h'"
      using True st h'(1) by (subst link_blocks.simps) simp
    moreover have "dom h' = dom h" using h'(2) a by auto
    moreover have "h' (start + k * sz) = Some (start + (k + 1) * sz)"
      if "i - 1 \<le> k \<and> k + 1 < n" for k
      using that h'(3) first "1.prems"(2) by (cases "k = i - 1") auto
    moreover have "h' x = h x" if "\<forall>k. i - 1 \<le> k \<and> k + 1 < n \<longrightarrow> x \<noteq> start + k * sz" for x
    proof -
      have "x \<noteq> ?a" using that [rule_format, of "i - 1"] True "1.prems"(2) by simp
      moreover have "\<forall>k. i \<le> k \<and> k + 1 < n \<longrightarrow> x \<noteq> start + k * sz"
      proof (intro allI impI)
        fix k
        assume "i \<le> k \<and> k + 1 < n"
        then have "i - 1 \<le> k \<and> k + 1 < n" by linarith
        then show "x \<noteq> start + k * sz" by (rule that [rule_format])
      qed
      then have "h' x = ?h x" using h'(4) by blast
      ultimately show ?thesis by simp
    qed
    ultimately show ?thesis by blast
  qed
qed

lemma walk_chain:
  assumes "chain h p xs" and "c \<le> b"
  shows "walk h prev p c b =
    Some (if xs = [] \<or> c = b then prev else last (take (b - c) xs),
          if length xs \<le> b - c then 0 else xs ! (b - c))"
  using assms
proof (induction xs arbitrary: p prev c)
  case Nil
  then show ?case by (subst walk.simps) simp
next
  case (Cons a xs)
  then obtain r where r: "p = a" "a \<noteq> 0" "h a = Some r" "chain h r xs"
    by (auto split: option.splits)
  show ?case
  proof (cases "c < b")
    case False
    then have "c = b" using Cons.prems(2) by simp
    then show ?thesis using r by (subst walk.simps) simp
  next
    case True
    then obtain d where d: "b - c = Suc d" "b - (c + 1) = d" by (metis Suc_diff_Suc Suc_eq_plus1)
    have "walk h prev p c b = walk h a r (c + 1) b"
      using True r by (subst walk.simps) (simp add: load_def)
    also have "\<dots> = Some (if xs = [] \<or> c + 1 = b then a else last (take (b - (c + 1)) xs),
          if length xs \<le> b - (c + 1) then 0 else xs ! (b - (c + 1)))"
      using Cons.IH [OF r(4), of "c + 1" a] True by simp
    finally show ?thesis using True d by (auto simp: take_eq_Nil)
  qed
qed

lemma find_end_chain:
  assumes "chain h p xs" and "xs \<noteq> []" and "1 \<le> c"
  shows "find_end h p c m = Some (xs ! min (length xs - 1) (m - c))"
  using assms
proof (induction xs arbitrary: p c)
  case Nil
  then show ?case by simp
next
  case (Cons a xs)
  then obtain r where r: "p = a" "a \<noteq> 0" "h a = Some r" "chain h r xs"
    by (auto split: option.splits)
  show ?case
  proof (cases "r \<noteq> 0 \<and> c < m")
    case True
    then have "xs \<noteq> []" using r(4) by auto
    from Cons.IH [OF r(4) this, of "c + 1"]
    have "find_end h p c m = Some (xs ! min (length xs - 1) (m - (c + 1)))"
      using True r by (subst find_end.simps) (simp add: load_def)
    moreover have "min (length (a # xs) - 1) (m - c) = Suc (min (length xs - 1) (m - (c + 1)))"
      using True \<open>xs \<noteq> []\<close> by (cases xs) auto
    ultimately show ?thesis by simp
  next
    case False
    then have "xs = [] \<or> m \<le> c" using r(4) by auto
    then show ?thesis using False r by (subst find_end.simps) (auto simp: load_def)
  qed
qed

section \<open>What the operations do to the lists\<close>

lemma fetchRange_list:
  assumes "index < FREE_LIST_SIZE" and "0 < unat batchNum"
    and "centralFreeList s (unat index) = p" and "p \<noteq> 0" and "chain (mem s) p ys"
  shows "\<exists>h' q. CentralCache_fetchRange mmap s index batchNum =
       Some (s\<lparr>mem := h', centralFreeList := (centralFreeList s)(unat index := q)\<rparr>, p) \<and>
     chain h' p (take (unat batchNum) ys) \<and> chain h' q (drop (unat batchNum) ys) \<and>
     dom h' = dom (mem s) \<and> (\<forall>x. x \<notin> set ys \<longrightarrow> h' x = mem s x)"
proof -
  let ?b = "unat batchNum"
  let ?xs = "take ?b ys" and ?zs = "drop ?b ys"
  let ?a = "last ?xs" and ?q = "if length ys \<le> ?b then 0 else ys ! ?b"
  have ne: "ys \<noteq> []" "?xs \<noteq> []" using assms by auto
  have w: "walk (mem s) 0 p 0 ?b = Some (?a, ?q)"
    using walk_chain [OF assms(5), of 0 ?b 0] assms(2) ne(1) by simp
  have split: "ys = butlast ?xs @ ?a # ?zs"
    using append_butlast_last_id [OF ne(2)] append_take_drop_id [of ?b ys] by (metis append_Cons append_Nil append_assoc)
  have cut: "chain ((mem s)(?a \<mapsto> 0)) p (butlast ?xs @ [?a])"
    "\<exists>r. mem s ?a = Some r \<and> chain (mem s) r ?zs \<and> chain ((mem s)(?a \<mapsto> 0)) r ?zs"
    using chain_cut [of "mem s" p "butlast ?xs" ?a ?zs] assms(5) split by auto
  then obtain r where r: "mem s ?a = Some r" "chain ((mem s)(?a \<mapsto> 0)) r ?zs" by auto
  have q: "r = ?q"
  proof (cases ?zs)
    case Nil
    with r(2) show ?thesis by simp
  next
    case (Cons z zs')
    then have "ys ! ?b = z" "\<not> length ys \<le> ?b" by (auto dest: nth_via_drop)
    with r(2) Cons show ?thesis by (auto split: option.splits)
  qed
  have "?a \<in> set ys" using split by (metis in_set_conv_decomp)
  moreover have "?a \<noteq> 0" using \<open>?a \<in> set ys\<close> path_nonnull [OF assms(5)] by metis
  moreover have "?a \<in> dom (mem s)" using r(1) by auto
  moreover have "CentralCache_fetchRange mmap s index batchNum =
      Some (s\<lparr>mem := (mem s)(?a \<mapsto> 0), centralFreeList := (centralFreeList s)(unat index := ?q)\<rparr>, p)"
    using assms(1-4) w calculation
    by (simp add: CentralCache_fetchRange_def Let_def store_mapped linorder_not_le unat_gt_0)
  moreover have "chain ((mem s)(?a \<mapsto> 0)) p ?xs"
    using cut(1) append_butlast_last_id [OF ne(2)] by simp
  ultimately show ?thesis using r(2) q
    by (intro exI [of _ "(mem s)(?a \<mapsto> 0)"] exI [of _ ?q]) auto
qed

lemma link_row:
  assumes "0 < sz" and "0 < start" and "i < n"
    and "set (row start sz i n) \<subseteq> dom h"
  shows "\<exists>h'. (do { h \<leftarrow> link_blocks h start sz (i + 1) n; store h (start + (n - 1) * sz) 0 }) = Some h' \<and>
     dom h' = dom h \<and> chain h' (start + i * sz) (row start sz i n) \<and>
     (\<forall>x. x \<notin> set (row start sz i n) \<longrightarrow> h' x = h x)"
proof -
  have cells: "start + k * sz \<in> dom h" if "i \<le> k" "k < n" for k
    by (rule subsetD [OF assms(4)]) (use that in \<open>auto simp: set_row\<close>)
  obtain h1 where h1: "link_blocks h start sz (i + 1) n = Some h1" "dom h1 = dom h"
      "\<forall>k. i \<le> k \<and> k + 1 < n \<longrightarrow> h1 (start + k * sz) = Some (start + (k + 1) * sz)"
      "\<forall>x. (\<forall>k. i \<le> k \<and> k + 1 < n \<longrightarrow> x \<noteq> start + k * sz) \<longrightarrow> h1 x = h x"
    using link_blocks_spec [OF assms(1), of "i + 1" n start h] cells by auto
  let ?e = "start + (n - 1) * sz"
  let ?h = "h1(?e \<mapsto> 0)"
  have e: "?e \<in> dom h1" using cells [of "n - 1"] assms(3) h1(2) by simp
  have neq: "start + k * sz \<noteq> ?e" if "k + 1 < n" for k
    using that assms(1) by auto
  have "chain ?h (start + i * sz) (row start sz i n)"
    using h1(3) neq assms(2,3) by (intro chain_row) auto
  moreover have "?h x = h x" if "x \<notin> set (row start sz i n)" for x
  proof -
    have "x \<noteq> start + k * sz" if "i \<le> k" "k < n" for k
      using \<open>x \<notin> set (row start sz i n)\<close> that by (auto simp: set_row)
    then have "h1 x = h x" "x \<noteq> ?e" using h1(4) assms(3) by auto
    then show ?thesis by simp
  qed
  moreover have "dom ?h = dom h" using e h1(2) by auto
  ultimately show ?thesis using h1(1) e by (auto simp: store_mapped)
qed

lemma row_disjoint: "0 < sz \<Longrightarrow> set (row start sz 0 a) \<inter> set (row start sz a n) = {}"
  by (auto simp: set_row)

lemma row_mono: "a \<le> n \<Longrightarrow> set (row start sz 0 a) \<subseteq> set (row start sz 0 n)"
  "set (row start sz a n) \<subseteq> set (row start sz 0 n)"
  by (auto simp: set_row)

lemma carve_span_spec:
  assumes "0 < sz" and "0 < start" and "0 < b" and "centralFreeList s i = 0"
    and "T = unat (SPAN_PAGES * PAGE_SIZE) div sz"
    and zero: "\<forall>x \<in> set (row start sz 0 (max 1 T)). mem s x = Some 0"
  shows "\<exists>h' q. carve_span s i start sz b =
       Some (s\<lparr>mem := h', centralFreeList := (centralFreeList s)(i := q)\<rparr>) \<and>
     chain h' start (row start sz 0 (max 1 (min b T))) \<and>
     chain h' q (row start sz (max 1 (min b T)) T) \<and>
     dom h' = dom (mem s) \<and>
     (\<forall>x. x \<notin> set (row start sz 0 (max 1 T)) \<longrightarrow> h' x = mem s x)"
proof -
  let ?A = "min b T"
  let ?M = "max 1 ?A"
  let ?first = "if ?A > 1 then do { h \<leftarrow> link_blocks (mem s) start sz 1 ?A;
      store h (start + (?A - 1) * sz) 0 } else Some (mem s)"
  have M: "?M \<le> max 1 T" "T \<noteq> 0 \<Longrightarrow> ?M = ?A" using assms(3) by auto
  have start: "start \<in> set (row start sz 0 (max 1 T))" by (auto simp: set_row image_iff)
  have dom: "set (row start sz 0 (max 1 T)) \<subseteq> dom (mem s)" using zero by auto
  obtain h2 where h2: "?first = Some h2" "dom h2 = dom (mem s)"
      "chain h2 start (row start sz 0 ?M)"
      "\<forall>x. x \<notin> set (row start sz 0 ?M) \<longrightarrow> h2 x = mem s x"
  proof (cases "?A > 1")
    case True
    then have "?M = ?A" by simp
    then have "set (row start sz 0 ?A) \<subseteq> dom (mem s)"
      using order_trans [OF row_mono(1) [OF M(1)] dom] by simp
    from link_row [OF assms(1,2) _ this] True \<open>?M = ?A\<close> show ?thesis by (auto intro!: that)
  next
    case False
    then have "?M = 1" by linarith
    then have "row start sz 0 ?M = [start]" by (simp only: row_def) simp
    with False zero start assms(2) show ?thesis by (intro that [of "mem s"]) auto
  qed
  have carve: "carve_span s i start sz b = (if ?A < T then
       (do { h \<leftarrow> link_blocks h2 start sz (?A + 1) T; store h (start + (T - 1) * sz) 0 }) \<bind>
         (\<lambda>h. Some (s\<lparr>mem := h, centralFreeList := (centralFreeList s)(i := start + ?A * sz)\<rparr>))
       else Some (s\<lparr>mem := h2\<rparr>))"
    unfolding carve_span_def Let_def assms(5) [symmetric] h2(1) by simp
  show ?thesis
  proof (cases "?A < T")
    case False
    then have "T \<le> ?M" by simp
    moreover have "carve_span s i start sz b = Some (s\<lparr>mem := h2\<rparr>)"
      using carve False by simp
    moreover have "s\<lparr>mem := h2\<rparr> = s\<lparr>mem := h2, centralFreeList := (centralFreeList s)(i := 0)\<rparr>"
      using assms(4) by (cases s) (simp add: fun_upd_idem)
    ultimately show ?thesis using h2 row_mono(1) [OF M(1), of start sz]
      by (intro exI [of _ h2] exI [of _ 0]) auto
  next
    case True
    then have A: "?M = ?A" using M(2) by auto
    have rest: "set (row start sz ?A T) \<subseteq> dom h2"
    proof -
      have "T = max 1 T" using True by simp
      then have "set (row start sz 0 T) \<subseteq> dom h2" using dom h2(2) by simp
      then show ?thesis using row_mono(2) [of start sz ?A T] by blast
    qed
    from link_row [OF assms(1,2) True rest] obtain h' where h':
      "(do { h \<leftarrow> link_blocks h2 start sz (?A + 1) T; store h (start + (T - 1) * sz) 0 }) = Some h'"
      "dom h' = dom h2" "chain h' (start + ?A * sz) (row start sz ?A T)"
      "\<forall>x. x \<notin> set (row start sz ?A T) \<longrightarrow> h' x = h2 x"
      by auto
    have "carve_span s i start sz b = Some (s\<lparr>mem := h',
        centralFreeList := (centralFreeList s)(i := start + ?A * sz)\<rparr>)"
      unfolding carve h'(1) using True by simp
    moreover have "chain h' start (row start sz 0 ?A)"
      using h2(3) h'(4) row_disjoint [OF assms(1), of start ?A T] A
      by (subst path_frame [where h' = h2]) auto
    moreover have "h' x = mem s x" if "x \<notin> set (row start sz 0 (max 1 T))" for x
    proof -
      have T: "max 1 T = T" using True by simp
      have "x \<notin> set (row start sz ?A T)" "x \<notin> set (row start sz 0 ?M)"
        using that row_mono(2) [of start sz ?A T] row_mono(1) [OF M(1), of start sz]
        unfolding T by blast+
      with h'(4) h2(4) show ?thesis by simp
    qed
    ultimately show ?thesis using h'(2,3) h2(2) A
      by (intro exI [of _ h'] exI [of _ "start + ?A * sz"]) auto
  qed
qed

definition span_bytes :: "nat \<Rightarrow> nat" where
  "span_bytes sz = (if sz \<le> 32768 then 32768 else (sz + 4095) div 4096 * 4096)"

lemma span_bytes_covers:
  assumes "0 < sz"
  shows "max 1 (32768 div sz) * sz \<le> span_bytes sz"
proof (cases "sz \<le> 32768")
  case True
  then have "1 \<le> 32768 div sz" using assms by (simp add: div_greater_zero_iff Suc_leI)
  then show ?thesis using True by (simp add: span_bytes_def max_def)
next
  case False
  then show ?thesis by (simp add: span_bytes_def)
qed

lemma unat_class_size:
  assumes "index < FREE_LIST_SIZE"
  shows "unat ((index + 1) * ALIGNMENT) = class_bytes (unat index)"
proof -
  have i: "unat index < 32768" using assms by (simp add: word_less_nat_alt)
  then have "unat (index + 1) = unat index + 1" by (subst unat_add_lt) simp_all
  then show ?thesis using i by (simp add: class_bytes_def unat_mult_lem [THEN iffD1])
qed

lemma span_consts [simp]: "unat (SPAN_PAGES * PAGE_SIZE) = 32768"
  by (simp add: SPAN_PAGES_def PAGE_SIZE_def)

lemma fetchFromPageCache_fresh:
  assumes "freeSpans pc = []" and "mmap_spec mmap" and "unat sz \<le> 262144"
  shows "\<exists>pc'. freeSpans pc' = [] \<and>
     CentralCache_fetchFromPageCache mmap pc h sz =
       (case mmap h (span_bytes (unat sz)) of
          None \<Rightarrow> Some (pc', h, 0)
        | Some a \<Rightarrow> Some (pc', map_zero h a (span_bytes (unat sz)), a))"
proof -
  let ?n = "if sz \<le> SPAN_PAGES * PAGE_SIZE then SPAN_PAGES else (sz + PAGE_SIZE - 1) div PAGE_SIZE"
  have le: "sz \<le> SPAN_PAGES * PAGE_SIZE \<longleftrightarrow> unat sz \<le> 32768"
    by (simp add: word_le_nat_alt)
  have "sz + PAGE_SIZE - 1 = sz + 4095" by (simp add: PAGE_SIZE_def)
  moreover have "unat (sz + 4095) = unat sz + 4095"
    using assms(3) by (subst unat_add_lt) simp_all
  ultimately have q: "unat ((sz + PAGE_SIZE - 1) div PAGE_SIZE) = (unat sz + 4095) div 4096"
    by (simp only: unat_div) (simp add: PAGE_SIZE_def)
  have "unat ((sz + PAGE_SIZE - 1) div PAGE_SIZE * PAGE_SIZE) = (unat sz + 4095) div 4096 * 4096"
    using q assms(3) by (subst unat_mult_lem [THEN iffD1]) (simp_all add: PAGE_SIZE_def)
  then have n: "unat (?n * PAGE_SIZE) = span_bytes (unat sz)"
    by (simp add: span_bytes_def le)
  have eq: "CentralCache_fetchFromPageCache mmap pc h sz = PageCache_allocateSpan mmap pc h ?n"
    by (simp add: CentralCache_fetchFromPageCache_def Let_def)
  show ?thesis
    using allocateSpan_fresh [OF assms(1,2), of h ?n] unfolding eq n .
qed

text \<open>
  The contract of \<open>fetchRange\<close> towards the thread caches: the blocks returned and the blocks kept
  are, together, those that the list had and those of a newly mapped span; no other cell changes.
\<close>

definition fresh_row :: "heap \<Rightarrow> heap \<Rightarrow> nat \<Rightarrow> addr list \<Rightarrow> bool" where
  "fresh_row h h' sz fresh \<longleftrightarrow>
     (\<exists>a n. fresh = row a sz 0 n \<and> (0 < n \<longrightarrow> 0 < a) \<and>
        (\<forall>x. a \<le> x \<and> x < a + n * sz \<longrightarrow> h x = None \<and> x \<in> dom h'))"

lemma fresh_row_Nil [simp]: "fresh_row h h' sz []"
  by (auto simp: fresh_row_def intro!: exI [of _ 0])

definition fetched :: "Shared \<Rightarrow> Shared \<Rightarrow> nat \<Rightarrow> addr \<Rightarrow> addr list \<Rightarrow> addr list \<Rightarrow> addr list \<Rightarrow> addr list \<Rightarrow> bool" where
  "fetched s s' i p ys xs zs fresh \<longleftrightarrow>
     freeSpans (pages s') = [] \<and> chain (mem s') p xs \<and> chain (mem s') (centralFreeList s' i) zs \<and>
     (\<forall>j. j \<noteq> i \<longrightarrow> centralFreeList s' j = centralFreeList s j) \<and>
     set xs \<union> set zs = set ys \<union> set fresh \<and> set xs \<inter> set zs = {} \<and>
     fresh_row (mem s) (mem s') (class_bytes i) fresh \<and>
     dom (mem s) \<subseteq> dom (mem s') \<and>
     (\<forall>x \<in> dom (mem s). x \<notin> set ys \<longrightarrow> mem s' x = mem s x)"

lemma fetchRange_new:
  assumes "index < FREE_LIST_SIZE" and "0 < unat batchNum"
    and "centralFreeList s (unat index) = 0"
    and "freeSpans (pages s) = []" and "mmap_spec mmap"
  shows "\<exists>s' p xs zs fresh. CentralCache_fetchRange mmap s index batchNum = Some (s', p) \<and>
     fetched s s' (unat index) p [] xs zs fresh \<and>
     (p = 0 \<longrightarrow> mmap (mem s) (span_bytes (class_bytes (unat index))) = None)"
proof -
  let ?sz = "(index + 1) * ALIGNMENT"
  let ?n = "class_bytes (unat index)"
  have sz: "unat ?sz = ?n" using assms(1) by (rule unat_class_size)
  have n: "0 < ?n" "?n \<le> 262144"
    using assms(1) by (simp_all add: class_bytes_def word_less_nat_alt)
  obtain pc' where pc': "freeSpans pc' = []"
      "CentralCache_fetchFromPageCache mmap (pages s) (mem s) ?sz =
       (case mmap (mem s) (span_bytes ?n) of
          None \<Rightarrow> Some (pc', mem s, 0)
        | Some a \<Rightarrow> Some (pc', map_zero (mem s) a (span_bytes ?n), a))"
    using fetchFromPageCache_fresh [OF assms(4,5), of ?sz "mem s", unfolded sz, OF n(2)] by blast
  note guard = assms(1-3) pc'(2) sz
  show ?thesis
  proof (cases "mmap (mem s) (span_bytes ?n)")
    case None
    then have "CentralCache_fetchRange mmap s index batchNum = Some (s\<lparr>pages := pc', mem := mem s\<rparr>, 0)"
      using guard by (simp add: CentralCache_fetchRange_def Let_def linorder_not_le unat_gt_0)
    moreover have "fetched s (s\<lparr>pages := pc', mem := mem s\<rparr>) (unat index) 0 [] [] [] []"
      using pc'(1) assms(3) by (simp add: fetched_def)
    ultimately show ?thesis using None by blast
  next
    case (Some a)
    have a: "0 < a" "\<forall>x. a \<le> x \<and> x < a + span_bytes ?n \<longrightarrow> mem s x = None"
      using assms(5) Some unfolding mmap_spec_def by blast+
    let ?T = "32768 div ?n"
    let ?s = "s\<lparr>pages := pc', mem := map_zero (mem s) a (span_bytes ?n)\<rparr>"
    let ?R = "row a ?n 0 (max 1 ?T)"
    have inside: "x < a + span_bytes ?n" if "x < a + max 1 ?T * ?n" for x
      using that span_bytes_covers [OF n(1)] by linarith
    have R: "a \<le> x \<and> x < a + max 1 ?T * ?n" if "x \<in> set ?R" for x
      using that n(1) by (auto simp: set_row)
    then have zero: "\<forall>x \<in> set ?R. mem ?s x = Some 0"
      using inside by (auto simp: map_zero_def)
    from carve_span_spec [of ?n a "unat batchNum" ?s "unat index" ?T] n(1) a(1) assms(2,3) zero
    obtain h' q where h': "carve_span ?s (unat index) a ?n (unat batchNum) =
          Some (?s\<lparr>mem := h', centralFreeList := (centralFreeList ?s)(unat index := q)\<rparr>)"
        "chain h' a (row a ?n 0 (max 1 (min (unat batchNum) ?T)))"
        "chain h' q (row a ?n (max 1 (min (unat batchNum) ?T)) ?T)"
        "dom h' = dom (mem ?s)" "\<forall>x. x \<notin> set ?R \<longrightarrow> h' x = mem ?s x"
      by auto
    let ?s' = "?s\<lparr>mem := h', centralFreeList := (centralFreeList ?s)(unat index := q)\<rparr>"
    let ?M = "max 1 (min (unat batchNum) ?T)"
    have "CentralCache_fetchRange mmap s index batchNum = Some (?s', a)"
      using guard Some a(1) h'(1)
      by (simp add: CentralCache_fetchRange_def Let_def linorder_not_le unat_gt_0)
    moreover have "fetched s ?s' (unat index) a [] (row a ?n 0 ?M) (row a ?n ?M ?T) ?R"
    proof -
      have "set (row a ?n 0 ?M) \<union> set (row a ?n ?M ?T) = set ?R"
        by (force simp: set_row)
      moreover have "set (row a ?n 0 ?M) \<inter> set (row a ?n ?M ?T) = {}"
        using n(1) by (rule row_disjoint)
      moreover have "mem s x = None \<and> x \<in> dom h'" if "a \<le> x" "x < a + max 1 ?T * ?n" for x
        using that inside a(2) h'(4) by (auto simp: map_zero_def)
      then have "fresh_row (mem s) h' ?n ?R"
        using a(1) unfolding fresh_row_def by blast
      moreover have "h' x = mem s x" if "x \<in> dom (mem s)" for x
      proof -
        have "\<not> (a \<le> x \<and> x < a + span_bytes ?n)" using that a(2) by auto
        then have "x \<notin> set ?R" "mem ?s x = mem s x"
          using R inside by (auto simp: map_zero_def)
        then show ?thesis using h'(5) by simp
      qed
      moreover have "dom (mem s) \<subseteq> dom h'"
        using h'(4) by (auto simp: map_zero_def)
      ultimately show ?thesis
        using pc'(1) h'(2,3) unfolding fetched_def by simp
    qed
    ultimately show ?thesis using a(1) by blast
  qed
qed

lemma fetchRange_spec:
  assumes "index < FREE_LIST_SIZE" and "0 < unat batchNum"
    and "chain (mem s) (centralFreeList s (unat index)) ys"
    and "freeSpans (pages s) = []" and "mmap_spec mmap"
  shows "\<exists>s' p xs zs fresh. CentralCache_fetchRange mmap s index batchNum = Some (s', p) \<and>
     fetched s s' (unat index) p ys xs zs fresh \<and>
     (p = 0 \<longrightarrow> mmap (mem s) (span_bytes (class_bytes (unat index))) = None)"
proof (cases "centralFreeList s (unat index) = 0")
  case True
  with assms(3) have "ys = []" by simp
  with fetchRange_new [OF assms(1,2) True assms(4,5)] show ?thesis by simp
next
  case False
  let ?b = "unat batchNum"
  obtain h' q where h': "CentralCache_fetchRange mmap s index batchNum =
        Some (s\<lparr>mem := h', centralFreeList := (centralFreeList s)(unat index := q)\<rparr>,
              centralFreeList s (unat index))"
      "chain h' (centralFreeList s (unat index)) (take ?b ys)" "chain h' q (drop ?b ys)"
      "dom h' = dom (mem s)" "\<forall>x. x \<notin> set ys \<longrightarrow> h' x = mem s x"
    using fetchRange_list [OF assms(1,2) refl False assms(3)] by blast
  have "set (take ?b ys) \<union> set (drop ?b ys) = set ys"
    by (metis append_take_drop_id set_append)
  moreover have "set (take ?b ys) \<inter> set (drop ?b ys) = {}"
    using chain_distinct [OF assms(3)] set_take_disj_set_drop_if_distinct by blast
  ultimately have "fetched s (s\<lparr>mem := h', centralFreeList := (centralFreeList s)(unat index := q)\<rparr>)
      (unat index) (centralFreeList s (unat index)) ys (take ?b ys) (drop ?b ys) []"
    using h' assms(4) unfolding fetched_def by auto
  with h'(1) False show ?thesis by (intro exI conjI) (assumption, assumption, simp)
qed

text \<open>\<open>returnRange\<close> puts the first \<open>max 1 size\<close> blocks of a list in front of the central list.\<close>

lemma returnRange_spec:
  assumes "index < FREE_LIST_SIZE" and "start \<noteq> 0" and "chain (mem s) start xs"
    and "chain (mem s) (centralFreeList s (unat index)) ys" and "set xs \<inter> set ys = {}"
  shows "\<exists>h'. CentralCache_returnRange s start sz index =
       Some (s\<lparr>mem := h', centralFreeList := (centralFreeList s)(unat index := start)\<rparr>) \<and>
     chain h' start (take (max 1 (unat sz)) xs @ ys) \<and> dom h' = dom (mem s) \<and>
     (\<forall>x. x \<notin> set xs \<longrightarrow> h' x = mem s x)"
proof -
  have ne: "xs \<noteq> []" using assms(2,3) by auto
  let ?j = "min (length xs - 1) (unat sz - 1)"
  let ?e = "xs ! ?j" and ?q = "centralFreeList s (unat index)"
  let ?h = "(mem s)(?e \<mapsto> ?q)"
  have j: "?j < length xs" using ne by (cases xs) auto
  have e: "?e \<in> set xs" using j by simp
  have "chain (mem s) start (take ?j xs @ ?e # drop (Suc ?j) xs)"
    using assms(3) id_take_nth_drop [OF j] by simp
  then have "chain ?h start (take ?j xs @ ?e # ys)"
    using assms(4,5) e by (intro chain_join) auto
  moreover have "take (max 1 (unat sz)) xs = take ?j xs @ [?e]"
  proof -
    have "1 \<le> length xs" using ne by (cases xs) auto
    then have "Suc ?j = min (length xs) (max 1 (unat sz))" by linarith
    then have "take (Suc ?j) xs = take (max 1 (unat sz)) xs" by (simp add: min_def)
    then show ?thesis using take_Suc_conv_app_nth [OF j] by simp
  qed
  moreover have "?e \<in> dom (mem s)" using e path_mapped [OF assms(3)] by auto
  moreover have "CentralCache_returnRange s start sz index =
      Some (s\<lparr>mem := ?h, centralFreeList := (centralFreeList s)(unat index := start)\<rparr>)"
    using assms(1,2) find_end_chain [OF assms(3) ne, of 1 "unat sz"] calculation(3)
    by (simp add: CentralCache_returnRange_def linorder_not_le store_mapped)
  ultimately show ?thesis using e by (intro exI [of _ ?h]) auto
qed

end
