(* ===== verification/Mem_ThreadCache.thy ===== *)
theory Mem_ThreadCache
  imports Mem_CentralCache
begin

text \<open>
  The per-thread cache (\<open>include/memory/ThreadCache.h\<close>, \<open>src/memory/ThreadCache.cpp\<close>) and the
  facade \<open>MemoryPool\<close> (\<open>include/memory/MemoryPool.h\<close>). Each thread has its own free lists and
  counters; \<open>freeListSize_\<close> is a \<open>size_t\<close> that is decremented before the list is looked at and
  may wrap around. The pool is the shared state together with the cache of every thread.

  A ghost map from block addresses to their class and owner (a thread's cache, the central cache,
  the client, or nobody) carries the invariant from which memory safety follows.
\<close>

section \<open>The operations\<close>

record ThreadCache =
  freeList :: "nat \<Rightarrow> addr"
  freeListSize :: "nat \<Rightarrow> size_t"

definition ThreadCache_init :: ThreadCache where
  "ThreadCache_init = \<lparr>freeList = (\<lambda>_. 0), freeListSize = (\<lambda>_. 0)\<rparr>"

definition ThreadCache_fetchFromCentralCache ::
  "mmap_call \<Rightarrow> ThreadCache \<Rightarrow> Shared \<Rightarrow> size_t \<Rightarrow> (ThreadCache \<times> Shared \<times> addr) option" where
  "ThreadCache_fetchFromCentralCache mmap tc s index = do {
     let sz = (index + 1) * ALIGNMENT;
     let batchNum = ThreadCache_getBatchNum sz;
     (s, start) \<leftarrow> CentralCache_fetchRange mmap s index batchNum;
     if start = 0 then Some (tc, s, 0)
     else do {
       let i = unat index;
       let tc = tc\<lparr>freeListSize := (freeListSize tc)(i := freeListSize tc i + batchNum)\<rparr>;
       let result = start;
       tc \<leftarrow> (if 1 < batchNum then do {
                nxt \<leftarrow> load (mem s) start;
                Some (tc\<lparr>freeList := (freeList tc)(i := nxt)\<rparr>)
              } else Some tc);
       Some (tc, s, result)
     }
   }"

text \<open>Requests above \<open>MAX_BYTES\<close> go to \<open>malloc\<close> and \<open>free\<close>, which are outside the pool.\<close>

definition ThreadCache_allocate ::
  "mmap_call \<Rightarrow> (size_t \<Rightarrow> addr) \<Rightarrow> ThreadCache \<Rightarrow> Shared \<Rightarrow> size_t \<Rightarrow>
   (ThreadCache \<times> Shared \<times> addr) option" where
  "ThreadCache_allocate mmap malloc tc s sz =
     (let sz = (if sz = 0 then ALIGNMENT else sz) in
      if MAX_BYTES < sz then Some (tc, s, malloc sz)
      else do {
        let index = SizeClass_getIndex sz;
        let i = unat index;
        let tc = tc\<lparr>freeListSize := (freeListSize tc)(i := freeListSize tc i - 1)\<rparr>;
        let ptr = freeList tc i;
        if ptr \<noteq> 0 then do {
          nxt \<leftarrow> load (mem s) ptr;
          Some (tc\<lparr>freeList := (freeList tc)(i := nxt)\<rparr>, s, ptr)
        }
        else ThreadCache_fetchFromCentralCache mmap tc s index
      })"

definition ThreadCache_shouldReturnToCentralCache :: "ThreadCache \<Rightarrow> nat \<Rightarrow> bool" where
  "ThreadCache_shouldReturnToCentralCache tc index =
     (let threshold = 64 in threshold < freeListSize tc index)"

text \<open>The loop that looks for the last block to keep; it stops when the list ends early.\<close>

function split_walk :: "heap \<Rightarrow> addr \<Rightarrow> nat \<Rightarrow> nat \<Rightarrow> size_t \<Rightarrow> size_t \<Rightarrow> (addr \<times> size_t) option" where
  "split_walk h splitNode i limit batchNum returnNum =
     (if i < limit then do {
        splitNode \<leftarrow> load h splitNode;
        if splitNode = 0 then Some (splitNode, batchNum - of_nat (i + 1))
        else split_walk h splitNode (i + 1) limit batchNum returnNum
      } else Some (splitNode, returnNum))"
  by pat_completeness auto
termination
  by (relation "measure (\<lambda>(h, splitNode, i, limit, batchNum, returnNum). limit - i)") auto

declare split_walk.simps [simp del]

definition ThreadCache_returnToCentralCache ::
  "ThreadCache \<Rightarrow> Shared \<Rightarrow> addr \<Rightarrow> size_t \<Rightarrow> (ThreadCache \<times> Shared) option" where
  "ThreadCache_returnToCentralCache tc s start sz =
     (let index = SizeClass_getIndex sz;
          i = unat index;
          alignedSize = SizeClass_roundUp sz;
          batchNum = freeListSize tc i in
      if batchNum \<le> 1 then Some (tc, s)
      else do {
        let keepNum = max (batchNum div 4) 1;
        let returnNum = batchNum - keepNum;
        (splitNode, returnNum) \<leftarrow>
          split_walk (mem s) start 0 (unat (keepNum - 1)) batchNum returnNum;
        if splitNode \<noteq> 0 then do {
          nextNode \<leftarrow> load (mem s) splitNode;
          h \<leftarrow> store (mem s) splitNode 0;
          let s = s\<lparr>mem := h\<rparr>;
          let tc = tc\<lparr>freeList := (freeList tc)(i := start),
                      freeListSize := (freeListSize tc)(i := keepNum)\<rparr>;
          s \<leftarrow> (if 0 < returnNum \<and> nextNode \<noteq> 0
                then CentralCache_returnRange s nextNode (returnNum * alignedSize) index
                else Some s);
          Some (tc, s)
        } else Some (tc, s)
      })"

definition ThreadCache_deallocate ::
  "ThreadCache \<Rightarrow> Shared \<Rightarrow> addr \<Rightarrow> size_t \<Rightarrow> (ThreadCache \<times> Shared) option" where
  "ThreadCache_deallocate tc s ptr sz =
     (if MAX_BYTES < sz then Some (tc, s)
      else do {
        let i = unat (SizeClass_getIndex sz);
        h \<leftarrow> store (mem s) ptr (freeList tc i);
        let s = s\<lparr>mem := h\<rparr>;
        let tc = tc\<lparr>freeList := (freeList tc)(i := ptr),
                    freeListSize := (freeListSize tc)(i := freeListSize tc i + 1)\<rparr>;
        if ThreadCache_shouldReturnToCentralCache tc i
        then ThreadCache_returnToCentralCache tc s (freeList tc i) sz
        else Some (tc, s)
      })"

record Pool =
  shared :: Shared
  caches :: "nat \<Rightarrow> ThreadCache"

definition Pool_init :: "heap \<Rightarrow> Pool" where
  "Pool_init h = \<lparr>shared = CentralCache_init h, caches = (\<lambda>_. ThreadCache_init)\<rparr>"

definition MemoryPool_allocate ::
  "mmap_call \<Rightarrow> (size_t \<Rightarrow> addr) \<Rightarrow> nat \<Rightarrow> Pool \<Rightarrow> size_t \<Rightarrow> (Pool \<times> addr) option" where
  "MemoryPool_allocate mmap malloc t P sz = do {
     (tc, s, ptr) \<leftarrow> ThreadCache_allocate mmap malloc (caches P t) (shared P) sz;
     Some (\<lparr>shared = s, caches = (caches P)(t := tc)\<rparr>, ptr)
   }"

definition MemoryPool_deallocate :: "nat \<Rightarrow> Pool \<Rightarrow> addr \<Rightarrow> size_t \<Rightarrow> Pool option" where
  "MemoryPool_deallocate t P ptr sz = do {
     (tc, s) \<leftarrow> ThreadCache_deallocate (caches P t) (shared P) ptr sz;
     Some \<lparr>shared = s, caches = (caches P)(t := tc)\<rparr>
   }"

section \<open>Ownership of blocks\<close>

datatype owner = Cached nat | Central | Live | Leaked

type_synonym ownership = "addr \<rightharpoonup> nat \<times> owner"

definition block_cells :: "addr \<Rightarrow> nat \<Rightarrow> addr set" where
  "block_cells a i = {a..<a + class_bytes i}"

definition owned :: "ownership \<Rightarrow> nat \<times> owner \<Rightarrow> addr set" where
  "owned own w = {a. own a = Some w}"

definition blocks_ok :: "heap \<Rightarrow> ownership \<Rightarrow> bool" where
  "blocks_ok h own \<longleftrightarrow>
     (\<forall>a i w. own a = Some (i, w) \<longrightarrow> 0 < a \<and> block_cells a i \<subseteq> dom h) \<and>
     (\<forall>a b i j w v. own a = Some (i, w) \<and> own b = Some (j, v) \<and> a \<noteq> b \<longrightarrow>
        block_cells a i \<inter> block_cells b j = {})"

definition list_of :: "ownership \<Rightarrow> nat \<times> owner \<Rightarrow> heap \<Rightarrow> addr \<Rightarrow> bool" where
  "list_of own w h p \<longleftrightarrow> (\<exists>xs. chain h p xs \<and> set xs = owned own w)"

definition pool_inv :: "ownership \<Rightarrow> Pool \<Rightarrow> bool" where
  "pool_inv own P \<longleftrightarrow>
     blocks_ok (mem (shared P)) own \<and> freeSpans (pages (shared P)) = [] \<and>
     (\<forall>t i. list_of own (i, Cached t) (mem (shared P)) (freeList (caches P t) i)) \<and>
     (\<forall>i. list_of own (i, Central) (mem (shared P)) (centralFreeList (shared P) i))"

lemma class_bytes_pos [simp]: "0 < class_bytes i"
  by (simp add: class_bytes_def)

lemma block_cells_first [simp]: "a \<in> block_cells a i"
  by (simp add: block_cells_def)

lemma pool_invD:
  assumes "pool_inv own P"
  shows "blocks_ok (mem (shared P)) own" and "freeSpans (pages (shared P)) = []"
    and "list_of own (i, Cached t) (mem (shared P)) (freeList (caches P t) i)"
    and "list_of own (i, Central) (mem (shared P)) (centralFreeList (shared P) i)"
  using assms by (auto simp: pool_inv_def)

lemma pool_inv_init: "pool_inv Map.empty (Pool_init h)"
  by (auto simp: pool_inv_def blocks_ok_def list_of_def owned_def Pool_init_def
      CentralCache_init_def ThreadCache_init_def PageCache_init_def)

lemma owned_disjoint: "w \<noteq> v \<Longrightarrow> owned own w \<inter> owned own v = {}"
  by (auto simp: owned_def)

lemma blocks_ok_owned: "blocks_ok h own \<Longrightarrow> owned own w \<subseteq> dom h"
  unfolding blocks_ok_def owned_def using block_cells_first by (cases w) blast

text \<open>A list survives every change of the heap and of the ghost map outside its own blocks.\<close>

lemma list_of_frame:
  assumes "list_of own w h p" and "owned own' w = owned own w"
    and "\<forall>a \<in> owned own w. h' a = h a"
  shows "list_of own' w h' p"
  using assms unfolding list_of_def by (metis path_frame)

text \<open>Blocks keep their class when they change hands, in a heap that only grows.\<close>

lemma blocks_ok_reassign:
  assumes "blocks_ok h own" and "dom h \<subseteq> dom h'"
    and "\<forall>a i w. own' a = Some (i, w) \<longrightarrow> (\<exists>v. own a = Some (i, v))"
  shows "blocks_ok h' own'"
  unfolding blocks_ok_def
proof (intro conjI allI impI)
  fix a i w
  assume "own' a = Some (i, w)"
  then obtain v where "own a = Some (i, v)" using assms(3) by blast
  with assms(1,2) show "0 < a" "block_cells a i \<subseteq> dom h'"
    unfolding blocks_ok_def by blast+
next
  fix a b i j w v
  assume "own' a = Some (i, w) \<and> own' b = Some (j, v) \<and> a \<noteq> b"
  moreover from this obtain w' v' where "own a = Some (i, w')" "own b = Some (j, v')"
    using assms(3) by blast
  ultimately show "block_cells a i \<inter> block_cells b j = {}"
    using assms(1) unfolding blocks_ok_def by blast
qed

lemma in_rowE:
  assumes "a \<in> set (row b n 0 m)"
  obtains k where "a = b + k * n" and "k < m"
  using assms unfolding set_row by (elim imageE) (auto intro: that)

lemma row_cells_inside:
  assumes "a = b + k * class_bytes i" and "k < n"
  shows "block_cells a i \<subseteq> {b..<b + n * class_bytes i}"
proof -
  have "Suc k * class_bytes i \<le> n * class_bytes i"
    using assms(2) by (intro mult_le_mono1) simp
  then show ?thesis using assms(1) by (auto simp: block_cells_def)
qed

lemma row_cells_disjoint:
  assumes "k < l"
  shows "block_cells (b + k * class_bytes i) i \<inter> block_cells (b + l * class_bytes i) i = {}"
proof -
  have "Suc k * class_bytes i \<le> l * class_bytes i"
    using assms by (intro mult_le_mono1) simp
  then show ?thesis by (auto simp: block_cells_def)
qed

lemma blocks_ok_fresh:
  assumes ok: "blocks_ok h own" and dom: "dom h \<subseteq> dom h'"
    and fresh: "fresh_row h h' (class_bytes i) fresh"
  shows "blocks_ok h' (\<lambda>a. if a \<in> set fresh then Some (i, w) else own a)"
proof -
  obtain b n where b: "fresh = row b (class_bytes i) 0 n" "0 < n \<longrightarrow> 0 < b"
      "\<forall>x. b \<le> x \<and> x < b + n * class_bytes i \<longrightarrow> h x = None \<and> x \<in> dom h'"
    using fresh unfolding fresh_row_def by blast
  have new: "0 < a \<and> block_cells a i \<subseteq> dom h' \<and> block_cells a i \<inter> dom h = {}" if f: "a \<in> set fresh" for a
  proof -
    obtain k where k: "a = b + k * class_bytes i" "k < n"
      using f unfolding b(1) by (rule in_rowE)
    then have "block_cells a i \<subseteq> {b..<b + n * class_bytes i}" by (rule row_cells_inside)
    then have "x \<in> {b..<b + n * class_bytes i}" if "x \<in> block_cells a i" for x
      using that by (rule subsetD)
    then have cells: "h x = None \<and> x \<in> dom h'" if "x \<in> block_cells a i" for x
      using that b(3) by (metis atLeastLessThan_iff)
    have "0 < b" using k(2) b(2) by simp
    then have "0 < a" using k(1) by simp
    moreover have "block_cells a i \<subseteq> dom h'" using cells by (intro subsetI) simp
    moreover have "x \<notin> dom h" if "x \<in> block_cells a i" for x
      using cells [OF that] by (simp add: domIff)
    ultimately show ?thesis by (simp add: disjoint_iff)
  qed
  have two: "block_cells a i \<inter> block_cells c i = {}"
    if ac: "a \<in> set fresh" "c \<in> set fresh" "a \<noteq> c" for a c
  proof -
    obtain k l where "a = b + k * class_bytes i" "c = b + l * class_bytes i"
      using ac(1,2) unfolding b(1) by (elim in_rowE)
    moreover from this have "k < l \<or> l < k" using ac(3) by (cases k l rule: linorder_cases) auto
    ultimately show ?thesis using row_cells_disjoint by (metis Int_commute)
  qed
  have old: "0 < a \<and> block_cells a j \<subseteq> dom h" if "own a = Some (j, v)" for a j v
    using ok that unfolding blocks_ok_def by blast
  show ?thesis
    unfolding blocks_ok_def
  proof (intro conjI allI impI)
    fix a j v
    assume "(if a \<in> set fresh then Some (i, w) else own a) = Some (j, v)"
    then show "0 < a" "block_cells a j \<subseteq> dom h'"
      using new [of a] old [of a j v] dom by (simp_all split: if_splits) (blast intro: order_trans)+
  next
    fix a c j l v u
    assume *: "(if a \<in> set fresh then Some (i, w) else own a) = Some (j, v) \<and>
      (if c \<in> set fresh then Some (i, w) else own c) = Some (l, u) \<and> a \<noteq> c"
    show "block_cells a j \<inter> block_cells c l = {}"
    proof (cases "a \<in> set fresh"; cases "c \<in> set fresh")
      assume "a \<in> set fresh" "c \<in> set fresh"
      with * two show ?thesis by auto
    next
      assume "a \<in> set fresh" "c \<notin> set fresh"
      with * new [of a] old [of c l u] show ?thesis by auto
    next
      assume "a \<notin> set fresh" "c \<in> set fresh"
      with * new [of c] old [of a j v] show ?thesis by auto
    next
      assume "a \<notin> set fresh" "c \<notin> set fresh"
      with * ok show ?thesis unfolding blocks_ok_def by auto
    qed
  qed
qed

section \<open>Allocation keeps the invariant\<close>

text \<open>The blocks in the hands of the client, with their classes.\<close>

definition live_of :: "ownership \<Rightarrow> addr \<rightharpoonup> nat" where
  "live_of own a = (case own a of Some (i, Live) \<Rightarrow> Some i | _ \<Rightarrow> None)"

lemma live_of_Some [simp]: "live_of own a = Some i \<longleftrightarrow> own a = Some (i, Live)"
  by (auto simp: live_of_def split: option.splits prod.splits owner.splits)

lemma live_of_None: "live_of own a = None \<longleftrightarrow> (\<forall>i. own a \<noteq> Some (i, Live))"
  using live_of_Some by (metis not_Some_eq)

lemma live_of_cong: "(own a = own' a) \<Longrightarrow> live_of own a = live_of own' a"
  by (simp add: live_of_def)

text \<open>Blocks that are not live may be written without touching what the client stored.\<close>

lemma live_cells_untouched:
  assumes "blocks_ok h own" and "own a = Some (i, Live)" and "x \<in> block_cells a i"
    and "w \<noteq> Live" and "own b = Some (j, w)"
  shows "x \<noteq> b"
proof
  assume "x = b"
  moreover have "a \<noteq> b" using assms(2,4,5) by auto
  ultimately show False
    using assms block_cells_first [of b j] unfolding blocks_ok_def by blast
qed

definition keeps_live :: "(addr \<rightharpoonup> nat) \<Rightarrow> heap \<Rightarrow> heap \<Rightarrow> bool" where
  "keeps_live live h h' \<longleftrightarrow> (\<forall>a i. live a = Some i \<longrightarrow> (\<forall>x \<in> block_cells a i. h' x = h x))"

lemma keeps_live_refl [simp]: "keeps_live live h h"
  by (simp add: keeps_live_def)

lemma keeps_liveI:
  assumes "blocks_ok h own"
    and "\<And>x. x \<in> dom h \<Longrightarrow> \<not> (\<exists>j w. own x = Some (j, w) \<and> w \<noteq> Live) \<Longrightarrow> h' x = h x"
  shows "keeps_live (live_of own) h h'"
  unfolding keeps_live_def
proof (intro allI impI ballI)
  fix a i x
  assume "live_of own a = Some i" and x: "x \<in> block_cells a i"
  then have a: "own a = Some (i, Live)" by simp
  with x have "x \<in> dom h" using assms(1) unfolding blocks_ok_def by blast
  moreover have "\<not> (\<exists>j w. own x = Some (j, w) \<and> w \<noteq> Live)"
    using live_cells_untouched [OF assms(1) a x] by blast
  ultimately show "h' x = h x" by (rule assms(2))
qed

lemma pool_invI:
  assumes "blocks_ok (mem s) own" and "freeSpans (pages s) = []"
    and "\<And>t i. list_of own (i, Cached t) (mem s) (freeList (cs t) i)"
    and "\<And>i. list_of own (i, Central) (mem s) (centralFreeList s i)"
  shows "pool_inv own \<lparr>shared = s, caches = cs\<rparr>"
  using assms by (simp add: pool_inv_def)

text \<open>
  Every operation of thread \<open>t\<close> on class \<open>i\<close> touches two lists only: it keeps the invariant when
  the lists and blocks of the other threads and classes stay as they were.
\<close>

lemma pool_inv_step:
  assumes inv: "pool_inv own P"
    and ok: "blocks_ok (mem s') own'" and fs: "freeSpans (pages s') = []"
    and elsewhere: "\<And>w. w \<noteq> (i, Cached t) \<Longrightarrow> w \<noteq> (i, Central) \<Longrightarrow> w \<noteq> (i, Live) \<Longrightarrow>
      w \<noteq> (i, Leaked) \<Longrightarrow>
      owned own' w = owned own w \<and> (\<forall>a \<in> owned own w. mem s' a = mem (shared P) a)"
    and fl: "\<And>j. j \<noteq> i \<Longrightarrow> freeList tc j = freeList (caches P t) j"
    and cl: "\<And>j. j \<noteq> i \<Longrightarrow> centralFreeList s' j = centralFreeList (shared P) j"
    and mine: "list_of own' (i, Cached t) (mem s') (freeList tc i)"
    and cent: "list_of own' (i, Central) (mem s') (centralFreeList s' i)"
  shows "pool_inv own' \<lparr>shared = s', caches = (caches P)(t := tc)\<rparr>"
proof (rule pool_invI [OF ok fs])
  fix u j
  show "list_of own' (j, Cached u) (mem s') (freeList (((caches P)(t := tc)) u) j)"
  proof (cases "u = t \<and> j = i")
    case True
    with mine show ?thesis by simp
  next
    case False
    then have "freeList (((caches P)(t := tc)) u) j = freeList (caches P u) j"
      by (auto simp: fl)
    then show ?thesis
      using list_of_frame [OF pool_invD(3) [OF inv, of j u], of own' "mem s'"]
        elsewhere [of "(j, Cached u)"] False by auto
  qed
next
  fix j
  show "list_of own' (j, Central) (mem s') (centralFreeList s' j)"
  proof (cases "j = i")
    case True
    with cent show ?thesis by simp
  next
    case False
    then show ?thesis
      using list_of_frame [OF pool_invD(4) [OF inv, of j], of own' "mem s'"]
        elsewhere [of "(j, Central)"] cl by auto
  qed
qed

text \<open>Taking the first block of a thread's own list.\<close>

lemma allocate_local_inv:
  assumes inv: "pool_inv own P" and p: "freeList (caches P t) i = p" "p \<noteq> 0"
    and fl: "freeList tc = (freeList (caches P t))(i := r)" and r: "mem (shared P) p = Some r"
  defines "own' \<equiv> own(p \<mapsto> (i, Live))"
  shows "pool_inv own' \<lparr>shared = shared P, caches = (caches P)(t := tc)\<rparr>"
    and "own p = Some (i, Cached t)"
proof -
  let ?h = "mem (shared P)"
  obtain ys where ys: "chain ?h p ys" "set ys = owned own (i, Cached t)"
    using pool_invD(3) [OF inv, of i t] p(1) unfolding list_of_def by blast
  from chain_Cons_ex [OF p(2) ys(1)] r obtain xs where xs: "ys = p # xs" "chain ?h r xs"
    by auto
  then have "p \<in> owned own (i, Cached t)" using ys(2) by auto
  then show own: "own p = Some (i, Cached t)" by (simp add: owned_def)
  have "p \<notin> set xs" using chain_distinct [OF ys(1)] xs(1) by simp
  then have mine: "owned own' (i, Cached t) = set xs"
    using ys(2) xs(1) by (auto simp: owned_def own'_def split: if_splits)
  have other: "owned own' w = owned own w" if "w \<noteq> (i, Cached t)" "w \<noteq> (i, Live)" for w
    using that own by (auto simp: owned_def own'_def)
  show "pool_inv own' \<lparr>shared = shared P, caches = (caches P)(t := tc)\<rparr>"
  proof (rule pool_inv_step [OF inv, where i = i])
    show "blocks_ok ?h own'"
      by (rule blocks_ok_reassign [OF pool_invD(1) [OF inv]]) (use own in \<open>auto simp: own'_def\<close>)
    show "list_of own' (i, Cached t) ?h (freeList tc i)"
      using xs(2) mine by (auto simp: list_of_def fl)
    show "list_of own' (i, Central) ?h (centralFreeList (shared P) i)"
      using list_of_frame [OF pool_invD(4) [OF inv, of i], of own' ?h] other by auto
  qed (use other fl pool_invD(2) [OF inv] in auto)
qed

text \<open>Taking a batch from the central cache: the first block for the client, the rest cached.\<close>

definition fetch_own :: "ownership \<Rightarrow> nat \<Rightarrow> nat \<Rightarrow> addr \<Rightarrow> addr list \<Rightarrow> addr list \<Rightarrow> ownership" where
  "fetch_own own t i p xs zs = (\<lambda>a. if a = p \<and> p \<noteq> 0 then Some (i, Live)
     else if a \<in> set xs then Some (i, Cached t)
     else if a \<in> set zs then Some (i, Central) else own a)"

lemma fetch_own_blocks_ok:
  assumes "blocks_ok (mem s) own" and "set ys = owned own (i, Central)"
    and f: "fetched s s' i p ys xs zs fresh"
  shows "blocks_ok (mem s') (fetch_own own t i p xs zs)"
proof -
  let ?mid = "\<lambda>a. if a \<in> set fresh then Some (i, Live) else own a"
  have sets: "set xs \<union> set zs = set ys \<union> set fresh" using f by (simp add: fetched_def)
  have "blocks_ok (mem s') ?mid"
    by (rule blocks_ok_fresh [OF assms(1)]) (use f in \<open>simp_all add: fetched_def\<close>)
  then show ?thesis
  proof (rule blocks_ok_reassign [OF _ order_refl])
    have p: "p \<in> set xs" if "p \<noteq> 0"
      using f that unfolding fetched_def by (blast intro: chain_head_in)
    show "\<forall>a j w. fetch_own own t i p xs zs a = Some (j, w) \<longrightarrow> (\<exists>v. ?mid a = Some (j, v))"
    proof (intro allI impI)
      fix a j w
      assume a: "fetch_own own t i p xs zs a = Some (j, w)"
      show "\<exists>v. ?mid a = Some (j, v)"
      proof (cases "a \<in> set xs \<union> set zs")
        case True
        then have "j = i" using a p by (auto simp: fetch_own_def split: if_splits)
        moreover have "a \<in> set fresh \<or> own a = Some (i, Central)"
          using True sets assms(2) by (auto simp: owned_def)
        ultimately show ?thesis by auto
      next
        case False
        moreover from this have "a \<notin> set fresh" using sets by blast
        ultimately show ?thesis using a p by (auto simp: fetch_own_def split: if_splits)
      qed
    qed
  qed
qed

lemma fetch_inv:
  assumes inv: "pool_inv own P" and ys: "set ys = owned own (i, Central)"
    and f: "fetched (shared P) s' i p ys xs zs fresh"
    and empty: "freeList (caches P t) i = 0"
    and fl: "freeList tc = (freeList (caches P t))(i := q)"
    and q: "if p = 0 then q = 0 else mem s' p = Some q"
  shows "pool_inv (fetch_own own t i p xs zs) \<lparr>shared = s', caches = (caches P)(t := tc)\<rparr>"
    and "keeps_live (live_of own) (mem (shared P)) (mem s')"
    and "p \<noteq> 0 \<Longrightarrow> \<forall>j. own p \<noteq> Some (j, Live)"
    and "a \<in> set xs \<union> set zs \<Longrightarrow> \<forall>j. own a \<noteq> Some (j, Live)"
proof -
  let ?h = "mem (shared P)" and ?own = "fetch_own own t i p xs zs"
  have sets: "set xs \<union> set zs = set ys \<union> set fresh" "set xs \<inter> set zs = {}"
    and ch: "chain (mem s') p xs" "chain (mem s') (centralFreeList s' i) zs"
    and same: "\<And>x. x \<in> dom ?h \<Longrightarrow> x \<notin> set ys \<Longrightarrow> mem s' x = ?h x"
    and fs: "freeSpans (pages s') = []"
    and cl: "\<And>j. j \<noteq> i \<Longrightarrow> centralFreeList s' j = centralFreeList (shared P) j"
    and fr: "fresh_row ?h (mem s') (class_bytes i) fresh"
    using f by (auto simp: fetched_def)
  have ok: "blocks_ok ?h own" by (rule pool_invD(1) [OF inv])
  have fresh_new: "own a = None" if new: "a \<in> set fresh" for a
  proof -
    obtain b n where b: "fresh = row b (class_bytes i) 0 n"
        "\<forall>x. b \<le> x \<and> x < b + n * class_bytes i \<longrightarrow> ?h x = None \<and> x \<in> dom (mem s')"
      using fr unfolding fresh_row_def by blast
    obtain k where "a = b + k * class_bytes i" "k < n"
      using new unfolding b(1) by (rule in_rowE)
    then have "a \<in> {b..<b + n * class_bytes i}"
      using row_cells_inside block_cells_first by blast
    then have "?h a = None" using b(2) by simp
    then show ?thesis
      using ok block_cells_first unfolding blocks_ok_def by (metis domIff not_Some_eq subsetD surj_pair)
  qed
  have moved: "own a = None \<or> own a = Some (i, Central)" if "a \<in> set xs \<union> set zs" for a
    using that sets(1) ys fresh_new by (auto simp: owned_def)
  have p: "p \<in> set xs" if "p \<noteq> 0" using ch(1) that by (rule chain_head_in [rotated])
  show "p \<noteq> 0 \<Longrightarrow> \<forall>j. own p \<noteq> Some (j, Live)"
    using p moved [of p] by auto
  show "a \<in> set xs \<union> set zs \<Longrightarrow> \<forall>j. own a \<noteq> Some (j, Live)"
    using moved [of a] by auto
  show "keeps_live (live_of own) ?h (mem s')"
    by (rule keeps_liveI [OF ok]) (use same ys in \<open>auto simp: owned_def\<close>)
  obtain xs' where xs': "xs = (if p = 0 then [] else p # xs')" "chain (mem s') q xs'"
  proof (cases "p = 0")
    case True
    with ch(1) q that [of "[]"] show ?thesis by simp
  next
    case False
    with chain_Cons_ex [OF False ch(1)] q that show ?thesis by auto
  qed
  have none: "owned own (i, Cached t) = {}"
    using pool_invD(3) [OF inv, of i t] empty by (auto simp: list_of_def)
  have "p \<noteq> 0 \<Longrightarrow> p \<notin> set xs'" using chain_distinct [OF ch(1)] xs'(1) by auto
  moreover have "p = 0 \<Longrightarrow> xs' = []" using xs'(2) q by simp
  ultimately have mine: "owned ?own (i, Cached t) = set xs'"
    using none sets(2) xs'(1) unfolding owned_def fetch_own_def
    by (auto split: if_splits)
  have cent: "owned ?own (i, Central) = set zs"
  proof -
    have "own a \<noteq> Some (i, Central)" if "a \<notin> set xs \<union> set zs" for a
      using that sets(1) ys by (auto simp: owned_def)
    then show ?thesis
      using sets(2) p unfolding owned_def fetch_own_def by (auto split: if_splits)
  qed
  have other: "owned ?own w = owned own w"
    if "w \<noteq> (i, Cached t)" "w \<noteq> (i, Central)" "w \<noteq> (i, Live)" for w
  proof -
    have "fetch_own own t i p xs zs a = Some w \<longleftrightarrow> own a = Some w" for a
    proof (cases "a \<in> set xs \<union> set zs")
      case True
      then show ?thesis using moved [OF True] that by (auto simp: fetch_own_def)
    next
      case False
      then show ?thesis using p by (auto simp: fetch_own_def)
    qed
    then show ?thesis by (simp add: owned_def)
  qed
  have frame: "\<forall>a \<in> owned own w. mem s' a = ?h a" if "w \<noteq> (i, Central)" for w
  proof
    fix a
    assume a: "a \<in> owned own w"
    then have "a \<in> dom ?h" using blocks_ok_owned [OF ok] by blast
    moreover have "a \<notin> set ys" using a that ys by (auto simp: owned_def)
    ultimately show "mem s' a = ?h a" by (rule same)
  qed
  show "pool_inv ?own \<lparr>shared = s', caches = (caches P)(t := tc)\<rparr>"
  proof (rule pool_inv_step [OF inv, where i = i])
    show "blocks_ok (mem s') ?own" by (rule fetch_own_blocks_ok [OF ok ys f])
    show "list_of ?own (i, Cached t) (mem s') (freeList tc i)"
      using xs'(2) mine by (auto simp: list_of_def fl)
    show "list_of ?own (i, Central) (mem s') (centralFreeList s' i)"
      using ch(2) cent by (auto simp: list_of_def)
  qed (use other frame fl cl fs in auto)
qed

section \<open>Returning blocks\<close>

lemma split_walk_chain:
  assumes "chain h p ys" and "p \<noteq> 0"
  shows "split_walk h p i limit batchNum returnNum =
    (if limit - i < length ys then Some (ys ! (limit - i), returnNum)
     else Some (0, batchNum - of_nat (i + length ys)))"
  using assms
proof (induction h p i limit batchNum returnNum arbitrary: ys rule: split_walk.induct)
  case (1 h p i limit batchNum returnNum)
  obtain r xs where xs: "ys = p # xs" "h p = Some r" "chain h r xs"
    using chain_Cons_ex [OF "1.prems"(2,1)] by blast
  show ?case
  proof (cases "i < limit")
    case False
    then show ?thesis using xs by (subst split_walk.simps) simp
  next
    case True
    then have limit: "limit - i = Suc (limit - (i + 1))" by simp
    show ?thesis
    proof (cases "r = 0")
      case True
      then show ?thesis using xs \<open>i < limit\<close> by (subst split_walk.simps) (simp add: load_def)
    next
      case False
      then show ?thesis
        using "1.IH" [OF \<open>i < limit\<close>, of r xs] xs True limit
        by (subst split_walk.simps) (simp add: load_def)
    qed
  qed
qed

text \<open>
  What \<open>returnToCentralCache\<close> does with the list of a class: the first part stays, the next goes
  in front of the central list, and whatever the byte count handed to \<open>returnRange\<close> does not cover
  is lost.
\<close>

definition given_back ::
  "ThreadCache \<Rightarrow> Shared \<Rightarrow> ThreadCache \<Rightarrow> Shared \<Rightarrow> nat \<Rightarrow> addr list \<Rightarrow> addr list \<Rightarrow> addr list \<Rightarrow> addr list \<Rightarrow> addr list \<Rightarrow> bool" where
  "given_back tc s tc' s' i ys cs kept ret lost \<longleftrightarrow>
     ys = kept @ ret @ lost \<and>
     chain (mem s') (freeList tc' i) kept \<and>
     chain (mem s') (centralFreeList s' i) (ret @ cs) \<and>
     (\<forall>j. j \<noteq> i \<longrightarrow> freeList tc' j = freeList tc j) \<and>
     (\<forall>j. j \<noteq> i \<longrightarrow> centralFreeList s' j = centralFreeList s j) \<and>
     pages s' = pages s \<and> dom (mem s') = dom (mem s) \<and>
     (\<forall>x. x \<notin> set ys \<longrightarrow> mem s' x = mem s x)"

lemma given_back_nothing:
  assumes "chain (mem s) (freeList tc i) ys" and "chain (mem s) (centralFreeList s i) cs"
  shows "given_back tc s tc s i ys cs ys [] []"
  using assms by (simp add: given_back_def)

text \<open>The cut itself, and the part behind it.\<close>

lemma given_back_cut:
  assumes ys: "chain (mem s) start ys" and j: "j < length ys" and fl: "freeList tc' i = start"
    and cs: "chain (mem s) (centralFreeList s i) cs" "set ys \<inter> set cs = {}"
    and idx: "index < FREE_LIST_SIZE" "unat index = i"
    and others: "\<forall>k. k \<noteq> i \<longrightarrow> freeList tc' k = freeList tc k"
    and r: "mem s (ys ! j) = Some r"
  shows "\<exists>s'. (if r \<noteq> 0 then CentralCache_returnRange (s\<lparr>mem := (mem s)(ys ! j \<mapsto> 0)\<rparr>) r sz index
               else Some (s\<lparr>mem := (mem s)(ys ! j \<mapsto> 0)\<rparr>)) = Some s' \<and>
     given_back tc s tc' s' i ys cs (take (Suc j) ys)
       (take (max 1 (unat sz)) (drop (Suc j) ys)) (drop (max 1 (unat sz)) (drop (Suc j) ys))"
proof -
  let ?e = "ys ! j" and ?h = "(mem s)(ys ! j \<mapsto> 0)" and ?rest = "drop (Suc j) ys"
  let ?s = "s\<lparr>mem := ?h\<rparr>" and ?m = "max 1 (unat sz)"
  have split: "ys = take j ys @ ?e # ?rest" by (rule id_take_nth_drop [OF j])
  have kept: "chain ?h start (take (Suc j) ys)"
    using chain_cut(1) [of "mem s" start "take j ys" ?e ?rest] ys split
    by (simp add: take_Suc_conv_app_nth [OF j])
  have rest: "chain ?h r ?rest"
    using chain_cut(2) [of "mem s" start "take j ys" ?e ?rest] ys split r by auto
  have e: "?e \<in> set ys" "?e \<in> dom (mem s)" using j r by auto
  have cs': "chain ?h (centralFreeList s i) cs"
    using cs e(1) by (subst path_upd) auto
  have parts: "ys = take (Suc j) ys @ take ?m ?rest @ drop ?m ?rest"
    by (simp only: append_take_drop_id)
  show ?thesis
  proof (cases "r = 0")
    case True
    with rest have "?rest = []" by simp
    then show ?thesis
      using True kept cs' e parts fl others by (auto simp: given_back_def)
  next
    case False
    have dis: "set ?rest \<inter> set cs = {}" using cs(2) by (auto dest: in_set_dropD)
    obtain h' where h': "CentralCache_returnRange ?s r sz index =
          Some (?s\<lparr>mem := h', centralFreeList := (centralFreeList ?s)(i := r)\<rparr>)"
        "chain h' r (take ?m ?rest @ cs)" "dom h' = dom ?h"
        "\<forall>x. x \<notin> set ?rest \<longrightarrow> h' x = ?h x"
      using returnRange_spec [OF idx(1) False, of ?s ?rest cs sz] rest cs' dis idx(2) by auto
    have "distinct ys" using ys by (rule chain_distinct)
    then have "set (take (Suc j) ys) \<inter> set ?rest = {}"
      by (simp add: set_take_disj_set_drop_if_distinct)
    then have "chain h' start (take (Suc j) ys)"
      using kept h'(4) by (subst path_frame [where h' = ?h]) auto
    moreover have "h' x = mem s x" if "x \<notin> set ys" for x
      using h'(4) that e by (auto dest: in_set_dropD)
    ultimately show ?thesis
      using False h'(1-3) e parts fl others by (auto simp: given_back_def)
  qed
qed

lemma unat_keepNum: "unat (max (b div 4) (1 :: size_t)) = max (unat b div 4) 1"
  by (simp add: max_def word_le_nat_alt unat_div)

lemma some_returned:
  assumes "\<not> b \<le> (1 :: size_t)"
  shows "0 < b - max (b div 4) 1"
proof -
  have "1 < unat b" using assms by (simp add: word_le_nat_alt)
  then have "max (unat b div 4) 1 < unat b" by auto
  then show ?thesis
    using unat_keepNum [of b] by (metis unat_gt_0 eq_iff_diff_eq_0 less_irrefl word_gt_0)
qed

text \<open>Where the list is split, in terms of the counter, which may differ from the list's length.\<close>

definition return_split :: "size_t \<Rightarrow> size_t \<Rightarrow> addr list \<Rightarrow> addr list \<Rightarrow> addr list \<Rightarrow> addr list \<Rightarrow> bool" where
  "return_split b sz ys kept ret lost \<longleftrightarrow>
     (let k = max (b div 4) 1; n = max 1 (unat ((b - k) * SizeClass_roundUp sz)) in
      if b \<le> 1 \<or> length ys < unat k then kept = ys \<and> ret = [] \<and> lost = []
      else kept = take (unat k) ys \<and> ret = take n (drop (unat k) ys) \<and> lost = drop n (drop (unat k) ys))"

lemma returnToCentralCache_spec:
  assumes ys: "chain (mem s) start ys" "start \<noteq> 0" "freeList tc i = start"
    and cs: "chain (mem s) (centralFreeList s i) cs" "set ys \<inter> set cs = {}"
    and sz: "sz \<le> MAX_BYTES" "i = unat (SizeClass_getIndex sz)"
  shows "\<exists>tc' s' kept ret lost. ThreadCache_returnToCentralCache tc s start sz = Some (tc', s') \<and>
     given_back tc s tc' s' i ys cs kept ret lost \<and>
     return_split (freeListSize tc i) sz ys kept ret lost"
proof -
  let ?b = "freeListSize tc i"
  let ?k = "max (?b div 4) 1"
  let ?j = "unat (?k - 1)"
  have Suc: "Suc ?j = unat ?k"
    using unat_keepNum [of ?b] by (subst unat_sub) (simp_all add: word_le_nat_alt)
  let ?tc = "tc\<lparr>freeList := (freeList tc)(i := start), freeListSize := (freeListSize tc)(i := ?k)\<rparr>"
  have idx: "SizeClass_getIndex sz < FREE_LIST_SIZE"
    using getIndex_less [OF sz(1)] by (simp add: word_less_nat_alt)
  note walk = split_walk_chain [OF ys(1,2), of 0 ?j ?b "?b - ?k", simplified]
  note keep = given_back_nothing [OF ys(1) [folded ys(3)] cs(1)]
  consider (few) "?b \<le> 1" | (short) "\<not> ?b \<le> 1" "length ys \<le> ?j" | (cut) "\<not> ?b \<le> 1" "?j < length ys"
    by linarith
  then show ?thesis
  proof cases
    case few
    then have "ThreadCache_returnToCentralCache tc s start sz = Some (tc, s)"
      by (simp add: ThreadCache_returnToCentralCache_def sz(2) Let_def)
    with keep few show ?thesis
      unfolding return_split_def Let_def by (metis (no_types))
  next
    case short
    then have "ThreadCache_returnToCentralCache tc s start sz = Some (tc, s)"
      using walk by (simp add: ThreadCache_returnToCentralCache_def sz(2) Let_def)
    with keep short Suc show ?thesis
      unfolding return_split_def Let_def by (metis (no_types) Suc_le_eq le_imp_less_Suc)
  next
    case cut
    let ?e = "ys ! ?j"
    have e: "?e \<in> set ys" using cut(2) by simp
    then obtain r where r: "mem s ?e = Some r" using path_mapped [OF ys(1)] by blast
    have ne: "?e \<noteq> 0" using e path_nonnull [OF ys(1)] by metis
    let ?n = "(?b - ?k) * SizeClass_roundUp sz"
    have gt: "0 < ?b - ?k" using cut(1) by (rule some_returned)
    from given_back_cut [OF ys(1) cut(2) _ cs idx sz(2) [symmetric], of ?tc tc r ?n] r
    obtain s' where s': "(if r \<noteq> 0 then CentralCache_returnRange (s\<lparr>mem := (mem s)(?e \<mapsto> 0)\<rparr>) r ?n (SizeClass_getIndex sz)
               else Some (s\<lparr>mem := (mem s)(?e \<mapsto> 0)\<rparr>)) = Some s'"
      "given_back tc s ?tc s' i ys cs (take (Suc ?j) ys)
         (take (max 1 (unat ?n)) (drop (Suc ?j) ys)) (drop (max 1 (unat ?n)) (drop (Suc ?j) ys))"
      by auto
    have "ThreadCache_returnToCentralCache tc s start sz = Some (?tc, s')"
      using cut walk ne r gt s'(1)
      by (simp add: ThreadCache_returnToCentralCache_def sz(2) Let_def load_def store_def del: max.absorb1 split: if_splits)
    with s'(2) cut Suc show ?thesis
      unfolding return_split_def Let_def by (metis (no_types) not_less_eq)
  qed
qed

definition return_own :: "ownership \<Rightarrow> nat \<Rightarrow> addr list \<Rightarrow> addr list \<Rightarrow> ownership" where
  "return_own own i ret lost = (\<lambda>a. if a \<in> set ret then Some (i, Central)
     else if a \<in> set lost then Some (i, Leaked) else own a)"

lemma return_inv:
  assumes inv: "pool_inv own P"
    and ys: "set ys = owned own (i, Cached t)" "distinct ys" and cs: "set cs = owned own (i, Central)"
    and g: "given_back (caches P t) (shared P) tc' s' i ys cs kept ret lost"
  shows "pool_inv (return_own own i ret lost) \<lparr>shared = s', caches = (caches P)(t := tc')\<rparr>"
    and "keeps_live (live_of own) (mem (shared P)) (mem s')"
    and "live_of (return_own own i ret lost) = live_of own"
proof -
  let ?h = "mem (shared P)" and ?own = "return_own own i ret lost"
  have ok: "blocks_ok ?h own" by (rule pool_invD(1) [OF inv])
  have parts: "ys = kept @ ret @ lost" and same: "\<forall>x. x \<notin> set ys \<longrightarrow> mem s' x = ?h x"
    and dom: "dom (mem s') = dom ?h"
    and ch: "chain (mem s') (freeList tc' i) kept" "chain (mem s') (centralFreeList s' i) (ret @ cs)"
    and rest: "pages s' = pages (shared P)" "\<And>j. j \<noteq> i \<Longrightarrow> freeList tc' j = freeList (caches P t) j"
      "\<And>j. j \<noteq> i \<Longrightarrow> centralFreeList s' j = centralFreeList (shared P) j"
    using g by (simp_all add: given_back_def)
  have mine: "own a = Some (i, Cached t) \<longleftrightarrow> a \<in> set kept \<union> set ret \<union> set lost" for a
    using ys(1) parts by (auto simp: owned_def)
  have cent: "own a = Some (i, Central) \<longleftrightarrow> a \<in> set cs" for a
    using cs by (auto simp: owned_def)
  have dis: "set kept \<inter> set ret = {}" "set kept \<inter> set lost = {}" "set ret \<inter> set lost = {}"
    using ys(2) parts by auto
  have other: "owned ?own w = owned own w"
    if "w \<noteq> (i, Cached t)" "w \<noteq> (i, Central)" "w \<noteq> (i, Leaked)" for w
  proof -
    have "?own a = Some w \<longleftrightarrow> own a = Some w" for a
      using that mine [of a] by (auto simp: return_own_def)
    then show ?thesis by (simp add: owned_def)
  qed
  have frame: "\<forall>a \<in> owned own w. mem s' a = ?h a" if "w \<noteq> (i, Cached t)" for w
    using that same ys(1) by (auto simp: owned_def)
  show "live_of ?own = live_of own"
  proof
    fix a
    show "live_of ?own a = live_of own a"
      using mine [of a] by (auto simp: return_own_def live_of_def)
  qed
  show "keeps_live (live_of own) ?h (mem s')"
    by (rule keeps_liveI [OF ok]) (use same mine parts in auto)
  show "pool_inv ?own \<lparr>shared = s', caches = (caches P)(t := tc')\<rparr>"
  proof (rule pool_inv_step [OF inv, where i = i])
    show "blocks_ok (mem s') ?own"
      by (rule blocks_ok_reassign [OF ok])
        (use mine dom in \<open>auto simp: return_own_def split: if_splits\<close>)
    have "owned ?own (i, Cached t) = set kept"
      using mine dis by (auto simp: owned_def return_own_def split: if_splits)
    then show "list_of ?own (i, Cached t) (mem s') (freeList tc' i)"
      using ch(1) by (auto simp: list_of_def)
    have "owned ?own (i, Central) = set (ret @ cs)"
    proof -
      have "a \<notin> set lost" if "a \<in> set cs" for a using mine [of a] cent [of a] that by auto
      then show ?thesis using cent dis by (auto simp: owned_def return_own_def split: if_splits)
    qed
    then show "list_of ?own (i, Central) (mem s') (centralFreeList s' i)"
      using ch(2) unfolding list_of_def by metis
  qed (use other frame rest pool_invD(2) [OF inv] in simp_all)
qed

text \<open>Pushing a block of the client on the list of its class.\<close>

lemma push_inv:
  assumes inv: "pool_inv own P" and own: "own ptr = Some (i, Live)"
    and tc: "freeList tc = (freeList (caches P t))(i := ptr)"
  defines "own' \<equiv> own(ptr \<mapsto> (i, Cached t))"
    and "h' \<equiv> (mem (shared P))(ptr \<mapsto> freeList (caches P t) i)"
  shows "pool_inv own' \<lparr>shared = (shared P)\<lparr>mem := h'\<rparr>, caches = (caches P)(t := tc)\<rparr>"
    and "keeps_live (live_of own') (mem (shared P)) h'"
    and "live_of own' = (live_of own)(ptr := None)"
proof -
  let ?h = "mem (shared P)"
  have ok: "blocks_ok ?h own" by (rule pool_invD(1) [OF inv])
  have ptr: "0 < ptr" "ptr \<in> dom ?h"
    using ok own blocks_ok_owned [OF ok, of "(i, Live)"] by (auto simp: blocks_ok_def owned_def)
  have ok': "blocks_ok ?h own'"
    by (rule blocks_ok_reassign [OF ok]) (use own in \<open>auto simp: own'_def\<close>)
  obtain ys where ys: "chain ?h (freeList (caches P t) i) ys" "set ys = owned own (i, Cached t)"
    using pool_invD(3) [OF inv, of i t] by (auto simp: list_of_def)
  have new: "ptr \<notin> set ys" using ys(2) own by (auto simp: owned_def)
  have other: "owned own' w = owned own w" if "w \<noteq> (i, Cached t)" "w \<noteq> (i, Live)" for w
    using that own by (auto simp: owned_def own'_def)
  have frame: "\<forall>a \<in> owned own w. h' a = ?h a" if "w \<noteq> (i, Live)" for w
    using that own by (auto simp: owned_def h'_def)
  show "pool_inv own' \<lparr>shared = (shared P)\<lparr>mem := h'\<rparr>, caches = (caches P)(t := tc)\<rparr>"
  proof (rule pool_inv_step [OF inv, where i = i])
    show "blocks_ok (mem ((shared P)\<lparr>mem := h'\<rparr>)) own'"
      by (rule blocks_ok_reassign [OF ok']) (use ptr in \<open>auto simp: h'_def\<close>)
    have "chain h' ptr (ptr # ys)" using ys(1) new ptr by (simp add: h'_def)
    moreover have "owned own' (i, Cached t) = set (ptr # ys)"
      using ys(2) by (auto simp: owned_def own'_def)
    ultimately show "list_of own' (i, Cached t) (mem ((shared P)\<lparr>mem := h'\<rparr>)) (freeList tc i)"
      unfolding list_of_def by (intro exI [of _ "ptr # ys"]) (simp add: tc)
    show "list_of own' (i, Central) (mem ((shared P)\<lparr>mem := h'\<rparr>))
        (centralFreeList ((shared P)\<lparr>mem := h'\<rparr>) i)"
      using list_of_frame [OF pool_invD(4) [OF inv, of i] other frame] by simp
  qed (use other frame tc pool_invD(2) [OF inv] in auto)
  show "keeps_live (live_of own') ?h h'"
    by (rule keeps_liveI [OF ok']) (auto simp: own'_def h'_def)
  show "live_of own' = (live_of own)(ptr := None)"
    by (auto simp: own'_def live_of_def)
qed

lemma keeps_live_trans: "keeps_live live h h' \<Longrightarrow> keeps_live live h' h'' \<Longrightarrow> keeps_live live h h''"
  by (simp add: keeps_live_def)

lemma list_ofE:
  assumes "list_of own w h p"
  obtains xs where "chain h p xs" and "set xs = owned own w"
  using assms by (auto simp: list_of_def)

lemma deallocate_inv:
  assumes inv: "pool_inv own P" and sz: "sz \<le> MAX_BYTES"
    and live: "live_of own ptr = Some (unat (SizeClass_getIndex sz))"
  shows "\<exists>P' own'. MemoryPool_deallocate t P ptr sz = Some P' \<and> pool_inv own' P' \<and>
     live_of own' = (live_of own)(ptr := None) \<and>
     keeps_live (live_of own') (mem (shared P)) (mem (shared P'))"
proof -
  define i where "i = unat (SizeClass_getIndex sz)"
  let ?h = "mem (shared P)" and ?tc = "caches P t"
  define h1 where "h1 = ?h(ptr \<mapsto> freeList ?tc i)"
  define tc1 where "tc1 = ?tc\<lparr>freeList := (freeList ?tc)(i := ptr),
    freeListSize := (freeListSize ?tc)(i := freeListSize ?tc i + 1)\<rparr>"
  define s1 where "s1 = (shared P)\<lparr>mem := h1\<rparr>"
  define own1 where "own1 = own(ptr \<mapsto> (i, Cached t))"
  define P1 where "P1 = \<lparr>shared = s1, caches = (caches P)(t := tc1)\<rparr>"
  have own: "own ptr = Some (i, Live)" using live by (simp add: i_def)
  have ptr: "0 < ptr" "ptr \<in> dom ?h"
    using own pool_invD(1) [OF inv] blocks_ok_owned [OF pool_invD(1) [OF inv], of "(i, Live)"]
    by (auto simp: blocks_ok_def owned_def)
  have push: "pool_inv own1 P1" "keeps_live (live_of own1) ?h h1" "live_of own1 = (live_of own)(ptr := None)"
    using push_inv [OF inv own, of tc1 t] by (simp_all add: tc1_def h1_def s1_def own1_def P1_def)
  have step: "MemoryPool_deallocate t P ptr sz =
      (do { (tc, s) \<leftarrow> (if ThreadCache_shouldReturnToCentralCache tc1 i
                       then ThreadCache_returnToCentralCache tc1 s1 ptr sz else Some (tc1, s1));
            Some \<lparr>shared = s, caches = (caches P)(t := tc)\<rparr> })"
    using sz [folded linorder_not_less] store_mapped [OF ptr(2)]
    by (simp add: MemoryPool_deallocate_def ThreadCache_deallocate_def Let_def
        i_def [symmetric] h1_def s1_def tc1_def)
  show ?thesis
  proof (cases "ThreadCache_shouldReturnToCentralCache tc1 i")
    case False
    with step push show ?thesis by (auto simp: P1_def s1_def)
  next
    case True
    obtain ys where ys: "chain h1 ptr ys" "set ys = owned own1 (i, Cached t)"
      using pool_invD(3) [OF push(1), of i t] by (auto simp: P1_def s1_def tc1_def elim: list_ofE)
    obtain cs where cs: "chain h1 (centralFreeList s1 i) cs" "set cs = owned own1 (i, Central)"
      using pool_invD(4) [OF push(1), of i] by (auto simp: P1_def s1_def elim: list_ofE)
    have "set ys \<inter> set cs = {}" unfolding ys(2) cs(2) by (rule owned_disjoint) simp
    then obtain tc' s' kept ret lost where r:
        "ThreadCache_returnToCentralCache tc1 s1 ptr sz = Some (tc', s')"
        "given_back tc1 s1 tc' s' i ys cs kept ret lost"
      using returnToCentralCache_spec [of s1 ptr ys tc1 i cs sz] ys(1) cs(1) ptr(1) sz i_def
      by (fastforce simp: s1_def tc1_def)
    then have "given_back (caches P1 t) (shared P1) tc' s' i ys cs kept ret lost"
      by (simp add: P1_def)
    note ret = return_inv [OF push(1) ys(2) chain_distinct [OF ys(1)] cs(2) this]
    then show ?thesis
      using step True r(1) push(3) keeps_live_trans [OF push(2), of "mem s'"]
      by (intro exI [of _ "\<lparr>shared = s', caches = (caches P)(t := tc')\<rparr>"]
          exI [of _ "return_own own1 i ret lost"]) (auto simp: P1_def s1_def)
  qed
qed

section \<open>The whole operations\<close>

abbreviation class_index :: "size_t \<Rightarrow> nat" where
  "class_index sz \<equiv> unat (SizeClass_getIndex sz)"

lemma getIndex_zero: "SizeClass_getIndex (if sz = 0 then ALIGNMENT else sz) = SizeClass_getIndex sz"
  by (simp add: SizeClass_getIndex_def ALIGNMENT_def)

lemma batch_gt_1: "1 < ThreadCache_getBatchNum sz"
  using getBatchNum_bounds(1) [of sz] by (simp add: word_less_nat_alt)

lemma fetchFromCentralCache_inv:
  assumes inv: "pool_inv own P" and mm: "mmap_spec mmap" and idx: "index < FREE_LIST_SIZE"
    and empty: "freeList (caches P t) (unat index) = 0"
    and tc: "freeList tc = freeList (caches P t)"
  shows "\<exists>tc' s' p own'. ThreadCache_fetchFromCentralCache mmap tc (shared P) index = Some (tc', s', p) \<and>
     pool_inv own' \<lparr>shared = s', caches = (caches P)(t := tc')\<rparr> \<and>
     keeps_live (live_of own) (mem (shared P)) (mem s') \<and>
     live_of own' = (if p = 0 then live_of own else (live_of own)(p \<mapsto> unat index)) \<and>
     (p \<noteq> 0 \<longrightarrow> live_of own p = None) \<and>
     (p = 0 \<longrightarrow> mmap (mem (shared P)) (span_bytes (class_bytes (unat index))) = None)"
proof -
  let ?i = "unat index" and ?b = "ThreadCache_getBatchNum ((index + 1) * ALIGNMENT)"
  obtain ys where ys: "chain (mem (shared P)) (centralFreeList (shared P) ?i) ys"
      "set ys = owned own (?i, Central)"
    using pool_invD(4) [OF inv, of ?i] by (rule list_ofE)
  have "0 < unat ?b" using getBatchNum_bounds(1) [of "(index + 1) * ALIGNMENT"] by simp
  then obtain s' p xs zs fresh where f:
      "CentralCache_fetchRange mmap (shared P) index ?b = Some (s', p)"
      "fetched (shared P) s' ?i p ys xs zs fresh"
      "p = 0 \<longrightarrow> mmap (mem (shared P)) (span_bytes (class_bytes ?i)) = None"
    using fetchRange_spec [OF idx _ ys(1) pool_invD(2) [OF inv] mm] by blast
  have ch: "chain (mem s') p xs" using f(2) by (simp add: fetched_def)
  define q where "q = (if p = 0 then 0 else the (mem s' p))"
  have q: "if p = 0 then q = 0 else mem s' p = Some q"
    using chain_Cons_ex [OF _ ch] by (auto simp: q_def)
  define tc' where "tc' = (if p = 0 then tc else tc\<lparr>freeListSize := (freeListSize tc)(?i := freeListSize tc ?i + ?b),
    freeList := (freeList tc)(?i := q)\<rparr>)"
  have run: "ThreadCache_fetchFromCentralCache mmap tc (shared P) index = Some (tc', s', p)"
    using f(1) q batch_gt_1
    by (auto simp: ThreadCache_fetchFromCentralCache_def Let_def tc'_def load_def)
  have fl: "freeList tc' = (freeList (caches P t))(?i := q)"
    using tc empty q by (auto simp: tc'_def)
  note inv' = fetch_inv [OF inv ys(2) f(2) empty fl q]
  have "live_of (fetch_own own t ?i p xs zs) a = (if p \<noteq> 0 \<and> a = p then Some ?i else live_of own a)" for a
    using inv'(4) [of a] by (auto simp: fetch_own_def live_of_def split: option.splits prod.splits owner.splits)
  then have "live_of (fetch_own own t ?i p xs zs) = (if p = 0 then live_of own else (live_of own)(p \<mapsto> ?i))"
    by auto
  then show ?thesis using run inv'(1-3) f(3) live_of_None by blast
qed

lemma allocate_inv:
  assumes inv: "pool_inv own P" and mm: "mmap_spec mmap" and sz: "sz \<le> MAX_BYTES"
  shows "\<exists>P' p own'. MemoryPool_allocate mmap malloc t P sz = Some (P', p) \<and> pool_inv own' P' \<and>
     keeps_live (live_of own) (mem (shared P)) (mem (shared P')) \<and>
     live_of own' = (if p = 0 then live_of own else (live_of own)(p \<mapsto> class_index sz)) \<and>
     (p \<noteq> 0 \<longrightarrow> live_of own p = None) \<and>
     (p = 0 \<longrightarrow> mmap (mem (shared P)) (span_bytes (class_bytes (class_index sz))) = None)"
proof -
  let ?i = "class_index sz" and ?tc = "caches P t" and ?sz = "if sz = 0 then ALIGNMENT else sz"
  define tc1 where "tc1 = ?tc\<lparr>freeListSize := (freeListSize ?tc)(?i := freeListSize ?tc ?i - 1)\<rparr>"
  have "\<not> MAX_BYTES < ?sz" using sz by (simp add: word_less_nat_alt word_le_nat_alt)
  then have run: "ThreadCache_allocate mmap malloc ?tc (shared P) sz =
     (if freeList ?tc ?i \<noteq> 0 then do {
        nxt \<leftarrow> load (mem (shared P)) (freeList ?tc ?i);
        Some (tc1\<lparr>freeList := (freeList tc1)(?i := nxt)\<rparr>, shared P, freeList ?tc ?i) }
      else ThreadCache_fetchFromCentralCache mmap tc1 (shared P) (SizeClass_getIndex sz))"
    by (simp add: ThreadCache_allocate_def getIndex_zero tc1_def Let_def)
  show ?thesis
  proof (cases "freeList ?tc ?i = 0")
    case True
    have "SizeClass_getIndex sz < FREE_LIST_SIZE"
      using getIndex_less [OF sz] by (simp add: word_less_nat_alt)
    from fetchFromCentralCache_inv [OF inv mm this True, of tc1] run True show ?thesis
      by (fastforce simp: tc1_def MemoryPool_allocate_def)
  next
    case False
    let ?p = "freeList ?tc ?i"
    obtain ys where "chain (mem (shared P)) ?p ys" using pool_invD(3) [OF inv] by (rule list_ofE)
    from chain_Cons_ex [OF False this] obtain r where r: "mem (shared P) ?p = Some r" by blast
    let ?tc' = "tc1\<lparr>freeList := (freeList tc1)(?i := r)\<rparr>"
    have "freeList ?tc' = (freeList ?tc)(?i := r)" by (simp add: tc1_def)
    note taken = allocate_local_inv [OF inv refl False this r]
    have "MemoryPool_allocate mmap malloc t P sz =
        Some (\<lparr>shared = shared P, caches = (caches P)(t := ?tc')\<rparr>, ?p)"
      using run False r by (simp add: MemoryPool_allocate_def load_def)
    moreover have "live_of (own(?p \<mapsto> (?i, Live))) = (live_of own)(?p \<mapsto> ?i)"
      by (auto simp: live_of_def)
    moreover have "live_of own ?p = None" using taken(2) by (simp add: live_of_def)
    ultimately show ?thesis using taken(1) False by (metis keeps_live_refl select_convs(1))
  qed
qed

text \<open>The client writes to the blocks it holds.\<close>

definition client_write :: "Pool \<Rightarrow> addr \<Rightarrow> addr \<Rightarrow> Pool" where
  "client_write P x v = P\<lparr>shared := (shared P)\<lparr>mem := (mem (shared P))(x \<mapsto> v)\<rparr>\<rparr>"

lemma client_write_inv:
  assumes inv: "pool_inv own P" and own: "own a = Some (i, Live)" and x: "x \<in> block_cells a i"
  shows "pool_inv own (client_write P x v)"
proof -
  define h where "h = (mem (shared P))(x \<mapsto> v)"
  have ok: "blocks_ok (mem (shared P)) own" by (rule pool_invD(1) [OF inv])
  have frame: "\<forall>b \<in> owned own (j, w). h b = mem (shared P) b" if "w \<noteq> Live" for j w
    using live_cells_untouched [OF ok own x that] by (auto simp: owned_def h_def)
  have "blocks_ok h own" by (rule blocks_ok_reassign [OF ok]) (auto simp: h_def)
  then show ?thesis
    using pool_invD(2) [OF inv] list_of_frame [OF pool_invD(3) [OF inv] refl frame]
      list_of_frame [OF pool_invD(4) [OF inv] refl frame]
    by (simp add: pool_inv_def client_write_def flip: h_def)
qed

text \<open>
  Any interleaving of allocations, deallocations and client writes by any number of threads, with
  the map of the blocks in the hands of the client.
\<close>

inductive pool_reach :: "mmap_call \<Rightarrow> (size_t \<Rightarrow> addr) \<Rightarrow> heap \<Rightarrow> Pool \<Rightarrow> (addr \<rightharpoonup> nat) \<Rightarrow> bool"
  for mmap malloc h where
  init: "pool_reach mmap malloc h (Pool_init h) Map.empty"
| allocate: "pool_reach mmap malloc h P live \<Longrightarrow> sz \<le> MAX_BYTES \<Longrightarrow>
    MemoryPool_allocate mmap malloc t P sz = Some (P', p) \<Longrightarrow>
    pool_reach mmap malloc h P' (if p = 0 then live else live(p \<mapsto> class_index sz))"
| deallocate: "pool_reach mmap malloc h P live \<Longrightarrow> sz \<le> MAX_BYTES \<Longrightarrow>
    live p = Some (class_index sz) \<Longrightarrow> MemoryPool_deallocate t P p sz = Some P' \<Longrightarrow>
    pool_reach mmap malloc h P' (live(p := None))"
| client: "pool_reach mmap malloc h P live \<Longrightarrow> live a = Some i \<Longrightarrow> x \<in> block_cells a i \<Longrightarrow>
    pool_reach mmap malloc h (client_write P x v) live"

lemma pool_reach_inv:
  assumes "pool_reach mmap malloc h P live" and mm: "mmap_spec mmap"
  shows "\<exists>own. pool_inv own P \<and> live_of own = live"
  using assms(1)
proof (induction rule: pool_reach.induct)
  case init
  have "live_of Map.empty = Map.empty" by (rule ext) (simp add: live_of_def)
  then show ?case using pool_inv_init by blast
next
  case (allocate P live sz t P' p)
  then obtain own where "pool_inv own P" "live_of own = live" by blast
  with allocate_inv [OF this(1) mm allocate.hyps(2), of malloc t] allocate.hyps(3)
  show ?case by auto
next
  case (deallocate P live sz p t P')
  then obtain own where "pool_inv own P" "live_of own = live" by blast
  with deallocate_inv [OF this(1) deallocate.hyps(2), of p t] deallocate.hyps(3,4)
  show ?case by auto
next
  case (client P live a i x v)
  then obtain own where own: "pool_inv own P" "live_of own = live" by blast
  then have "own a = Some (i, Live)" using client.hyps(2) live_of_Some by metis
  with client_write_inv [OF own(1) this client.hyps(3)] own(2) show ?case by blast
qed

lemma live_blocks:
  assumes "pool_inv own P" and "live_of own p = Some i"
  shows "0 < p" and "block_cells p i \<subseteq> dom (mem (shared P))"
    and "\<forall>a j. a \<noteq> p \<and> live_of own a = Some j \<longrightarrow> block_cells p i \<inter> block_cells a j = {}"
  using assms pool_invD(1) [OF assms(1)] unfolding live_of_Some blocks_ok_def by blast+

section \<open>Properties\<close>

text \<open>
  C9. In every state that threads can reach by allocating, freeing and writing to their own
  blocks, \<open>MemoryPool::allocate\<close> for up to \<open>MAX_BYTES\<close> bytes runs without touching unmapped memory.
  It returns null only when \<open>mmap\<close> refuses a new span; otherwise the block is mapped, is at
  least as large as asked for, overlaps no block that is in use, and no block in use is changed.
\<close>

theorem MemoryPool_allocate_safe:
  assumes mm: "mmap_spec mmap" and r: "pool_reach mmap malloc h P live" and sz: "sz \<le> MAX_BYTES"
  shows "\<exists>P' p. MemoryPool_allocate mmap malloc t P sz = Some (P', p) \<and>
     (p = 0 \<longrightarrow> mmap (mem (shared P)) (span_bytes (class_bytes (class_index sz))) = None) \<and>
     (p \<noteq> 0 \<longrightarrow> unat sz \<le> class_bytes (class_index sz) \<and>
        block_cells p (class_index sz) \<subseteq> dom (mem (shared P')) \<and>
        (\<forall>a i. live a = Some i \<longrightarrow> block_cells p (class_index sz) \<inter> block_cells a i = {})) \<and>
     keeps_live live (mem (shared P)) (mem (shared P'))"
proof -
  obtain own where own: "pool_inv own P" "live_of own = live"
    using pool_reach_inv [OF r mm] by blast
  obtain P' p own' where a: "MemoryPool_allocate mmap malloc t P sz = Some (P', p)" "pool_inv own' P'"
      "keeps_live live (mem (shared P)) (mem (shared P'))"
      "live_of own' = (if p = 0 then live else live(p \<mapsto> class_index sz))" "p \<noteq> 0 \<longrightarrow> live p = None"
      "p = 0 \<longrightarrow> mmap (mem (shared P)) (span_bytes (class_bytes (class_index sz))) = None"
    using allocate_inv [OF own(1) mm sz, of malloc t] own(2) by blast
  have "block_cells p (class_index sz) \<subseteq> dom (mem (shared P')) \<and>
      (\<forall>b i. live b = Some i \<longrightarrow> block_cells p (class_index sz) \<inter> block_cells b i = {})" if "p \<noteq> 0"
  proof -
    have p: "live_of own' p = Some (class_index sz)" using a(4) that by simp
    have "b \<noteq> p \<and> live_of own' b = Some i" if "live b = Some i" for b i
      using that a(4,5) \<open>p \<noteq> 0\<close> by auto
    then show ?thesis using live_blocks(2,3) [OF a(2) p] by blast
  qed
  with a(1,3,6) getIndex_fits(1) [OF sz] show ?thesis by blast
qed

text \<open>
  C22. Freeing a block that is in use, with a size of its class and from any thread, runs without
  touching unmapped memory and changes no other block in use.
\<close>

theorem MemoryPool_deallocate_safe:
  assumes mm: "mmap_spec mmap" and r: "pool_reach mmap malloc h P live" and sz: "sz \<le> MAX_BYTES"
    and p: "live p = Some (class_index sz)"
  shows "\<exists>P'. MemoryPool_deallocate t P p sz = Some P' \<and>
     keeps_live (live(p := None)) (mem (shared P)) (mem (shared P'))"
proof -
  obtain own where own: "pool_inv own P" "live_of own = live"
    using pool_reach_inv [OF r mm] by blast
  then show ?thesis using deallocate_inv [OF own(1) sz, of p t] p by auto
qed

lemma returned_bytes:
  assumes "sz \<noteq> 0" and "sz \<le> MAX_BYTES" and "unat n < 2 ^ 45"
  shows "unat n \<le> unat (n * SizeClass_roundUp sz)"
proof -
  have "1 \<le> unat sz" "unat sz \<le> 262144"
    using assms(1,2) by (simp_all add: word_le_nat_alt unat_gt_0 Suc_leI)
  then have r: "1 \<le> unat (SizeClass_roundUp sz)" "unat (SizeClass_roundUp sz) \<le> 2 ^ 18"
    using unat_roundUp [of sz] by simp_all
  then have "unat n * unat (SizeClass_roundUp sz) < 2 ^ 45 * 2 ^ 18"
    using assms(3) by (intro mult_less_le_imp_less) simp_all
  then have "unat (n * SizeClass_roundUp sz) = unat n * unat (SizeClass_roundUp sz)"
    by (subst unat_mult_lem [THEN iffD1]) simp_all
  with r(1) show ?thesis by (metis mult.right_neutral mult_le_mono2)
qed

text \<open>
  As long as the counter of a class does not undercount its list, giving blocks back loses
  none: every block of the list is kept in the cache or now heads the central list of its class.
\<close>

theorem ThreadCache_returnToCentralCache_conserves:
  assumes ys: "chain (mem s) start ys" "start \<noteq> 0" "freeList tc (class_index sz) = start"
    and cs: "chain (mem s) (centralFreeList s (class_index sz)) cs" "set ys \<inter> set cs = {}"
    and sz: "sz \<noteq> 0" "sz \<le> MAX_BYTES"
    and count: "length ys \<le> unat (freeListSize tc (class_index sz))"
      "unat (freeListSize tc (class_index sz)) < 2 ^ 45"
  shows "\<exists>tc' s' kept ret. ThreadCache_returnToCentralCache tc s start sz = Some (tc', s') \<and>
     ys = kept @ ret \<and> chain (mem s') (freeList tc' (class_index sz)) kept \<and>
     chain (mem s') (centralFreeList s' (class_index sz)) (ret @ cs)"
proof -
  let ?b = "freeListSize tc (class_index sz)"
  let ?k = "max (?b div 4) 1"
  obtain tc' s' kept ret lost where r:
      "ThreadCache_returnToCentralCache tc s start sz = Some (tc', s')"
      "given_back tc s tc' s' (class_index sz) ys cs kept ret lost" "return_split ?b sz ys kept ret lost"
    using returnToCentralCache_spec [OF ys cs sz(2) refl] by blast
  have "lost = []"
  proof (cases "?b \<le> 1 \<or> length ys < unat ?k")
    case True
    with r(3) show ?thesis by (simp add: return_split_def)
  next
    case False
    then have k: "?k \<le> ?b" using some_returned [of ?b] unat_keepNum [of ?b]
      by (auto simp: word_le_nat_alt)
    have "unat (?b - ?k) \<le> unat ((?b - ?k) * SizeClass_roundUp sz)"
      using count(2) unat_sub [OF k] by (intro returned_bytes [OF sz]) simp
    then have "length ys - unat ?k \<le> max 1 (unat ((?b - ?k) * SizeClass_roundUp sz))"
      using count(1) unat_sub [OF k] by linarith
    moreover have "lost = drop (max 1 (unat ((?b - ?k) * SizeClass_roundUp sz))) (drop (unat ?k) ys)"
      using r(3) False unfolding return_split_def Let_def by metis
    ultimately show ?thesis by simp
  qed
  with r(1,2) show ?thesis by (auto simp: given_back_def)
qed

text \<open>
  A size of 0 is accepted by \<open>allocate\<close> and by \<open>deallocate\<close>, but when the list of the class
  overflows under a size of 0, \<open>roundUp(0) = 0\<close> makes \<open>returnRange\<close> take the first of the returned
  blocks only: the others are in no list any more, and in nobody's hands.
\<close>

theorem ThreadCache_returnToCentralCache_size_0_leaks:
  assumes ys: "chain (mem s) start ys" "start \<noteq> 0" "freeList tc 0 = start"
    and cs: "chain (mem s) (centralFreeList s 0) cs" "set ys \<inter> set cs = {}"
    and count: "unat (freeListSize tc 0) = length ys" "1 < length ys"
  shows "\<exists>tc' s' kept b lost. ThreadCache_returnToCentralCache tc s start 0 = Some (tc', s') \<and>
     ys = kept @ b # lost \<and> length lost = length ys - max (length ys div 4) 1 - 1 \<and>
     chain (mem s') (freeList tc' 0) kept \<and> chain (mem s') (centralFreeList s' 0) (b # cs)"
proof -
  let ?b = "freeListSize tc 0"
  let ?k = "max (?b div 4) 1"
  have i: "class_index 0 = 0" by (simp add: SizeClass_getIndex_def ALIGNMENT_def)
  have z: "SizeClass_roundUp 0 = 0" by (simp add: SizeClass_roundUp_def ALIGNMENT_def)
  obtain tc' s' kept ret lost where r:
      "ThreadCache_returnToCentralCache tc s start 0 = Some (tc', s')"
      "given_back tc s tc' s' 0 ys cs kept ret lost" "return_split ?b 0 ys kept ret lost"
    using returnToCentralCache_spec [of s start ys tc 0 cs 0] ys cs i by (auto simp: word_le_nat_alt)
  have k: "unat ?k = max (length ys div 4) 1" using unat_keepNum [of ?b] count(1) by simp
  moreover have "\<not> ?b \<le> 1" using count by (simp add: word_le_nat_alt)
  moreover have lt: "max (length ys div 4) 1 < length ys" using count(2) by auto
  ultimately have "ret = take 1 (drop (unat ?k) ys)" "lost = drop 1 (drop (unat ?k) ys)"
    using r(3) unfolding return_split_def Let_def z by auto
  moreover have "length (drop (unat ?k) ys) = length ys - unat ?k" "drop (unat ?k) ys \<noteq> []"
    using k lt by (simp, metis drop_eq_Nil not_less)
  ultimately have "length lost = length ys - unat ?k - 1" and "\<exists>b. ret = [b]"
    by (simp_all add: take_Suc neq_Nil_conv)
  then show ?thesis using r(1,2) unfolding given_back_def k by fastforce
qed

section \<open>Witnesses\<close>

lemma only_first_mmap_spec: "mmap_spec only_first_mmap"
  by (auto simp: mmap_spec_def only_first_mmap_def split: if_splits)

lemma class_index_100: "(100 :: size_t) \<le> MAX_BYTES" "class_index 100 = 12"
  by (simp_all add: MAX_BYTES_def SizeClass_getIndex_def ALIGNMENT_def)

lemma pool_reach_example:
  "\<exists>P p. pool_reach only_first_mmap (\<lambda>_. 0) Map.empty P [p \<mapsto> 12]"
proof -
  have init: "pool_reach only_first_mmap (\<lambda>_. 0) Map.empty (Pool_init Map.empty) Map.empty"
    by (rule pool_reach.init)
  obtain P p where "MemoryPool_allocate only_first_mmap (\<lambda>_. 0) 0 (Pool_init Map.empty) 100 = Some (P, p)"
      "p \<noteq> 0"
    using allocate_inv [OF pool_inv_init only_first_mmap_spec class_index_100(1), of "\<lambda>_. 0" 0 Map.empty]
    by (auto simp: only_first_mmap_def Pool_init_def CentralCache_init_def)
  with pool_reach.allocate [OF init class_index_100(1), of 0 P p] class_index_100(2) show ?thesis by auto
qed

theorem MemoryPool_allocate_safe_witness:
  "\<exists>P' p. MemoryPool_allocate only_first_mmap (\<lambda>_. 0) 0 (Pool_init Map.empty) 100 = Some (P', p) \<and>
     p \<noteq> 0 \<and> block_cells p 12 \<subseteq> dom (mem (shared P'))"
  using MemoryPool_allocate_safe [OF only_first_mmap_spec pool_reach.init class_index_100(1), where malloc = "\<lambda>_. 0" and h = Map.empty and t = 0]
  by (auto simp: only_first_mmap_def Pool_init_def CentralCache_init_def class_index_100(2))

theorem MemoryPool_deallocate_safe_witness:
  "\<exists>P p P'. pool_reach only_first_mmap (\<lambda>_. 0) Map.empty P [p \<mapsto> 12] \<and>
     MemoryPool_deallocate 1 P p 100 = Some P'"
proof -
  obtain P p where r: "pool_reach only_first_mmap (\<lambda>_. 0) Map.empty P [p \<mapsto> 12]"
    using pool_reach_example by blast
  then show ?thesis
    using MemoryPool_deallocate_safe [OF only_first_mmap_spec r class_index_100(1), of p 1]
    by (auto simp: class_index_100(2))
qed

definition leak_shared :: Shared where
  "leak_shared = (CentralCache_init [8 \<mapsto> 16, 16 \<mapsto> 24, 24 \<mapsto> 0])"

definition leak_cache :: ThreadCache where
  "leak_cache = \<lparr>freeList = (\<lambda>_. 0)(0 := 8), freeListSize = (\<lambda>_. 0)(0 := 3)\<rparr>"

lemmas leak_defs = leak_shared_def leak_cache_def CentralCache_init_def

theorem ThreadCache_returnToCentralCache_conserves_witness:
  "\<exists>tc' s' kept ret. ThreadCache_returnToCentralCache leak_cache leak_shared 8 8 = Some (tc', s') \<and>
     [8, 16, 24] = kept @ ret \<and> chain (mem s') (freeList tc' 0) kept \<and>
     chain (mem s') (centralFreeList s' 0) (ret @ [])"
proof -
  have i: "class_index 8 = 0" by (simp add: SizeClass_getIndex_def ALIGNMENT_def)
  show ?thesis
    by (rule ThreadCache_returnToCentralCache_conserves [where sz = 8, unfolded i])
      (simp_all add: leak_defs MAX_BYTES_def)
qed

theorem ThreadCache_returnToCentralCache_size_0_leaks_witness:
  "\<exists>tc' s' kept b lost. ThreadCache_returnToCentralCache leak_cache leak_shared 8 0 = Some (tc', s') \<and>
     [8, 16, 24] = kept @ b # lost \<and> length lost = 1 \<and>
     chain (mem s') (freeList tc' 0) kept \<and> chain (mem s') (centralFreeList s' 0) [b]"
  using ThreadCache_returnToCentralCache_size_0_leaks [of leak_shared 8 "[8, 16, 24]" leak_cache "[]"]
  by (simp add: leak_defs)

end
