(* ===== verification/Util_ConsistentHash.thy ===== *)
theory Util_ConsistentHash
  imports Prelude
begin

text \<open>
  The hash ring (\<open>include/util/ConsistenHash.h\<close>): virtual nodes of each node in a map from hash
  values to names, and the hash values again in a sorted vector. The hash function is the
  constructor argument \<open>hashFunc\<close>. \<open>std::sort\<close> and \<open>std::upper_bound\<close> are modelled by what
  the standard library promises of them on the vector. The mutex makes every method one step.
\<close>

section \<open>The operations\<close>

record ConsistentHash =
  numReplicas :: size_t
  hashFunction :: "string \<Rightarrow> size_t"
  circle :: "size_t \<rightharpoonup> string"
  sortedHashes :: "size_t list"

definition ConsistentHash_new :: "size_t \<Rightarrow> (string \<Rightarrow> size_t) \<Rightarrow> ConsistentHash" where
  "ConsistentHash_new n hashFunc =
     \<lparr>numReplicas = n, hashFunction = hashFunc, circle = Map.empty, sortedHashes = []\<rparr>"

primrec add_replicas :: "nat list \<Rightarrow> string \<Rightarrow> ConsistentHash \<Rightarrow> ConsistentHash" where
  "add_replicas [] node c = c"
| "add_replicas (i # is) node c =
     (let hash = hashFunction c (node @ ''_0'' @ dec i) in
      add_replicas is node (c\<lparr>circle := (circle c)(hash \<mapsto> node),
                             sortedHashes := sortedHashes c @ [hash]\<rparr>))"

definition ConsistentHash_addNode :: "ConsistentHash \<Rightarrow> string \<Rightarrow> ConsistentHash" where
  "ConsistentHash_addNode c node =
     (let c = add_replicas [0..<unat (numReplicas c)] node c in
      c\<lparr>sortedHashes := sort (sortedHashes c)\<rparr>)"

text \<open>\<open>erase(find(..))\<close> is \<open>remove1\<close>: it removes the first occurrence, if there is one.\<close>

primrec remove_replicas :: "nat list \<Rightarrow> string \<Rightarrow> ConsistentHash \<Rightarrow> ConsistentHash" where
  "remove_replicas [] node c = c"
| "remove_replicas (i # is) node c =
     (let hash = hashFunction c (node @ dec i) in
      remove_replicas is node (c\<lparr>circle := (circle c)(hash := None),
                                sortedHashes := remove1 hash (sortedHashes c)\<rparr>))"

definition ConsistentHash_removeNode :: "ConsistentHash \<Rightarrow> string \<Rightarrow> ConsistentHash" where
  "ConsistentHash_removeNode c node = remove_replicas [0..<unat (numReplicas c)] node c"

text \<open>Dereferencing \<open>begin()\<close> of an empty vector is out of bounds.\<close>

definition upper_bound :: "size_t list \<Rightarrow> size_t \<Rightarrow> size_t list" where
  "upper_bound xs h = dropWhile (\<lambda>x. x \<le> h) xs"

definition ConsistentHash_getNode :: "ConsistentHash \<Rightarrow> string \<Rightarrow> size_t result" where
  "ConsistentHash_getNode c key =
     (if circle c = Map.empty then Inl (Runtime_error ''No nodes in consistent hash'')
      else (let hash = hashFunction c key in
        case upper_bound (sortedHashes c) hash of
          x # _ \<Rightarrow> Inr x
        | [] \<Rightarrow> (case sortedHashes c of x # _ \<Rightarrow> Inr x | [] \<Rightarrow> Inl Out_of_bounds)))"

section \<open>The ring\<close>

text \<open>The hash values under which a node is entered, and those under which it is looked for when removed.\<close>

definition entered :: "ConsistentHash \<Rightarrow> string \<Rightarrow> size_t list" where
  "entered c node = map (\<lambda>i. hashFunction c (node @ ''_0'' @ dec i)) [0..<unat (numReplicas c)]"

definition removed :: "ConsistentHash \<Rightarrow> string \<Rightarrow> size_t list" where
  "removed c node = map (\<lambda>i. hashFunction c (node @ dec i)) [0..<unat (numReplicas c)]"

definition ring_inv :: "ConsistentHash \<Rightarrow> bool" where
  "ring_inv c \<longleftrightarrow> sorted (sortedHashes c) \<and> dom (circle c) \<subseteq> set (sortedHashes c)"

lemma add_replicas_eq:
  "add_replicas is node c =
     (let hs = map (\<lambda>i. hashFunction c (node @ ''_0'' @ dec i)) is in
      c\<lparr>circle := (\<lambda>h. if h \<in> set hs then Some node else circle c h),
        sortedHashes := sortedHashes c @ hs\<rparr>)"
  by (induction "is" arbitrary: c) (auto simp: Let_def fun_eq_iff)

lemma addNode_eq:
  "ConsistentHash_addNode c node =
     c\<lparr>circle := (\<lambda>h. if h \<in> set (entered c node) then Some node else circle c h),
       sortedHashes := sort (sortedHashes c @ entered c node)\<rparr>"
  by (simp add: ConsistentHash_addNode_def add_replicas_eq entered_def Let_def)

lemma remove_replicas_eq:
  "remove_replicas is node c =
     (let hs = map (\<lambda>i. hashFunction c (node @ dec i)) is in
      c\<lparr>circle := (\<lambda>h. if h \<in> set hs then None else circle c h),
        sortedHashes := foldl (\<lambda>xs h. remove1 h xs) (sortedHashes c) hs\<rparr>)"
  by (induction "is" arbitrary: c) (auto simp: Let_def fun_eq_iff)

lemma removeNode_eq:
  "ConsistentHash_removeNode c node =
     c\<lparr>circle := (\<lambda>h. if h \<in> set (removed c node) then None else circle c h),
       sortedHashes := foldl (\<lambda>xs h. remove1 h xs) (sortedHashes c) (removed c node)\<rparr>"
  by (simp add: ConsistentHash_removeNode_def remove_replicas_eq removed_def Let_def)

lemma foldl_remove1:
  "sorted xs \<Longrightarrow> sorted (foldl (\<lambda>xs h. remove1 h xs) xs hs)"
  "set xs - set hs \<subseteq> set (foldl (\<lambda>xs h. remove1 h xs) xs hs)"
  "set xs \<inter> set hs = {} \<Longrightarrow> foldl (\<lambda>xs h. remove1 h xs) xs hs = xs"
proof (induction hs arbitrary: xs)
  case (Cons h hs)
  {
    case 1
    then show ?case using Cons(1) by (simp add: sorted_remove1)
  next
    case 2
    have "set xs - {h} \<subseteq> set (remove1 h xs)" by (rule subsetI, elim DiffE) simp
    then show ?case using Cons(2) [of "remove1 h xs"] by auto
  next
    case 3
    then show ?case using Cons(3) [of xs] by (simp add: remove1_idem)
  }
qed auto

lemma ring_inv_new: "ring_inv (ConsistentHash_new n f)"
  by (simp add: ring_inv_def ConsistentHash_new_def)

lemma ring_inv_add: "ring_inv c \<Longrightarrow> ring_inv (ConsistentHash_addNode c node)"
  by (auto simp: ring_inv_def addNode_eq split: if_splits)

lemma ring_inv_remove: "ring_inv c \<Longrightarrow> ring_inv (ConsistentHash_removeNode c node)"
proof -
  assume inv: "ring_inv c"
  then have "dom (circle c) - set (removed c node) \<subseteq> set (sortedHashes c) - set (removed c node)"
    by (auto simp: ring_inv_def)
  with foldl_remove1(2) [of "sortedHashes c" "removed c node"] foldl_remove1(1) inv show ?thesis
    by (auto simp: ring_inv_def removeNode_eq dom_def split: if_splits)
qed

text \<open>The successor of a hash value on the ring: what \<open>getNode\<close> looks for.\<close>

definition successor :: "size_t set \<Rightarrow> size_t \<Rightarrow> size_t" where
  "successor H h = (if \<exists>x \<in> H. h < x then Min {x \<in> H. h < x} else Min H)"

lemma successor_above:
  assumes "finite H" and "x \<in> H" and "h < x"
  shows "h < successor H h"
proof -
  have "Min {x \<in> H. h < x} \<in> {x \<in> H. h < x}" by (rule Min_in) (use assms in auto)
  moreover have "successor H h = Min {x \<in> H. h < x}" using assms by (auto simp: successor_def)
  ultimately show ?thesis by simp
qed

lemma upper_bound_sorted:
  "sorted xs \<Longrightarrow> upper_bound xs h = filter (\<lambda>x. h < x) xs"
  unfolding upper_bound_def by (induction xs) (auto simp: filter_id_conv intro!: filter_True [symmetric])

lemma sorted_hd_Min: "sorted (x # xs) \<Longrightarrow> x = Min (set (x # xs))"
  by (rule Min_eqI [symmetric]) auto

lemma getNode_successor:
  assumes inv: "ring_inv c" and "circle c \<noteq> Map.empty"
  shows "ConsistentHash_getNode c key = Inr (successor (set (sortedHashes c)) (hashFunction c key))"
proof -
  let ?h = "hashFunction c key" and ?xs = "sortedHashes c"
  have s: "sorted ?xs" using inv by (simp add: ring_inv_def)
  have "?xs \<noteq> []" using inv assms(2) by (auto simp: ring_inv_def)
  then obtain y ys where ys: "?xs = y # ys" by (auto simp: neq_Nil_conv)
  show ?thesis
  proof (cases "filter (\<lambda>x. ?h < x) ?xs")
    case Nil
    then have "successor (set ?xs) ?h = Min (set ?xs)" by (auto simp: successor_def filter_empty_conv)
    also have "\<dots> = y" using sorted_hd_Min [OF s [unfolded ys]] unfolding ys by (rule sym)
    finally have suc: "successor (set ?xs) ?h = y" .
    have "upper_bound ?xs ?h = []" using Nil by (simp only: upper_bound_sorted [OF s])
    then have "ConsistentHash_getNode c key = Inr y"
      using assms(2) ys by (simp add: ConsistentHash_getNode_def)
    with suc show ?thesis by (simp only:)
  next
    case (Cons z zs)
    have "sorted (z # zs)" using sorted_filter [of id ?xs "\<lambda>x. ?h < x"] s Cons by simp
    then have "z = Min (set (filter (\<lambda>x. ?h < x) ?xs))" using sorted_hd_Min Cons by metis
    moreover have "\<exists>x \<in> set ?xs. ?h < x" using Cons by (metis filter_empty_conv list.distinct(1))
    ultimately have suc: "successor (set ?xs) ?h = z" by (simp add: successor_def)
    have "upper_bound ?xs ?h = z # zs" using Cons by (simp only: upper_bound_sorted [OF s])
    then have "ConsistentHash_getNode c key = Inr z"
      using assms(2) by (simp add: ConsistentHash_getNode_def)
    with suc show ?thesis by (simp only:)
  qed
qed

lemma successor_in: "finite H \<Longrightarrow> H \<noteq> {} \<Longrightarrow> successor H h \<in> H"
  using Min_in [of "{x \<in> H. h < x}"] Min_in [of H] by (auto simp: successor_def)

text \<open>Adding hash values to the ring changes a successor only to one of the added values.\<close>

lemma successor_union:
  assumes fin: "finite H" "finite E" and ne: "H \<noteq> {}"
  shows "successor (H \<union> E) h = successor H h \<or> successor (H \<union> E) h \<in> E"
proof (cases "\<exists>x \<in> H \<union> E. h < x")
  case True
  let ?S = "{x \<in> H \<union> E. h < x}"
  have "finite ?S" using fin by simp
  moreover have "?S \<noteq> {}" using True by blast
  ultimately have m: "Min ?S \<in> ?S" "\<And>x. x \<in> ?S \<Longrightarrow> Min ?S \<le> x"
    by (rule Min_in) (rule Min_le [OF \<open>finite ?S\<close>])
  have eq: "successor (H \<union> E) h = Min ?S" using True by (simp add: successor_def)
  show ?thesis
  proof (cases "Min ?S \<in> E")
    case False
    then have "Min ?S \<in> H" "h < Min ?S" using m(1) by auto
    moreover from this have "Min {x \<in> H. h < x} = Min ?S"
      using fin(1) m(2) by (intro Min_eqI) auto
    ultimately show ?thesis unfolding eq by (auto simp: successor_def)
  qed (simp add: eq)
next
  case False
  have eq: "successor (H \<union> E) h = Min (H \<union> E)" using False by (simp add: successor_def)
  show ?thesis
  proof (cases "Min (H \<union> E) \<in> E")
    case notin: False
    have "Min (H \<union> E) \<in> H" using notin Min_in [of "H \<union> E"] fin ne by auto
    then have "Min H = Min (H \<union> E)" using fin by (intro Min_eqI) auto
    then show ?thesis unfolding eq using False by (auto simp: successor_def)
  qed (simp add: eq)
qed

section \<open>Properties\<close>

datatype ring_op = AddNode string | RemoveNode string

primrec ring_run :: "ring_op list \<Rightarrow> ConsistentHash \<Rightarrow> ConsistentHash" where
  "ring_run [] c = c"
| "ring_run (op # ops) c = ring_run ops (case op of AddNode n \<Rightarrow> ConsistentHash_addNode c n
     | RemoveNode n \<Rightarrow> ConsistentHash_removeNode c n)"

lemma ring_run_inv: "ring_inv c \<Longrightarrow> ring_inv (ring_run ops c)"
  by (induction ops arbitrary: c) (auto simp: ring_inv_add ring_inv_remove split: ring_op.split)

lemma ring_run_fixed [simp]:
  "hashFunction (ring_run ops c) = hashFunction c" "numReplicas (ring_run ops c) = numReplicas c"
  by (induction ops arbitrary: c) (auto simp: addNode_eq removeNode_eq split: ring_op.split)

text \<open>
  C30. After any sequence of \<open>addNode\<close> and \<open>removeNode\<close> calls, \<open>getNode\<close> throws exactly when no
  hash value is mapped to a node, never reads past the vector, and otherwise returns the smallest
  hash value of the ring strictly above the hash of the key or, when there is none, the smallest of all. The comments of the method
  say otherwise on two points: they promise the first value greater than or \<^emph>\<open>equal\<close> to the key's hash, and the \<^emph>\<open>name\<close> of the node.
  The code calls \<open>upper_bound\<close>, so that a key whose hash is on the ring below another value is not given that value, and it returns the
  hash value itself.
\<close>

theorem ConsistentHash_getNode_successor:
  fixes ops n f key
  defines "c \<equiv> ring_run ops (ConsistentHash_new n f)"
  shows "ConsistentHash_getNode c key =
       (if circle c = Map.empty then Inl (Runtime_error ''No nodes in consistent hash'')
        else Inr (successor (set (sortedHashes c)) (f key))) \<and>
     (\<forall>h \<in> set (sortedHashes c). f key < h \<longrightarrow> ConsistentHash_getNode c key \<noteq> Inr (f key))"
proof -
  have "ring_inv c" unfolding c_def by (intro ring_run_inv ring_inv_new)
  moreover have "hashFunction c = f" by (simp add: c_def ConsistentHash_new_def)
  ultimately have eq: "ConsistentHash_getNode c key =
      (if circle c = Map.empty then Inl (Runtime_error ''No nodes in consistent hash'') else Inr (successor (set (sortedHashes c)) (f key)))"
    using getNode_successor [of c key] by (auto simp: ConsistentHash_getNode_def)
  have "successor (set (sortedHashes c)) (f key) \<noteq> f key" if "h \<in> set (sortedHashes c)" "f key < h" for h
    using successor_above [OF _ that] by simp
  then show ?thesis using eq by auto
qed

text \<open>
  C31. The property that consistent hashing is for: adding a node moves a key only to the new node.
  Every key keeps its hash value on the ring or gets one that now belongs to the added node.
\<close>

theorem ConsistentHash_addNode_moves_to_new_node:
  fixes ops n f
  defines "c \<equiv> ring_run ops (ConsistentHash_new n f)"
  assumes "circle c \<noteq> Map.empty"
  shows "ConsistentHash_getNode (ConsistentHash_addNode c node) key = ConsistentHash_getNode c key \<or>
     (\<exists>h. ConsistentHash_getNode (ConsistentHash_addNode c node) key = Inr h \<and>
          circle (ConsistentHash_addNode c node) h = Some node)"
proof -
  let ?c = "ConsistentHash_addNode c node"
  have inv: "ring_inv c" unfolding c_def by (intro ring_run_inv ring_inv_new)
  have H: "set (sortedHashes ?c) = set (sortedHashes c) \<union> set (entered c node)"
    and hf: "hashFunction ?c = hashFunction c"
    and own: "\<And>h. h \<in> set (entered c node) \<Longrightarrow> circle ?c h = Some node"
    by (simp_all add: addNode_eq)
  have ne: "circle ?c \<noteq> Map.empty" using assms(2) by (auto simp: addNode_eq fun_eq_iff)
  have "sortedHashes c \<noteq> []" using inv assms(2) by (auto simp: ring_inv_def)
  then show ?thesis
    using successor_union [of "set (sortedHashes c)" "set (entered c node)" "hashFunction c key"]
      getNode_successor [OF inv assms(2)] getNode_successor [OF ring_inv_add [OF inv] ne] own
    by (auto simp: H hf)
qed

text \<open>
  \<open>removeNode\<close> looks for \<open>node + i\<close> while \<open>addNode\<close> entered \<open>node + "_0" + i\<close>: unless one of
  the values it looks for happens to be on the ring, removing a node that was just added changes
  nothing, and the ring goes on handing out its hash values.
\<close>

theorem ConsistentHash_removeNode_keeps_node:
  fixes ops n f
  defines "c \<equiv> ring_run ops (ConsistentHash_new n f)"
  assumes "set (removed c node) \<inter> (set (sortedHashes c) \<union> set (entered c node)) = {}"
  shows "ConsistentHash_removeNode (ConsistentHash_addNode c node) node = ConsistentHash_addNode c node"
proof -
  let ?c = "ConsistentHash_addNode c node"
  have "ring_inv ?c" unfolding c_def by (intro ring_inv_add ring_run_inv ring_inv_new)
  moreover have r: "removed ?c node = removed c node" by (simp add: removed_def addNode_eq)
  moreover have "set (sortedHashes ?c) \<inter> set (removed c node) = {}"
    using assms(2) by (auto simp: addNode_eq)
  ultimately have "circle ?c h = None" if "h \<in> set (removed c node)" for h
    using that by (auto simp: ring_inv_def)
  then have "(\<lambda>h. if h \<in> set (removed c node) then None else circle ?c h) = circle ?c"
    by (auto simp: fun_eq_iff)
  moreover have "foldl (\<lambda>xs h. remove1 h xs) (sortedHashes ?c) (removed c node) = sortedHashes ?c"
    using \<open>set (sortedHashes ?c) \<inter> _ = {}\<close> by (rule foldl_remove1(3))
  ultimately show ?thesis by (simp only: removeNode_eq [of ?c] r) simp
qed

section \<open>Witnesses\<close>

text \<open>A hash function on strings, in the place of \<open>std::hash\<close>.\<close>

definition poly_hash :: "string \<Rightarrow> size_t" where
  "poly_hash s = foldl (\<lambda>h c. h * 131 + of_nat (of_char c)) 7 s"

lemma dec_digit: "dec 0 = ''0''" "dec 1 = ''1''" "dec 2 = ''2''"
  by code_simp+

lemma upt_3: "[0..<unat (3 :: size_t)] = [0, 1, 2]"
  by (simp add: upt_rec)

lemma replicas_3:
  assumes "numReplicas c = 3"
  shows "entered c node = map (hashFunction c) [node @ ''_00'', node @ ''_01'', node @ ''_02'']"
    and "removed c node = map (hashFunction c) [node @ ''0'', node @ ''1'', node @ ''2'']"
  unfolding entered_def removed_def assms upt_3 by (simp_all add: dec_digit [simplified])

lemma new_fields [simp]:
  "numReplicas (ConsistentHash_new n f) = n" "hashFunction (ConsistentHash_new n f) = f"
  "sortedHashes (ConsistentHash_new n f) = []" "circle (ConsistentHash_new n f) = Map.empty"
  by (simp_all add: ConsistentHash_new_def)

theorem ConsistentHash_getNode_successor_witness:
  "\<exists>c. c = ring_run [AddNode ''a'', AddNode ''bb''] (ConsistentHash_new 3 (\<lambda>s. of_nat (length s))) \<and>
     4 \<in> set (sortedHashes c) \<and> ConsistentHash_getNode c ''abcd'' = Inr 5"
proof -
  let ?c = "ring_run [AddNode ''a'', AddNode ''bb''] (ConsistentHash_new 3 (\<lambda>s. of_nat (length s)))"
  have H: "set (sortedHashes ?c) = {4, 5}" and ne: "circle ?c 4 \<noteq> None" by (auto simp: addNode_eq replicas_3)
  then have "circle ?c \<noteq> Map.empty" by metis
  moreover have "successor {4, 5} 4 = (5 :: size_t)"
  proof -
    have "{x \<in> {4, 5}. 4 < x} = {5 :: size_t}" by auto
    then show ?thesis by (auto simp: successor_def)
  qed
  ultimately have "ConsistentHash_getNode ?c ''abcd'' = Inr 5"
    using ConsistentHash_getNode_successor [of "[AddNode ''a'', AddNode ''bb'']" 3 "\<lambda>s. of_nat (length s)" "''abcd''"] H by simp
  then show ?thesis using H by blast
qed

theorem ConsistentHash_addNode_moves_to_new_node_witness:
  "\<exists>c. c = ring_run [AddNode ''a''] (ConsistentHash_new 3 poly_hash) \<and>
     (ConsistentHash_getNode (ConsistentHash_addNode c ''b'') ''k'' = ConsistentHash_getNode c ''k'' \<or>
      (\<exists>h. ConsistentHash_getNode (ConsistentHash_addNode c ''b'') ''k'' = Inr h \<and>
          circle (ConsistentHash_addNode c ''b'') h = Some ''b''))"
proof -
  have "circle (ring_run [AddNode ''a''] (ConsistentHash_new 3 poly_hash)) (poly_hash ''a_00'') \<noteq> None"
    by (simp add: addNode_eq replicas_3)
  then have "circle (ring_run [AddNode ''a''] (ConsistentHash_new 3 poly_hash)) \<noteq> Map.empty"
    by metis
  from ConsistentHash_addNode_moves_to_new_node [OF this, of "''b''" "''k''"] show ?thesis by blast
qed

theorem ConsistentHash_removeNode_keeps_node_witness:
  "ConsistentHash_removeNode (ConsistentHash_addNode (ConsistentHash_new 3 poly_hash) ''a'') ''a'' =
   ConsistentHash_addNode (ConsistentHash_new 3 poly_hash) ''a''"
  using ConsistentHash_removeNode_keeps_node [where ops = "[]" and n = 3 and f = poly_hash and node = "''a''"]
  by (simp add: replicas_3 poly_hash_def)

end
