(* ===== verification/Net_ThreadPool.thy ===== *)
theory Net_ThreadPool
  imports Util_ConsistentHash
begin

text \<open>
  The pool of I/O threads (\<open>include/net/EventLoopThreadPool.h\<close>, \<open>src/net/EventLoopThreadPool.cc\<close>).
  \<open>start\<close> creates the threads, records their loops and enters their names in the hash ring;
  \<open>getNextLoop\<close> chooses the loop of a new connection. A loop is its address. What the \<open>i\<close>-th \<open>startLoop\<close> comes to is the argument
  \<open>new_loop\<close>: the address of the \<open>EventLoop\<close> that the thread creates on its stack, or the error that ends the process, when
  the thread cannot be created or the constructor of its \<open>EventLoop\<close> aborts (\<open>Net_EventLoopThread\<close> has the two threads step
  by step). The calls of the user's callback are recorded in the order in which they are made.
\<close>

type_synonym loop = nat

record EventLoopThreadPool =
  baseLoop :: loop
  pool_name :: string
  started :: bool
  numThreads :: int
  next_index :: int
  threads :: "string list"
  loops :: "loop list"
  hash_ring :: ConsistentHash

definition EventLoopThreadPool_new :: "(string \<Rightarrow> size_t) \<Rightarrow> loop \<Rightarrow> string \<Rightarrow> EventLoopThreadPool" where
  "EventLoopThreadPool_new hashFunc base nameArg =
     \<lparr>baseLoop = base, pool_name = nameArg, started = False, numThreads = 0, next_index = 0,
      threads = [], loops = [], hash_ring = ConsistentHash_new 3 hashFunc\<rparr>"

definition EventLoopThreadPool_setThreadNum :: "EventLoopThreadPool \<Rightarrow> int \<Rightarrow> EventLoopThreadPool" where
  "EventLoopThreadPool_setThreadNum p n = p\<lparr>numThreads := n\<rparr>"

text \<open>One iteration of the loop; \<open>buf\<close> has 32 bytes more than the name, so no name is cut.\<close>

definition start_thread :: "(nat \<Rightarrow> loop result) \<Rightarrow> EventLoopThreadPool \<Rightarrow> nat \<Rightarrow> EventLoopThreadPool result" where
  "start_thread new_loop p i =
     (let buf = pool_name p @ dec i; p = p\<lparr>threads := threads p @ [buf]\<rparr> in
      andthen (new_loop i) (\<lambda>l.
      Inr (p\<lparr>loops := loops p @ [l], hash_ring := ConsistentHash_addNode (hash_ring p) buf\<rparr>)))"

primrec start_threads :: "(nat \<Rightarrow> loop result) \<Rightarrow> EventLoopThreadPool \<Rightarrow> nat list \<Rightarrow> EventLoopThreadPool result" where
  "start_threads new_loop p [] = Inr p"
| "start_threads new_loop p (i # is) = andthen (start_thread new_loop p i) (\<lambda>p. start_threads new_loop p is)"

definition EventLoopThreadPool_start ::
  "(nat \<Rightarrow> loop result) \<Rightarrow> bool \<Rightarrow> EventLoopThreadPool \<Rightarrow> (EventLoopThreadPool \<times> loop list) result" where
  "EventLoopThreadPool_start new_loop cb p =
     andthen (start_threads new_loop (p\<lparr>started := True\<rparr>) [0..<nat (numThreads p)]) (\<lambda>p'.
     (let called = (if cb then drop (length (loops p)) (loops p') else []) in
      Inr (p', if numThreads p = 0 \<and> cb then called @ [baseLoop p] else called)))"

definition EventLoopThreadPool_getNextLoop :: "EventLoopThreadPool \<Rightarrow> string \<Rightarrow> loop result" where
  "EventLoopThreadPool_getNextLoop p key =
     (case ConsistentHash_getNode (hash_ring p) key of
        Inl e \<Rightarrow> Inl e
      | Inr index \<Rightarrow>
          if length (loops p) \<le> unat index then Inr (baseLoop p)
          else Inr (loops p ! unat index))"

definition EventLoopThreadPool_getAllLoops :: "EventLoopThreadPool \<Rightarrow> loop list" where
  "EventLoopThreadPool_getAllLoops p = (if loops p = [] then [baseLoop p] else loops p)"

section \<open>A started pool\<close>

text \<open>The pool when every thread has come up, with its loop at the address \<open>new_loop i\<close>.\<close>

definition started_pool :: "(string \<Rightarrow> size_t) \<Rightarrow> (nat \<Rightarrow> loop) \<Rightarrow> loop \<Rightarrow> string \<Rightarrow> int \<Rightarrow> EventLoopThreadPool" where
  "started_pool hashFunc new_loop base name n =
     fst (projr (EventLoopThreadPool_start (\<lambda>i. Inr (new_loop i)) False
       (EventLoopThreadPool_setThreadNum (EventLoopThreadPool_new hashFunc base name) n)))"

lemma start_threads_all:
  assumes "\<And>i. i \<in> set is \<Longrightarrow> new_loop i = Inr (l i)"
  shows "start_threads new_loop p is =
     Inr (p\<lparr>threads := threads p @ map (\<lambda>i. pool_name p @ dec i) is,
       loops := loops p @ map l is,
       hash_ring := ring_run (map (\<lambda>i. AddNode (pool_name p @ dec i)) is) (hash_ring p)\<rparr>)"
  using assms by (induction "is" arbitrary: p) (simp_all add: start_thread_def Let_def)

lemma start_threads_fails:
  "i \<in> set is \<Longrightarrow> new_loop i = Inl e \<Longrightarrow> \<exists>j e'. j \<in> set is \<and> new_loop j = Inl e' \<and> start_threads new_loop p is = Inl e'"
proof (induction "is" arbitrary: p)
  case (Cons k ks)
  show ?case
  proof (cases "new_loop k")
    case (Inl e')
    then show ?thesis by (intro exI [of _ k] exI [of _ e']) (simp add: start_thread_def Let_def)
  next
    case (Inr l)
    then have "i \<in> set ks" using Cons.prems by auto
    then show ?thesis using Cons.IH [OF _ Cons.prems(2)] Inr by (fastforce simp: start_thread_def Let_def)
  qed
qed simp

lemma pool_start_all:
  assumes "\<And>i. i < nat n \<Longrightarrow> f i = Inr (new_loop i)"
  shows "EventLoopThreadPool_start f cb (EventLoopThreadPool_setThreadNum (EventLoopThreadPool_new hashFunc base name) n) =
     Inr (\<lparr>baseLoop = base, pool_name = name, started = True, numThreads = n, next_index = 0,
      threads = map (\<lambda>i. name @ dec i) [0..<nat n], loops = map new_loop [0..<nat n],
      hash_ring = ring_run (map (\<lambda>i. AddNode (name @ dec i)) [0..<nat n]) (ConsistentHash_new 3 hashFunc)\<rparr>,
       if cb then map new_loop [0..<nat n] @ (if n = 0 then [base] else []) else [])"
proof -
  have "start_threads f q [0..<nat n] = Inr (q\<lparr>threads := threads q @ map (\<lambda>i. pool_name q @ dec i) [0..<nat n],
      loops := loops q @ map new_loop [0..<nat n], hash_ring := ring_run (map (\<lambda>i. AddNode (pool_name q @ dec i)) [0..<nat n]) (hash_ring q)\<rparr>)" for q
    by (rule start_threads_all) (simp add: assms)
  then show ?thesis
    by (simp add: EventLoopThreadPool_start_def EventLoopThreadPool_setThreadNum_def EventLoopThreadPool_new_def Let_def)
qed

lemma started_pool_eq:
  "started_pool hashFunc new_loop base name n =
     \<lparr>baseLoop = base, pool_name = name, started = True, numThreads = n, next_index = 0,
      threads = map (\<lambda>i. name @ dec i) [0..<nat n], loops = map new_loop [0..<nat n],
      hash_ring = ring_run (map (\<lambda>i. AddNode (name @ dec i)) [0..<nat n]) (ConsistentHash_new 3 hashFunc)\<rparr>"
  by (simp add: started_pool_def pool_start_all [where new_loop = new_loop])

lemma pool_start_eq:
  assumes "\<And>i. i < nat n \<Longrightarrow> f i = Inr (new_loop i)"
  shows "EventLoopThreadPool_start f cb (EventLoopThreadPool_setThreadNum (EventLoopThreadPool_new hashFunc base name) n) =
     Inr (started_pool hashFunc new_loop base name n, if cb then map new_loop [0..<nat n] @ (if n = 0 then [base] else []) else [])"
  unfolding started_pool_eq by (rule pool_start_all [OF assms])

lemma pool_start_cong:
  assumes "\<And>i. i < nat (numThreads p) \<Longrightarrow> f i = g i"
  shows "EventLoopThreadPool_start f cb p = EventLoopThreadPool_start g cb p"
proof -
  have cong: "start_threads f q is = start_threads g q is" if "\<And>i. i \<in> set is \<Longrightarrow> f i = g i" for q "is"
    using that by (induction "is" arbitrary: q) (simp_all add: start_thread_def)
  have "start_threads f (p\<lparr>started := True\<rparr>) [0..<nat (numThreads p)] = start_threads g (p\<lparr>started := True\<rparr>) [0..<nat (numThreads p)]"
    by (rule cong) (simp add: assms)
  then show ?thesis by (simp add: EventLoopThreadPool_start_def)
qed

lemma pool_start_fails:
  assumes "i < nat (numThreads p)" and "new_loop i = Inl e"
  shows "\<exists>j e'. j < nat (numThreads p) \<and> new_loop j = Inl e' \<and> EventLoopThreadPool_start new_loop cb p = Inl e'"
proof -
  obtain j e' where "j \<in> set [0..<nat (numThreads p)]" "new_loop j = Inl e'"
      "start_threads new_loop (p\<lparr>started := True\<rparr>) [0..<nat (numThreads p)] = Inl e'"
    using start_threads_fails [of i "[0..<nat (numThreads p)]" new_loop e "p\<lparr>started := True\<rparr>"] assms by auto
  then show ?thesis by (intro exI [of _ j] exI [of _ e']) (simp add: EventLoopThreadPool_start_def)
qed

lemma entered_circle:
  assumes "numReplicas c = 3"
  shows "circle (ConsistentHash_addNode c node) \<noteq> Map.empty"
  using replicas_3(1) [OF assms] by (auto simp: addNode_eq fun_eq_iff)

lemma ring_nonempty:
  "numReplicas c = 3 \<Longrightarrow>
   circle (ring_run (map AddNode ns) c) = Map.empty \<longleftrightarrow> circle c = Map.empty \<and> ns = []"
proof (induction ns arbitrary: c)
  case (Cons n ns)
  have "numReplicas (ConsistentHash_addNode c n) = 3" using Cons.prems by (simp add: addNode_eq)
  then show ?case using Cons.IH entered_circle [OF Cons.prems] by simp
qed simp

lemma started_ring:
  "hash_ring (started_pool hashFunc new_loop base name n) =
   ring_run (map AddNode (map (\<lambda>i. name @ dec i) [0..<nat n])) (ConsistentHash_new 3 hashFunc)"
  by (simp add: started_pool_eq comp_def)

lemma started_getNode:
  assumes "0 < n"
  shows "ConsistentHash_getNode (hash_ring (started_pool hashFunc new_loop base name n)) key =
     Inr (successor (set (sortedHashes (hash_ring (started_pool hashFunc new_loop base name n))))
       (hashFunc key))"
proof -
  let ?c = "hash_ring (started_pool hashFunc new_loop base name n)"
  have "circle ?c \<noteq> Map.empty"
    using assms unfolding started_ring by (subst ring_nonempty) simp_all
  moreover have "ring_inv ?c" unfolding started_ring by (intro ring_run_inv ring_inv_new)
  moreover have "hashFunction ?c = hashFunc" by (simp add: started_ring)
  ultimately show ?thesis using getNode_successor by metis
qed

section \<open>Properties\<close>

lemma empty_nextLoop:
  "n \<le> 0 \<Longrightarrow> EventLoopThreadPool_getNextLoop (started_pool hashFunc new_loop base name n) key =
     Inl (Runtime_error ''No nodes in consistent hash'')"
  by (simp add: EventLoopThreadPool_getNextLoop_def started_pool_eq ConsistentHash_getNode_def)

lemma started_nextLoop:
  assumes "0 < n"
  shows "\<exists>l \<in> set (base # map new_loop [0..<nat n]).
     EventLoopThreadPool_getNextLoop (started_pool hashFunc new_loop base name n) key = Inr l"
proof -
  let ?p = "started_pool hashFunc new_loop base name n"
  have p: "loops ?p = map new_loop [0..<nat n]" "baseLoop ?p = base" by (simp_all add: started_pool_eq)
  obtain i where "ConsistentHash_getNode (hash_ring ?p) key = Inr i" using started_getNode [OF assms] by blast
  then have "EventLoopThreadPool_getNextLoop ?p key = Inr (if length (loops ?p) \<le> unat i then base else loops ?p ! unat i)"
    using p(2) by (simp add: EventLoopThreadPool_getNextLoop_def)
  moreover have "(if length (loops ?p) \<le> unat i then base else loops ?p ! unat i) \<in> set (base # loops ?p)" by simp
  ultimately show ?thesis using p(1) by auto
qed

text \<open>
  \<open>start\<close> sets up one named thread, one loop and one node of the ring per thread, in order and
  with distinct names; the callback is called once per loop, or once for the base loop when there
  are no threads; \<open>getAllLoops\<close> lists all loops, or the base loop alone. When a thread does not come up, its error is the outcome.
\<close>

theorem EventLoopThreadPool_start_effect:
  fixes n hashFunc base name new_loop
  assumes "0 \<le> n"
  defines "p \<equiv> EventLoopThreadPool_setThreadNum (EventLoopThreadPool_new hashFunc base name) n"
  shows "if \<forall>i < nat n. \<exists>l. new_loop i = Inr l
     then \<exists>p' called. EventLoopThreadPool_start new_loop True p = Inr (p', called) \<and> started p' \<and>
       threads p' = map (\<lambda>i. name @ dec i) [0..<nat n] \<and> distinct (threads p') \<and>
       map Inr (loops p') = map new_loop [0..<nat n] \<and>
       hash_ring p' = foldl ConsistentHash_addNode (ConsistentHash_new 3 hashFunc) (threads p') \<and>
       called = EventLoopThreadPool_getAllLoops p'
     else \<exists>i < nat n. \<exists>e. new_loop i = Inl e \<and> EventLoopThreadPool_start new_loop True p = Inl e"
proof (cases "\<forall>i < nat n. \<exists>l. new_loop i = Inr l")
  case True
  then obtain l where l: "\<And>i. i < nat n \<Longrightarrow> new_loop i = Inr (l i)" by metis
  have ring: "ring_run (map (\<lambda>i. AddNode (name @ dec i)) is) c =
      foldl ConsistentHash_addNode c (map (\<lambda>i. name @ dec i) is)" for "is" c
    by (induction "is" arbitrary: c) simp_all
  show ?thesis
    using assms(1) True l
    by (simp add: p_def pool_start_eq [where new_loop = l] started_pool_eq ring distinct_map inj_on_def EventLoopThreadPool_getAllLoops_def)
next
  case False
  then obtain i e where "i < nat (numThreads p)" "new_loop i = Inl e"
    by (auto simp: p_def EventLoopThreadPool_setThreadNum_def) (metis sum.exhaust)
  from pool_start_fails [of i p new_loop e True, OF this] False show ?thesis
    by (auto simp: p_def EventLoopThreadPool_setThreadNum_def)
qed

text \<open>
  C32. On a started pool \<open>getNextLoop\<close> uses the hash value that \<open>getNode\<close> found as an index into the
  vector of loops. The access is always in range, and with threads the result is one of
  the loops or the base loop; but without threads every call throws, and when no hash value on
  the ring is smaller than the number of threads every connection is given to the base loop.
\<close>

theorem EventLoopThreadPool_getNextLoop_outcome:
  fixes n hashFunc new_loop base name key
  defines "p \<equiv> started_pool hashFunc new_loop base name n"
  shows "(n \<le> 0 \<longrightarrow> EventLoopThreadPool_getNextLoop p key =
           Inl (Runtime_error ''No nodes in consistent hash'')) \<and>
     (0 < n \<longrightarrow> (\<exists>l \<in> set (baseLoop p # loops p). EventLoopThreadPool_getNextLoop p key = Inr l)) \<and>
     (0 < n \<and> (\<forall>h \<in> set (sortedHashes (hash_ring p)). nat n \<le> unat h) \<longrightarrow>
        EventLoopThreadPool_getNextLoop p key = Inr base)"
proof (intro conjI impI)
  assume "n \<le> 0"
  then show "EventLoopThreadPool_getNextLoop p key = Inl (Runtime_error ''No nodes in consistent hash'')"
    unfolding p_def by (rule empty_nextLoop)
next
  assume "0 < n"
  from started_nextLoop [OF this]
  show "\<exists>l \<in> set (baseLoop p # loops p). EventLoopThreadPool_getNextLoop p key = Inr l"
    by (auto simp: p_def started_pool_eq)
next
  assume *: "0 < n \<and> (\<forall>h \<in> set (sortedHashes (hash_ring p)). nat n \<le> unat h)"
  let ?H = "set (sortedHashes (hash_ring p))"
  have "ring_inv (hash_ring p)" unfolding p_def started_ring by (intro ring_run_inv ring_inv_new)
  moreover have "circle (hash_ring p) \<noteq> Map.empty"
    using * unfolding p_def started_ring by (subst ring_nonempty) simp_all
  ultimately have "?H \<noteq> {}" by (auto simp: ring_inv_def)
  then have "successor ?H (hashFunc key) \<in> ?H" by (intro successor_in) simp_all
  then have "nat n \<le> unat (successor ?H (hashFunc key))" using * by blast
  moreover have "length (loops p) = nat n" "baseLoop p = base" by (simp_all add: p_def started_pool_eq)
  ultimately show "EventLoopThreadPool_getNextLoop p key = Inr base"
    using started_getNode [of n hashFunc new_loop base name key] *
    by (simp add: EventLoopThreadPool_getNextLoop_def flip: p_def)
qed

section \<open>Witnesses\<close>

theorem EventLoopThreadPool_start_effect_witness:
  "EventLoopThreadPool_start (\<lambda>i. if i = 0 then Inr 100 else Inl Aborted) True
      (EventLoopThreadPool_setThreadNum (EventLoopThreadPool_new poly_hash 7 ''io'') 2) = Inl Aborted"
proof -
  have "\<not> (\<forall>i < nat 2. \<exists>l. (if i = 0 then Inr 100 else Inl Aborted) = (Inr l :: loop result))"
    by (auto intro!: exI [of _ "1 :: nat"])
  then show ?thesis
    using EventLoopThreadPool_start_effect [of 2 "\<lambda>i. if i = 0 then Inr 100 else Inl Aborted" poly_hash 7 "''io''"]
    by (auto split: if_splits)
qed

theorem EventLoopThreadPool_getNextLoop_outcome_witness:
  "EventLoopThreadPool_getNextLoop (started_pool poly_hash (\<lambda>i. 100 + i) 7 ''io'' 1) ''192.168.0.1:80'' = Inr 7"
proof -
  have "[0..<nat 1] = [0]" by (simp add: upt_rec)
  then have "\<forall>h \<in> set (sortedHashes (hash_ring (started_pool poly_hash (\<lambda>i. 100 + i) 7 ''io'' 1))).
      nat 1 \<le> unat h"
    by (simp add: started_pool_eq addNode_eq replicas_3 dec_digit poly_hash_def)
  then show ?thesis
    using EventLoopThreadPool_getNextLoop_outcome
      [of 1 poly_hash "\<lambda>i. 100 + i" 7 "''io''" "''192.168.0.1:80''"] by simp
qed

end
