(* ===== verification/Log_Stream.thy ===== *)
theory Log_Stream
  imports Prelude "HOL-Library.Signed_Division" "HOL-Library.Sublist"
begin

text \<open>
  The front end of the logger: the fixed-size buffer (\<open>include/log/FixedBuffer.h\<close>), the stream that
  formats values into it (\<open>include/log/LogStream.h\<close>, \<open>src/log/LogStream.cc\<close>) and the log line that a
  \<open>Logger\<close> builds from its construction to its destruction (\<open>include/log/Logger.h\<close>,
  \<open>src/log/Logger.cc\<close>). Writing outside \<open>data_\<close> is the error \<open>Out_of_bounds\<close>. An integer argument of
  any of the eight C++ types is its value; \<open>%\<close> and \<open>/\<close> truncate towards zero, as \<open>smod\<close> and \<open>sdiv\<close> do.
\<close>

section \<open>FixedBuffer\<close>

definition kSmallBufferSize :: nat where
  "kSmallBufferSize = 4000"

definition kLargeBufferSize :: nat where
  "kLargeBufferSize = 4000 * 1000"

record FixedBuffer =
  data :: "byte list"
  cur :: nat
  used :: int

definition FixedBuffer_new :: "nat \<Rightarrow> FixedBuffer" where
  "FixedBuffer_new buffer_size = \<lparr>data = replicate buffer_size (CHR 0x00), cur = 0, used = 0\<rparr>"

definition FixedBuffer_avail :: "FixedBuffer \<Rightarrow> size_t" where
  "FixedBuffer_avail b = of_int (int (length (data b)) - used b)"

definition FixedBuffer_add :: "FixedBuffer \<Rightarrow> nat \<Rightarrow> FixedBuffer" where
  "FixedBuffer_add b len = b\<lparr>cur := cur b + len, used := used b + int len\<rparr>"

definition FixedBuffer_append :: "FixedBuffer \<Rightarrow> byte list \<Rightarrow> FixedBuffer result" where
  "FixedBuffer_append b buf =
     (if of_nat (length buf) < FixedBuffer_avail b
      then (case vec_write (data b) (cur b) buf of
              Inl e \<Rightarrow> Inl e
            | Inr d \<Rightarrow> Inr (FixedBuffer_add (b\<lparr>data := d\<rparr>) (length buf)))
      else Inr b)"

definition FixedBuffer_reset :: "FixedBuffer \<Rightarrow> FixedBuffer" where
  "FixedBuffer_reset b = b\<lparr>cur := 0, used := 0\<rparr>"

definition FixedBuffer_bzero :: "FixedBuffer \<Rightarrow> FixedBuffer" where
  "FixedBuffer_bzero b = b\<lparr>data := replicate (length (data b)) (CHR 0x00)\<rparr>"

definition FixedBuffer_toString :: "FixedBuffer \<Rightarrow> string" where
  "FixedBuffer_toString b = take (nat (used b)) (data b)"

section \<open>LogStream\<close>

definition kMaxNumberSize :: size_t where
  "kMaxNumberSize = 32"

definition digits :: string where
  "digits = ''9876543210123456789''"

text \<open>\<open>zero\<close> points to the tenth character, so that negative remainders index to its left.\<close>

definition zero_at :: "int \<Rightarrow> char" where
  "zero_at remainder = digits ! nat (9 + remainder)"

function format_digits :: "int \<Rightarrow> string" where
  "format_digits num =
     zero_at (num smod 10) # (let num = num sdiv 10 in if num \<noteq> 0 then format_digits num else [])"
  by pat_completeness auto
termination
proof (relation "measure (\<lambda>num. nat \<bar>num\<bar>)")
  fix num x :: int
  assume x: "x = num sdiv 10" "x \<noteq> 0"
  have "\<bar>x\<bar> = \<bar>num\<bar> div 10" unfolding x(1) by (simp add: signed_divide_int_def abs_mult sgn_if)
  moreover have "num \<noteq> 0" using x by (auto simp: signed_divide_int_def)
  ultimately show "(x, num) \<in> measure (\<lambda>num. nat \<bar>num\<bar>)" by (auto simp: nat_less_iff)
qed simp

declare format_digits.simps [simp del]

definition LogStream_formatInteger :: "FixedBuffer \<Rightarrow> int \<Rightarrow> FixedBuffer result" where
  "LogStream_formatInteger b num =
     (if kMaxNumberSize \<le> FixedBuffer_avail b
      then (let start = cur b;
                negative = (num < 0);
                text = format_digits num @ (if negative then ''-'' else []) in
        case vec_write (data b) start (text @ [CHR 0x00]) of
          Inl e \<Rightarrow> Inl e
        | Inr d \<Rightarrow> (case vec_write d start (rev text) of
            Inl e \<Rightarrow> Inl e
          | Inr d \<Rightarrow> Inr (FixedBuffer_add (b\<lparr>data := d\<rparr>) (length text))))
      else Inr b)"

definition c_str :: "byte list \<Rightarrow> byte list" where
  "c_str s = takeWhile (\<lambda>c. c \<noteq> CHR 0x00) s"

text \<open>
  The overloads of \<open>operator<<\<close>. A \<open>double\<close> is printed by \<open>snprintf\<close> with \<open>%.12g\<close> into 32 bytes;
  what it prints is the argument \<open>fmt\<close>.
\<close>

datatype 'd log_item =
    LBool bool
  | LInteger int
  | LFloat 'd
  | LDouble 'd
  | LChar char
  | LCString "byte list"
  | LUString "byte list"
  | LString string
  | LTemplate "byte list"

fun LogStream_put :: "('d \<Rightarrow> string) \<Rightarrow> FixedBuffer \<Rightarrow> 'd log_item \<Rightarrow> FixedBuffer result" where
  "LogStream_put fmt b (LBool express) = FixedBuffer_append b (if express then ''true'' else ''false'')"
| "LogStream_put fmt b (LInteger number) = LogStream_formatInteger b number"
| "LogStream_put fmt b (LFloat number) = FixedBuffer_append b (c_str (take 31 (fmt number)))"
| "LogStream_put fmt b (LDouble number) = FixedBuffer_append b (c_str (take 31 (fmt number)))"
| "LogStream_put fmt b (LChar str) = FixedBuffer_append b [str]"
| "LogStream_put fmt b (LCString str) = FixedBuffer_append b (c_str str)"
| "LogStream_put fmt b (LUString str) = FixedBuffer_append b (c_str str)"
| "LogStream_put fmt b (LString str) = FixedBuffer_append b str"
| "LogStream_put fmt b (LTemplate g) = FixedBuffer_append b g"

primrec LogStream_puts :: "('d \<Rightarrow> string) \<Rightarrow> FixedBuffer \<Rightarrow> 'd log_item list \<Rightarrow> FixedBuffer result" where
  "LogStream_puts fmt b [] = Inr b"
| "LogStream_puts fmt b (x # xs) =
     (case LogStream_put fmt b x of Inl e \<Rightarrow> Inl e | Inr b \<Rightarrow> LogStream_puts fmt b xs)"

section \<open>Logger\<close>

text \<open>The broken-down time of \<open>localtime\<close>, with the fields that are printed.\<close>

record tm =
  tm_year :: nat
  tm_mon :: nat
  tm_mday :: nat
  tm_hour :: nat
  tm_min :: nat
  tm_sec :: nat

definition pad :: "char \<Rightarrow> nat \<Rightarrow> nat \<Rightarrow> string" where
  "pad c w n = replicate (w - length (dec n)) c @ dec n"

definition time_text :: "tm \<Rightarrow> string" where
  "time_text t = pad (CHR '' '') 4 (tm_year t + 1900) @ ''/'' @ pad (CHR ''0'') 2 (tm_mon t + 1) @ ''/'' @
     pad (CHR ''0'') 2 (tm_mday t) @ '' '' @ pad (CHR ''0'') 2 (tm_hour t) @ '':'' @
     pad (CHR ''0'') 2 (tm_min t) @ '':'' @ pad (CHR ''0'') 2 (tm_sec t)"

definition kMicroSecondsPerSecond :: nat where
  "kMicroSecondsPerSecond = 1000 * 1000"

datatype LogLevel = TRACE | DEBUG | INFO | WARN | ERROR | FATAL

fun getLevelName :: "LogLevel \<Rightarrow> string" where
  "getLevelName TRACE = ''TRACE ''"
| "getLevelName DEBUG = ''DEBUG ''"
| "getLevelName INFO = ''INFO  ''"
| "getLevelName WARN = ''WARN  ''"
| "getLevelName ERROR = ''ERROR ''"
| "getLevelName FATAL = ''FATAL ''"

text \<open>\<open>SourceFile\<close>: what follows the last slash of a path, or the whole path.\<close>

definition SourceFile :: "string \<Rightarrow> string" where
  "SourceFile filename = rev (takeWhile (\<lambda>c. c \<noteq> CHR ''/'') (rev filename))"

record Logger =
  stream :: FixedBuffer
  level :: LogLevel
  line :: int
  basename :: string

text \<open>
  \<open>snprintf\<close> leaves the text and a null byte in the 64 bytes of \<open>t_timer\<close>, of which 17 are logged.
\<close>

definition Logger_formatTime :: "(int \<Rightarrow> tm) \<Rightarrow> nat \<Rightarrow> FixedBuffer \<Rightarrow> FixedBuffer result" where
  "Logger_formatTime localtime now b =
     (let seconds = now div kMicroSecondsPerSecond;
          microseconds = now mod kMicroSecondsPerSecond;
          t_timer = take 63 (time_text (localtime (int seconds))) @ replicate 64 (CHR 0x00);
          buf = take 31 (pad (CHR ''0'') 6 microseconds @ '' '') @ replicate 32 (CHR 0x00) in
      LogStream_puts (\<lambda>_ :: unit. []) b [LTemplate (take 17 t_timer), LTemplate (take 7 buf)])"

definition Logger_Impl ::
  "(int \<Rightarrow> tm) \<Rightarrow> (int \<Rightarrow> string) \<Rightarrow> nat \<Rightarrow> LogLevel \<Rightarrow> int \<Rightarrow> string \<Rightarrow> int \<Rightarrow> Logger result" where
  "Logger_Impl localtime strerror now lev savedErrno filename ln =
     (case Logger_formatTime localtime now (FixedBuffer_new kSmallBufferSize) of
        Inl e \<Rightarrow> Inl e
      | Inr b \<Rightarrow>
          (case LogStream_puts (\<lambda>_ :: unit. []) b
             (LTemplate (getLevelName lev) #
              (if savedErrno \<noteq> 0
               then [LCString (strerror savedErrno), LCString '' (errno='', LInteger savedErrno, LCString '') '']
               else [])) of
             Inl e \<Rightarrow> Inl e
           | Inr b \<Rightarrow> Inr \<lparr>stream = b, level = lev, line = ln, basename = SourceFile filename\<rparr>))"

definition Logger_new :: "(int \<Rightarrow> tm) \<Rightarrow> (int \<Rightarrow> string) \<Rightarrow> nat \<Rightarrow> string \<Rightarrow> int \<Rightarrow> LogLevel \<Rightarrow> Logger result" where
  "Logger_new localtime strerror now filename ln lev = Logger_Impl localtime strerror now lev 0 filename ln"

definition Logger_finish :: "Logger \<Rightarrow> Logger result" where
  "Logger_finish l =
     (case LogStream_puts (\<lambda>_ :: unit. []) (stream l)
        [LCString '' - '', LTemplate (basename l), LChar (CHR '':''), LInteger (line l), LChar (CHR 0x0A)] of
        Inl e \<Rightarrow> Inl e | Inr b \<Rightarrow> Inr (l\<lparr>stream := b\<rparr>))"

text \<open>The destructor: the text handed to \<open>g_output\<close>, and whether it then flushes and aborts.\<close>

definition Logger_destroy :: "Logger \<Rightarrow> (string \<times> bool) result" where
  "Logger_destroy l =
     (case Logger_finish l of
        Inl e \<Rightarrow> Inl e
      | Inr l \<Rightarrow> Inr (FixedBuffer_toString (stream l), level l = FATAL))"

text \<open>A logging statement: construct, stream the message, destroy.\<close>

definition LOG ::
  "(int \<Rightarrow> tm) \<Rightarrow> (int \<Rightarrow> string) \<Rightarrow> ('d \<Rightarrow> string) \<Rightarrow> nat \<Rightarrow> string \<Rightarrow> int \<Rightarrow> LogLevel \<Rightarrow> 'd log_item list \<Rightarrow>
   (string \<times> bool) result" where
  "LOG localtime strerror fmt now filename ln lev msg =
     (case Logger_new localtime strerror now filename ln lev of
        Inl e \<Rightarrow> Inl e
      | Inr l \<Rightarrow> (case LogStream_puts fmt (stream l) msg of
          Inl e \<Rightarrow> Inl e
        | Inr b \<Rightarrow> Logger_destroy (l\<lparr>stream := b\<rparr>)))"

section \<open>FixedBuffer keeps its invariant\<close>

definition fb_inv :: "FixedBuffer \<Rightarrow> bool" where
  "fb_inv b \<longleftrightarrow> length (data b) < 2 ^ 31 \<and> 0 \<le> used b \<and> used b \<le> int (length (data b)) \<and>
     cur b = nat (used b)"

definition fb_free :: "FixedBuffer \<Rightarrow> nat" where
  "fb_free b = length (data b) - nat (used b)"

lemma fb_inv_new [simp]: "n < 2 ^ 31 \<Longrightarrow> fb_inv (FixedBuffer_new n)"
  by (simp add: fb_inv_def FixedBuffer_new_def)

lemma toString_new [simp]: "FixedBuffer_toString (FixedBuffer_new n) = []"
  by (simp add: FixedBuffer_toString_def FixedBuffer_new_def)

lemma unat_avail: "fb_inv b \<Longrightarrow> unat (FixedBuffer_avail b) = fb_free b"
proof -
  assume inv: "fb_inv b"
  then have "int (length (data b)) - used b = int (fb_free b)" by (auto simp: fb_inv_def fb_free_def)
  moreover have "fb_free b < 2 ^ 64" using inv by (auto simp: fb_inv_def fb_free_def)
  ultimately show ?thesis by (simp add: FixedBuffer_avail_def unat_of_nat_size)
qed

text \<open>Bytes written at the current position, with more behind them that are not counted.\<close>

lemma write_add:
  assumes inv: "fb_inv b" and room: "length xs \<le> fb_free b"
  shows "\<exists>d. vec_write (data b) (cur b) xs = Inr d \<and> length d = length (data b) \<and>
     (\<forall>n \<le> length xs. fb_inv (FixedBuffer_add (b\<lparr>data := d\<rparr>) n) \<and>
        FixedBuffer_toString (FixedBuffer_add (b\<lparr>data := d\<rparr>) n) = FixedBuffer_toString b @ take n xs)"
proof -
  let ?d = "take (cur b) (data b) @ xs @ drop (cur b + length xs) (data b)"
  have fits: "cur b + length xs \<le> length (data b)" "nat (used b) = cur b"
    using inv room by (auto simp: fb_inv_def fb_free_def)
  then have w: "vec_write (data b) (cur b) xs = Inr ?d" by simp
  have len: "length ?d = length (data b)" using fits by simp
  have "fb_inv (FixedBuffer_add (b\<lparr>data := ?d\<rparr>) n) \<and>
      FixedBuffer_toString (FixedBuffer_add (b\<lparr>data := ?d\<rparr>) n) = FixedBuffer_toString b @ take n xs"
    if n: "n \<le> length xs" for n
  proof
    show "fb_inv (FixedBuffer_add (b\<lparr>data := ?d\<rparr>) n)"
      using inv len fits n by (auto simp: fb_inv_def FixedBuffer_add_def nat_add_distrib)
    have "nat (used b + int n) = cur b + n" using inv by (simp add: fb_inv_def nat_add_distrib)
    then show "FixedBuffer_toString (FixedBuffer_add (b\<lparr>data := ?d\<rparr>) n) = FixedBuffer_toString b @ take n xs"
      using fits n by (simp add: FixedBuffer_toString_def FixedBuffer_add_def)
  qed
  with w len show ?thesis by blast
qed

lemma add_fields [simp]:
  "data (FixedBuffer_add b n) = data b"
  by (simp add: FixedBuffer_add_def)

lemma append_spec:
  assumes inv: "fb_inv b" and len: "length buf < 2 ^ 64"
  shows "\<exists>b'. FixedBuffer_append b buf = Inr b' \<and> fb_inv b' \<and> length (data b') = length (data b) \<and>
     FixedBuffer_toString b' =
       (if length buf < fb_free b then FixedBuffer_toString b @ buf else FixedBuffer_toString b)"
proof -
  have guard: "of_nat (length buf) < FixedBuffer_avail b \<longleftrightarrow> length buf < fb_free b"
    using unat_avail [OF inv] len by (simp add: word_less_nat_alt unat_of_nat_size)
  show ?thesis
  proof (cases "length buf < fb_free b")
    case True
    then obtain d where "vec_write (data b) (cur b) buf = Inr d" "length d = length (data b)"
        "\<forall>n \<le> length buf. fb_inv (FixedBuffer_add (b\<lparr>data := d\<rparr>) n) \<and>
          FixedBuffer_toString (FixedBuffer_add (b\<lparr>data := d\<rparr>) n) = FixedBuffer_toString b @ take n buf"
      using write_add [OF inv, of buf] by auto
    then show ?thesis using True guard by (auto simp: FixedBuffer_append_def)
  next
    case False
    then show ?thesis using inv guard by (simp add: FixedBuffer_append_def)
  qed
qed

section \<open>Integers\<close>

definition int_text :: "int \<Rightarrow> string" where
  "int_text n = (if n < 0 then ''-'' else []) @ dec (nat \<bar>n\<bar>)"

lemma zero_at_digit:
  assumes "\<bar>r\<bar> < 10"
  shows "zero_at r = digit (nat \<bar>r\<bar>)"
proof -
  have "r \<in> {-9, -8, -7, -6, -5, -4, -3, -2, -1, 0, 1, 2, 3, 4, 5, 6, 7, 8, 9}"
    using assms unfolding abs_less_iff by simp presburger
  then show ?thesis by (elim insertE; simp; code_simp)
qed

lemma rev_format_digits: "rev (format_digits n) = dec (nat \<bar>n\<bar>)"
proof (induction n rule: format_digits.induct)
  case (1 n)
  have d: "\<bar>n sdiv 10\<bar> = \<bar>n\<bar> div 10" by (simp add: signed_divide_int_def abs_mult sgn_if)
  have m: "\<bar>n smod 10\<bar> = \<bar>n\<bar> mod 10" by (simp add: signed_modulo_int_def abs_mult sgn_if)
  have z: "zero_at (n smod 10) = digit (nat \<bar>n\<bar> mod 10)"
    using zero_at_digit [of "n smod 10"] m by (simp add: nat_mod_distrib)
  show ?case
  proof (cases "n sdiv 10 = 0")
    case True
    then have "nat \<bar>n\<bar> < 10" using d by auto
    then show ?thesis using True z by (subst format_digits.simps, subst dec.simps) simp
  next
    case False
    then have "\<not> nat \<bar>n\<bar> < 10" using d by auto
    moreover have "rev (format_digits (n sdiv 10)) = dec (nat \<bar>n\<bar> div 10)"
      using "1.IH" [OF refl False] d by (simp add: nat_div_distrib)
    ultimately show ?thesis
      using False z by (subst format_digits.simps, subst dec.simps) simp
  qed
qed

lemma length_int_text:
  assumes "- (2 ^ 63) \<le> n" and "n < 2 ^ 64"
  shows "length (int_text n) \<le> 20"
proof (cases "n < 0")
  case True
  then have "nat \<bar>n\<bar> < 10 ^ 19" using assms by simp
  then have "length (dec (nat \<bar>n\<bar>)) \<le> 19" by (rule length_dec) simp
  then show ?thesis using True by (simp add: int_text_def)
next
  case False
  then have "nat \<bar>n\<bar> < 10 ^ 20" using assms by simp
  then have "length (dec (nat \<bar>n\<bar>)) \<le> 20" by (rule length_dec) simp
  then show ?thesis using False by (simp add: int_text_def)
qed

lemma formatInteger_spec:
  assumes inv: "fb_inv b" and n: "- (2 ^ 63) \<le> n" "n < 2 ^ 64"
  shows "\<exists>b'. LogStream_formatInteger b n = Inr b' \<and> fb_inv b' \<and> length (data b') = length (data b) \<and>
     FixedBuffer_toString b' =
       (if 32 \<le> fb_free b then FixedBuffer_toString b @ int_text n else FixedBuffer_toString b)"
proof -
  let ?t = "format_digits n @ (if n < 0 then ''-'' else [])"
  have rt: "rev ?t = int_text n" by (simp add: rev_format_digits int_text_def)
  then have len: "length ?t \<le> 20" using length_int_text [OF n] by (metis length_rev)
  have guard: "kMaxNumberSize \<le> FixedBuffer_avail b \<longleftrightarrow> 32 \<le> fb_free b"
    using unat_avail [OF inv] by (simp add: word_le_nat_alt kMaxNumberSize_def)
  show ?thesis
  proof (cases "32 \<le> fb_free b")
    case False
    then show ?thesis using inv guard by (simp add: LogStream_formatInteger_def)
  next
    case True
    then obtain d where d: "vec_write (data b) (cur b) (?t @ [CHR 0x00]) = Inr d"
        "length d = length (data b)"
        "\<forall>m \<le> length (?t @ [CHR 0x00]). fb_inv (FixedBuffer_add (b\<lparr>data := d\<rparr>) m) \<and>
          FixedBuffer_toString (FixedBuffer_add (b\<lparr>data := d\<rparr>) m) =
            FixedBuffer_toString b @ take m (?t @ [CHR 0x00])"
      using write_add [OF inv, of "?t @ [CHR 0x00]"] len by auto
    let ?b = "b\<lparr>data := d\<rparr>"
    have "fb_inv ?b" and same: "FixedBuffer_toString ?b = FixedBuffer_toString b"
      using d(3) [rule_format, of 0] by (simp_all add: FixedBuffer_add_def)
    moreover have "length (rev ?t) \<le> fb_free ?b" using True len d(2) by (simp add: fb_free_def)
    ultimately obtain d' where d': "vec_write d (cur b) (rev ?t) = Inr d'" "length d' = length d"
        "\<forall>m \<le> length (rev ?t). fb_inv (FixedBuffer_add (?b\<lparr>data := d'\<rparr>) m) \<and>
          FixedBuffer_toString (FixedBuffer_add (?b\<lparr>data := d'\<rparr>) m) =
            FixedBuffer_toString ?b @ take m (rev ?t)"
      using write_add [of ?b "rev ?t"] by auto
    have "LogStream_formatInteger b n = Inr (FixedBuffer_add (b\<lparr>data := d'\<rparr>) (length ?t))"
      using True guard d(1) d'(1) by (simp add: LogStream_formatInteger_def Let_def)
    moreover have "fb_inv (FixedBuffer_add (b\<lparr>data := d'\<rparr>) (length ?t)) \<and>
        FixedBuffer_toString (FixedBuffer_add (b\<lparr>data := d'\<rparr>) (length ?t)) =
          FixedBuffer_toString b @ int_text n"
      using d'(3) [rule_format, of "length ?t"] same rt by simp
    ultimately show ?thesis using True d(2) d'(2) by simp
  qed
qed

section \<open>Streams of items\<close>

fun item_text :: "('d \<Rightarrow> string) \<Rightarrow> 'd log_item \<Rightarrow> string" where
  "item_text fmt (LBool e) = (if e then ''true'' else ''false'')"
| "item_text fmt (LInteger n) = int_text n"
| "item_text fmt (LFloat d) = c_str (take 31 (fmt d))"
| "item_text fmt (LDouble d) = c_str (take 31 (fmt d))"
| "item_text fmt (LChar c) = [c]"
| "item_text fmt (LCString s) = c_str s"
| "item_text fmt (LUString s) = c_str s"
| "item_text fmt (LString s) = s"
| "item_text fmt (LTemplate s) = s"

fun item_ok :: "'d log_item \<Rightarrow> bool" where
  "item_ok (LInteger n) \<longleftrightarrow> - (2 ^ 63) \<le> n \<and> n < 2 ^ 64"
| "item_ok (LCString s) \<longleftrightarrow> length s < 2 ^ 64"
| "item_ok (LUString s) \<longleftrightarrow> length s < 2 ^ 64"
| "item_ok (LString s) \<longleftrightarrow> length s < 2 ^ 64"
| "item_ok (LTemplate s) \<longleftrightarrow> length s < 2 ^ 64"
| "item_ok _ \<longleftrightarrow> True"

lemma length_c_str: "length (c_str s) \<le> length s"
  by (simp add: c_str_def length_takeWhile_le)

lemma put_spec:
  assumes inv: "fb_inv b" and ok: "item_ok x"
  shows "\<exists>b' w. LogStream_put fmt b x = Inr b' \<and> fb_inv b' \<and> length (data b') = length (data b) \<and>
     FixedBuffer_toString b' = FixedBuffer_toString b @ (if w then item_text fmt x else []) \<and>
     (length (item_text fmt x) + 32 \<le> fb_free b \<longrightarrow> w)"
proof (cases "\<exists>n. x = LInteger n")
  case True
  then obtain n where n: "x = LInteger n" by blast
  with formatInteger_spec [OF inv] ok obtain b' where "LogStream_formatInteger b n = Inr b'" "fb_inv b'"
      "length (data b') = length (data b)" "FixedBuffer_toString b' =
       (if 32 \<le> fb_free b then FixedBuffer_toString b @ int_text n else FixedBuffer_toString b)"
    by auto
  then show ?thesis using n by (intro exI [of _ b'] exI [of _ "32 \<le> fb_free b"]) auto
next
  case False
  then have put: "LogStream_put fmt b x = FixedBuffer_append b (item_text fmt x)" by (cases x) auto
  have "length (c_str (take 31 s)) < 2 ^ 64" for s :: string
    using length_c_str [of "take 31 s"] by (auto simp: min_def split: if_splits)
  then have "length (item_text fmt x) < 2 ^ 64"
    using ok False order.strict_trans1 [OF length_c_str] by (cases x) auto
  from append_spec [OF inv this] put show ?thesis
    by (intro exI [of _ "the (case LogStream_put fmt b x of Inl _ \<Rightarrow> None | Inr b' \<Rightarrow> Some b')"]
        exI [of _ "length (item_text fmt x) < fb_free b"]) auto
qed

lemma fb_free_text:
  assumes "fb_inv b" shows "fb_free b = length (data b) - length (FixedBuffer_toString b)"
  using assms by (simp add: fb_inv_def fb_free_def FixedBuffer_toString_def min_def)

lemma puts_spec:
  assumes "fb_inv b" and "\<forall>x \<in> set xs. item_ok x"
  shows "\<exists>b' ys. LogStream_puts fmt b xs = Inr b' \<and> fb_inv b' \<and> length (data b') = length (data b) \<and>
     subseq ys xs \<and> FixedBuffer_toString b' = FixedBuffer_toString b @ concat (map (item_text fmt) ys) \<and>
     (length (concat (map (item_text fmt) xs)) + 32 \<le> fb_free b \<longrightarrow> ys = xs)"
  using assms
proof (induction xs arbitrary: b)
  case Nil
  then show ?case by (intro exI [of _ b] exI [of _ "[]"]) simp
next
  case (Cons x xs)
  obtain b1 w where b1: "LogStream_put fmt b x = Inr b1" "fb_inv b1" "length (data b1) = length (data b)"
      "FixedBuffer_toString b1 = FixedBuffer_toString b @ (if w then item_text fmt x else [])"
      "length (item_text fmt x) + 32 \<le> fb_free b \<longrightarrow> w"
    using put_spec [OF Cons.prems(1), of x fmt] Cons.prems(2) by auto
  obtain b' ys where b': "LogStream_puts fmt b1 xs = Inr b'" "fb_inv b'" "length (data b') = length (data b1)"
      "subseq ys xs" "FixedBuffer_toString b' = FixedBuffer_toString b1 @ concat (map (item_text fmt) ys)"
      "length (concat (map (item_text fmt) xs)) + 32 \<le> fb_free b1 \<longrightarrow> ys = xs"
    using Cons.IH [OF b1(2)] Cons.prems(2) by auto
  have free: "fb_free b1 = fb_free b - length (if w then item_text fmt x else [])"
    using fb_free_text [OF Cons.prems(1)] fb_free_text [OF b1(2)] b1(3,4) by simp
  have whole: "w \<and> ys = xs" if "length (concat (map (item_text fmt) (x # xs))) + 32 \<le> fb_free b"
  proof -
    have w using b1(5) that by simp
    then show ?thesis using b'(6) that free by simp
  qed
  show ?case
    using b1 b' whole
    by (intro exI [of _ b'] exI [of _ "if w then x # ys else ys"]) auto
qed

section \<open>Properties\<close>

text \<open>
  C34. Printing an integer of any C++ type into a well-formed buffer never writes outside it. With
  32 free bytes it appends exactly the decimal notation, for the most negative number too;
  with fewer it leaves the contents alone.
\<close>

theorem LogStream_formatInteger_correct:
  assumes "fb_inv b" and "- (2 ^ 63) \<le> n" and "n < 2 ^ 64"
  shows "\<exists>b'. LogStream_formatInteger b n = Inr b' \<and> fb_inv b' \<and>
     FixedBuffer_toString b' = FixedBuffer_toString b @
       (if kMaxNumberSize \<le> FixedBuffer_avail b
        then (if n < 0 then ''-'' else []) @ dec (nat \<bar>n\<bar>) else [])"
  using formatInteger_spec [OF assms] unat_avail [OF assms(1)]
  by (auto simp: int_text_def word_le_nat_alt kMaxNumberSize_def)

text \<open>
  Whatever is streamed into the buffer of a log line, no byte is written outside it: each
  item is written whole or dropped whole, in order, and nothing is dropped as long
  as the texts leave 32 bytes of the buffer free.
\<close>

theorem LogStream_writes_whole_items:
  assumes "\<forall>x \<in> set xs. item_ok x"
  shows "\<exists>b ys. LogStream_puts fmt (FixedBuffer_new kSmallBufferSize) xs = Inr b \<and> subseq ys xs \<and>
     FixedBuffer_toString b = concat (map (item_text fmt) ys) \<and>
     length (FixedBuffer_toString b) \<le> kSmallBufferSize \<and>
     (length (concat (map (item_text fmt) xs)) + 32 \<le> kSmallBufferSize \<longrightarrow> ys = xs)"
proof -
  let ?b = "FixedBuffer_new kSmallBufferSize"
  have inv: "fb_inv ?b" by (rule fb_inv_new) (simp add: kSmallBufferSize_def)
  have "length (data ?b) = kSmallBufferSize" by (simp add: FixedBuffer_new_def)
  moreover from this have "fb_free ?b = kSmallBufferSize" using fb_free_text [OF inv] by simp
  ultimately obtain b ys where b: "LogStream_puts fmt ?b xs = Inr b" "fb_inv b"
      "length (data b) = kSmallBufferSize" "subseq ys xs"
      "FixedBuffer_toString b = concat (map (item_text fmt) ys)"
      "length (concat (map (item_text fmt) xs)) + 32 \<le> kSmallBufferSize \<longrightarrow> ys = xs"
    using puts_spec [OF inv assms, of fmt] by auto
  moreover have "length (FixedBuffer_toString b) \<le> kSmallBufferSize"
    using b(2,3) by (auto simp: FixedBuffer_toString_def fb_inv_def)
  ultimately show ?thesis by blast
qed

text \<open>Items that carry no floating-point number can be put with any formatting function.\<close>

lemma puts_fit:
  assumes "fb_inv b" and "\<forall>x \<in> set xs. item_ok x"
    and "length (concat (map (item_text fmt) xs)) + 32 \<le> fb_free b"
  obtains b' where "LogStream_puts fmt b xs = Inr b'" and "fb_inv b'"
    and "FixedBuffer_toString b' = FixedBuffer_toString b @ concat (map (item_text fmt) xs)"
    and "fb_free b' = fb_free b - length (concat (map (item_text fmt) xs))"
proof -
  obtain b' where b': "LogStream_puts fmt b xs = Inr b'" "fb_inv b'" "length (data b') = length (data b)"
      "FixedBuffer_toString b' = FixedBuffer_toString b @ concat (map (item_text fmt) xs)"
    using puts_spec [OF assms(1,2), of fmt] assms(3) by auto
  then show thesis
    using that fb_free_text [OF assms(1)] fb_free_text [OF b'(2)] by simp
qed

lemma length_pad: "0 < w \<Longrightarrow> n < 10 ^ w \<Longrightarrow> length (pad c w n) = w"
  using length_dec [of n w] by (simp add: pad_def)

definition tm_ok :: "tm \<Rightarrow> bool" where
  "tm_ok t \<longleftrightarrow> tm_year t + 1900 < 10000 \<and> tm_mon t < 12 \<and> tm_mday t \<le> 31 \<and> tm_hour t < 24 \<and>
     tm_min t < 60 \<and> tm_sec t \<le> 60"

definition minute_text :: "tm \<Rightarrow> string" where
  "minute_text t = pad (CHR '' '') 4 (tm_year t + 1900) @ ''/'' @ pad (CHR ''0'') 2 (tm_mon t + 1) @ ''/'' @
     pad (CHR ''0'') 2 (tm_mday t) @ '' '' @ pad (CHR ''0'') 2 (tm_hour t) @ '':'' @
     pad (CHR ''0'') 2 (tm_min t) @ '':''"

lemma minute_text:
  assumes "tm_ok t"
  shows "length (minute_text t) = 17" and "take 17 (take 63 (time_text t) @ xs) = minute_text t"
proof -
  show len: "length (minute_text t) = 17"
    using assms by (simp add: minute_text_def tm_ok_def length_pad)
  have sec: "length (pad (CHR ''0'') 2 (tm_sec t)) = 2" using assms by (simp add: tm_ok_def length_pad)
  have "time_text t = minute_text t @ pad (CHR ''0'') 2 (tm_sec t)"
    by (simp add: time_text_def minute_text_def)
  then show "take 17 (take 63 (time_text t) @ xs) = minute_text t" using len sec by simp
qed

lemma formatTime_spec:
  assumes "tm_ok (localtime (int (now div kMicroSecondsPerSecond)))"
  defines "clock \<equiv> minute_text (localtime (int (now div kMicroSecondsPerSecond))) @
      pad (CHR ''0'') 6 (now mod kMicroSecondsPerSecond) @ '' ''"
  shows "length clock = 24 \<and>
     (\<exists>b. Logger_formatTime localtime now (FixedBuffer_new kSmallBufferSize) = Inr b \<and> fb_inv b \<and>
        FixedBuffer_toString b = clock \<and> fb_free b = 3976)"
proof -
  let ?b = "FixedBuffer_new kSmallBufferSize" and ?t = "localtime (int (now div kMicroSecondsPerSecond))"
  let ?m = "pad (CHR ''0'') 6 (now mod kMicroSecondsPerSecond)"
  have six: "length ?m = 6" by (rule length_pad) (simp_all add: kMicroSecondsPerSecond_def)
  have len: "length clock = 24" using minute_text(1) [OF assms(1)] six by (simp add: clock_def)
  have inv: "fb_inv ?b" by (rule fb_inv_new) (simp add: kSmallBufferSize_def)
  have free: "fb_free ?b = 4000" by (simp add: kSmallBufferSize_def fb_free_def FixedBuffer_new_def)
  have seven: "take 7 (take 31 (?m @ '' '') @ xs) = ?m @ '' ''" for xs using six by simp
  have run: "Logger_formatTime localtime now ?b =
      LogStream_puts (\<lambda>_ :: unit. []) ?b [LTemplate (minute_text ?t), LTemplate (?m @ '' '')]"
    unfolding Logger_formatTime_def Let_def minute_text(2) [OF assms(1)] seven ..
  obtain b where "LogStream_puts (\<lambda>_ :: unit. []) ?b [LTemplate (minute_text ?t), LTemplate (?m @ '' '')] = Inr b"
      "fb_inv b" "FixedBuffer_toString b = clock" "fb_free b = 3976"
    by (rule puts_fit [OF inv, of "[LTemplate (minute_text ?t), LTemplate (?m @ '' '')]" "\<lambda>_ :: unit. []"])
      (use len free in \<open>simp_all add: clock_def\<close>)
  then show ?thesis using len run by auto
qed

lemma length_SourceFile: "length (SourceFile f) \<le> length f"
  using length_takeWhile_le [of _ "rev f"] by (simp add: SourceFile_def)

text \<open>
  C35. A logging statement whose message and file name fit in the buffer hands exactly one line to
  the output function: date, hour and minute, the microseconds (the seconds are cut off: 17 of the
  19 characters of the time are logged), the level, the message, the base name of the
  file, the line number and a newline. It aborts afterwards exactly at level \<open>FATAL\<close>.
\<close>

theorem LOG_emits_one_line:
  assumes t: "tm_ok (localtime (int (now div kMicroSecondsPerSecond)))"
    and msg: "\<forall>x \<in> set msg. item_ok x" and ln: "0 \<le> ln" "ln < 2 ^ 31"
    and fit: "length (concat (map (item_text fmt) msg)) + length filename \<le> 3800"
  shows "LOG localtime strerror fmt now filename ln lev msg =
     Inr (minute_text (localtime (int (now div kMicroSecondsPerSecond))) @
          pad (CHR ''0'') 6 (now mod kMicroSecondsPerSecond) @ '' '' @ getLevelName lev @
          concat (map (item_text fmt) msg) @ '' - '' @ SourceFile filename @ '':'' @ int_text ln @ [CHR 0x0A],
          lev = FATAL)"
proof -
  let ?f = "\<lambda>_ :: unit. [] :: string"
  let ?tail = "[LCString '' - '', LTemplate (SourceFile filename), LChar (CHR '':''), LInteger ln, LChar (CHR 0x0A)]"
  obtain b0 where b0: "Logger_formatTime localtime now (FixedBuffer_new kSmallBufferSize) = Inr b0" "fb_inv b0"
      "FixedBuffer_toString b0 = minute_text (localtime (int (now div kMicroSecondsPerSecond))) @
          pad (CHR ''0'') 6 (now mod kMicroSecondsPerSecond) @ '' ''" "fb_free b0 = 3976"
    using formatTime_spec [of localtime now, OF t] by blast
  have lev: "length (getLevelName lev) = 6" by (cases lev) simp_all
  obtain b1 where b1: "LogStream_puts ?f b0 [LTemplate (getLevelName lev)] = Inr b1" "fb_inv b1"
      "FixedBuffer_toString b1 = FixedBuffer_toString b0 @ getLevelName lev" "fb_free b1 = 3970"
    by (rule puts_fit [OF b0(2), of "[LTemplate (getLevelName lev)]" ?f]) (use lev b0(4) in simp_all)
  obtain b2 where b2: "LogStream_puts fmt b1 msg = Inr b2" "fb_inv b2"
      "FixedBuffer_toString b2 = FixedBuffer_toString b1 @ concat (map (item_text fmt) msg)"
      "fb_free b2 = fb_free b1 - length (concat (map (item_text fmt) msg))"
    by (rule puts_fit [OF b1(2) msg, of fmt]) (use fit b1(4) in simp_all)
  have "length (int_text ln) \<le> 20" using ln by (intro length_int_text) simp_all
  then have tl: "length (concat (map (item_text ?f) ?tail)) \<le> length filename + 25"
    "concat (map (item_text ?f) ?tail) = '' - '' @ SourceFile filename @ '':'' @ int_text ln @ [CHR 0x0A]"
    using length_SourceFile [of filename] by (simp_all add: c_str_def)
  obtain b3 where b3: "LogStream_puts ?f b2 ?tail = Inr b3"
      "FixedBuffer_toString b3 = FixedBuffer_toString b2 @ concat (map (item_text ?f) ?tail)"
  proof (rule puts_fit [OF b2(2), of ?tail ?f])
    show "\<forall>x \<in> set ?tail. item_ok x" using ln fit length_SourceFile [of filename] by simp
    show "length (concat (map (item_text ?f) ?tail)) + 32 \<le> fb_free b2"
      using tl(1) b2(4) b1(4) fit by linarith
  qed
  have "Logger_new localtime strerror now filename ln lev =
      Inr \<lparr>stream = b1, level = lev, line = ln, basename = SourceFile filename\<rparr>"
    using b0(1) b1(1) by (simp add: Logger_new_def Logger_Impl_def)
  then have "LOG localtime strerror fmt now filename ln lev msg = Inr (FixedBuffer_toString b3, lev = FATAL)"
    using b2(1) b3(1) by (simp add: LOG_def Logger_destroy_def Logger_finish_def)
  then show ?thesis using b0(3) b1(3) b2(3) b3(2) tl(2) by simp
qed

section \<open>Witnesses\<close>

theorem LogStream_formatInteger_correct_witness:
  "\<exists>b'. LogStream_formatInteger (FixedBuffer_new 64) (- 2147483648) = Inr b' \<and>
     FixedBuffer_toString b' = ''-2147483648''"
proof -
  have inv: "fb_inv (FixedBuffer_new 64)" by simp
  have avail: "kMaxNumberSize \<le> FixedBuffer_avail (FixedBuffer_new 64)"
    by (simp add: kMaxNumberSize_def FixedBuffer_avail_def FixedBuffer_new_def)
  have "dec 2147483648 = ''2147483648''" by (simp add: dec.simps)
  then show ?thesis
    using LogStream_formatInteger_correct [OF inv, of "- 2147483648"] avail by auto
qed

theorem LogStream_writes_whole_items_witness:
  "\<exists>b. LogStream_puts (\<lambda>_ :: unit. []) (FixedBuffer_new kSmallBufferSize)
        [LString ''port '', LInteger 80, LBool True] = Inr b \<and>
     FixedBuffer_toString b = ''port 80true''"
proof -
  have "dec 80 = ''80''" by (simp add: dec.simps)
  then show ?thesis
    using LogStream_writes_whole_items [of "[LString ''port '', LInteger 80, LBool True]" "\<lambda>_ :: unit. []"]
    by (auto simp: int_text_def kSmallBufferSize_def)
qed

theorem LOG_emits_one_line_witness:
  "LOG (\<lambda>_. \<lparr>tm_year = 125, tm_mon = 0, tm_mday = 2, tm_hour = 3, tm_min = 4, tm_sec = 59\<rparr>) (\<lambda>_. [])
     (\<lambda>_ :: unit. []) 1000042 ''src/main.cc'' 7 INFO [LString ''up''] =
   Inr (''2025/01/02 03:04:000042 INFO  up - main.cc:7'' @ [CHR 0x0A], False)"
proof -
  let ?tm = "\<lparr>tm_year = 125, tm_mon = 0, tm_mday = 2, tm_hour = 3, tm_min = 4, tm_sec = 59\<rparr>"
  have rep: "replicate 4 c = [c, c, c, c]" for c :: char by (simp add: numeral_eq_Suc)
  have "minute_text ?tm = ''2025/01/02 03:04:''" "pad (CHR ''0'') 6 (1000042 mod kMicroSecondsPerSecond) = ''000042''"
    "SourceFile ''src/main.cc'' = ''main.cc''" "int_text 7 = ''7''"
    by (simp_all add: minute_text_def pad_def dec.simps kMicroSecondsPerSecond_def SourceFile_def int_text_def rep)
  then show ?thesis
    using LOG_emits_one_line [of "\<lambda>_. ?tm" 1000042 "[LString ''up'']" 7 "\<lambda>_ :: unit. []" "''src/main.cc''" "\<lambda>_. []" INFO]
    by (simp add: tm_ok_def)
qed

end
