(* ===== verification/Log_File.thy ===== *)
theory Log_File
  imports Prelude
begin

text \<open>
  The back end's file layer: \<open>FileUtil\<close> (\<open>include/log/FileUtil.h\<close>, \<open>src/log/FileUtil.cc\<close>) and the
  rolling \<open>LogFile\<close> (\<open>include/log/LogFile.h\<close>, \<open>src/log/LogFile.cc\<close>). The C library and the clock are
  an environment: what \<open>fwrite_unlocked\<close> accepts and whether \<open>ferror\<close> is then set, whether \<open>fopen\<close>
  succeeds, the successive results of \<open>time\<close>, and the formatted time of \<open>strftime\<close>. \<open>None\<close> stands
  for a call that does not return: a null \<open>FILE\<close> pointer, or a loop that never ends.

  A file object carries the bytes it has written and how many of them have been flushed; the file is opened for
  appending, so that they come behind whatever a file of that name held before. The objects that a
  roll has closed stay in the state, so that theorems can speak of everything ever logged.
\<close>

section \<open>FileUtil\<close>

record log_env =
  fwrite :: "nat \<Rightarrow> byte list \<Rightarrow> nat \<times> bool"
  fopen :: "string \<Rightarrow> bool"
  clock :: "nat \<Rightarrow> int"
  stamp :: "int \<Rightarrow> string"

record FileUtil =
  fname :: string
  contents :: "byte list"
  flushed :: nat
  writtenBytes :: nat

definition FileUtil_new :: "log_env \<Rightarrow> string \<Rightarrow> FileUtil option" where
  "FileUtil_new E file_name =
     (if fopen E file_name then Some \<lparr>fname = file_name, contents = [], flushed = 0, writtenBytes = 0\<rparr>
      else None)"

definition FileUtil_flush :: "FileUtil \<Rightarrow> FileUtil" where
  "FileUtil_flush f = f\<lparr>flushed := length (contents f)\<rparr>"

text \<open>\<open>fclose\<close> in the destructor writes out what is buffered.\<close>

definition FileUtil_close :: "FileUtil \<Rightarrow> FileUtil" where
  "FileUtil_close f = FileUtil_flush f"

partial_function (option) append_loop ::
  "(nat \<Rightarrow> byte list \<Rightarrow> nat \<times> bool) \<Rightarrow> byte list \<Rightarrow> nat \<Rightarrow> byte list \<Rightarrow> (byte list \<times> nat) option" where
  "append_loop fw bytes writen out =
     (if writen = length bytes then Some (out, writen)
      else (let remain = drop writen bytes;
                n = fst (fw (length out) remain);
                err = snd (fw (length out) remain) in
        if n \<noteq> length remain \<and> err then Some (out @ take n remain, writen)
        else append_loop fw bytes (writen + n) (out @ take n remain)))"

definition FileUtil_append :: "log_env \<Rightarrow> FileUtil \<Rightarrow> byte list \<Rightarrow> FileUtil option" where
  "FileUtil_append E f bytes =
     (case append_loop (fwrite E) bytes 0 (contents f) of
        None \<Rightarrow> None
      | Some (out, writen) \<Rightarrow> Some (f\<lparr>contents := out, writtenBytes := writtenBytes f + writen\<rparr>))"

section \<open>LogFile\<close>

definition kRollPerSeconds :: int where
  "kRollPerSeconds = 60 * 60 * 24"

record LogFile =
  log_basename :: string
  rollsize :: int
  flushInterval :: int
  checkEveryN :: int
  count :: int
  startOfPeriod :: int
  lastRoll :: int
  lastFlush :: int
  "file" :: "FileUtil option"
  closed :: "FileUtil list"
  calls :: nat

definition LogFile_time :: "log_env \<Rightarrow> LogFile \<Rightarrow> LogFile \<times> int" where
  "LogFile_time E lf = (lf\<lparr>calls := calls lf + 1\<rparr>, clock E (calls lf))"

definition LogFile_getLogFileName :: "log_env \<Rightarrow> LogFile \<Rightarrow> LogFile \<times> string \<times> int" where
  "LogFile_getLogFileName E lf =
     (let (lf, now) = LogFile_time E lf in (lf, log_basename lf @ stamp E now @ ''.log'', now))"

definition LogFile_rollFile :: "log_env \<Rightarrow> LogFile \<Rightarrow> (LogFile \<times> bool) option" where
  "LogFile_rollFile E lf =
     (let (lf, filename, now) = LogFile_getLogFileName E lf;
          start = now div kRollPerSeconds * kRollPerSeconds in
      if lastRoll lf < now then do {
        f \<leftarrow> FileUtil_new E filename;
        Some (lf\<lparr>lastFlush := now, lastRoll := now, startOfPeriod := start, file := Some f,
                 closed := closed lf @ map FileUtil_close (case file lf of None \<Rightarrow> [] | Some g \<Rightarrow> [g])\<rparr>, True)
      }
      else Some (lf, False))"

text \<open>The constructor leaves \<open>count_\<close> uninitialised: its first value is the argument \<open>garbage\<close>.\<close>

definition LogFile_new :: "log_env \<Rightarrow> int \<Rightarrow> string \<Rightarrow> int \<Rightarrow> int \<Rightarrow> int \<Rightarrow> LogFile option" where
  "LogFile_new E garbage bname rsize finterval everyN =
     map_option fst (LogFile_rollFile E
       \<lparr>log_basename = bname, rollsize = rsize, flushInterval = finterval, checkEveryN = everyN,
        count = garbage, startOfPeriod = 0, lastRoll = 0, lastFlush = 0, file = None, closed = [],
        calls = 0\<rparr>)"

definition LogFile_flush :: "LogFile \<Rightarrow> LogFile option" where
  "LogFile_flush lf = do { f \<leftarrow> file lf; Some (lf\<lparr>file := Some (FileUtil_flush f)\<rparr>) }"

definition LogFile_appendInlock :: "log_env \<Rightarrow> LogFile \<Rightarrow> byte list \<Rightarrow> LogFile option" where
  "LogFile_appendInlock E lf bytes = do {
     f \<leftarrow> file lf;
     f \<leftarrow> FileUtil_append E f bytes;
     let lf = lf\<lparr>file := Some f\<rparr>;
     let (lf, now) = LogFile_time E lf;
     let lf = lf\<lparr>count := count lf + 1\<rparr>;
     lf \<leftarrow> (if rollsize lf < int (writtenBytes f) then map_option fst (LogFile_rollFile E lf)
           else if checkEveryN lf \<le> count lf then
             (let lf = lf\<lparr>count := 0\<rparr>;
                  thisPeriod = now div kRollPerSeconds * kRollPerSeconds in
              if thisPeriod \<noteq> startOfPeriod lf then map_option fst (LogFile_rollFile E lf) else Some lf)
           else Some lf);
     if flushInterval lf < now - lastFlush lf
     then LogFile_flush (lf\<lparr>lastFlush := now\<rparr>)
     else Some lf
   }"

definition LogFile_append :: "log_env \<Rightarrow> LogFile \<Rightarrow> byte list \<Rightarrow> LogFile option" where
  "LogFile_append E lf bytes = LogFile_appendInlock E lf bytes"

section \<open>The append loop\<close>

text \<open>
  The contract of \<open>fwrite\<close> in the C standard: it accepts a prefix of the bytes, and fewer than all of
  them only together with the error indicator.
\<close>

definition fwrite_spec :: "(nat \<Rightarrow> byte list \<Rightarrow> nat \<times> bool) \<Rightarrow> bool" where
  "fwrite_spec fw \<longleftrightarrow> (\<forall>k xs. fst (fw k xs) \<le> length xs \<and> (fst (fw k xs) < length xs \<longrightarrow> snd (fw k xs)))"

lemma append_loop_spec:
  assumes "fwrite_spec fw"
  shows "append_loop fw bytes 0 out =
     (let n = fst (fw (length out) bytes) in
      Some (if bytes = [] then (out, 0)
            else if n = length bytes then (out @ bytes, n) else (out @ take n bytes, 0)))"
proof (cases "bytes = []")
  case True
  then show ?thesis by (subst append_loop.simps) simp
next
  case False
  let ?n = "fst (fw (length out) bytes)"
  have n: "?n \<le> length bytes" "?n < length bytes \<longrightarrow> snd (fw (length out) bytes)"
    using assms by (simp_all add: fwrite_spec_def)
  show ?thesis
  proof (cases "?n = length bytes")
    case True
    then have "append_loop fw bytes 0 out = append_loop fw bytes (length bytes) (out @ bytes)"
      using False by (subst append_loop.simps) simp
    also have "\<dots> = Some (out @ bytes, length bytes)" by (subst append_loop.simps) simp
    finally show ?thesis using True False by simp
  next
    case notall: False
    then show ?thesis using False n by (subst append_loop.simps) simp
  qed
qed

text \<open>
  Two kinds of environments: one in which every file can be opened and \<open>fwrite\<close> keeps its contract, so that
  writes may fail, and one in which no write fails either.
\<close>

definition disk_env :: "log_env \<Rightarrow> bool" where
  "disk_env E \<longleftrightarrow> fwrite_spec (fwrite E) \<and> (\<forall>n. fopen E n)"

definition good_env :: "log_env \<Rightarrow> bool" where
  "good_env E \<longleftrightarrow> (\<forall>k xs. fwrite E k xs = (length xs, False)) \<and> (\<forall>n. fopen E n)"

lemma good_disk_envI: "good_env E \<Longrightarrow> disk_env E"
  by (simp add: good_env_def disk_env_def fwrite_spec_def)

text \<open>What the open file takes of the bytes written next, and what may be stored of a write at all.\<close>

definition accepted :: "log_env \<Rightarrow> FileUtil \<Rightarrow> byte list \<Rightarrow> byte list" where
  "accepted E f bytes = take (fst (fwrite E (length (contents f)) bytes)) bytes"

definition stored :: "log_env \<Rightarrow> byte list \<Rightarrow> byte list \<Rightarrow> bool" where
  "stored E part bytes \<longleftrightarrow> (\<exists>k. part = take (fst (fwrite E k bytes)) bytes)"

lemma stored_accepted [simp]: "stored E (accepted E f bytes) bytes"
  by (auto simp: stored_def accepted_def)

lemma stored_good: "good_env E \<Longrightarrow> stored E part bytes \<longleftrightarrow> part = bytes"
  by (simp add: stored_def good_env_def)

lemma stored_all_good: "good_env E \<Longrightarrow> list_all2 (stored E) ss ws \<Longrightarrow> ss = ws"
  by (erule list_all2_induct) (auto simp: stored_good)

lemma append_accepted:
  assumes "disk_env E"
  shows "\<exists>f'. FileUtil_append E f bytes = Some f' \<and> contents f' = contents f @ accepted E f bytes \<and> flushed f' = flushed f"
  using assms by (auto simp: disk_env_def FileUtil_append_def append_loop_spec Let_def accepted_def)

section \<open>Sinks\<close>

text \<open>
  What a writer of log data relies on: a sink that is given bytes adds a part of them, allowed by \<open>keeps\<close>, to
  what it holds. The loop that hands over a list of buffers is a client of this contract.
\<close>

primrec write_all :: "('s \<Rightarrow> byte list \<Rightarrow> 's option) \<Rightarrow> 's \<Rightarrow> byte list list \<Rightarrow> 's option" where
  "write_all app s [] = Some s"
| "write_all app s (b # bs) = do { s \<leftarrow> app s b; write_all app s bs }"

locale log_sink =
  fixes good :: "'s \<Rightarrow> bool"
    and app :: "'s \<Rightarrow> byte list \<Rightarrow> 's option"
    and flush :: "'s \<Rightarrow> 's option"
    and logged :: "'s \<Rightarrow> byte list"
    and pending :: "'s \<Rightarrow> nat"
    and keeps :: "byte list \<Rightarrow> byte list \<Rightarrow> bool"
  assumes app_ok: "good s \<Longrightarrow> \<exists>s' part. app s b = Some s' \<and> good s' \<and> keeps part b \<and> logged s' = logged s @ part"
    and flush_ok: "good s \<Longrightarrow> \<exists>s'. flush s = Some s' \<and> good s' \<and> logged s' = logged s \<and> pending s' = 0"
begin

lemma write_all_logged:
  "good s \<Longrightarrow> \<exists>s' parts. write_all app s bs = Some s' \<and> good s' \<and> list_all2 keeps parts bs \<and>
     logged s' = logged s @ concat parts"
proof (induction bs arbitrary: s)
  case (Cons b bs)
  from app_ok [OF Cons.prems] obtain s1 part where s1: "app s b = Some s1" "good s1" "keeps part b" "logged s1 = logged s @ part"
    by blast
  with Cons.IH [OF s1(2)] obtain s' parts where "write_all app s1 bs = Some s'" "good s'" "list_all2 keeps parts bs"
      "logged s' = logged s1 @ concat parts" by blast
  with s1 show ?case by (intro exI [of _ s'] exI [of _ "part # parts"]) simp
qed simp

lemma write_all_flush:
  assumes "good s"
  shows "\<exists>s' s'' parts. write_all app s bs = Some s' \<and> flush s' = Some s'' \<and> good s'' \<and> list_all2 keeps parts bs \<and>
    logged s'' = logged s @ concat parts \<and> pending s'' = 0"
  using write_all_logged [OF assms, of bs] flush_ok by fastforce

end

definition lf_inv :: "LogFile \<Rightarrow> bool" where
  "lf_inv lf \<longleftrightarrow> (\<forall>f \<in> set (closed lf). flushed f = length (contents f)) \<and>
     (\<exists>f. file lf = Some f \<and> flushed f \<le> length (contents f))"

definition all_files :: "LogFile \<Rightarrow> FileUtil list" where
  "all_files lf = closed lf @ (case file lf of None \<Rightarrow> [] | Some f \<Rightarrow> [f])"

definition all_bytes :: "LogFile \<Rightarrow> byte list" where
  "all_bytes lf = concat (map contents (all_files lf))"

definition unflushed :: "LogFile \<Rightarrow> nat" where
  "unflushed lf = (\<Sum>f \<leftarrow> all_files lf. length (contents f) - flushed f)"

lemma roll_spec:
  assumes E: "disk_env E" and inv: "lf_inv lf" and f: "file lf = Some f"
  shows "\<exists>lf'. LogFile_rollFile E lf = Some (lf', lastRoll lf < clock E (calls lf)) \<and> lf_inv lf' \<and>
     rollsize lf' = rollsize lf \<and> clock E (calls lf) \<le> lastRoll lf' \<and>
     (if lastRoll lf < clock E (calls lf)
      then closed lf' = closed lf @ [FileUtil_close f] \<and> (\<exists>g. file lf' = Some g \<and> contents g = [])
      else closed lf' = closed lf \<and> file lf' = Some f)"
  using E inv f
  by (auto simp: LogFile_rollFile_def LogFile_getLogFileName_def LogFile_time_def FileUtil_new_def
      disk_env_def lf_inv_def FileUtil_close_def FileUtil_flush_def)

lemma flush_spec:
  assumes "lf_inv lf" and "file lf = Some f"
  shows "\<exists>lf'. LogFile_flush lf = Some lf' \<and> lf_inv lf' \<and> closed lf' = closed lf \<and>
     lastRoll lf' = lastRoll lf \<and> rollsize lf' = rollsize lf \<and>
     (\<exists>g. file lf' = Some g \<and> contents g = contents f \<and> writtenBytes g = writtenBytes f) \<and> unflushed lf' = 0"
  using assms
  by (auto simp: LogFile_flush_def lf_inv_def FileUtil_flush_def unflushed_def all_files_def)

definition appended :: "log_env \<Rightarrow> LogFile \<Rightarrow> FileUtil \<Rightarrow> byte list \<Rightarrow> LogFile \<Rightarrow> bool" where
  "appended E lf f bytes lf' \<longleftrightarrow> lf_inv lf' \<and> rollsize lf' = rollsize lf \<and>
     (\<exists>g. file lf' = Some g \<and>
       ((closed lf' = closed lf \<and> contents g = contents f @ accepted E f bytes \<and>
           (rollsize lf < int (writtenBytes g) \<longrightarrow> clock E (calls lf + 1) \<le> lastRoll lf')) \<or>
        (contents g = [] \<and> (\<exists>f'. closed lf' = closed lf @ [f'] \<and> contents f' = contents f @ accepted E f bytes))))"

text \<open>The decision to roll, in the middle of \<open>appendInlock\<close>.\<close>

lemma appended_roll:
  assumes E: "disk_env E" and inv: "lf_inv lf1" and f1: "file lf1 = Some f1"
    and same: "contents f1 = contents f @ accepted E f bytes" "closed lf1 = closed lf" "rollsize lf1 = rollsize lf"
      "calls lf1 = calls lf + 1"
  shows "\<exists>lf'. map_option fst (LogFile_rollFile E lf1) = Some lf' \<and> appended E lf f bytes lf'"
proof -
  obtain lf' where lf': "LogFile_rollFile E lf1 = Some (lf', lastRoll lf1 < clock E (calls lf1))" "lf_inv lf'"
      "rollsize lf' = rollsize lf1" "clock E (calls lf1) \<le> lastRoll lf'"
      "if lastRoll lf1 < clock E (calls lf1)
       then closed lf' = closed lf1 @ [FileUtil_close f1] \<and> (\<exists>g. file lf' = Some g \<and> contents g = [])
       else closed lf' = closed lf1 \<and> file lf' = Some f1"
    using roll_spec [OF E inv f1] by blast
  then show ?thesis
    using same unfolding appended_def
    by (cases "lastRoll lf1 < clock E (calls lf1)") (auto simp: FileUtil_close_def FileUtil_flush_def)
qed

lemma appended_flush:
  assumes "appended E lf f bytes lf1"
  shows "\<exists>lf'. LogFile_flush (lf1\<lparr>lastFlush := t\<rparr>) = Some lf' \<and> appended E lf f bytes lf'"
proof -
  obtain g where g: "file lf1 = Some g" using assms by (auto simp: appended_def)
  have "lf_inv (lf1\<lparr>lastFlush := t\<rparr>)" using assms by (simp add: appended_def lf_inv_def)
  from flush_spec [OF this, of g] g obtain lf' g' where
      "LogFile_flush (lf1\<lparr>lastFlush := t\<rparr>) = Some lf'" "lf_inv lf'" "closed lf' = closed lf1"
      "lastRoll lf' = lastRoll lf1" "rollsize lf' = rollsize lf1" "file lf' = Some g'" "contents g' = contents g"
      "writtenBytes g' = writtenBytes g"
    by auto
  then show ?thesis using assms g unfolding appended_def by auto
qed

lemma append_appended:
  assumes E: "disk_env E" and inv: "lf_inv lf" and f: "file lf = Some f"
  shows "\<exists>lf'. LogFile_append E lf bytes = Some lf' \<and> appended E lf f bytes lf'"
proof -
  obtain f1 where f1: "FileUtil_append E f bytes = Some f1" "contents f1 = contents f @ accepted E f bytes"
      "flushed f1 = flushed f"
    using append_accepted [OF E] by blast
  define lf1 where "lf1 = lf\<lparr>file := Some f1, calls := calls lf + 1, count := count lf + 1\<rparr>"
  have inv1: "lf_inv (lf1\<lparr>count := c\<rparr>)" for c
    using inv f f1(2,3) by (auto simp: lf_inv_def lf1_def)
  have small: "appended E lf f bytes (lf1\<lparr>count := c\<rparr>)" if "\<not> rollsize lf < int (writtenBytes f1)" for c
    using that inv1 [of c] inv f f1(2) by (auto simp: appended_def lf1_def lf_inv_def)
  have roll: "\<exists>lf'. map_option fst (LogFile_rollFile E (lf1\<lparr>count := c\<rparr>)) = Some lf' \<and> appended E lf f bytes lf'" for c
    by (rule appended_roll [OF E inv1, of _ f1]) (simp_all add: lf1_def f1(2))
  let ?now = "clock E (calls lf)"
  let ?mid = "if rollsize lf < int (writtenBytes f1) then map_option fst (LogFile_rollFile E lf1)
      else if checkEveryN lf \<le> count lf + 1
      then if ?now div kRollPerSeconds * kRollPerSeconds \<noteq> startOfPeriod lf
           then map_option fst (LogFile_rollFile E (lf1\<lparr>count := 0\<rparr>)) else Some (lf1\<lparr>count := 0\<rparr>)
      else Some lf1"
  have "\<exists>lf2. ?mid = Some lf2 \<and> appended E lf f bytes lf2"
    using roll [of 0] roll [of "count lf1"] small [of 0] small [of "count lf1"] by simp
  then obtain lf2 where lf2: "?mid = Some lf2" "appended E lf f bytes lf2" by blast
  have "LogFile_append E lf bytes = do {
      lf \<leftarrow> ?mid;
      if flushInterval lf < ?now - lastFlush lf then LogFile_flush (lf\<lparr>lastFlush := ?now\<rparr>) else Some lf }"
    using f f1(1)
    by (simp add: LogFile_append_def LogFile_appendInlock_def LogFile_time_def Let_def lf1_def
        cong: if_cong)
  then show ?thesis using lf2 appended_flush [OF lf2(2)] by simp
qed

lemma appended_bytes:
  "appended E lf f bytes lf' \<Longrightarrow> file lf = Some f \<Longrightarrow> all_bytes lf' = all_bytes lf @ accepted E f bytes"
  by (auto simp: appended_def all_bytes_def all_files_def)

interpretation lf: log_sink "\<lambda>lf. disk_env E \<and> lf_inv lf" "LogFile_append E" LogFile_flush all_bytes unflushed "stored E"
  for E
proof
  fix lf bytes
  assume *: "disk_env E \<and> lf_inv lf"
  then obtain f where f: "file lf = Some f" by (auto simp: lf_inv_def)
  from append_appended [OF _ _ f, of E bytes] * obtain lf'
    where lf': "LogFile_append E lf bytes = Some lf'" "appended E lf f bytes lf'" by blast
  with * appended_bytes [OF lf'(2) f]
  show "\<exists>lf' part. LogFile_append E lf bytes = Some lf' \<and> (disk_env E \<and> lf_inv lf') \<and> stored E part bytes \<and>
      all_bytes lf' = all_bytes lf @ part"
    by (intro exI [of _ lf'] exI [of _ "accepted E f bytes"]) (auto simp: appended_def)
next
  fix lf
  assume *: "disk_env E \<and> lf_inv lf"
  then obtain f where f: "file lf = Some f" by (auto simp: lf_inv_def)
  from flush_spec [OF _ f] * show "\<exists>lf'. LogFile_flush lf = Some lf' \<and> (disk_env E \<and> lf_inv lf') \<and>
      all_bytes lf' = all_bytes lf \<and> unflushed lf' = 0"
    by (fastforce simp: all_bytes_def all_files_def f)
qed

section \<open>Properties\<close>

text \<open>
  C33. Under the C standard's contract for \<open>fwrite\<close> the loop of \<open>FileUtil::append\<close> ends. The file
  receives the prefix that \<open>fwrite\<close> accepted; \<open>writtenBytes_\<close> counts all bytes when all were accepted,
  and none of them after an error, even when some had been accepted.
\<close>

theorem FileUtil_append_outcome:
  assumes "fwrite_spec (fwrite E)" and "bytes \<noteq> []"
  shows "\<exists>f'. FileUtil_append E f bytes = Some f' \<and>
     contents f' = contents f @ take (fst (fwrite E (length (contents f)) bytes)) bytes \<and>
     writtenBytes f' = writtenBytes f +
       (if fst (fwrite E (length (contents f)) bytes) = length bytes then length bytes else 0)"
  using assms by (simp add: FileUtil_append_def append_loop_spec Let_def)

text \<open>
  While files can be opened, \<open>LogFile::append\<close> returns, keeps every byte logged before
  and puts what \<open>fwrite\<close> accepts of the new bytes together into one file, behind what it held: a record is never
  split by a roll. A file whose counted bytes are above the roll size stays open only when the clock has not
  advanced since the last roll.
\<close>

theorem LogFile_append_never_splits:
  assumes "disk_env E" and "lf_inv lf" and "file lf = Some f"
  shows "\<exists>lf'. LogFile_append E lf bytes = Some lf' \<and> lf_inv lf' \<and>
     all_bytes lf' = all_bytes lf @ accepted E f bytes \<and>
     (\<exists>g. file lf' = Some g \<and>
       ((closed lf' = closed lf \<and> contents g = contents f @ accepted E f bytes \<and>
           (rollsize lf < int (writtenBytes g) \<longrightarrow> clock E (calls lf + 1) \<le> lastRoll lf')) \<or>
        (contents g = [] \<and> (\<exists>f'. closed lf' = closed lf @ [f'] \<and> contents f' = contents f @ accepted E f bytes))))"
  using append_appended [OF assms, of bytes] appended_bytes [OF _ assms(3), of E bytes]
  unfolding appended_def by blast

section \<open>Witnesses\<close>

definition full_disk :: log_env where
  "full_disk = \<lparr>fwrite = (\<lambda>k xs. (min 2 (length xs), 2 < length xs)), fopen = (\<lambda>_. True),
     clock = (\<lambda>_. 100), stamp = (\<lambda>_. [])\<rparr>"

definition good_disk :: log_env where
  "good_disk = \<lparr>fwrite = (\<lambda>k xs. (length xs, False)), fopen = (\<lambda>_. True),
     clock = (\<lambda>k. 100 + int k), stamp = (\<lambda>_. [])\<rparr>"

lemma good_disk_env: "good_env good_disk"
  by (simp add: good_env_def good_disk_def)

lemmas good_disk_disk = good_disk_envI [OF good_disk_env]

theorem FileUtil_append_outcome_witness:
  "\<exists>f'. FileUtil_append full_disk \<lparr>fname = ''l'', contents = [], flushed = 0, writtenBytes = 0\<rparr> ''abc'' = Some f' \<and>
     contents f' = ''ab'' \<and> writtenBytes f' = 0"
proof -
  have "fwrite_spec (fwrite full_disk)" by (auto simp: fwrite_spec_def full_disk_def)
  from FileUtil_append_outcome [OF this, of "''abc''" "\<lparr>fname = ''l'', contents = [], flushed = 0, writtenBytes = 0\<rparr>"]
  show ?thesis by (simp add: full_disk_def)
qed

lemma new_LogFile:
  assumes "disk_env E" and "0 < clock E 0"
  shows "\<exists>lf f. LogFile_new E garbage b r fi n = Some lf \<and> lf_inv lf \<and> file lf = Some f \<and> all_bytes lf = []"
  using assms
  by (simp add: LogFile_new_def LogFile_rollFile_def LogFile_getLogFileName_def LogFile_time_def
      FileUtil_new_def disk_env_def lf_inv_def all_bytes_def all_files_def)

theorem LogFile_append_never_splits_witness:
  "\<exists>lf lf'. LogFile_new good_disk 0 ''log'' 2 3 1024 = Some lf \<and>
     LogFile_append good_disk lf ''abc'' = Some lf' \<and> all_bytes lf' = ''abc''"
proof -
  have "0 < clock good_disk 0" by (simp add: good_disk_def)
  then obtain lf f where lf: "LogFile_new good_disk 0 ''log'' 2 3 1024 = Some lf" "lf_inv lf" "file lf = Some f"
      "all_bytes lf = []"
    using new_LogFile [OF good_disk_disk] by blast
  with LogFile_append_never_splits [OF good_disk_disk lf(2,3), of "''abc''"] show ?thesis
    by (auto simp: accepted_def good_disk_def)
qed

end
