(* ===== verification/Log_Async.thy ===== *)
theory Log_Async
  imports Log_Stream Log_File
begin

text \<open>
  The asynchronous logger (\<open>include/log/AsyncLogging.h\<close>, \<open>src/log/AsyncLogging.cc\<close>): front-end threads
  append lines to large buffers under a mutex, a back-end thread swaps the full buffers out and
  writes them to a \<open>LogFile\<close>. What a thread does under the mutex is one step; the back end also
  runs between its critical sections, so its loop is cut into the steps of the program counter
  \<open>phase\<close>, and front-end calls may come between any two of them. A null \<open>unique_ptr\<close> that is
  dereferenced, and \<open>back()\<close> of an empty vector, give \<open>None\<close>.
\<close>

section \<open>The operations\<close>

abbreviation ok :: "'a result \<Rightarrow> 'a option" where
  "ok r \<equiv> (case r of Inl _ \<Rightarrow> None | Inr x \<Rightarrow> Some x)"

datatype phase = Unstarted | Head | Swap | Writing | Recycle | Finished

record AsyncLogging =
  running :: bool
  currentBuffer :: "FixedBuffer option"
  nextBuffer :: "FixedBuffer option"
  buffers :: "FixedBuffer list"
  phase :: phase
  newbuffer1 :: "FixedBuffer option"
  newbuffer2 :: "FixedBuffer option"
  buffersToWrite :: "FixedBuffer list"
  "output" :: "LogFile option"

abbreviation LargeBuffer :: FixedBuffer where
  "LargeBuffer \<equiv> FixedBuffer_new kLargeBufferSize"

definition AsyncLogging_new :: AsyncLogging where
  "AsyncLogging_new =
     \<lparr>running = False, currentBuffer = Some (FixedBuffer_bzero LargeBuffer),
      nextBuffer = Some (FixedBuffer_bzero LargeBuffer), buffers = [], phase = Unstarted,
      newbuffer1 = None, newbuffer2 = None, buffersToWrite = [], output = None\<rparr>"

definition AsyncLogging_append :: "AsyncLogging \<Rightarrow> byte list \<Rightarrow> AsyncLogging option" where
  "AsyncLogging_append a logline = do {
     cb \<leftarrow> currentBuffer a;
     if of_nat (length logline) < FixedBuffer_avail cb then do {
       cb \<leftarrow> ok (FixedBuffer_append cb logline);
       Some (a\<lparr>currentBuffer := Some cb\<rparr>)
     }
     else do {
       let a = a\<lparr>buffers := buffers a @ [cb]\<rparr>;
       let (nb, a) = (case nextBuffer a of
           Some nb \<Rightarrow> (nb, a\<lparr>nextBuffer := None\<rparr>) | None \<Rightarrow> (LargeBuffer, a));
       nb \<leftarrow> ok (FixedBuffer_append nb logline);
       Some (a\<lparr>currentBuffer := Some nb\<rparr>)
     }
   }"

definition AsyncLogging_start :: "AsyncLogging \<Rightarrow> AsyncLogging" where
  "AsyncLogging_start a = a\<lparr>running := True\<rparr>"

definition AsyncLogging_stop :: "AsyncLogging \<Rightarrow> AsyncLogging" where
  "AsyncLogging_stop a = a\<lparr>running := False\<rparr>"

text \<open>\<open>std::move\<close> of \<open>back()\<close>, then \<open>pop_back\<close> and \<open>reset\<close>, when the pointer is null.\<close>

definition refill :: "FixedBuffer option \<Rightarrow> FixedBuffer list \<Rightarrow> (FixedBuffer option \<times> FixedBuffer list) option" where
  "refill p bs =
     (case p of
        Some b \<Rightarrow> Some (Some b, bs)
      | None \<Rightarrow> if bs = [] then None else Some (Some (FixedBuffer_reset (last bs)), butlast bs))"

text \<open>The steps of \<open>threadFunc\<close>. \<open>LogFile output(basename_, rollSize_)\<close> uses its defaults 3 and 1024.\<close>

definition threadFunc_step :: "log_env \<Rightarrow> int \<Rightarrow> string \<Rightarrow> int \<Rightarrow> AsyncLogging \<Rightarrow> AsyncLogging option" where
  "threadFunc_step E garbage bname rollSize a =
     (case phase a of
        Unstarted \<Rightarrow> do {
          lf \<leftarrow> LogFile_new E garbage bname rollSize 3 1024;
          Some (a\<lparr>output := Some lf, newbuffer1 := Some (FixedBuffer_bzero LargeBuffer),
                  newbuffer2 := Some (FixedBuffer_bzero LargeBuffer), buffersToWrite := [],
                  phase := Head\<rparr>)
        }
      | Head \<Rightarrow>
          if running a then Some (a\<lparr>phase := Swap\<rparr>)
          else do { lf \<leftarrow> output a; lf \<leftarrow> LogFile_flush lf; Some (a\<lparr>output := Some lf, phase := Finished\<rparr>) }
      | Swap \<Rightarrow> do {
          cb \<leftarrow> currentBuffer a;
          let bs = buffers a @ [cb];
          let a = a\<lparr>currentBuffer := newbuffer1 a, newbuffer1 := None\<rparr>;
          let a = (if nextBuffer a = None then a\<lparr>nextBuffer := newbuffer2 a, newbuffer2 := None\<rparr> else a);
          Some (a\<lparr>buffers := buffersToWrite a, buffersToWrite := bs, phase := Writing\<rparr>)
        }
      | Writing \<Rightarrow> do {
          lf \<leftarrow> output a;
          lf \<leftarrow> write_all (LogFile_append E) lf (map FixedBuffer_toString (buffersToWrite a));
          Some (a\<lparr>output := Some lf, phase := Recycle\<rparr>)
        }
      | Recycle \<Rightarrow> do {
          let bs = (if 2 < length (buffersToWrite a) then take 2 (buffersToWrite a) else buffersToWrite a);
          (n1, bs) \<leftarrow> refill (newbuffer1 a) bs;
          (n2, bs) \<leftarrow> refill (newbuffer2 a) bs;
          lf \<leftarrow> output a;
          lf \<leftarrow> LogFile_flush lf;
          Some (a\<lparr>newbuffer1 := n1, newbuffer2 := n2, buffersToWrite := [], output := Some lf, phase := Head\<rparr>)
        }
      | Finished \<Rightarrow> Some a)"

text \<open>
  Interleavings of front-end calls with the back end, together with all the bytes that the front
  end was given. The back-end thread exists once \<open>start\<close> has been called.
\<close>

inductive async_reach :: "log_env \<Rightarrow> int \<Rightarrow> string \<Rightarrow> int \<Rightarrow> AsyncLogging \<Rightarrow> bool \<Rightarrow> byte list \<Rightarrow> bool"
  for E garbage bname rollSize where
  new: "async_reach E garbage bname rollSize AsyncLogging_new False []"
| append: "async_reach E garbage bname rollSize a th acc \<Longrightarrow> length logline < kLargeBufferSize \<Longrightarrow>
    AsyncLogging_append a logline = Some a' \<Longrightarrow>
    async_reach E garbage bname rollSize a' th (acc @ logline)"
| start: "async_reach E garbage bname rollSize a False acc \<Longrightarrow>
    async_reach E garbage bname rollSize (AsyncLogging_start a) True acc"
| stop: "async_reach E garbage bname rollSize a th acc \<Longrightarrow>
    async_reach E garbage bname rollSize (AsyncLogging_stop a) th acc"
| backend: "async_reach E garbage bname rollSize a True acc \<Longrightarrow>
    threadFunc_step E garbage bname rollSize a = Some a' \<Longrightarrow>
    async_reach E garbage bname rollSize a' True acc"

section \<open>The invariant\<close>

definition large :: "FixedBuffer \<Rightarrow> bool" where
  "large b \<longleftrightarrow> fb_inv b \<and> length (data b) = kLargeBufferSize"

definition spare :: "FixedBuffer option \<Rightarrow> bool" where
  "spare p \<longleftrightarrow> (\<forall>b. p = Some b \<longrightarrow> large b \<and> FixedBuffer_toString b = [])"

definition queued :: "FixedBuffer list \<Rightarrow> byte list" where
  "queued bs = concat (map FixedBuffer_toString bs)"

definition front_bytes :: "AsyncLogging \<Rightarrow> byte list" where
  "front_bytes a = queued (buffers a) @ FixedBuffer_toString (the (currentBuffer a))"

text \<open>The texts of the buffers that the front end holds, in order.\<close>

definition front_texts :: "AsyncLogging \<Rightarrow> byte list list" where
  "front_texts a = map FixedBuffer_toString (buffers a @ [the (currentBuffer a)])"

definition file_bytes :: "AsyncLogging \<Rightarrow> byte list" where
  "file_bytes a = (case output a of None \<Rightarrow> [] | Some lf \<Rightarrow> all_bytes lf)"

definition inflight :: "AsyncLogging \<Rightarrow> byte list" where
  "inflight a = (if phase a = Writing then queued (buffersToWrite a) else [])"

definition front_inv :: "AsyncLogging \<Rightarrow> bool" where
  "front_inv a \<longleftrightarrow> (\<exists>b. currentBuffer a = Some b \<and> large b) \<and> spare (nextBuffer a) \<and>
     list_all large (buffers a) \<and> (nextBuffer a = None \<longrightarrow> buffers a \<noteq> [])"

definition open_log :: "LogFile option \<Rightarrow> bool" where
  "open_log out \<longleftrightarrow> (\<exists>lf. out = Some lf \<and> lf_inv lf)"

definition taken :: "FixedBuffer option \<Rightarrow> FixedBuffer list \<Rightarrow> bool" where
  "taken n2 bs \<longleftrightarrow> spare n2 \<and> list_all large bs \<and> bs \<noteq> [] \<and> (n2 = None \<longrightarrow> 2 \<le> length bs)"

fun phase_ok :: "phase \<Rightarrow> LogFile option \<Rightarrow> FixedBuffer option \<Rightarrow> FixedBuffer option \<Rightarrow> FixedBuffer list \<Rightarrow> bool" where
  "phase_ok Unstarted out n1 n2 bs \<longleftrightarrow> out = None"
| "phase_ok Head out n1 n2 bs \<longleftrightarrow> open_log out \<and> spare n1 \<and> n1 \<noteq> None \<and> spare n2 \<and> n2 \<noteq> None \<and> bs = []"
| "phase_ok Swap out n1 n2 bs \<longleftrightarrow> open_log out \<and> spare n1 \<and> n1 \<noteq> None \<and> spare n2 \<and> n2 \<noteq> None \<and> bs = []"
| "phase_ok Writing out n1 n2 bs \<longleftrightarrow> open_log out \<and> n1 = None \<and> taken n2 bs"
| "phase_ok Recycle out n1 n2 bs \<longleftrightarrow> open_log out \<and> n1 = None \<and> taken n2 bs"
| "phase_ok Finished out n1 n2 bs \<longleftrightarrow> open_log out"

definition back_inv :: "AsyncLogging \<Rightarrow> bool" where
  "back_inv a \<longleftrightarrow> phase_ok (phase a) (output a) (newbuffer1 a) (newbuffer2 a) (buffersToWrite a)"

text \<open>
  Of the bytes appended, those that the back end has written came in writes \<open>ws\<close>, of each of which the files
  hold what \<open>fwrite\<close> accepted.
\<close>

definition written :: "log_env \<Rightarrow> byte list \<Rightarrow> byte list \<Rightarrow> bool" where
  "written E held bytes \<longleftrightarrow> (\<exists>ss ws. list_all2 (stored E) ss ws \<and> held = concat ss \<and> bytes = concat ws)"

definition async_inv :: "log_env \<Rightarrow> AsyncLogging \<Rightarrow> byte list \<Rightarrow> bool" where
  "async_inv E a acc \<longleftrightarrow> front_inv a \<and> back_inv a \<and>
     (\<exists>out. written E (file_bytes a) out \<and> out @ inflight a @ front_bytes a = acc)"

lemma written_Nil [simp]: "written E [] []"
  unfolding written_def by (intro exI [of _ "[]"]) simp

lemma written_append:
  assumes "written E held bytes" and "list_all2 (stored E) ss ws"
  shows "written E (held @ concat ss) (bytes @ concat ws)"
proof -
  from assms(1) obtain ss0 ws0 where "list_all2 (stored E) ss0 ws0" "held = concat ss0" "bytes = concat ws0"
    by (auto simp: written_def)
  with assms(2) show ?thesis unfolding written_def
    by (intro exI [of _ "ss0 @ ss"] exI [of _ "ws0 @ ws"]) (simp add: list_all2_appendI)
qed

lemma written_good: "good_env E \<Longrightarrow> written E held bytes \<longleftrightarrow> held = bytes"
proof
  assume "good_env E" "held = bytes"
  then show "written E held bytes" unfolding written_def by (intro exI [of _ "[held]"]) (simp add: stored_good)
qed (auto simp: written_def dest: stored_all_good)

lemma large_new [simp]: "large LargeBuffer"
  unfolding large_def by (intro conjI fb_inv_new) (simp_all add: kLargeBufferSize_def FixedBuffer_new_def)

lemma bzero_new: "FixedBuffer_bzero (FixedBuffer_new n) = FixedBuffer_new n"
  by (simp add: FixedBuffer_bzero_def FixedBuffer_new_def)

lemma large_reset: "large b \<Longrightarrow> large (FixedBuffer_reset b) \<and> FixedBuffer_toString (FixedBuffer_reset b) = []"
  by (simp add: large_def FixedBuffer_reset_def fb_inv_def FixedBuffer_toString_def)

lemma queued_simps [simp]: "queued [] = []" "queued (bs @ cs) = queued bs @ queued cs"
    "queued (b # bs) = FixedBuffer_toString b @ queued bs"
  by (simp_all add: queued_def)

lemma large_append:
  assumes "large b" and "length xs < fb_free b"
  shows "\<exists>b'. ok (FixedBuffer_append b xs) = Some b' \<and> large b' \<and>
     FixedBuffer_toString b' = FixedBuffer_toString b @ xs"
proof -
  have "length xs < 2 ^ 64" using assms by (auto simp: large_def fb_inv_def fb_free_def)
  with append_spec [of b xs] assms show ?thesis by (auto simp: large_def)
qed

lemma large_empty_free: "large b \<Longrightarrow> FixedBuffer_toString b = [] \<Longrightarrow> fb_free b = kLargeBufferSize"
  using fb_free_text [of b] by (simp add: large_def)

text \<open>A line is added to the last buffer or opens a new one; it is never divided.\<close>

lemma append_inv:
  assumes inv: "front_inv a" and len: "length xs < kLargeBufferSize"
  shows "\<exists>a'. AsyncLogging_append a xs = Some a' \<and> front_inv a' \<and> front_bytes a' = front_bytes a @ xs \<and>
     (\<exists>c n bs. a' = a\<lparr>currentBuffer := c, nextBuffer := n, buffers := bs\<rparr>) \<and>
     (front_texts a' = butlast (front_texts a) @ [last (front_texts a) @ xs] \<or> front_texts a' = front_texts a @ [xs])"
proof -
  obtain b where b: "currentBuffer a = Some b" "large b" using inv by (auto simp: front_inv_def)
  have "length xs < 2 ^ 64" using len by (simp add: kLargeBufferSize_def)
  then have guard: "of_nat (length xs) < FixedBuffer_avail b \<longleftrightarrow> length xs < fb_free b"
    using unat_avail [of b] b(2) by (simp add: large_def word_less_nat_alt unat_of_nat_size)
  show ?thesis
  proof (cases "length xs < fb_free b")
    case True
    with large_append [OF b(2)] obtain b' where b': "ok (FixedBuffer_append b xs) = Some b'" "large b'"
        "FixedBuffer_toString b' = FixedBuffer_toString b @ xs" by blast
    let ?a = "a\<lparr>currentBuffer := Some b'\<rparr>"
    have "AsyncLogging_append a xs = Some ?a" using b(1) b'(1) guard True by (simp add: AsyncLogging_append_def)
    moreover have "front_inv ?a" "front_bytes ?a = front_bytes a @ xs"
        "front_texts ?a = butlast (front_texts a) @ [last (front_texts a) @ xs]"
      using inv b b' by (auto simp: front_inv_def front_bytes_def front_texts_def)
    moreover have "?a = a\<lparr>currentBuffer := Some b', nextBuffer := nextBuffer a, buffers := buffers a\<rparr>" by simp
    ultimately show ?thesis by blast
  next
    case False
    define nb where "nb = (case nextBuffer a of Some nb \<Rightarrow> nb | None \<Rightarrow> LargeBuffer)"
    have nb: "large nb" "FixedBuffer_toString nb = []"
      using inv by (auto simp: nb_def front_inv_def spare_def split: option.splits)
    with large_append [OF nb(1)] large_empty_free [OF nb] len obtain b' where
      b': "ok (FixedBuffer_append nb xs) = Some b'" "large b'" "FixedBuffer_toString b' = xs" by auto
    let ?a = "a\<lparr>currentBuffer := Some b', nextBuffer := None, buffers := buffers a @ [b]\<rparr>"
    have "AsyncLogging_append a xs = Some ?a"
      using b(1) b'(1) guard False
      by (auto simp: AsyncLogging_append_def nb_def Let_def split: option.splits)
    moreover have "front_inv ?a" "front_bytes ?a = front_bytes a @ xs" "front_texts ?a = front_texts a @ [xs]"
      using inv b b' by (auto simp: front_inv_def front_bytes_def front_texts_def spare_def)
    ultimately show ?thesis by blast
  qed
qed

lemma append_async_inv:
  assumes "async_inv E a acc" and "length xs < kLargeBufferSize"
  shows "\<exists>a'. AsyncLogging_append a xs = Some a' \<and> async_inv E a' (acc @ xs)"
proof -
  from append_inv [of a xs] assms obtain a' c n bs where a': "AsyncLogging_append a xs = Some a'" "front_inv a'"
      "front_bytes a' = front_bytes a @ xs" "a' = a\<lparr>currentBuffer := c, nextBuffer := n, buffers := bs\<rparr>"
    by (auto simp: async_inv_def)
  then have "back_inv a'" "file_bytes a' = file_bytes a" "inflight a' = inflight a"
    using assms(1) by (simp_all add: async_inv_def back_inv_def file_bytes_def inflight_def)
  with a' assms(1) show ?thesis by (auto simp: async_inv_def)
qed

text \<open>The two pops of the recycling step always find a buffer.\<close>

lemma refill_ok:
  assumes "spare p" and "list_all large bs" and "p = None \<longrightarrow> bs \<noteq> []"
  shows "\<exists>b. refill p bs = Some (Some b, if p = None then butlast bs else bs) \<and> spare (Some b)"
proof (cases p)
  case None
  then have "large (last bs)" using assms(2,3) by (simp add: list_all_iff)
  then show ?thesis using None assms(3) large_reset by (auto simp: refill_def spare_def)
next
  case (Some b)
  then show ?thesis using assms(1) by (auto simp: refill_def)
qed

lemma recycle_ok:
  assumes t: "taken n2 bs"
  defines "cs \<equiv> if 2 < length bs then take 2 bs else bs"
  shows "\<exists>b c ds es. refill None cs = Some (Some b, ds) \<and> refill n2 ds = Some (Some c, es) \<and>
     spare (Some b) \<and> spare (Some c)"
proof -
  have cs: "list_all large cs" "cs \<noteq> []" "n2 = None \<longrightarrow> 2 \<le> length cs"
    using t by (auto simp: cs_def taken_def list_all_iff dest: in_set_takeD)
  obtain b where b: "refill None cs = Some (Some b, butlast cs)" "spare (Some b)"
    using refill_ok [of None cs] cs by (auto simp: spare_def)
  have "list_all large (butlast cs)" using cs(1) by (auto simp: list_all_iff dest: in_set_butlastD)
  moreover have "n2 = None \<longrightarrow> butlast cs \<noteq> []" using cs(3) by (cases cs rule: rev_cases) auto
  ultimately obtain c where "refill n2 (butlast cs) = Some (Some c, if n2 = None then butlast (butlast cs) else butlast cs)"
      "spare (Some c)"
    using refill_ok [of n2 "butlast cs"] t by (auto simp: taken_def)
  with b show ?thesis by blast
qed

lemmas async_defs = async_inv_def back_inv_def file_bytes_def inflight_def front_bytes_def

lemma spare_new [simp]: "spare (Some LargeBuffer)"
  by (simp add: spare_def)

lemma open_logE:
  assumes "open_log out" obtains lf where "out = Some lf" and "lf_inv lf"
  using assms by (auto simp: open_log_def)

text \<open>
  What each step of the back end achieves. In particular, after the recycling step and at the
  end everything written is flushed.
\<close>

lemma threadFunc_step_inv:
  assumes E: "disk_env E" "0 < clock E 0" and inv: "async_inv E a acc"
  shows "\<exists>a'. threadFunc_step E garbage bname rollSize a = Some a' \<and> async_inv E a' acc \<and>
     (phase a = Swap \<longrightarrow> phase a' = Writing \<and> front_bytes a' = []) \<and>
     (phase a = Writing \<longrightarrow> phase a' = Recycle \<and> front_bytes a' = front_bytes a) \<and>
     (phase a = Recycle \<longrightarrow> phase a' = Head \<and> front_bytes a' = front_bytes a \<and>
        (\<exists>lf. output a' = Some lf \<and> unflushed lf = 0))"
proof (cases "phase a")
  case Unstarted
  obtain lf where "LogFile_new E garbage bname rollSize 3 1024 = Some lf" "lf_inv lf" "all_bytes lf = []"
    using new_LogFile [OF E] by blast
  with inv Unstarted show ?thesis
    by (auto simp: threadFunc_step_def async_defs open_log_def bzero_new front_inv_def)
next
  case Head
  then obtain lf where lf: "output a = Some lf" "lf_inv lf"
    using inv by (auto simp: async_inv_def back_inv_def elim: open_logE)
  obtain lf' where lf': "LogFile_flush lf = Some lf'" "lf_inv lf'" "all_bytes lf' = all_bytes lf"
    using lf.flush_ok [of E lf] E(1) lf(2) by auto
  show ?thesis
    using inv Head lf lf' by (auto simp: threadFunc_step_def async_defs open_log_def front_inv_def)
next
  case Swap
  obtain b where b: "currentBuffer a = Some b" "large b" using inv by (auto simp: async_inv_def front_inv_def)
  obtain b1 b2 where n: "newbuffer1 a = Some b1" "newbuffer2 a = Some b2" "spare (Some b1)" "spare (Some b2)"
    using inv Swap by (auto simp: async_inv_def back_inv_def)
  show ?thesis
    using inv Swap b n
    by (cases "nextBuffer a")
      (auto simp: threadFunc_step_def async_defs front_inv_def taken_def spare_def Suc_le_eq)
next
  case Writing
  then obtain lf where lf: "output a = Some lf" "lf_inv lf"
    using inv by (auto simp: async_inv_def back_inv_def elim: open_logE)
  obtain lf' parts where lf': "write_all (LogFile_append E) lf (map FixedBuffer_toString (buffersToWrite a)) = Some lf'"
      "lf_inv lf'" "list_all2 (stored E) parts (map FixedBuffer_toString (buffersToWrite a))"
      "all_bytes lf' = all_bytes lf @ concat parts"
    using lf.write_all_logged [of E lf "map FixedBuffer_toString (buffersToWrite a)"] E(1) lf(2) by blast
  let ?a = "a\<lparr>output := Some lf', phase := Recycle\<rparr>"
  have run: "threadFunc_step E garbage bname rollSize a = Some ?a"
    using Writing lf(1) lf'(1) by (simp add: threadFunc_step_def)
  obtain out where out: "written E (all_bytes lf) out" "out @ queued (buffersToWrite a) @ front_bytes a = acc"
    using inv Writing lf(1) by (auto simp: async_inv_def file_bytes_def inflight_def)
  have "written E (file_bytes ?a) (out @ queued (buffersToWrite a))"
    using written_append [OF out(1) lf'(3)] lf'(4) by (simp add: file_bytes_def queued_def)
  then have "async_inv E ?a acc"
    using inv Writing lf'(2) out(2) by (auto simp: async_defs open_log_def front_inv_def)
  then show ?thesis using Writing run by (simp add: front_bytes_def)
next
  case Recycle
  then obtain lf where lf: "output a = Some lf" "lf_inv lf"
    using inv by (auto simp: async_inv_def back_inv_def elim: open_logE)
  obtain lf' where lf': "LogFile_flush lf = Some lf'" "lf_inv lf'" "all_bytes lf' = all_bytes lf" "unflushed lf' = 0"
    using lf.flush_ok [of E lf] E(1) lf(2) by auto
  have t: "taken (newbuffer2 a) (buffersToWrite a)" and n1: "newbuffer1 a = None"
    using inv Recycle by (auto simp: async_inv_def back_inv_def)
  let ?cs = "if 2 < length (buffersToWrite a) then take 2 (buffersToWrite a) else buffersToWrite a"
  obtain b c ds es where r: "refill None ?cs = Some (Some b, ds)" "refill (newbuffer2 a) ds = Some (Some c, es)"
      "spare (Some b)" "spare (Some c)"
    using recycle_ok [OF t] by blast
  have "threadFunc_step E garbage bname rollSize a = Some (a\<lparr>newbuffer1 := Some b, newbuffer2 := Some c,
      buffersToWrite := [], output := Some lf', phase := Head\<rparr>)"
    using Recycle n1 r(1,2) lf(1) lf'(1) by (simp add: threadFunc_step_def Let_def)
  then show ?thesis
    using inv Recycle lf(1) lf'(2-4) r(3,4) by (auto simp: async_defs open_log_def front_inv_def)
next
  case Finished
  then show ?thesis using inv by (simp add: threadFunc_step_def)
qed

lemma async_reach_inv:
  assumes "async_reach E garbage bname rollSize a th acc" and E: "disk_env E" "0 < clock E 0"
  shows "async_inv E a acc"
  using assms(1)
proof (induction rule: async_reach.induct)
  case new
  show ?case
    by (simp add: async_defs front_inv_def AsyncLogging_new_def bzero_new)
next
  case (append a th acc logline a')
  then show ?case using append_async_inv by fastforce
next
  case (start a acc)
  then show ?case by (auto simp: async_defs front_inv_def AsyncLogging_start_def)
next
  case (stop a th acc)
  then show ?case by (auto simp: async_defs front_inv_def AsyncLogging_stop_def)
next
  case (backend a acc a')
  then show ?case using threadFunc_step_inv [OF E backend.IH, of garbage bname rollSize] by auto
qed

section \<open>Properties\<close>

text \<open>
  C12. In every interleaving of front-end threads (whose lines are shorter than a large buffer) with the back end, as long
  as log files can be opened, no step dereferences a null buffer or takes the last element of an empty vector, and the
  logger loses, duplicates and reorders no byte: what the back end has written, in writes \<open>ws\<close>, then the buffers being
  written, then the front end's buffers are exactly what was appended. Of each of the writes the files hold what \<open>fwrite\<close>
  accepted of it, so that bytes are missing in them only where a write failed; when no write fails they hold all.
\<close>

theorem AsyncLogging_keeps_every_line:
  assumes "disk_env E" and "0 < clock E 0" and r: "async_reach E garbage bname rollSize a th acc"
  shows "(\<exists>ss ws. file_bytes a = concat ss \<and> list_all2 (stored E) ss ws \<and> concat ws @ inflight a @ front_bytes a = acc) \<and>
     (good_env E \<longrightarrow> file_bytes a @ inflight a @ front_bytes a = acc) \<and>
     threadFunc_step E garbage bname rollSize a \<noteq> None \<and>
     (\<forall>line. length line < kLargeBufferSize \<longrightarrow> AsyncLogging_append a line \<noteq> None)"
proof -
  have inv: "async_inv E a acc" by (rule async_reach_inv [OF r assms(1,2)])
  then obtain out where out: "written E (file_bytes a) out" "out @ inflight a @ front_bytes a = acc" by (auto simp: async_inv_def)
  have "\<exists>ss ws. file_bytes a = concat ss \<and> list_all2 (stored E) ss ws \<and> concat ws @ inflight a @ front_bytes a = acc"
    using out unfolding written_def by blast
  moreover have "good_env E \<longrightarrow> file_bytes a @ inflight a @ front_bytes a = acc" using out written_good by metis
  moreover have "threadFunc_step E garbage bname rollSize a \<noteq> None"
    using threadFunc_step_inv [OF assms(1,2) inv, of garbage bname rollSize] by auto
  moreover have "AsyncLogging_append a line \<noteq> None" if "length line < kLargeBufferSize" for line
    using append_async_inv [OF inv that] by auto
  ultimately show ?thesis by blast
qed

text \<open>
  Once the back end has reached its critical section, three more steps of it put everything
  appended so far into the files, flushed, and bring it back to the head of its loop.
\<close>

theorem AsyncLogging_iteration_writes_all:
  assumes "good_env E" and "0 < clock E 0"
    and r: "async_reach E garbage bname rollSize a True acc" and "phase a = Swap"
  shows "\<exists>a1 a2 a3 lf. threadFunc_step E garbage bname rollSize a = Some a1 \<and>
     threadFunc_step E garbage bname rollSize a1 = Some a2 \<and>
     threadFunc_step E garbage bname rollSize a2 = Some a3 \<and>
     phase a3 = Head \<and> output a3 = Some lf \<and> all_bytes lf = acc \<and> unflushed lf = 0"
proof -
  have E: "disk_env E" by (rule good_disk_envI [OF assms(1)])
  have inv: "async_inv E a acc" by (rule async_reach_inv [OF r E assms(2)])
  note step = threadFunc_step_inv [OF E assms(2), of _ acc garbage bname rollSize]
  from step [OF inv] assms(4) obtain a1 where a1: "threadFunc_step E garbage bname rollSize a = Some a1"
      "async_inv E a1 acc" "phase a1 = Writing" "front_bytes a1 = []" by auto
  from step [OF a1(2)] a1(3,4) obtain a2 where a2: "threadFunc_step E garbage bname rollSize a1 = Some a2"
      "async_inv E a2 acc" "phase a2 = Recycle" "front_bytes a2 = []" by auto
  from step [OF a2(2)] a2(3,4) obtain a3 lf where a3: "threadFunc_step E garbage bname rollSize a2 = Some a3"
      "async_inv E a3 acc" "phase a3 = Head" "front_bytes a3 = []" "output a3 = Some lf" "unflushed lf = 0"
    by auto
  then have "all_bytes lf = acc" using written_good [OF assms(1)] by (simp add: async_inv_def file_bytes_def inflight_def)
  with a1 a2 a3 show ?thesis by blast
qed

text \<open>
  \<open>stop\<close> does not wait for the back end, which leaves its loop without looking at the front end's
  buffers again: there is a run in which a line was appended before \<open>stop\<close>, the back end has
  finished after its last \<open>flush\<close>, and the log files are empty.
\<close>

theorem AsyncLogging_stop_loses_lines:
  "\<exists>a lf. async_reach good_disk 0 ''log'' 100 a True ''bye'' \<and> phase a = Finished \<and>
     output a = Some lf \<and> all_bytes lf = []"
proof -
  note r = async_reach.intros [where E = good_disk and garbage = 0 and bname = "''log''" and rollSize = 100]
  have E: "0 < clock good_disk 0" by (simp add: good_disk_def)
  have len: "length ''bye'' < kLargeBufferSize" by (simp add: kLargeBufferSize_def)
  have inv: "async_inv good_disk (AsyncLogging_start AsyncLogging_new) []"
    by (rule async_reach_inv [OF r(3) [OF r(1)] good_disk_disk E])
  from append_inv [OF _ len, of "AsyncLogging_start AsyncLogging_new"] inv obtain a where a:
      "AsyncLogging_append (AsyncLogging_start AsyncLogging_new) ''bye'' = Some a" "phase a = Unstarted"
    by (auto simp: async_inv_def AsyncLogging_start_def AsyncLogging_new_def)
  have ra: "async_reach good_disk 0 ''log'' 100 (AsyncLogging_stop a) True ''bye''"
    using r(4) [OF r(2) [OF r(3) [OF r(1)] len a(1)]] by simp
  obtain lf where lf: "LogFile_new good_disk 0 ''log'' 100 3 1024 = Some lf" "lf_inv lf" "all_bytes lf = []"
    using new_LogFile [OF good_disk_disk E] by blast
  obtain lf' where lf': "LogFile_flush lf = Some lf'" "all_bytes lf' = []"
    using lf.flush_ok [of good_disk lf] good_disk_disk lf(2,3) by auto
  let ?b = "AsyncLogging_stop a\<lparr>output := Some lf, newbuffer1 := Some (FixedBuffer_bzero LargeBuffer),
      newbuffer2 := Some (FixedBuffer_bzero LargeBuffer), buffersToWrite := [], phase := Head\<rparr>"
  have "threadFunc_step good_disk 0 ''log'' 100 (AsyncLogging_stop a) = Some ?b"
    using a(2) lf(1) by (simp add: threadFunc_step_def AsyncLogging_stop_def)
  with r(5) ra have "async_reach good_disk 0 ''log'' 100 ?b True ''bye''" by blast
  moreover have "threadFunc_step good_disk 0 ''log'' 100 ?b = Some (?b\<lparr>output := Some lf', phase := Finished\<rparr>)"
    using lf'(1) by (simp add: threadFunc_step_def AsyncLogging_stop_def)
  ultimately have "async_reach good_disk 0 ''log'' 100 (?b\<lparr>output := Some lf', phase := Finished\<rparr>) True ''bye''"
    by (rule r(5))
  with lf'(2) show ?thesis by fastforce
qed

section \<open>Witnesses\<close>

lemma async_example:
  "\<exists>a. async_reach good_disk 0 ''log'' 100 a True ''hello'' \<and> phase a = Swap"
proof -
  note r = async_reach.intros [where E = good_disk and garbage = 0 and bname = "''log''" and rollSize = 100]
  have E: "0 < clock good_disk 0" by (simp add: good_disk_def)
  have len: "length ''hello'' < kLargeBufferSize" by (simp add: kLargeBufferSize_def)
  have inv: "async_inv good_disk (AsyncLogging_start AsyncLogging_new) []"
    by (rule async_reach_inv [OF r(3) [OF r(1)] good_disk_disk E])
  from append_inv [OF _ len, of "AsyncLogging_start AsyncLogging_new"] inv obtain a where a:
      "AsyncLogging_append (AsyncLogging_start AsyncLogging_new) ''hello'' = Some a" "phase a = Unstarted" "running a"
    by (auto simp: async_inv_def AsyncLogging_start_def AsyncLogging_new_def)
  have ra: "async_reach good_disk 0 ''log'' 100 a True ''hello''"
    using r(2) [OF r(3) [OF r(1)] len a(1)] by simp
  obtain lf where lf: "LogFile_new good_disk 0 ''log'' 100 3 1024 = Some lf"
    using new_LogFile [OF good_disk_disk E] by blast
  let ?b = "a\<lparr>output := Some lf, newbuffer1 := Some (FixedBuffer_bzero LargeBuffer),
      newbuffer2 := Some (FixedBuffer_bzero LargeBuffer), buffersToWrite := [], phase := Head\<rparr>"
  have "threadFunc_step good_disk 0 ''log'' 100 a = Some ?b"
    using a(2) lf by (simp add: threadFunc_step_def)
  with r(5) ra have "async_reach good_disk 0 ''log'' 100 ?b True ''hello''" by blast
  moreover have "threadFunc_step good_disk 0 ''log'' 100 ?b = Some (?b\<lparr>phase := Swap\<rparr>)"
    using a(3) by (simp add: threadFunc_step_def)
  ultimately have "async_reach good_disk 0 ''log'' 100 (?b\<lparr>phase := Swap\<rparr>) True ''hello''" by (rule r(5))
  then show ?thesis by fastforce
qed

theorem AsyncLogging_keeps_every_line_witness:
  "\<exists>a. async_reach good_disk 0 ''log'' 100 a True ''hello'' \<and>
     file_bytes a @ inflight a @ front_bytes a = ''hello''"
proof -
  have E: "0 < clock good_disk 0" by (simp add: good_disk_def)
  obtain a where "async_reach good_disk 0 ''log'' 100 a True ''hello''" using async_example by blast
  with AsyncLogging_keeps_every_line [OF good_disk_disk E this] good_disk_env show ?thesis by blast
qed

theorem AsyncLogging_iteration_writes_all_witness:
  "\<exists>a a1 a2 a3 lf. async_reach good_disk 0 ''log'' 100 a True ''hello'' \<and> phase a = Swap \<and>
     threadFunc_step good_disk 0 ''log'' 100 a = Some a1 \<and>
     threadFunc_step good_disk 0 ''log'' 100 a1 = Some a2 \<and>
     threadFunc_step good_disk 0 ''log'' 100 a2 = Some a3 \<and>
     output a3 = Some lf \<and> all_bytes lf = ''hello'' \<and> unflushed lf = 0"
proof -
  have E: "0 < clock good_disk 0" by (simp add: good_disk_def)
  obtain a where "async_reach good_disk 0 ''log'' 100 a True ''hello''" "phase a = Swap"
    using async_example by blast
  with AsyncLogging_iteration_writes_all [OF good_disk_env E this] show ?thesis by blast
qed

end
