(* ===== verification/Net_EventLoop.thy ===== *)
theory Net_EventLoop
  imports Prelude
begin

text \<open>
  The event loop's cross-thread machinery (\<open>include/net/EventLoop.h\<close>, \<open>src/net/EventLoop.cc\<close>): the queue
  of pending functors under its mutex, the wake-up \<open>eventfd\<close>, the flags \<open>quit_\<close>, \<open>looping_\<close> and
  \<open>callingPendingFunctors_\<close>, and the thread that runs \<open>loop()\<close>. The steps of the loop thread and of
  other threads calling \<open>queueInLoop\<close> and \<open>quit\<close> are interleaved at the points where the code
  releases the mutex or touches an atomic. What the kernel does to the counter of the
  \<open>eventfd\<close> on \<open>write\<close> and on \<open>read\<close> is given by two functions.
\<close>

section \<open>State and operations\<close>

record eventfd =
  evfd_write :: "nat \<Rightarrow> nat"
  evfd_read :: "nat \<Rightarrow> nat"

datatype 'f loop_pc =
    Before              \<comment> \<open>\<open>loop()\<close> has not been called\<close>
  | Loop_head           \<comment> \<open>about to test \<open>quit_\<close>\<close>
  | Polling             \<comment> \<open>inside \<open>poller_->poll\<close>\<close>
  | Handling bool       \<comment> \<open>running the handlers; is the wake-up channel among those to come?\<close>
  | Swapping            \<comment> \<open>in \<open>doPendingFunctors\<close>, before the swap\<close>
  | Running "'f list"   \<comment> \<open>in \<open>doPendingFunctors\<close>, with the functors still to be called\<close>
  | Stopped             \<comment> \<open>\<open>loop()\<close> has returned\<close>

record 'f EventLoop =
  looping :: bool
  quit :: bool
  callingPendingFunctors :: bool
  pendingFunctors :: "'f list"
  wakeupCount :: nat
  pc :: "'f loop_pc"
  queuers :: nat
  quitters :: nat
  submitted :: "'f list"
  executed :: "'f list"

text \<open>
  \<open>queuers\<close> and \<open>quitters\<close> count the other threads that are inside \<open>queueInLoop\<close> or \<open>quit\<close>, between
  their first action and the wake-up; \<open>submitted\<close> and \<open>executed\<close> record all functors in the
  order in which they entered the queue and were called.
\<close>

definition EventLoop_new :: "'f EventLoop" where
  "EventLoop_new = \<lparr>looping = False, quit = False, callingPendingFunctors = False, pendingFunctors = [],
     wakeupCount = 0, pc = Before, queuers = 0, quitters = 0, submitted = [], executed = []\<rparr>"

definition EventLoop_wakeup :: "eventfd \<Rightarrow> 'f EventLoop \<Rightarrow> 'f EventLoop" where
  "EventLoop_wakeup K l = l\<lparr>wakeupCount := evfd_write K (wakeupCount l)\<rparr>"

definition EventLoop_handleWakeupRead :: "eventfd \<Rightarrow> 'f EventLoop \<Rightarrow> 'f EventLoop" where
  "EventLoop_handleWakeupRead K l = l\<lparr>wakeupCount := evfd_read K (wakeupCount l)\<rparr>"

text \<open>The critical section of \<open>queueInLoop\<close>, and the test behind it.\<close>

definition queueInLoop_push :: "'f EventLoop \<Rightarrow> 'f \<Rightarrow> 'f EventLoop" where
  "queueInLoop_push l cb = l\<lparr>pendingFunctors := pendingFunctors l @ [cb], submitted := submitted l @ [cb]\<rparr>"

definition queueInLoop_notify :: "eventfd \<Rightarrow> bool \<Rightarrow> 'f EventLoop \<Rightarrow> 'f EventLoop" where
  "queueInLoop_notify K isInLoopThread l =
     (if \<not> isInLoopThread \<or> callingPendingFunctors l then EventLoop_wakeup K l else l)"

definition EventLoop_queueInLoop :: "eventfd \<Rightarrow> bool \<Rightarrow> 'f EventLoop \<Rightarrow> 'f \<Rightarrow> 'f EventLoop" where
  "EventLoop_queueInLoop K isInLoopThread l cb =
     queueInLoop_notify K isInLoopThread (queueInLoop_push l cb)"

text \<open>\<open>runInLoop\<close> calls the functor at once in the loop's thread.\<close>

definition EventLoop_runInLoop :: "eventfd \<Rightarrow> bool \<Rightarrow> ('f \<Rightarrow> 'f EventLoop \<Rightarrow> 'f EventLoop) \<Rightarrow> 'f EventLoop \<Rightarrow> 'f \<Rightarrow> 'f EventLoop" where
  "EventLoop_runInLoop K isInLoopThread call l cb =
     (if isInLoopThread then call cb l else EventLoop_queueInLoop K isInLoopThread l cb)"

definition quit_flag :: "'f EventLoop \<Rightarrow> 'f EventLoop" where
  "quit_flag l = l\<lparr>quit := True\<rparr>"

definition EventLoop_quit :: "eventfd \<Rightarrow> bool \<Rightarrow> 'f EventLoop \<Rightarrow> 'f EventLoop" where
  "EventLoop_quit K isInLoopThread l =
     (let l = quit_flag l in if \<not> isInLoopThread then EventLoop_wakeup K l else l)"

text \<open>The beginning of \<open>loop()\<close>, and its pieces up to the end of an iteration.\<close>

definition loop_begin :: "'f EventLoop \<Rightarrow> 'f EventLoop" where
  "loop_begin l = l\<lparr>looping := True, quit := False, pc := Loop_head\<rparr>"

definition loop_test :: "'f EventLoop \<Rightarrow> 'f EventLoop" where
  "loop_test l = (if quit l then l\<lparr>looping := False, pc := Stopped\<rparr> else l\<lparr>pc := Polling\<rparr>)"

definition doPendingFunctors_enter :: "'f EventLoop \<Rightarrow> 'f EventLoop" where
  "doPendingFunctors_enter l = l\<lparr>callingPendingFunctors := True, pc := Swapping\<rparr>"

definition doPendingFunctors_swap :: "'f EventLoop \<Rightarrow> 'f EventLoop" where
  "doPendingFunctors_swap l = l\<lparr>pc := Running (pendingFunctors l), pendingFunctors := []\<rparr>"

definition doPendingFunctors_leave :: "'f EventLoop \<Rightarrow> 'f EventLoop" where
  "doPendingFunctors_leave l = l\<lparr>callingPendingFunctors := False, pc := Loop_head\<rparr>"

section \<open>Interleavings\<close>

text \<open>
  \<open>poll\<close> may return at any time (another descriptor, a timeout), but reports the wake-up channel
  only when its counter is positive. Handlers and functors may queue further functors and may quit.
\<close>

inductive loop_step :: "eventfd \<Rightarrow> 'f EventLoop \<Rightarrow> 'f EventLoop \<Rightarrow> bool" for K where
  call: "pc l = Before \<Longrightarrow> loop_step K l (loop_begin l)"
| test: "pc l = Loop_head \<Longrightarrow> loop_step K l (loop_test l)"
| poll: "pc l = Polling \<Longrightarrow> w \<longrightarrow> 0 < wakeupCount l \<Longrightarrow> loop_step K l (l\<lparr>pc := Handling w\<rparr>)"
| wakeup_read: "pc l = Handling True \<Longrightarrow>
    loop_step K l ((EventLoop_handleWakeupRead K l)\<lparr>pc := Handling False\<rparr>)"
| handler_queue: "pc l = Handling w \<Longrightarrow> loop_step K l (EventLoop_queueInLoop K True l cb)"
| handler_quit: "pc l = Handling w \<Longrightarrow> loop_step K l (EventLoop_quit K True l)"
| enter: "pc l = Handling False \<Longrightarrow> loop_step K l (doPendingFunctors_enter l)"
| swap: "pc l = Swapping \<Longrightarrow> loop_step K l (doPendingFunctors_swap l)"
| functor_call: "pc l = Running (f # fs) \<Longrightarrow>
    loop_step K l (l\<lparr>pc := Running fs, executed := executed l @ [f]\<rparr>)"
| functor_queue: "pc l = Running fs \<Longrightarrow> loop_step K l (EventLoop_queueInLoop K True l cb)"
| functor_quit: "pc l = Running fs \<Longrightarrow> loop_step K l (EventLoop_quit K True l)"
| leave: "pc l = Running [] \<Longrightarrow> loop_step K l (doPendingFunctors_leave l)"
| other_push: "loop_step K l ((queueInLoop_push l cb)\<lparr>queuers := queuers l + 1\<rparr>)"
| other_notify: "0 < queuers l \<Longrightarrow>
    loop_step K l ((queueInLoop_notify K False l)\<lparr>queuers := queuers l - 1\<rparr>)"
| other_quit: "loop_step K l ((quit_flag l)\<lparr>quitters := quitters l + 1\<rparr>)"
| other_quit_notify: "0 < quitters l \<Longrightarrow>
    loop_step K l ((EventLoop_wakeup K l)\<lparr>quitters := quitters l - 1\<rparr>)"

inductive loop_reach :: "eventfd \<Rightarrow> 'f EventLoop \<Rightarrow> bool" for K where
  new: "loop_reach K EventLoop_new"
| step: "loop_reach K l \<Longrightarrow> loop_step K l l' \<Longrightarrow> loop_reach K l'"

inductive_cases loop_stepE: "loop_step K l l'"

definition eventfd_spec :: "eventfd \<Rightarrow> bool" where
  "eventfd_spec K \<longleftrightarrow> (\<forall>c. 0 < evfd_write K c)"

text \<open>Functors taken out of the queue but not yet called.\<close>

definition running_functors :: "'f EventLoop \<Rightarrow> 'f list" where
  "running_functors l = (case pc l of Running fs \<Rightarrow> fs | _ \<Rightarrow> [])"

definition will_swap :: "'f EventLoop \<Rightarrow> bool" where
  "will_swap l \<longleftrightarrow> (\<exists>w. pc l = Handling w) \<or> pc l = Swapping"

definition loop_inv :: "'f EventLoop \<Rightarrow> bool" where
  "loop_inv l \<longleftrightarrow>
     submitted l = executed l @ running_functors l @ pendingFunctors l \<and>
     (callingPendingFunctors l \<longleftrightarrow> pc l = Swapping \<or> (\<exists>fs. pc l = Running fs)) \<and>
     (pendingFunctors l \<noteq> [] \<longrightarrow> will_swap l \<or> 0 < wakeupCount l \<or> 0 < queuers l) \<and>
     (quit l \<and> pc l = Polling \<longrightarrow> 0 < wakeupCount l \<or> 0 < quitters l)"

lemmas loop_op_defs = EventLoop_queueInLoop_def queueInLoop_push_def queueInLoop_notify_def EventLoop_quit_def
  quit_flag_def EventLoop_wakeup_def EventLoop_handleWakeupRead_def loop_begin_def loop_test_def
  doPendingFunctors_enter_def doPendingFunctors_swap_def doPendingFunctors_leave_def Let_def

lemma loop_inv_step:
  assumes "eventfd_spec K" and "loop_inv l" and "loop_step K l l'"
  shows "loop_inv l'"
  using assms(3,2,1)
  by cases (auto simp: loop_inv_def loop_op_defs running_functors_def will_swap_def eventfd_spec_def
      split: loop_pc.splits)

lemma loop_reach_inv:
  assumes "loop_reach K l" and "eventfd_spec K"
  shows "loop_inv l"
  using assms(1)
proof induction
  case new
  show ?case by (simp add: loop_inv_def EventLoop_new_def running_functors_def)
next
  case (step l l')
  then show ?case using loop_inv_step assms(2) by blast
qed

lemma loop_reach_runs: "(loop_step K)\<^sup>*\<^sup>* l l' \<Longrightarrow> loop_reach K l \<Longrightarrow> loop_reach K l'"
  by (induction rule: rtranclp_induct) (auto intro: loop_reach.step)

text \<open>One iteration of the loop thread alone, from the return of \<open>poll\<close> to the head of the loop.\<close>

definition call_all :: "'f EventLoop \<Rightarrow> 'f list \<Rightarrow> 'f EventLoop" where
  "call_all l fs = l\<lparr>pc := Running [], executed := executed l @ fs\<rparr>"

definition EventLoop_iterate :: "eventfd \<Rightarrow> bool \<Rightarrow> 'f EventLoop \<Rightarrow> 'f EventLoop" where
  "EventLoop_iterate K w l =
     (let l = l\<lparr>pc := Handling w\<rparr>;
          l = (if w then (EventLoop_handleWakeupRead K l)\<lparr>pc := Handling False\<rparr> else l);
          l = doPendingFunctors_swap (doPendingFunctors_enter l) in
      doPendingFunctors_leave (call_all l (running_functors l)))"

lemma call_all_steps: "pc l = Running fs \<Longrightarrow> (loop_step K)\<^sup>*\<^sup>* l (call_all l fs)"
proof (induction fs arbitrary: l)
  case Nil
  then have "call_all l [] = l" by (simp add: call_all_def)
  then show ?case by simp
next
  case (Cons f fs)
  let ?l = "l\<lparr>pc := Running fs, executed := executed l @ [f]\<rparr>"
  have "loop_step K l ?l" using Cons.prems by (rule functor_call)
  moreover have "(loop_step K)\<^sup>*\<^sup>* ?l (call_all ?l fs)" by (rule Cons.IH) simp
  moreover have "call_all ?l fs = call_all l (f # fs)" by (simp add: call_all_def)
  ultimately show ?case by (metis converse_rtranclp_into_rtranclp)
qed

lemma iterate_steps:
  assumes "pc l = Polling" and "w \<longrightarrow> 0 < wakeupCount l"
  shows "(loop_step K)\<^sup>*\<^sup>* l (EventLoop_iterate K w l)"
proof -
  let ?l1 = "l\<lparr>pc := Handling w\<rparr>"
  let ?l2 = "if w then (EventLoop_handleWakeupRead K ?l1)\<lparr>pc := Handling False\<rparr> else ?l1"
  let ?l3 = "doPendingFunctors_enter ?l2" and ?l4 = "doPendingFunctors_swap (doPendingFunctors_enter ?l2)"
  have 1: "loop_step K l ?l1" using assms by (rule poll)
  have 2: "(loop_step K)\<^sup>*\<^sup>* ?l1 ?l2" using wakeup_read [of ?l1 K] by auto
  have 3: "loop_step K ?l2 ?l3" by (rule enter) auto
  have 4: "loop_step K ?l3 ?l4" by (rule swap) (simp add: doPendingFunctors_enter_def)
  have 5: "(loop_step K)\<^sup>*\<^sup>* ?l4 (call_all ?l4 (running_functors ?l4))"
    by (rule call_all_steps) (simp add: doPendingFunctors_swap_def running_functors_def)
  have 6: "loop_step K (call_all ?l4 (running_functors ?l4)) (EventLoop_iterate K w l)"
    unfolding EventLoop_iterate_def Let_def by (rule leave) (simp add: call_all_def)
  from 1 2 3 4 5 6 show ?thesis by (meson rtranclp.rtrancl_into_rtrancl rtranclp_trans converse_rtranclp_into_rtranclp)
qed

section \<open>Properties\<close>

text \<open>
  No wake-up is lost, in any interleaving. When the loop is blocked in \<open>poll\<close> while a functor is
  pending, the \<open>eventfd\<close> is readable or some thread is still on its way to make it so, and likewise
  when \<open>quit\<close> has been requested. Functors are called in the order in which they were queued,
  each exactly once: the calls made, those under way and those pending are all that were queued.
\<close>

theorem EventLoop_no_lost_wakeup:
  assumes "eventfd_spec K" and "loop_reach K l"
  shows "submitted l = executed l @ running_functors l @ pendingFunctors l \<and>
     (pc l = Polling \<and> pendingFunctors l \<noteq> [] \<longrightarrow> 0 < wakeupCount l \<or> 0 < queuers l) \<and>
     (pc l = Polling \<and> quit l \<longrightarrow> 0 < wakeupCount l \<or> 0 < quitters l)"
  using loop_reach_inv [OF assms(2,1)] by (auto simp: loop_inv_def will_swap_def)

text \<open>
  When \<open>poll\<close> returns, the rest of the iteration calls every functor that was pending, in order,
  and leaves the queue empty and the flag \<open>callingPendingFunctors_\<close> reset.
\<close>

theorem EventLoop_iteration_calls_pending:
  assumes "loop_reach K l" and "pc l = Polling" and "w \<longrightarrow> 0 < wakeupCount l"
  shows "loop_reach K (EventLoop_iterate K w l) \<and>
     executed (EventLoop_iterate K w l) = executed l @ pendingFunctors l \<and>
     pendingFunctors (EventLoop_iterate K w l) = [] \<and> pc (EventLoop_iterate K w l) = Loop_head \<and>
     \<not> callingPendingFunctors (EventLoop_iterate K w l)"
proof -
  have "loop_reach K (EventLoop_iterate K w l)" by (rule loop_reach_runs [OF iterate_steps [OF assms(2,3)] assms(1)])
  then show ?thesis
    by (simp add: EventLoop_iterate_def Let_def call_all_def running_functors_def loop_op_defs)
qed

definition linux_eventfd :: eventfd where
  "linux_eventfd = \<lparr>evfd_write = (\<lambda>c. if c < 2 ^ 64 - 2 then c + 1 else c), evfd_read = (\<lambda>_. 0)\<rparr>"

lemma linux_eventfd_spec: "eventfd_spec linux_eventfd"
  by (simp add: eventfd_spec_def linux_eventfd_def)

text \<open>
  \<open>loop()\<close> resets \<open>quit_\<close> when it starts, so that a \<open>quit\<close> that another thread completed before is
  lost: from the state after that \<open>quit\<close> the loop can reach a state in which it blocks in \<open>poll\<close>
  with nothing pending, no wake-up left and nobody on the way to send one.
\<close>

theorem EventLoop_quit_before_loop_is_lost:
  "\<exists>l1 l2 :: nat EventLoop. loop_reach linux_eventfd l1 \<and> quit l1 \<and> quitters l1 = 0 \<and>
     (loop_step linux_eventfd)\<^sup>*\<^sup>* l1 l2 \<and> pc l2 = Polling \<and> \<not> quit l2 \<and> wakeupCount l2 = 0 \<and>
     pendingFunctors l2 = [] \<and> queuers l2 = 0 \<and> quitters l2 = 0"
proof -
  let ?K = linux_eventfd and ?R = "loop_step linux_eventfd :: nat EventLoop \<Rightarrow> _"
  let ?l0 = "EventLoop_new :: nat EventLoop"
  let ?q = "(quit_flag ?l0)\<lparr>quitters := quitters ?l0 + 1\<rparr>"
  let ?l1 = "(EventLoop_wakeup ?K ?q)\<lparr>quitters := quitters ?q - 1\<rparr>"
  have "?R ?l0 ?q" by (rule other_quit)
  moreover have "?R ?q ?l1" by (rule other_quit_notify) simp
  ultimately have reach: "loop_reach ?K ?l1" by (blast intro: loop_reach.intros)
  let ?p = "loop_test (loop_begin ?l1)"
  have new: "pc ?l1 = Before" "wakeupCount ?l1 = 1" "quit ?l1" "quitters ?l1 = 0" "queuers ?l1 = 0"
      "pendingFunctors ?l1 = []"
    by (simp_all add: loop_op_defs EventLoop_new_def linux_eventfd_def)
  have "?R ?l1 (loop_begin ?l1)" using new(1) by (rule call)
  moreover have "?R (loop_begin ?l1) ?p" by (rule test) (simp add: loop_begin_def)
  ultimately have a: "?R\<^sup>*\<^sup>* ?l1 ?p" by auto
  have p: "pc ?p = Polling" "wakeupCount ?p = 1" "\<not> quit ?p" "quitters ?p = 0" "queuers ?p = 0"
      "pendingFunctors ?p = []"
    using new by (simp_all add: loop_test_def loop_begin_def)
  let ?i = "EventLoop_iterate ?K True ?p"
  have b: "?R\<^sup>*\<^sup>* ?p ?i" using p by (intro iterate_steps) simp_all
  have i: "pc ?i = Loop_head" "wakeupCount ?i = 0" "\<not> quit ?i" "quitters ?i = 0" "queuers ?i = 0"
      "pendingFunctors ?i = []"
    using p(3-5)
    by (simp_all add: EventLoop_iterate_def Let_def call_all_def doPendingFunctors_leave_def
        doPendingFunctors_swap_def doPendingFunctors_enter_def EventLoop_handleWakeupRead_def linux_eventfd_def)
  have c: "?R ?i (loop_test ?i)" using i(1) by (rule test)
  have "?R\<^sup>*\<^sup>* ?l1 (loop_test ?i)" using a b c by (meson rtranclp.rtrancl_into_rtrancl rtranclp_trans)
  moreover have "pc (loop_test ?i) = Polling" "\<not> quit (loop_test ?i)" "wakeupCount (loop_test ?i) = 0"
      "pendingFunctors (loop_test ?i) = []" "queuers (loop_test ?i) = 0" "quitters (loop_test ?i) = 0"
    using i by (simp_all add: loop_test_def)
  ultimately show ?thesis using reach new(3,4) by blast
qed

section \<open>Witnesses\<close>

lemma queued_example:
  "\<exists>l :: nat EventLoop. loop_reach linux_eventfd l \<and> pc l = Polling \<and> pendingFunctors l = [7] \<and>
     queuers l = 0 \<and> executed l = []"
proof -
  let ?K = linux_eventfd
  let ?l1 = "loop_test (loop_begin (EventLoop_new :: nat EventLoop))"
  let ?l2 = "(queueInLoop_push ?l1 7)\<lparr>queuers := queuers ?l1 + 1\<rparr>"
  let ?l3 = "(queueInLoop_notify ?K False ?l2)\<lparr>queuers := queuers ?l2 - 1\<rparr>"
  have "loop_step ?K (EventLoop_new :: nat EventLoop) (loop_begin EventLoop_new)"
    by (rule call) (simp add: EventLoop_new_def)
  moreover have "loop_step ?K (loop_begin (EventLoop_new :: nat EventLoop)) ?l1"
    by (rule test) (simp add: loop_begin_def)
  ultimately have "loop_reach ?K ?l1" by (blast intro: loop_reach.intros)
  moreover have "loop_step ?K ?l1 ?l2" by (rule other_push)
  moreover have "loop_step ?K ?l2 ?l3" by (rule other_notify) simp
  ultimately have "loop_reach ?K ?l3" by (blast intro: loop_reach.step)
  moreover have "pc ?l3 = Polling" "pendingFunctors ?l3 = [7]" "queuers ?l3 = 0" "executed ?l3 = []"
    by (simp_all add: loop_op_defs EventLoop_new_def)
  ultimately show ?thesis by blast
qed

theorem EventLoop_no_lost_wakeup_witness:
  "\<exists>l :: nat EventLoop. loop_reach linux_eventfd l \<and> pc l = Polling \<and> pendingFunctors l = [7] \<and> 0 < wakeupCount l"
proof -
  obtain l :: "nat EventLoop" where l: "loop_reach linux_eventfd l" "pc l = Polling" "pendingFunctors l = [7]"
      "queuers l = 0" using queued_example by blast
  with EventLoop_no_lost_wakeup [OF linux_eventfd_spec l(1)] show ?thesis by auto
qed

theorem EventLoop_iteration_calls_pending_witness:
  "\<exists>l :: nat EventLoop. loop_reach linux_eventfd l \<and> executed l = [7]"
proof -
  obtain l :: "nat EventLoop" where l: "loop_reach linux_eventfd l" "pc l = Polling" "pendingFunctors l = [7]"
      "executed l = []" using queued_example by blast
  with EventLoop_iteration_calls_pending [OF l(1,2), of False] show ?thesis by auto
qed

end
