(* ===== verification/Net_Poller.thy ===== *)
theory Net_Poller
  imports Prelude
begin

unbundle bit_operations_syntax

text \<open>
  Channels and the epoll poller (\<open>include/net/Channel.h\<close>, \<open>src/net/Channel.cc\<close>, \<open>include/net/Poller.h\<close>,
  \<open>src/net/Poller.cc\<close>, \<open>include/net/EPollPoller.h\<close>, \<open>src/net/EPollPoller.cc\<close>). The state holds the channel
  objects by their addresses, the poller's map from descriptors to channels, the size of its
  event array, and the interest list that the kernel keeps for the epoll descriptor. The system
  call \<open>epoll_ctl\<close> is a function on that list, which fails (\<open>None\<close>) or changes it.
\<close>

section \<open>Data\<close>

type_synonym chan = nat
type_synonym event_mask = "32 word"

definition EPOLLIN :: event_mask where "EPOLLIN = 1"
definition EPOLLPRI :: event_mask where "EPOLLPRI = 2"
definition EPOLLOUT :: event_mask where "EPOLLOUT = 4"
definition EPOLLERR :: event_mask where "EPOLLERR = 8"
definition EPOLLHUP :: event_mask where "EPOLLHUP = 16"

definition kNoneEvent :: event_mask where "kNoneEvent = 0"
definition kReadEvent :: event_mask where "kReadEvent = EPOLLIN OR EPOLLPRI"
definition kWriteEvent :: event_mask where "kWriteEvent = EPOLLOUT"

definition kNew :: int where "kNew = - 1"
definition kAdded :: int where "kAdded = 1"
definition kDeleted :: int where "kDeleted = 2"

record Channel =
  ch_fd :: fd
  events :: event_mask
  revents :: event_mask
  index :: int
  tied :: bool
  readCallback :: bool
  writeCallback :: bool
  closeCallback :: bool
  errorCallback :: bool

type_synonym interest_list = "fd \<rightharpoonup> event_mask \<times> chan"

record EPollPoller =
  chans :: "chan \<Rightarrow> Channel"
  channels :: "fd \<rightharpoonup> chan"
  events_size :: nat
  interest :: interest_list

definition Channel_new :: "fd \<Rightarrow> Channel" where
  "Channel_new f = \<lparr>ch_fd = f, events = 0, revents = 0, index = - 1, tied = False,
     readCallback = False, writeCallback = False, closeCallback = False, errorCallback = False\<rparr>"

definition kInitEventListSize :: nat where
  "kInitEventListSize = 16"

definition EPollPoller_new :: "(chan \<Rightarrow> Channel) \<Rightarrow> EPollPoller" where
  "EPollPoller_new cs = \<lparr>chans = cs, channels = Map.empty, events_size = kInitEventListSize, interest = Map.empty\<rparr>"

section \<open>Registration\<close>

datatype ctl_op = EPOLL_CTL_ADD | EPOLL_CTL_MOD | EPOLL_CTL_DEL

type_synonym epoll_ctl_call = "ctl_op \<Rightarrow> fd \<Rightarrow> event_mask \<times> chan \<Rightarrow> interest_list \<Rightarrow> interest_list option"

definition EPollPoller_update :: "epoll_ctl_call \<Rightarrow> EPollPoller \<Rightarrow> ctl_op \<Rightarrow> chan \<Rightarrow> EPollPoller result" where
  "EPollPoller_update ctl p op c =
     (let f = ch_fd (chans p c); event = (events (chans p c), c) in
      case ctl op f event (interest p) of
        Some k \<Rightarrow> Inr (p\<lparr>interest := k\<rparr>)
      | None \<Rightarrow> if op = EPOLL_CTL_DEL then Inr p else Inl Aborted)"

definition set_chan :: "EPollPoller \<Rightarrow> chan \<Rightarrow> Channel \<Rightarrow> EPollPoller" where
  "set_chan p c ch = p\<lparr>chans := (chans p)(c := ch)\<rparr>"

definition set_index :: "EPollPoller \<Rightarrow> chan \<Rightarrow> int \<Rightarrow> EPollPoller" where
  "set_index p c i = set_chan p c (chans p c\<lparr>index := i\<rparr>)"

definition Channel_isNoneEvent :: "Channel \<Rightarrow> bool" where
  "Channel_isNoneEvent ch = (events ch = kNoneEvent)"

definition Channel_isWriting :: "Channel \<Rightarrow> bool" where
  "Channel_isWriting ch = (events ch AND kWriteEvent \<noteq> 0)"

definition Channel_isReading :: "Channel \<Rightarrow> bool" where
  "Channel_isReading ch = (events ch AND kReadEvent \<noteq> 0)"

definition EPollPoller_updateChannel :: "epoll_ctl_call \<Rightarrow> EPollPoller \<Rightarrow> chan \<Rightarrow> EPollPoller result" where
  "EPollPoller_updateChannel ctl p c =
     (let i = index (chans p c) in
      if i = kNew \<or> i = kDeleted
      then (let p = (if i = kNew then p\<lparr>channels := (channels p)(ch_fd (chans p c) \<mapsto> c)\<rparr> else p) in
            EPollPoller_update ctl (set_index p c kAdded) EPOLL_CTL_ADD c)
      else if Channel_isNoneEvent (chans p c)
      then (case EPollPoller_update ctl p EPOLL_CTL_DEL c of
              Inl e \<Rightarrow> Inl e | Inr p \<Rightarrow> Inr (set_index p c kDeleted))
      else EPollPoller_update ctl p EPOLL_CTL_MOD c)"

definition EPollPoller_removeChannel :: "epoll_ctl_call \<Rightarrow> EPollPoller \<Rightarrow> chan \<Rightarrow> EPollPoller result" where
  "EPollPoller_removeChannel ctl p c =
     (let p = p\<lparr>channels := (channels p)(ch_fd (chans p c) := None)\<rparr> in
      case (if index (chans p c) = kAdded then EPollPoller_update ctl p EPOLL_CTL_DEL c else Inr p) of
        Inl e \<Rightarrow> Inl e
      | Inr p \<Rightarrow> Inr (set_index p c kNew))"

definition Poller_hasChannel :: "EPollPoller \<Rightarrow> chan \<Rightarrow> bool" where
  "Poller_hasChannel p c = (channels p (ch_fd (chans p c)) = Some c)"

text \<open>
  The constructor aborts when \<open>epoll_create1\<close> failed; with \<open>MUDUO_USE_POLL\<close> in the environment there is
  no poller at all.
\<close>

definition EPollPoller_construct :: "int \<Rightarrow> (chan \<Rightarrow> Channel) \<Rightarrow> EPollPoller result" where
  "EPollPoller_construct epollfd cs = (if epollfd < 0 then Inl Aborted else Inr (EPollPoller_new cs))"

definition Poller_newDefaultPoller :: "bool \<Rightarrow> int \<Rightarrow> (chan \<Rightarrow> Channel) \<Rightarrow> EPollPoller option result" where
  "Poller_newDefaultPoller MUDUO_USE_POLL epollfd cs =
     (if MUDUO_USE_POLL then Inr None else andthen (EPollPoller_construct epollfd cs) (\<lambda>p. Inr (Some p)))"

text \<open>The loop delegates to its poller.\<close>

definition EventLoop_updateChannel :: "epoll_ctl_call \<Rightarrow> EPollPoller \<Rightarrow> chan \<Rightarrow> EPollPoller result" where
  [simp]: "EventLoop_updateChannel ctl p c = EPollPoller_updateChannel ctl p c"

definition EventLoop_removeChannel :: "epoll_ctl_call \<Rightarrow> EPollPoller \<Rightarrow> chan \<Rightarrow> EPollPoller result" where
  [simp]: "EventLoop_removeChannel ctl p c = EPollPoller_removeChannel ctl p c"

definition EventLoop_hasChannel :: "EPollPoller \<Rightarrow> chan \<Rightarrow> bool" where
  "EventLoop_hasChannel p c = Poller_hasChannel p c"

definition Channel_update :: "epoll_ctl_call \<Rightarrow> EPollPoller \<Rightarrow> chan \<Rightarrow> EPollPoller result" where
  [simp]: "Channel_update ctl p c = EventLoop_updateChannel ctl p c"

text \<open>
  The methods of \<open>Channel\<close> change \<open>events_\<close> and then call \<open>update()\<close>, which reaches
  \<open>updateChannel\<close> through the channel's loop.
\<close>

definition Channel_set_events :: "epoll_ctl_call \<Rightarrow> EPollPoller \<Rightarrow> chan \<Rightarrow> event_mask \<Rightarrow> EPollPoller result" where
  "Channel_set_events ctl p c ev =
     Channel_update ctl (set_chan p c (chans p c\<lparr>events := ev\<rparr>)) c"

definition Channel_enableReading :: "epoll_ctl_call \<Rightarrow> EPollPoller \<Rightarrow> chan \<Rightarrow> EPollPoller result" where
  "Channel_enableReading ctl p c = Channel_set_events ctl p c (events (chans p c) OR kReadEvent)"

definition Channel_disableReading :: "epoll_ctl_call \<Rightarrow> EPollPoller \<Rightarrow> chan \<Rightarrow> EPollPoller result" where
  "Channel_disableReading ctl p c = Channel_set_events ctl p c (events (chans p c) AND NOT kReadEvent)"

definition Channel_enableWriting :: "epoll_ctl_call \<Rightarrow> EPollPoller \<Rightarrow> chan \<Rightarrow> EPollPoller result" where
  "Channel_enableWriting ctl p c = Channel_set_events ctl p c (events (chans p c) OR kWriteEvent)"

definition Channel_disableWriting :: "epoll_ctl_call \<Rightarrow> EPollPoller \<Rightarrow> chan \<Rightarrow> EPollPoller result" where
  "Channel_disableWriting ctl p c = Channel_set_events ctl p c (events (chans p c) AND NOT kWriteEvent)"

definition Channel_disableAll :: "epoll_ctl_call \<Rightarrow> EPollPoller \<Rightarrow> chan \<Rightarrow> EPollPoller result" where
  "Channel_disableAll ctl p c = Channel_set_events ctl p c kNoneEvent"

definition Channel_remove :: "epoll_ctl_call \<Rightarrow> EPollPoller \<Rightarrow> chan \<Rightarrow> EPollPoller result" where
  "Channel_remove ctl p c = EventLoop_removeChannel ctl p c"

section \<open>Waiting and dispatching\<close>

datatype wait_result = Ready "(event_mask \<times> chan) list" | Wait_error int

primrec EPollPoller_fillActiveChannels ::
  "EPollPoller \<Rightarrow> (event_mask \<times> chan) list \<Rightarrow> chan list \<Rightarrow> EPollPoller \<times> chan list" where
  "EPollPoller_fillActiveChannels p [] active = (p, active)"
| "EPollPoller_fillActiveChannels p (e # es) active =
     EPollPoller_fillActiveChannels (set_chan p (snd e) (chans p (snd e)\<lparr>revents := fst e\<rparr>)) es (active @ [snd e])"

definition EPollPoller_poll :: "EPollPoller \<Rightarrow> wait_result \<Rightarrow> EPollPoller \<times> chan list" where
  "EPollPoller_poll p w =
     (case w of
        Wait_error _ \<Rightarrow> (p, [])
      | Ready es \<Rightarrow>
          if 0 < length es then
            (let (p, active) = EPollPoller_fillActiveChannels p es [] in
             (if length es = events_size p then p\<lparr>events_size := events_size p * 2\<rparr> else p, active))
          else (p, []))"

datatype callback = Close_cb | Error_cb | Read_cb | Write_cb

definition Channel_handleEventWithGuard :: "Channel \<Rightarrow> callback list" where
  "Channel_handleEventWithGuard ch =
     (if revents ch AND EPOLLHUP \<noteq> 0 \<and> revents ch AND EPOLLIN = 0 \<and> closeCallback ch then [Close_cb] else []) @
     (if revents ch AND EPOLLERR \<noteq> 0 \<and> errorCallback ch then [Error_cb] else []) @
     (if revents ch AND (EPOLLIN OR EPOLLPRI) \<noteq> 0 \<and> readCallback ch then [Read_cb] else []) @
     (if revents ch AND EPOLLOUT \<noteq> 0 \<and> writeCallback ch then [Write_cb] else [])"

text \<open>\<open>alive\<close>: the object that the weak pointer \<open>tie_\<close> refers to still exists.\<close>

definition Channel_handleEvent :: "bool \<Rightarrow> Channel \<Rightarrow> callback list" where
  "Channel_handleEvent alive ch =
     (if tied ch then if alive then Channel_handleEventWithGuard ch else []
      else Channel_handleEventWithGuard ch)"

definition Channel_tie :: "Channel \<Rightarrow> Channel" where
  "Channel_tie ch = ch\<lparr>tied := True\<rparr>"

section \<open>The invariant\<close>

text \<open>What \<open>epoll_ctl\<close> does, for open descriptors and with enough memory (\<open>man 2 epoll_ctl\<close>).\<close>

definition epoll_ctl_spec :: "epoll_ctl_call \<Rightarrow> bool" where
  "epoll_ctl_spec ctl \<longleftrightarrow>
     (\<forall>f ev k. ctl EPOLL_CTL_ADD f ev k = (if k f = None then Some (k(f \<mapsto> ev)) else None) \<and>
        ctl EPOLL_CTL_MOD f ev k = (if k f = None then None else Some (k(f \<mapsto> ev))) \<and>
        ctl EPOLL_CTL_DEL f ev k = (if k f = None then None else Some (k(f := None))))"

definition poller_inv :: "EPollPoller \<Rightarrow> bool" where
  "poller_inv p \<longleftrightarrow>
     (\<forall>c. index (chans p c) \<in> {kNew, kAdded, kDeleted}) \<and>
     (\<forall>f c. channels p f = Some c \<longleftrightarrow> ch_fd (chans p c) = f \<and> index (chans p c) \<noteq> kNew) \<and>
     (\<forall>f e c. interest p f = Some (e, c) \<longleftrightarrow>
        ch_fd (chans p c) = f \<and> index (chans p c) = kAdded \<and> e = events (chans p c))"

text \<open>A channel may be registered while no other registered channel has its descriptor.\<close>

definition usable :: "EPollPoller \<Rightarrow> chan \<Rightarrow> bool" where
  "usable p c \<longleftrightarrow> (\<forall>d. channels p (ch_fd (chans p c)) = Some d \<longrightarrow> d = c)"

definition watched :: "EPollPoller \<Rightarrow> chan \<Rightarrow> event_mask option" where
  "watched p c = (case interest p (ch_fd (chans p c)) of
      Some (e, d) \<Rightarrow> if d = c then Some e else None | None \<Rightarrow> None)"

lemma kinds [simp]: "kNew \<noteq> kAdded" "kAdded \<noteq> kNew" "kNew \<noteq> kDeleted" "kDeleted \<noteq> kNew"
    "kAdded \<noteq> kDeleted" "kDeleted \<noteq> kAdded"
  by (simp_all add: kNew_def kAdded_def kDeleted_def)

lemma poller_invD:
  assumes "poller_inv p"
  shows "index (chans p c) = kNew \<or> index (chans p c) = kAdded \<or> index (chans p c) = kDeleted"
    and "channels p f = Some c \<longleftrightarrow> ch_fd (chans p c) = f \<and> index (chans p c) \<noteq> kNew"
    and "interest p f = Some (e, c) \<longleftrightarrow>
        ch_fd (chans p c) = f \<and> index (chans p c) = kAdded \<and> e = events (chans p c)"
  using assms unfolding poller_inv_def by auto

lemma watched_iff:
  assumes "poller_inv p"
  shows "watched p c = (if index (chans p c) = kAdded then Some (events (chans p c)) else None)"
proof (cases "index (chans p c) = kAdded")
  case True
  then have "interest p (ch_fd (chans p c)) = Some (events (chans p c), c)"
    using poller_invD(3) [OF assms] by blast
  then show ?thesis using True by (simp add: watched_def)
next
  case False
  then have "interest p (ch_fd (chans p c)) \<noteq> Some (e, c)" for e
    using poller_invD(3) [OF assms] by blast
  then show ?thesis using False by (auto simp: watched_def split: option.splits)
qed

lemma hasChannel_iff: "poller_inv p \<Longrightarrow> Poller_hasChannel p c \<longleftrightarrow> index (chans p c) \<noteq> kNew"
  using poller_invD(2) by (simp add: Poller_hasChannel_def)

text \<open>Two registered channels never share a descriptor.\<close>

lemma usable_others:
  assumes "poller_inv p" and "usable p c" and "d \<noteq> c" and "ch_fd (chans p d) = ch_fd (chans p c)"
  shows "index (chans p d) = kNew"
  using assms poller_invD(2) [OF assms(1), of "ch_fd (chans p c)" d] by (auto simp: usable_def)

lemma free_descriptor:
  assumes inv: "poller_inv p" and us: "usable p c" and i: "index (chans p c) \<noteq> kAdded"
  shows "interest p (ch_fd (chans p c)) = None"
proof (rule ccontr)
  assume "interest p (ch_fd (chans p c)) \<noteq> None"
  then obtain e d where d: "interest p (ch_fd (chans p c)) = Some (e, d)" by auto
  then have "ch_fd (chans p d) = ch_fd (chans p c)" "index (chans p d) = kAdded"
    using poller_invD(3) [OF inv] by auto
  moreover from this have "d \<noteq> c" using i by auto
  ultimately show False using usable_others [OF inv us] by auto
qed

lemma poller_inv_update:
  assumes inv: "poller_inv p" and us: "usable p c"
    and i: "i = kNew \<or> i = kAdded \<or> i = kDeleted"
  defines "f \<equiv> ch_fd (chans p c)"
  shows "poller_inv (p\<lparr>chans := (chans p)(c := chans p c\<lparr>events := ev, index := i\<rparr>),
       channels := (channels p)(f := if i = kNew then None else Some c),
       interest := (interest p)(f := if i = kAdded then Some (ev, c) else None)\<rparr>)"
  using inv i usable_others [OF inv us] poller_invD(2,3) [OF inv] unfolding f_def
  by (auto simp: poller_inv_def)

text \<open>The state after the events of a channel were set: its registration and the kernel's view of it.\<close>

definition with_reg :: "EPollPoller \<Rightarrow> chan \<Rightarrow> event_mask \<Rightarrow> int \<Rightarrow> EPollPoller" where
  "with_reg p c ev i = p\<lparr>chans := (chans p)(c := chans p c\<lparr>events := ev, index := i\<rparr>),
       channels := (channels p)(ch_fd (chans p c) := if i = kNew then None else Some c),
       interest := (interest p)(ch_fd (chans p c) := if i = kAdded then Some (ev, c) else None)\<rparr>"

lemma with_reg_inv:
  "poller_inv p \<Longrightarrow> usable p c \<Longrightarrow> i = kNew \<or> i = kAdded \<or> i = kDeleted \<Longrightarrow> poller_inv (with_reg p c ev i)"
  unfolding with_reg_def by (rule poller_inv_update)

lemma with_reg_simps [simp]:
  "chans (with_reg p c ev i) c = chans p c\<lparr>events := ev, index := i\<rparr>"
  "d \<noteq> c \<Longrightarrow> chans (with_reg p c ev i) d = chans p d"
  by (simp_all add: with_reg_def)

lemma ctl_simps:
  assumes "epoll_ctl_spec ctl"
  shows "k f = None \<Longrightarrow> ctl EPOLL_CTL_ADD f ev k = Some (k(f \<mapsto> ev))"
    and "k f \<noteq> None \<Longrightarrow> ctl EPOLL_CTL_MOD f ev k = Some (k(f \<mapsto> ev))"
    and "k f \<noteq> None \<Longrightarrow> ctl EPOLL_CTL_DEL f ev k = Some (k(f := None))"
  using assms unfolding epoll_ctl_spec_def by (simp_all del: split_paired_All)

lemma set_events_eq:
  assumes ctl: "epoll_ctl_spec ctl" and inv: "poller_inv p" and us: "usable p c"
  shows "Channel_set_events ctl p c ev =
     Inr (with_reg p c ev (if index (chans p c) = kAdded \<and> ev = 0 then kDeleted else kAdded))"
proof -
  let ?f = "ch_fd (chans p c)"
  note defs = Channel_set_events_def EPollPoller_updateChannel_def EPollPoller_update_def set_chan_def
    set_index_def with_reg_def Channel_isNoneEvent_def kNoneEvent_def Let_def
  consider "index (chans p c) = kNew" | "index (chans p c) = kDeleted" | "index (chans p c) = kAdded"
    using poller_invD(1) [OF inv] by blast
  then show ?thesis
  proof cases
    case 1
    then have "interest p ?f = None" using free_descriptor [OF inv us] by simp
    with 1 show ?thesis by (simp add: defs ctl_simps(1) [OF ctl])
  next
    case 2
    then have "interest p ?f = None" using free_descriptor [OF inv us] by simp
    moreover have "channels p ?f = Some c" using 2 poller_invD(2) [OF inv] by simp
    ultimately show ?thesis using 2 by (simp add: defs ctl_simps(1) [OF ctl] fun_upd_idem)
  next
    case 3
    then have "interest p ?f \<noteq> None" using poller_invD(3) [OF inv, of ?f _ c] by blast
    moreover have "channels p ?f = Some c" using 3 poller_invD(2) [OF inv] by simp
    moreover have upd: "chans p c\<lparr>events := ev, index := kAdded\<rparr> = chans p c\<lparr>events := ev\<rparr>"
      using 3 by (cases "chans p c") auto
    ultimately show ?thesis
      using 3 by (cases "ev = 0") (simp_all add: defs ctl_simps(2,3) [OF ctl] fun_upd_idem del: upd, metis upd)
  qed
qed

lemma remove_eq:
  assumes ctl: "epoll_ctl_spec ctl" and inv: "poller_inv p" and us: "usable p c"
  shows "Channel_remove ctl p c = Inr (with_reg p c (events (chans p c)) kNew)"
proof -
  let ?f = "ch_fd (chans p c)"
  note defs = Channel_remove_def EPollPoller_removeChannel_def EPollPoller_update_def set_chan_def
    set_index_def with_reg_def Let_def
  show ?thesis
  proof (cases "index (chans p c) = kAdded")
    case True
    then have "interest p ?f \<noteq> None" using poller_invD(3) [OF inv, of ?f _ c] by blast
    then show ?thesis using True by (auto simp: defs ctl_simps(3) [OF ctl])
  next
    case False
    then have "interest p ?f = None" using free_descriptor [OF inv us] by simp
    then show ?thesis using False by (simp add: defs fun_upd_idem)
  qed
qed

section \<open>The registry as an interface\<close>

text \<open>
  What the users of channels (connections, acceptor, event loop) rely on: setting the events of a
  channel makes the kernel watch exactly those, removing it makes the kernel forget it, and
  neither disturbs other channels.
\<close>

locale channel_registry =
  fixes good :: "'s \<Rightarrow> bool"
    and free :: "'s \<Rightarrow> 'c \<Rightarrow> bool"
    and set_ev :: "'s \<Rightarrow> 'c \<Rightarrow> event_mask \<Rightarrow> 's result"
    and rem :: "'s \<Rightarrow> 'c \<Rightarrow> 's result"
    and watch :: "'s \<Rightarrow> 'c \<Rightarrow> event_mask option"
    and has :: "'s \<Rightarrow> 'c \<Rightarrow> bool"
  assumes set_ok: "good s \<Longrightarrow> free s c \<Longrightarrow> \<exists>s'. set_ev s c ev = Inr s' \<and> good s' \<and> free s' c \<and> has s' c \<and>
      (ev \<noteq> 0 \<longrightarrow> watch s' c = Some ev) \<and> (ev = 0 \<longrightarrow> watch s' c \<in> {None, Some 0}) \<and>
      (\<forall>d. d \<noteq> c \<longrightarrow> watch s' d = watch s d \<and> has s' d = has s d)"
    and rem_ok: "good s \<Longrightarrow> free s c \<Longrightarrow> \<exists>s'. rem s c = Inr s' \<and> good s' \<and> \<not> has s' c \<and> watch s' c = None \<and>
      (\<forall>d. d \<noteq> c \<longrightarrow> watch s' d = watch s d \<and> has s' d = has s d)"
begin

primrec set_all :: "'s \<Rightarrow> 'c \<Rightarrow> event_mask list \<Rightarrow> 's result" where
  "set_all s c [] = Inr s"
| "set_all s c (ev # evs) = (case set_ev s c ev of Inl e \<Rightarrow> Inl e | Inr s \<Rightarrow> set_all s c evs)"

lemma set_all_ok:
  "good s \<Longrightarrow> free s c \<Longrightarrow> \<exists>s'. set_all s c evs = Inr s' \<and> good s' \<and> free s' c \<and>
     (evs \<noteq> [] \<longrightarrow> has s' c) \<and> (evs \<noteq> [] \<and> last evs \<noteq> 0 \<longrightarrow> watch s' c = Some (last evs)) \<and>
     (\<forall>d. d \<noteq> c \<longrightarrow> watch s' d = watch s d \<and> has s' d = has s d)"
proof (induction evs arbitrary: s)
  case Nil
  then show ?case by simp
next
  case (Cons ev evs)
  from set_ok [OF Cons.prems, of ev] obtain s1 where s1: "set_ev s c ev = Inr s1" "good s1" "free s1 c" "has s1 c"
      "ev \<noteq> 0 \<longrightarrow> watch s1 c = Some ev" "\<forall>d. d \<noteq> c \<longrightarrow> watch s1 d = watch s d \<and> has s1 d = has s d"
    by blast
  from Cons.IH [OF s1(2,3)] obtain s' where "set_all s1 c evs = Inr s'" "good s'" "free s' c"
      "evs \<noteq> [] \<longrightarrow> has s' c" "evs \<noteq> [] \<and> last evs \<noteq> 0 \<longrightarrow> watch s' c = Some (last evs)"
      "\<forall>d. d \<noteq> c \<longrightarrow> watch s' d = watch s1 d \<and> has s' d = has s1 d" "evs = [] \<longrightarrow> s' = s1"
    by (cases evs) auto
  with s1 show ?case by (intro exI [of _ s']) auto
qed

text \<open>The life of a channel: any changes of its events, then removal, leave no trace of it.\<close>

lemma life_cycle:
  assumes "good s" and "free s c"
  shows "\<exists>s1 s2. set_all s c evs = Inr s1 \<and> rem s1 c = Inr s2 \<and> good s2 \<and> watch s2 c = None \<and> \<not> has s2 c \<and>
     (\<forall>d. d \<noteq> c \<longrightarrow> watch s2 d = watch s d \<and> has s2 d = has s d)"
proof -
  obtain s1 where s1: "set_all s c evs = Inr s1" "good s1" "free s1 c"
      "\<forall>d. d \<noteq> c \<longrightarrow> watch s1 d = watch s d \<and> has s1 d = has s d"
    using set_all_ok [OF assms, of evs] by blast
  from rem_ok [OF s1(2,3)] obtain s2 where "rem s1 c = Inr s2" "good s2" "\<not> has s2 c" "watch s2 c = None"
      "\<forall>d. d \<noteq> c \<longrightarrow> watch s2 d = watch s1 d \<and> has s2 d = has s1 d" by blast
  with s1 show ?thesis by (intro exI [of _ s1] exI [of _ s2]) auto
qed

end

lemma with_reg_view:
  assumes inv: "poller_inv p" and us: "usable p c" and i: "i = kNew \<or> i = kAdded \<or> i = kDeleted"
  shows "watched (with_reg p c ev i) c = (if i = kAdded then Some ev else None)"
    and "Poller_hasChannel (with_reg p c ev i) c \<longleftrightarrow> i \<noteq> kNew"
    and "d \<noteq> c \<Longrightarrow> watched (with_reg p c ev i) d = watched p d \<and>
      Poller_hasChannel (with_reg p c ev i) d = Poller_hasChannel p d"
    and "usable (with_reg p c ev i) c"
  using watched_iff [OF with_reg_inv [OF inv us i]] hasChannel_iff [OF with_reg_inv [OF inv us i]]
    watched_iff [OF inv] hasChannel_iff [OF inv]
  by (auto simp: usable_def with_reg_def split: if_splits)

interpretation ep: channel_registry
  "\<lambda>p. epoll_ctl_spec ctl \<and> poller_inv p" usable "Channel_set_events ctl" "Channel_remove ctl" watched Poller_hasChannel
  for ctl
proof
  fix p c and ev :: event_mask
  assume *: "epoll_ctl_spec ctl \<and> poller_inv p" and us: "usable p c"
  define i where "i = (if index (chans p c) = kAdded \<and> ev = 0 then kDeleted else kAdded)"
  have i: "i = kNew \<or> i = kAdded \<or> i = kDeleted" "i \<noteq> kNew" "ev \<noteq> 0 \<longrightarrow> i = kAdded" by (auto simp: i_def)
  have "Channel_set_events ctl p c ev = Inr (with_reg p c ev i)"
    using set_events_eq [of ctl p c ev] * us by (simp add: i_def)
  then show "\<exists>p'. Channel_set_events ctl p c ev = Inr p' \<and> (epoll_ctl_spec ctl \<and> poller_inv p') \<and> usable p' c \<and>
      Poller_hasChannel p' c \<and> (ev \<noteq> 0 \<longrightarrow> watched p' c = Some ev) \<and>
      (ev = 0 \<longrightarrow> watched p' c \<in> {None, Some 0}) \<and>
      (\<forall>d. d \<noteq> c \<longrightarrow> watched p' d = watched p d \<and> Poller_hasChannel p' d = Poller_hasChannel p d)"
    using * i with_reg_inv [OF _ us i(1), where ev = ev] with_reg_view [OF _ us i(1), where ev = ev] by auto
next
  fix p c
  assume *: "epoll_ctl_spec ctl \<and> poller_inv p" and us: "usable p c"
  then have "Channel_remove ctl p c = Inr (with_reg p c (events (chans p c)) kNew)"
    using remove_eq [of ctl p c] by simp
  then show "\<exists>p'. Channel_remove ctl p c = Inr p' \<and> (epoll_ctl_spec ctl \<and> poller_inv p') \<and>
      \<not> Poller_hasChannel p' c \<and> watched p' c = None \<and>
      (\<forall>d. d \<noteq> c \<longrightarrow> watched p' d = watched p d \<and> Poller_hasChannel p' d = Poller_hasChannel p d)"
    using * us with_reg_inv [of p c kNew] with_reg_view [of p c kNew] by auto
qed

section \<open>Properties\<close>

primrec poller_run :: "epoll_ctl_call \<Rightarrow> EPollPoller \<Rightarrow> chan \<Rightarrow> event_mask list \<Rightarrow> EPollPoller result" where
  "poller_run ctl p c [] = Inr p"
| "poller_run ctl p c (ev # evs) =
     (case Channel_set_events ctl p c ev of Inl e \<Rightarrow> Inl e | Inr p \<Rightarrow> poller_run ctl p c evs)"

lemma poller_run_set_all: "poller_run ctl p c evs = ep.set_all ctl p c evs"
  by (induction evs arbitrary: p) (simp_all split: sum.splits)

text \<open>
  For any sequence of changes to the events of any channel whose descriptor no other registered
  channel uses, no call of \<open>epoll_ctl\<close> fails fatally, the poller's invariant is kept, and afterwards
  the kernel watches the channel for exactly its events; a final \<open>remove\<close> leaves the kernel and the
  poller's map without the channel. What is watched for other channels never changes.
\<close>

theorem EPollPoller_registration:
  assumes "epoll_ctl_spec ctl" and "poller_inv p" and "usable p c" and "evs \<noteq> []" and "last evs \<noteq> 0"
  shows "\<exists>p1 p2. poller_run ctl p c evs = Inr p1 \<and> poller_inv p1 \<and> Poller_hasChannel p1 c \<and>
     watched p1 c = Some (last evs) \<and> Channel_remove ctl p1 c = Inr p2 \<and> poller_inv p2 \<and>
     \<not> Poller_hasChannel p2 c \<and> watched p2 c = None \<and>
     (\<forall>d. d \<noteq> c \<longrightarrow> watched p1 d = watched p d \<and> watched p2 d = watched p d)"
proof -
  obtain p1 where p1: "ep.set_all ctl p c evs = Inr p1" "poller_inv p1" "usable p1 c" "Poller_hasChannel p1 c"
      "watched p1 c = Some (last evs)" "\<forall>d. d \<noteq> c \<longrightarrow> watched p1 d = watched p d"
    using ep.set_all_ok [of ctl p c evs] assms by auto
  from ep.rem_ok [of ctl p1 c] assms(1) p1(2,3) obtain p2 where "Channel_remove ctl p1 c = Inr p2" "poller_inv p2"
      "\<not> Poller_hasChannel p2 c" "watched p2 c = None" "\<forall>d. d \<noteq> c \<longrightarrow> watched p2 d = watched p1 d"
    by blast
  with p1 show ?thesis unfolding poller_run_set_all by (intro exI [of _ p1] exI [of _ p2]) auto
qed

lemma fill_spec:
  "distinct (map snd es) \<Longrightarrow>
   EPollPoller_fillActiveChannels p es active =
     (p\<lparr>chans := (\<lambda>c. case map_of (map prod.swap es) c of None \<Rightarrow> chans p c
         | Some e \<Rightarrow> chans p c\<lparr>revents := e\<rparr>)\<rparr>, active @ map snd es)"
proof (induction es arbitrary: p active)
  case Nil
  then show ?case by simp
next
  case (Cons e es)
  have "map_of (map prod.swap es) (snd e) = None"
    using Cons.prems by (force simp: map_of_eq_None_iff image_iff)
  then have "(\<lambda>c. case map_of (map prod.swap es) c of
        None \<Rightarrow> ((chans p)(snd e := chans p (snd e)\<lparr>revents := fst e\<rparr>)) c
      | Some v \<Rightarrow> ((chans p)(snd e := chans p (snd e)\<lparr>revents := fst e\<rparr>)) c\<lparr>revents := v\<rparr>) =
    (\<lambda>c. case map_of (map prod.swap (e # es)) c of None \<Rightarrow> chans p c | Some v \<Rightarrow> chans p c\<lparr>revents := v\<rparr>)"
    by (auto simp: fun_eq_iff split: option.split)
  with Cons show ?case by (simp add: set_chan_def cong: option.case_cong)
qed

text \<open>\<open>poll\<close> changes nothing of the channels but the reported events of those that are reported.\<close>

lemma poll_Ready:
  assumes dis: "distinct (map snd es)"
  shows "\<exists>p'. EPollPoller_poll p (Ready es) = (p', map snd es) \<and> interest p' = interest p \<and> channels p' = channels p \<and>
     (\<forall>c. \<exists>e. chans p' c = chans p c\<lparr>revents := e\<rparr>) \<and>
     (\<forall>x \<in> set es. revents (chans p' (snd x)) = fst x) \<and> (poller_inv p \<longrightarrow> poller_inv p') \<and>
     events_size p' = (if es \<noteq> [] \<and> length es = events_size p then 2 * events_size p else events_size p)"
proof -
  let ?f = "\<lambda>c. case map_of (map prod.swap es) c of None \<Rightarrow> chans p c | Some e \<Rightarrow> chans p c\<lparr>revents := e\<rparr>"
  let ?n = "if es \<noteq> [] \<and> length es = events_size p then 2 * events_size p else events_size p"
  let ?p = "p\<lparr>chans := ?f, events_size := ?n\<rparr>"
  have "EPollPoller_poll p (Ready es) = (?p, map snd es)"
    using fill_spec [OF dis, of p "[]"] by (cases "es = []") (simp_all add: EPollPoller_poll_def)
  moreover have upd: "\<exists>e. ?f c = chans p c\<lparr>revents := e\<rparr>" for c
    by (cases "map_of (map prod.swap es) c") (auto intro: exI [of _ "revents (chans p c)"])
  moreover have "revents (?f (snd x)) = fst x" if "x \<in> set es" for x
  proof -
    have "map fst (map prod.swap es) = map snd es" by (simp add: comp_def)
    then have "map_of (map prod.swap es) (snd x) = Some (fst x)"
      using that dis by (intro map_of_is_SomeI) (simp only:, auto simp: image_iff prod.swap_def intro!: bexI [of _ x])
    then show ?thesis by simp
  qed
  moreover have "poller_inv ?p" if "poller_inv p"
  proof -
    have "ch_fd (?f c) = ch_fd (chans p c)" "index (?f c) = index (chans p c)" "events (?f c) = events (chans p c)" for c
      using upd [of c] by auto
    then show ?thesis using that by (simp add: poller_inv_def)
  qed
  ultimately show ?thesis by (intro exI [of _ ?p]) auto
qed

text \<open>
  \<open>poll\<close> returns the channels that \<open>epoll_wait\<close> reported, in that order, each with its
  reported events. When the kernel reports interest entries only, every returned channel is
  registered, and registration and invariant are untouched; the array doubles when it was full.
\<close>

theorem EPollPoller_poll_active:
  assumes inv: "poller_inv p" and dis: "distinct (map snd es)"
    and rep: "\<forall>x \<in> set es. \<exists>f e. interest p f = Some (e, snd x)"
  shows "\<exists>p' active. EPollPoller_poll p (Ready es) = (p', active) \<and> active = map snd es \<and>
     (\<forall>x \<in> set es. revents (chans p' (snd x)) = fst x \<and> Poller_hasChannel p (snd x)) \<and>
     poller_inv p' \<and> interest p' = interest p \<and> channels p' = channels p \<and>
     events_size p' = (if es \<noteq> [] \<and> length es = events_size p then 2 * events_size p else events_size p)"
proof -
  have "Poller_hasChannel p (snd x)" if x: "x \<in> set es" for x
  proof -
    obtain f e where "interest p f = Some (e, snd x)" using rep x by blast
    then have "index (chans p (snd x)) = kAdded" using poller_invD(3) [OF inv] by blast
    then show ?thesis using hasChannel_iff [OF inv] by simp
  qed
  with poll_Ready [OF dis, of p] inv show ?thesis by auto
qed

text \<open>
  An event on a channel calls the callbacks that are set, in the order close, error, read, write:
  close on a hang-up without readable data, error on an error, read when data (or urgent data) is
  there, write when the descriptor is writable. A tied channel whose owner is gone calls nothing.
\<close>

theorem Channel_handleEvent_dispatch:
  "Channel_handleEvent alive ch =
     (let raised = (\<lambda>bit. revents ch AND bit \<noteq> 0) in
      if tied ch \<and> \<not> alive then [] else
       filter (\<lambda>cb. case cb of
           Close_cb \<Rightarrow> raised EPOLLHUP \<and> \<not> raised EPOLLIN \<and> closeCallback ch
         | Error_cb \<Rightarrow> raised EPOLLERR \<and> errorCallback ch
         | Read_cb \<Rightarrow> (raised EPOLLIN \<or> raised EPOLLPRI) \<and> readCallback ch
         | Write_cb \<Rightarrow> raised EPOLLOUT \<and> writeCallback ch) [Close_cb, Error_cb, Read_cb, Write_cb])"
proof -
  have "revents ch AND (EPOLLIN OR EPOLLPRI) \<noteq> 0 \<longleftrightarrow> revents ch AND EPOLLIN \<noteq> 0 \<or> revents ch AND EPOLLPRI \<noteq> 0"
    by (simp add: bit.conj_disj_distrib or_eq_0_iff)
  then show ?thesis
    by (auto simp: Channel_handleEvent_def Channel_handleEventWithGuard_def)
qed

section \<open>Witnesses\<close>

definition kernel_ctl :: epoll_ctl_call where
  "kernel_ctl op f ev k =
     (case op of EPOLL_CTL_ADD \<Rightarrow> (if k f = None then Some (k(f \<mapsto> ev)) else None)
      | EPOLL_CTL_MOD \<Rightarrow> (if k f = None then None else Some (k(f \<mapsto> ev)))
      | EPOLL_CTL_DEL \<Rightarrow> (if k f = None then None else Some (k(f := None))))"

lemma kernel_ctl_spec: "epoll_ctl_spec kernel_ctl"
  by (simp add: epoll_ctl_spec_def kernel_ctl_def)

lemma new_poller: "poller_inv (EPollPoller_new (\<lambda>c. Channel_new (int c)))" "usable (EPollPoller_new (\<lambda>c. Channel_new (int c))) c"
  by (simp_all add: poller_inv_def usable_def EPollPoller_new_def Channel_new_def kNew_def kAdded_def)

theorem EPollPoller_registration_witness:
  "\<exists>p1 p2. poller_run kernel_ctl (EPollPoller_new (\<lambda>c. Channel_new (int c))) 5 [kReadEvent, 0, kWriteEvent] = Inr p1 \<and>
     watched p1 5 = Some kWriteEvent \<and> Channel_remove kernel_ctl p1 5 = Inr p2 \<and> watched p2 5 = None"
proof -
  have "last [kReadEvent, 0, kWriteEvent] \<noteq> 0" by (simp add: kWriteEvent_def EPOLLOUT_def)
  then show ?thesis
    using EPollPoller_registration [OF kernel_ctl_spec new_poller, of "[kReadEvent, 0, kWriteEvent]" 5]
    by (metis last_ConsL last_ConsR list.distinct(1))
qed

theorem EPollPoller_poll_active_witness:
  "\<exists>p p'. Channel_enableReading kernel_ctl (EPollPoller_new (\<lambda>c. Channel_new (int c))) 5 = Inr p \<and>
     EPollPoller_poll p (Ready [(EPOLLIN, 5)]) = (p', [5]) \<and> revents (chans p' 5) = EPOLLIN"
proof -
  let ?p = "EPollPoller_new (\<lambda>c. Channel_new (int c))"
  let ?ev = "events (chans ?p 5) OR kReadEvent"
  have ev: "?ev \<noteq> 0" by (simp add: EPollPoller_new_def Channel_new_def kReadEvent_def EPOLLIN_def EPOLLPRI_def)
  obtain p where p: "Channel_enableReading kernel_ctl ?p 5 = Inr p" "poller_inv p" "watched p 5 = Some ?ev"
    using ep.set_ok [of kernel_ctl ?p 5 ?ev] kernel_ctl_spec new_poller ev unfolding Channel_enableReading_def by auto
  then have "interest p (ch_fd (chans p 5)) = Some (?ev, 5)"
    by (auto simp: watched_def split: option.splits if_splits)
  then show ?thesis using EPollPoller_poll_active [OF p(2), of "[(EPOLLIN, 5)]"] p(1) by fastforce
qed

end
