(* ===== verification/Net_TcpConnection.thy ===== *)
theory Net_TcpConnection
  imports Net_Buffer Net_Poller
begin

unbundle bit_operations_syntax

text \<open>
  A connection (\<open>include/net/TcpConnection.h\<close>, \<open>src/net/TcpConnection.cc\<close>): its state machine, its two
  buffers, and its channel in the poller of its loop. The system calls on the socket are
  arguments of the operations that make them, so that every call may behave differently. What an
  operation hands to the event loop, to the user's callbacks or to the socket is recorded as a list
  of effects, in order; the bytes that the kernel has accepted are the field \<open>wire\<close>.

  A functor queued by \<open>send\<close> from another thread holds a pointer into the caller's string. It is
  modelled by its length alone: what the pointer leads to when the functor runs is not known.
\<close>

section \<open>State\<close>

datatype StateE = kDisconnected | kConnecting | kConnected | kDisconnecting

datatype loop_functor =
    WriteComplete_fn
  | HighWaterMark_fn size_t
  | Send_fn nat
  | SendFile_fn fd int size_t
  | Shutdown_fn

datatype effect =
    Queue loop_functor
  | ConnectionCallback StateE
  | MessageCallback
  | CloseCallback
  | ShutdownWrite
  | LogError

record TcpConnection =
  state :: StateE
  reading :: bool
  chan :: chan
  poller :: EPollPoller
  inputBuffer :: Buffer
  outputBuffer :: Buffer
  highWaterMark :: size_t
  writeCompleteCallback :: bool
  highWaterMarkCallback :: bool
  effects :: "effect list"
  wire :: "byte list"

abbreviation channel :: "TcpConnection \<Rightarrow> Channel" where
  "channel t \<equiv> chans (poller t) (chan t)"

definition EWOULDBLOCK :: int where "EWOULDBLOCK = 11"
definition EPIPE :: int where "EPIPE = 32"
definition ECONNRESET :: int where "ECONNRESET = 104"

text \<open>
  The constructor creates the channel of the socket, unregistered and with the connection's own
  handlers as its callbacks; the user's callbacks are set afterwards.
\<close>

definition TcpConnection_new :: "EPollPoller \<Rightarrow> chan \<Rightarrow> fd \<Rightarrow> TcpConnection result" where
  "TcpConnection_new p c sockfd =
     andthen (Buffer_new kInitialSize) (\<lambda>ib.
     andthen (Buffer_new kInitialSize) (\<lambda>ob.
     Inr \<lparr>state = kConnecting, reading = True, chan = c,
        poller = set_chan p c ((Channel_new sockfd)\<lparr>readCallback := True, writeCallback := True,
           closeCallback := True, errorCallback := True\<rparr>),
        inputBuffer = ib, outputBuffer = ob, highWaterMark = 64 * 1024 * 1024,
        writeCompleteCallback = False, highWaterMarkCallback = False, effects = [], wire = []\<rparr>))"

definition TcpConnection_setWriteCompleteCallback :: "bool \<Rightarrow> TcpConnection \<Rightarrow> TcpConnection" where
  "TcpConnection_setWriteCompleteCallback cb t = t\<lparr>writeCompleteCallback := cb\<rparr>"

definition TcpConnection_setHighWaterMarkCallback :: "bool \<Rightarrow> size_t \<Rightarrow> TcpConnection \<Rightarrow> TcpConnection" where
  "TcpConnection_setHighWaterMarkCallback cb mark t = t\<lparr>highWaterMarkCallback := cb, highWaterMark := mark\<rparr>"

definition emit :: "effect \<Rightarrow> TcpConnection \<Rightarrow> TcpConnection" where
  "emit e t = t\<lparr>effects := effects t @ [e]\<rparr>"

definition setState :: "StateE \<Rightarrow> TcpConnection \<Rightarrow> TcpConnection" where
  "setState s t = t\<lparr>state := s\<rparr>"

text \<open>Calling a method of the connection's channel.\<close>

definition on_channel :: "(EPollPoller \<Rightarrow> chan \<Rightarrow> EPollPoller result) \<Rightarrow> TcpConnection \<Rightarrow> TcpConnection result" where
  "on_channel f t = andthen (f (poller t) (chan t)) (\<lambda>p. Inr (t\<lparr>poller := p\<rparr>))"

section \<open>Sending\<close>

text \<open>
  \<open>sendInLoop\<close> in its two parts: the attempt to write at once when nothing is queued, giving the
  number of bytes written and whether the peer is gone, and the queueing of the rest.
\<close>

definition send_direct :: "write_call \<Rightarrow> TcpConnection \<Rightarrow> byte list \<Rightarrow> TcpConnection \<times> nat \<times> bool" where
  "send_direct write t bytes =
     (if \<not> Channel_isWriting (channel t) \<and> Buffer_readableBytes (outputBuffer t) = 0
      then (case write (ch_fd (channel t)) bytes of
              Inr nwrote \<Rightarrow>
                (let t = t\<lparr>wire := wire t @ take nwrote bytes\<rparr>;
                     remaining = length bytes - nwrote in
                 (if remaining = 0 \<and> writeCompleteCallback t then emit (Queue WriteComplete_fn) t else t,
                  nwrote, False))
            | Inl err \<Rightarrow>
                if err \<noteq> EWOULDBLOCK then (emit LogError t, 0, err = EPIPE \<or> err = ECONNRESET)
                else (t, 0, False))
      else (t, 0, False))"

definition send_rest :: "epoll_ctl_call \<Rightarrow> TcpConnection \<Rightarrow> byte list \<Rightarrow> TcpConnection result" where
  "send_rest ctl t rest =
     (let oldLen = Buffer_readableBytes (outputBuffer t);
          total = oldLen + of_nat (length rest);
          t = (if highWaterMark t \<le> total \<and> oldLen < highWaterMark t \<and> highWaterMarkCallback t
               then emit (Queue (HighWaterMark_fn total)) t else t) in
      andthen (Buffer_append (outputBuffer t) rest) (\<lambda>ob.
      (let t = t\<lparr>outputBuffer := ob\<rparr> in
       if \<not> Channel_isWriting (channel t) then on_channel (Channel_enableWriting ctl) t else Inr t)))"

definition TcpConnection_sendInLoop ::
  "epoll_ctl_call \<Rightarrow> write_call \<Rightarrow> TcpConnection \<Rightarrow> byte list \<Rightarrow> TcpConnection result" where
  "TcpConnection_sendInLoop ctl write t bytes =
     (let t = (if state t = kDisconnected then emit LogError t else t);
          (t, nwrote, faultError) = send_direct write t bytes;
          remaining = length bytes - nwrote in
      if \<not> faultError \<and> 0 < remaining then send_rest ctl t (drop nwrote bytes) else Inr t)"

definition TcpConnection_send ::
  "epoll_ctl_call \<Rightarrow> write_call \<Rightarrow> bool \<Rightarrow> TcpConnection \<Rightarrow> byte list \<Rightarrow> TcpConnection result" where
  "TcpConnection_send ctl write isInLoopThread t buf =
     (if state t = kConnected then
        if isInLoopThread then TcpConnection_sendInLoop ctl write t buf
        else Inr (emit (Queue (Send_fn (length buf))) t)
      else Inr t)"

text \<open>\<open>Socket::shutdownWrite\<close> calls \<open>shutdown(SHUT_WR)\<close> on the connection's socket; should that fail, only a message is logged.\<close>

definition Socket_shutdownWrite :: "TcpConnection \<Rightarrow> TcpConnection" where
  [simp]: "Socket_shutdownWrite t = emit ShutdownWrite t"

definition TcpConnection_shutdownInLoop :: "TcpConnection \<Rightarrow> TcpConnection" where
  "TcpConnection_shutdownInLoop t = (if \<not> Channel_isWriting (channel t) then Socket_shutdownWrite t else t)"

definition TcpConnection_shutdown :: "bool \<Rightarrow> TcpConnection \<Rightarrow> TcpConnection" where
  "TcpConnection_shutdown isInLoopThread t =
     (if state t = kConnected then
        (let t = setState kDisconnecting t in
         if isInLoopThread then TcpConnection_shutdownInLoop t else emit (Queue Shutdown_fn) t)
      else t)"

text \<open>
  \<open>sendfile\<close> returns an error or how many bytes it sent, advancing the offset; the bytes come from
  the file, given here as what it holds from an offset on.
\<close>

type_synonym sendfile_call = "fd \<Rightarrow> fd \<Rightarrow> int \<Rightarrow> size_t \<Rightarrow> int + nat"

definition TcpConnection_sendFileInLoop ::
  "sendfile_call \<Rightarrow> (fd \<Rightarrow> int \<Rightarrow> byte list) \<Rightarrow> TcpConnection \<Rightarrow> fd \<Rightarrow> int \<Rightarrow> size_t \<Rightarrow> TcpConnection" where
  "TcpConnection_sendFileInLoop sendfile file_at t fileDescriptor offset count =
     (if state t = kDisconnecting then emit LogError t
      else (let (t, offset, remaining, faultError) =
              (if \<not> Channel_isWriting (channel t) \<and> Buffer_readableBytes (outputBuffer t) = 0
               then (case sendfile (ch_fd (channel t)) fileDescriptor offset count of
                       Inr n \<Rightarrow>
                         (let t = t\<lparr>wire := wire t @ take n (file_at fileDescriptor offset)\<rparr>;
                              remaining = count - of_nat n in
                          (if remaining = 0 \<and> writeCompleteCallback t then emit (Queue WriteComplete_fn) t else t,
                           offset + int n, remaining, False))
                     | Inl err \<Rightarrow>
                         (if err \<noteq> EWOULDBLOCK then emit LogError t else t, offset, count,
                          err = EPIPE \<or> err = ECONNRESET))
               else (t, offset, count, False)) in
            if \<not> faultError \<and> 0 < remaining
            then emit (Queue (SendFile_fn fileDescriptor offset remaining)) t
            else t))"

definition TcpConnection_sendFile ::
  "sendfile_call \<Rightarrow> (fd \<Rightarrow> int \<Rightarrow> byte list) \<Rightarrow> bool \<Rightarrow> TcpConnection \<Rightarrow> fd \<Rightarrow> int \<Rightarrow> size_t \<Rightarrow> TcpConnection" where
  "TcpConnection_sendFile sendfile file_at isInLoopThread t fileDescriptor offset count =
     (if state t = kConnected then
        if isInLoopThread then TcpConnection_sendFileInLoop sendfile file_at t fileDescriptor offset count
        else emit (Queue (SendFile_fn fileDescriptor offset count)) t
      else emit LogError t)"

section \<open>Life cycle and events\<close>

definition TcpConnection_connectEstablished :: "epoll_ctl_call \<Rightarrow> TcpConnection \<Rightarrow> TcpConnection result" where
  "TcpConnection_connectEstablished ctl t =
     (let t = setState kConnected t;
          t = t\<lparr>poller := set_chan (poller t) (chan t) (Channel_tie (channel t))\<rparr> in
      andthen (on_channel (Channel_enableReading ctl) t) (\<lambda>t. Inr (emit (ConnectionCallback (state t)) t)))"

definition TcpConnection_connectDestroyed :: "epoll_ctl_call \<Rightarrow> TcpConnection \<Rightarrow> TcpConnection result" where
  "TcpConnection_connectDestroyed ctl t =
     andthen (if state t = kConnected then
                andthen (on_channel (Channel_disableAll ctl) (setState kDisconnected t))
                  (\<lambda>t. Inr (emit (ConnectionCallback (state t)) t))
              else Inr t)
       (\<lambda>t. on_channel (Channel_remove ctl) t)"

definition TcpConnection_handleClose :: "epoll_ctl_call \<Rightarrow> TcpConnection \<Rightarrow> TcpConnection result" where
  "TcpConnection_handleClose ctl t =
     andthen (on_channel (Channel_disableAll ctl) (setState kDisconnected t))
       (\<lambda>t. Inr (emit CloseCallback (emit (ConnectionCallback (state t)) t)))"

definition TcpConnection_handleError :: "TcpConnection \<Rightarrow> TcpConnection" where
  "TcpConnection_handleError t = emit LogError t"

definition TcpConnection_handleRead :: "epoll_ctl_call \<Rightarrow> readv_call \<Rightarrow> TcpConnection \<Rightarrow> TcpConnection result" where
  "TcpConnection_handleRead ctl readv t =
     andthen (Buffer_readFd readv (ch_fd (channel t)) (inputBuffer t)) (\<lambda>(n, savedErrno, ib).
       (let t = t\<lparr>inputBuffer := ib\<rparr> in
        if 0 < n then Inr (emit MessageCallback t)
        else if n = 0 then TcpConnection_handleClose ctl t
        else Inr (TcpConnection_handleError (emit LogError t))))"

definition TcpConnection_handleWrite :: "epoll_ctl_call \<Rightarrow> write_call \<Rightarrow> TcpConnection \<Rightarrow> TcpConnection result" where
  "TcpConnection_handleWrite ctl write t =
     (if Channel_isWriting (channel t) then
        (let (n, savedErrno) = Buffer_writeFd write (ch_fd (channel t)) (outputBuffer t) in
         if 0 < n then
           (let t = t\<lparr>wire := wire t @ take (nat n) (Buffer_peek (outputBuffer t)),
                      outputBuffer := Buffer_retrieve (outputBuffer t) (of_int n)\<rparr> in
            if Buffer_readableBytes (outputBuffer t) = 0 then
              andthen (on_channel (Channel_disableWriting ctl) t) (\<lambda>t.
                (let t = (if writeCompleteCallback t then emit (Queue WriteComplete_fn) t else t) in
                 Inr (if state t = kDisconnecting then TcpConnection_shutdownInLoop t else t)))
            else Inr t)
         else Inr (emit LogError t))
      else Inr (emit LogError t))"

section \<open>Facts about the masks\<close>

lemma mask_simps [simp]:
  "(e OR kWriteEvent) AND kWriteEvent \<noteq> 0" "(e OR kReadEvent) AND kReadEvent \<noteq> 0"
  "(e AND NOT kWriteEvent) AND kWriteEvent = 0"
  "(e OR kWriteEvent) AND kReadEvent = e AND kReadEvent"
  "(e AND NOT kWriteEvent) AND kReadEvent = e AND kReadEvent"
  "(e OR kReadEvent) AND kWriteEvent = e AND kWriteEvent"
  "e OR kWriteEvent \<noteq> 0" "e OR kReadEvent \<noteq> 0" "kWriteEvent \<noteq> 0" "kReadEvent \<noteq> 0"
proof -
  have w: "kWriteEvent AND kReadEvent = 0" "kReadEvent AND kWriteEvent = 0"
    "kReadEvent AND kReadEvent \<noteq> 0" "kWriteEvent \<noteq> 0"
    by (simp_all add: kWriteEvent_def kReadEvent_def EPOLLIN_def EPOLLPRI_def EPOLLOUT_def)
  show "(e OR kWriteEvent) AND kWriteEvent \<noteq> 0" "(e OR kReadEvent) AND kReadEvent \<noteq> 0"
    using w by (simp_all add: bit.conj_disj_distrib2 or_eq_0_iff)
  show "e OR kWriteEvent \<noteq> 0" "e OR kReadEvent \<noteq> 0" "kWriteEvent \<noteq> 0" "kReadEvent \<noteq> 0"
    using w by (auto simp: or_eq_0_iff)
  show "(e OR kWriteEvent) AND kReadEvent = e AND kReadEvent"
    "(e OR kReadEvent) AND kWriteEvent = e AND kWriteEvent"
    using w by (simp_all add: bit.conj_disj_distrib2)
  show "(e AND NOT kWriteEvent) AND kWriteEvent = 0"
    by (metis and.assoc and.commute bit.conj_cancel_right bit.conj_zero_right)
  have "NOT kWriteEvent AND kReadEvent = kReadEvent"
    by (simp add: kWriteEvent_def kReadEvent_def EPOLLIN_def EPOLLPRI_def EPOLLOUT_def)
  then show "(e AND NOT kWriteEvent) AND kReadEvent = e AND kReadEvent"
    by (metis and.assoc)
qed

section \<open>The invariant\<close>

abbreviation pending :: "TcpConnection \<Rightarrow> byte list" where
  "pending t \<equiv> Buffer_contents (outputBuffer t)"

definition conn_base :: "TcpConnection \<Rightarrow> bool" where
  "conn_base t \<longleftrightarrow> Buffer_wf (inputBuffer t) \<and> Buffer_wf (outputBuffer t) \<and>
     poller_inv (poller t) \<and> usable (poller t) (chan t)"

definition up :: "TcpConnection \<Rightarrow> bool" where
  "up t \<longleftrightarrow> state t = kConnected \<or> state t = kDisconnecting"

text \<open>
  While the connection is up, its channel is registered and listens for input, and it listens for
  writability exactly while bytes are pending. The write side has been shut down when \<open>shutdown\<close> was
  called and nothing is pending, and only then.
\<close>

definition conn_inv :: "TcpConnection \<Rightarrow> byte list \<Rightarrow> bool" where
  "conn_inv t acc \<longleftrightarrow> conn_base t \<and> wire t @ pending t = acc \<and>
     (up t \<longrightarrow> index (channel t) = kAdded \<and> Channel_isReading (channel t) \<and>
        (Channel_isWriting (channel t) \<longleftrightarrow> pending t \<noteq> [])) \<and>
     (ShutdownWrite \<in> set (effects t) \<longrightarrow> state t \<noteq> kConnected \<and> pending t = []) \<and>
     (state t = kDisconnecting \<and> pending t = [] \<longrightarrow> ShutdownWrite \<in> set (effects t))"

lemma readable_0: "conn_base t \<Longrightarrow> Buffer_readableBytes (outputBuffer t) = 0 \<longleftrightarrow> pending t = []"
  using length_contents [of "outputBuffer t"]
  by (metis conn_base_def length_0_conv unat_0 unat_eq_zero)

text \<open>What every change of the channel's events does to the connection.\<close>

lemma on_channel_set:
  assumes ctl: "epoll_ctl_spec ctl" and base: "conn_base t"
  shows "\<exists>p. on_channel (\<lambda>p c. Channel_set_events ctl p c (g (events (chans p c)))) t = Inr (t\<lparr>poller := p\<rparr>) \<and>
     conn_base (t\<lparr>poller := p\<rparr>) \<and> ch_fd (chans p (chan t)) = ch_fd (channel t) \<and>
     events (chans p (chan t)) = g (events (channel t)) \<and>
     (g (events (channel t)) \<noteq> 0 \<longrightarrow> index (chans p (chan t)) = kAdded) \<and>
     (index (channel t) = kAdded \<and> g (events (channel t)) = 0 \<longrightarrow> index (chans p (chan t)) = kDeleted)"
proof -
  let ?p = "poller t" and ?c = "chan t" and ?ev = "g (events (channel t))"
  define i where "i = (if index (channel t) = kAdded \<and> ?ev = 0 then kDeleted else kAdded)"
  have b: "poller_inv ?p" "usable ?p ?c" using base by (simp_all add: conn_base_def)
  have i: "i = kNew \<or> i = kAdded \<or> i = kDeleted" by (simp add: i_def)
  have "Channel_set_events ctl ?p ?c ?ev = Inr (with_reg ?p ?c ?ev i)"
    unfolding i_def by (rule set_events_eq [OF ctl b])
  moreover have "conn_base (t\<lparr>poller := with_reg ?p ?c ?ev i\<rparr>)"
    using base with_reg_inv [OF b i] with_reg_view(4) [OF b i] by (simp add: conn_base_def)
  ultimately show ?thesis
    by (intro exI [of _ "with_reg ?p ?c ?ev i"]) (simp add: on_channel_def i_def)
qed

lemmas enableWriting_ok = on_channel_set [where g = "\<lambda>e. e OR kWriteEvent", folded Channel_enableWriting_def]
lemmas disableWriting_ok = on_channel_set [where g = "\<lambda>e. e AND NOT kWriteEvent", folded Channel_disableWriting_def]
lemmas enableReading_ok = on_channel_set [where g = "\<lambda>e. e OR kReadEvent", folded Channel_enableReading_def]
lemmas disableAll_ok = on_channel_set [where g = "\<lambda>e. kNoneEvent", folded Channel_disableAll_def]

lemma emit_simps [simp]:
  "state (emit e t) = state t" "poller (emit e t) = poller t" "chan (emit e t) = chan t"
  "inputBuffer (emit e t) = inputBuffer t" "outputBuffer (emit e t) = outputBuffer t"
  "wire (emit e t) = wire t" "effects (emit e t) = effects t @ [e]" "highWaterMark (emit e t) = highWaterMark t"
  "writeCompleteCallback (emit e t) = writeCompleteCallback t"
  "highWaterMarkCallback (emit e t) = highWaterMarkCallback t"
  by (simp_all add: emit_def)

lemma conn_base_cong:
  "inputBuffer t' = inputBuffer t \<Longrightarrow> outputBuffer t' = outputBuffer t \<Longrightarrow> poller t' = poller t \<Longrightarrow>
   chan t' = chan t \<Longrightarrow> conn_base t' = conn_base t"
  by (simp add: conn_base_def)

lemma conn_inv_emit:
  "e \<noteq> ShutdownWrite \<Longrightarrow> conn_inv (emit e t) acc \<longleftrightarrow> conn_inv t acc"
  by (auto simp: conn_inv_def up_def conn_base_def)

lemma reading_nonzero: "Channel_isReading ch \<Longrightarrow> events ch \<noteq> 0"
  by (auto simp: Channel_isReading_def)

section \<open>Sending keeps the invariant\<close>

definition no_reset :: "write_call \<Rightarrow> bool" where
  "no_reset write \<longleftrightarrow> (\<forall>fd bs. write fd bs \<noteq> Inl EPIPE \<and> write fd bs \<noteq> Inl ECONNRESET)"

text \<open>
  The bytes of a \<open>send\<close> are dropped (\<open>faultError\<close>) exactly when the connection is idle and the write it
  then tries at once finds the peer gone.
\<close>

definition send_dropped :: "write_call \<Rightarrow> TcpConnection \<Rightarrow> byte list \<Rightarrow> bool" where
  "send_dropped write t bytes \<longleftrightarrow> \<not> Channel_isWriting (channel t) \<and> Buffer_readableBytes (outputBuffer t) = 0 \<and>
     (write (ch_fd (channel t)) bytes = Inl EPIPE \<or> write (ch_fd (channel t)) bytes = Inl ECONNRESET)"

lemma no_reset_kept: "no_reset write \<Longrightarrow> \<not> send_dropped write t bytes"
  by (simp add: no_reset_def send_dropped_def)

lemma send_rest_ok:
  assumes ctl: "epoll_ctl_spec ctl" and base: "conn_base t" and room: "Buffer_room (outputBuffer t) (length rest)"
  shows "\<exists>t'. send_rest ctl t rest = Inr t' \<and> conn_base t' \<and> inputBuffer t' = inputBuffer t \<and>
     Buffer_append (outputBuffer t) rest = Inr (outputBuffer t') \<and> wire t' = wire t \<and> pending t' = pending t @ rest \<and>
     state t' = state t \<and> chan t' = chan t \<and> Channel_isWriting (channel t') \<and>
     (Channel_isReading (channel t) \<longrightarrow> Channel_isReading (channel t')) \<and>
     (index (channel t) = kAdded \<or> \<not> Channel_isWriting (channel t) \<longrightarrow> index (channel t') = kAdded) \<and>
     effects t' = effects t @
       (let oldLen = Buffer_readableBytes (outputBuffer t); total = oldLen + of_nat (length rest) in
        if highWaterMark t \<le> total \<and> oldLen < highWaterMark t \<and> highWaterMarkCallback t
        then [Queue (HighWaterMark_fn total)] else [])"
proof -
  define t1 where "t1 = (let oldLen = Buffer_readableBytes (outputBuffer t); total = oldLen + of_nat (length rest) in
      if highWaterMark t \<le> total \<and> oldLen < highWaterMark t \<and> highWaterMarkCallback t
      then emit (Queue (HighWaterMark_fn total)) t else t)"
  have t1: "outputBuffer t1 = outputBuffer t" "poller t1 = poller t" "chan t1 = chan t" "wire t1 = wire t"
      "state t1 = state t" "inputBuffer t1 = inputBuffer t"
    by (simp_all add: t1_def Let_def)
  have wf: "Buffer_wf (outputBuffer t)" using base by (simp add: conn_base_def)
  obtain ob where ob: "Buffer_append (outputBuffer t) rest = Inr ob" "Buffer_wf ob"
      "Buffer_contents ob = pending t @ rest"
    by (rule append_ok [OF wf room])
  let ?t2 = "t1\<lparr>outputBuffer := ob\<rparr>"
  have base2: "conn_base ?t2" using base ob(2) t1 by (simp add: conn_base_def)
  have run: "send_rest ctl t rest = (if \<not> Channel_isWriting (channel ?t2)
      then on_channel (Channel_enableWriting ctl) ?t2 else Inr ?t2)"
    using ob(1) t1 by (simp add: send_rest_def Let_def flip: t1_def) (simp add: t1_def Let_def)
  have eff: "effects t1 = effects t @
       (let oldLen = Buffer_readableBytes (outputBuffer t); total = oldLen + of_nat (length rest) in
        if highWaterMark t \<le> total \<and> oldLen < highWaterMark t \<and> highWaterMarkCallback t
        then [Queue (HighWaterMark_fn total)] else [])"
    by (simp add: t1_def Let_def)
  show ?thesis
  proof (cases "Channel_isWriting (channel ?t2)")
    case True
    then show ?thesis using run base2 t1 ob(1,3) eff by (intro exI [of _ ?t2]) simp
  next
    case False
    from enableWriting_ok [OF ctl base2] obtain p where p:
        "on_channel (Channel_enableWriting ctl) ?t2 = Inr (?t2\<lparr>poller := p\<rparr>)" "conn_base (?t2\<lparr>poller := p\<rparr>)"
        "events (chans p (chan t)) = events (channel t) OR kWriteEvent"
        "events (channel t) OR kWriteEvent \<noteq> 0 \<longrightarrow> index (chans p (chan t)) = kAdded"
      using t1 by auto
    from p(4) have "index (chans p (chan t)) = kAdded" by simp
    with run False p(1-3) t1 ob(1,3) eff show ?thesis
      by (intro exI [of _ "?t2\<lparr>poller := p\<rparr>"]) (simp add: Channel_isWriting_def Channel_isReading_def)
  qed
qed

lemma send_direct_ok:
  assumes inv: "conn_inv t acc" and up: "up t" and w: "write_spec write" "\<not> send_dropped write t bytes"
  shows "\<exists>t1 n. send_direct write t bytes = (t1, n, False) \<and> n \<le> length bytes \<and>
     conn_base t1 \<and> wire t1 @ pending t1 @ drop n bytes = acc @ bytes \<and> pending t1 = pending t \<and>
     poller t1 = poller t \<and> chan t1 = chan t \<and> state t1 = state t \<and> outputBuffer t1 = outputBuffer t \<and>
     (0 < n \<longrightarrow> pending t = []) \<and> (ShutdownWrite \<in> set (effects t1) \<longleftrightarrow> ShutdownWrite \<in> set (effects t))"
proof (cases "\<not> Channel_isWriting (channel t) \<and> Buffer_readableBytes (outputBuffer t) = 0")
  case False
  then have "send_direct write t bytes = (t, 0, False)" by (auto simp: send_direct_def)
  then show ?thesis using inv by (simp add: conn_inv_def)
next
  case True
  have base: "conn_base t" "wire t @ pending t = acc" using inv by (simp_all add: conn_inv_def)
  then have none: "pending t = []" using True readable_0 by blast
  show ?thesis
  proof (cases "write (ch_fd (channel t)) bytes")
    case (Inl err)
    then have "err \<noteq> EPIPE" "err \<noteq> ECONNRESET" using w(2) True by (auto simp: send_dropped_def)
    then have "send_direct write t bytes = (if err \<noteq> EWOULDBLOCK then emit LogError t else t, 0, False)"
      using True Inl by (auto simp: send_direct_def)
    then show ?thesis using base none conn_base_cong [of "emit LogError t" t] by auto
  next
    case (Inr n)
    then have n: "n \<le> length bytes" using w(1) by (auto simp: write_spec_def)
    let ?t = "t\<lparr>wire := wire t @ take n bytes\<rparr>"
    have "send_direct write t bytes =
        (if length bytes - n = 0 \<and> writeCompleteCallback t then emit (Queue WriteComplete_fn) ?t else ?t, n, False)"
      using True Inr by (simp add: send_direct_def Let_def)
    then show ?thesis
      using base none n conn_base_cong [of ?t t] conn_base_cong [of "emit (Queue WriteComplete_fn) ?t" t] by auto
  qed
qed

lemma sendInLoop_ok:
  assumes ctl: "epoll_ctl_spec ctl" and inv: "conn_inv t acc" and conn: "state t = kConnected"
    and w: "write_spec write" "\<not> send_dropped write t bytes" and room: "Buffer_room (outputBuffer t) (length bytes)"
  shows "\<exists>t'. TcpConnection_sendInLoop ctl write t bytes = Inr t' \<and> conn_inv t' (acc @ bytes) \<and> state t' = kConnected"
proof -
  have up: "up t" using conn by (simp add: up_def)
  obtain t1 n where t1: "send_direct write t bytes = (t1, n, False)" "n \<le> length bytes" "conn_base t1"
      "wire t1 @ pending t1 @ drop n bytes = acc @ bytes" "pending t1 = pending t" "poller t1 = poller t"
      "chan t1 = chan t" "state t1 = state t" "outputBuffer t1 = outputBuffer t" "0 < n \<longrightarrow> pending t = []"
      "ShutdownWrite \<in> set (effects t1) \<longleftrightarrow> ShutdownWrite \<in> set (effects t)"
    using send_direct_ok [OF inv up w] by blast
  have ch: "index (channel t) = kAdded" "Channel_isReading (channel t)"
      "Channel_isWriting (channel t) \<longleftrightarrow> pending t \<noteq> []" "ShutdownWrite \<notin> set (effects t)"
    using inv up conn by (auto simp: conn_inv_def)
  show ?thesis
  proof (cases "n = length bytes")
    case True
    then have "TcpConnection_sendInLoop ctl write t bytes = Inr t1"
      using t1(1) conn by (simp add: TcpConnection_sendInLoop_def)
    then show ?thesis using t1 ch conn True by (auto simp: conn_inv_def)
  next
    case False
    have "Buffer_room (outputBuffer t1) (length (drop n bytes))"
      using room t1(9) by (simp add: Buffer_room_def)
    from send_rest_ok [OF ctl t1(3) this] obtain t' where t': "send_rest ctl t1 (drop n bytes) = Inr t'" "conn_base t'"
        "wire t' = wire t1" "pending t' = pending t1 @ drop n bytes" "state t' = state t1" "chan t' = chan t1"
        "Channel_isWriting (channel t')" "Channel_isReading (channel t')" "index (channel t') = kAdded"
        "ShutdownWrite \<in> set (effects t') \<longleftrightarrow> ShutdownWrite \<in> set (effects t1)"
      using ch t1(6,7) by (auto simp: Let_def split: if_splits)
    have "TcpConnection_sendInLoop ctl write t bytes = Inr t'"
      using t1(1,2) t'(1) conn False by (simp add: TcpConnection_sendInLoop_def)
    moreover have "pending t' \<noteq> []" using t'(4) False t1(2) by simp
    ultimately show ?thesis using t' t1 ch conn by (auto simp: conn_inv_def)
  qed
qed

lemma sendInLoop_dropped:
  assumes "conn_inv t acc" and "state t = kConnected" and "send_dropped write t bytes"
  shows "TcpConnection_sendInLoop ctl write t bytes = Inr (emit LogError t) \<and> conn_inv (emit LogError t) acc"
  using assms
  by (auto simp: TcpConnection_sendInLoop_def send_direct_def send_dropped_def conn_inv_emit EPIPE_def ECONNRESET_def
      EWOULDBLOCK_def)

section \<open>Events keep the invariant\<close>

lemma shutdownInLoop_ok:
  assumes "conn_base t" and "wire t @ pending t = acc"
    and "state t = kDisconnecting" and "index (channel t) = kAdded" "Channel_isReading (channel t)"
      "Channel_isWriting (channel t) \<longleftrightarrow> pending t \<noteq> []"
    and "ShutdownWrite \<in> set (effects t) \<longrightarrow> pending t = []"
  shows "conn_inv (TcpConnection_shutdownInLoop t) acc"
  using assms conn_base_cong [of "emit ShutdownWrite t" t]
  by (auto simp: TcpConnection_shutdownInLoop_def conn_inv_def)

lemma shutdown_ok:
  assumes inv: "conn_inv t acc"
  shows "conn_inv (TcpConnection_shutdown True t) acc"
proof (cases "state t = kConnected")
  case True
  have "conn_inv (TcpConnection_shutdownInLoop (setState kDisconnecting t)) acc"
    by (rule shutdownInLoop_ok)
      (use inv True in \<open>auto simp: conn_inv_def setState_def up_def conn_base_def\<close>)
  then show ?thesis using True by (simp add: TcpConnection_shutdown_def)
next
  case False
  then show ?thesis using inv by (simp add: TcpConnection_shutdown_def)
qed

lemma handleClose_ok:
  assumes ctl: "epoll_ctl_spec ctl" and inv: "conn_inv t acc"
  shows "\<exists>t'. TcpConnection_handleClose ctl t = Inr t' \<and> conn_inv t' acc \<and> state t' = kDisconnected \<and>
     effects t' = effects t @ [ConnectionCallback kDisconnected, CloseCallback] \<and>
     (up t \<longrightarrow> watched (poller t') (chan t') = None)"
proof -
  let ?t = "setState kDisconnected t"
  have base: "conn_base ?t" using inv by (simp add: conn_inv_def setState_def conn_base_def)
  from disableAll_ok [OF ctl base] obtain p where p:
      "on_channel (Channel_disableAll ctl) ?t = Inr (?t\<lparr>poller := p\<rparr>)" "conn_base (?t\<lparr>poller := p\<rparr>)"
      "index (channel t) = kAdded \<longrightarrow> index (chans p (chan t)) = kDeleted"
    by (auto simp: setState_def kNoneEvent_def)
  let ?t' = "emit CloseCallback (emit (ConnectionCallback kDisconnected) (?t\<lparr>poller := p\<rparr>))"
  have run: "TcpConnection_handleClose ctl t = Inr ?t'"
    using p(1) by (simp add: TcpConnection_handleClose_def setState_def)
  have "conn_base ?t'" using p(2) by (simp add: conn_base_def)
  then have "conn_inv ?t' acc" using inv by (auto simp: conn_inv_def up_def setState_def)
  moreover have "watched p (chan t) = None" if "up t"
  proof -
    have "index (chans p (chan t)) = kDeleted" using p(3) inv that by (auto simp: conn_inv_def)
    then show ?thesis using p(2) by (simp add: conn_base_def watched_iff)
  qed
  ultimately show ?thesis using run by (intro exI [of _ ?t']) (simp add: setState_def)
qed

lemma handleRead_ok:
  assumes ctl: "epoll_ctl_spec ctl" and inv: "conn_inv t acc" and rv: "readv_spec readv"
    and room: "length (buffer (inputBuffer t)) + 65536 \<le> vec_max"
  shows "\<exists>t'. TcpConnection_handleRead ctl readv t = Inr t' \<and> conn_inv t' acc"
proof -
  have wf: "Buffer_wf (inputBuffer t)" using inv by (simp add: conn_inv_def conn_base_def)
  obtain n se ib where r: "Buffer_readFd readv (ch_fd (channel t)) (inputBuffer t) = Inr (n, se, ib)" "Buffer_wf ib"
    using readFd_wf [OF wf rv room] by blast
  have inv': "conn_inv (t\<lparr>inputBuffer := ib\<rparr>) acc"
    using inv r(2) by (auto simp: conn_inv_def conn_base_def up_def)
  consider "0 < n" | "n = 0" | "n < 0" by linarith
  then show ?thesis
  proof cases
    case 1
    then show ?thesis using r(1) inv' by (simp add: TcpConnection_handleRead_def conn_inv_emit)
  next
    case 2
    then show ?thesis using r(1) handleClose_ok [OF ctl inv'] by (auto simp: TcpConnection_handleRead_def)
  next
    case 3
    then show ?thesis
      using r(1) inv' by (simp add: TcpConnection_handleRead_def TcpConnection_handleError_def conn_inv_emit)
  qed
qed

text \<open>The bytes that \<open>handleWrite\<close> hands to the kernel, and the buffer behind it.\<close>

lemma written_prefix:
  assumes wf: "Buffer_wf b" and n: "0 < n" "n \<le> int (length (Buffer_contents b))"
  shows "take (nat n) (Buffer_peek b) @ Buffer_contents (Buffer_retrieve b (of_int n)) = Buffer_contents b"
proof -
  have "unat (of_int n :: size_t) = nat n"
  proof -
    have "unat (Buffer_readableBytes b) < 2 ^ LENGTH(64)" by (rule unsigned_less)
    then have "unat (Buffer_readableBytes b) < 2 ^ 64" by simp
    moreover have "nat n \<le> unat (Buffer_readableBytes b)" using n(2) length_contents [OF wf] by linarith
    ultimately have "nat n < 2 ^ 64" by linarith
    moreover have "of_int n = (of_nat (nat n) :: size_t)" using n(1) by simp
    ultimately show ?thesis by (simp add: unat_of_nat_size)
  qed
  moreover have "take (nat n) (Buffer_peek b) = take (nat n) (Buffer_contents b)"
    using peek_contents [OF wf] n length_contents [OF wf] by (metis min.absorb1 nat_le_iff take_take)
  ultimately show ?thesis using retrieve_wf_contents(2) [OF wf] by simp
qed

text \<open>The end of \<open>handleWrite\<close>, once the buffer has become empty.\<close>

lemma drained_ok:
  assumes ctl: "epoll_ctl_spec ctl" and base: "conn_base t" and bytes: "wire t = acc" "pending t = []"
    and up: "up t \<longrightarrow> index (channel t) = kAdded \<and> Channel_isReading (channel t)"
    and shut: "ShutdownWrite \<in> set (effects t) \<longrightarrow> state t \<noteq> kConnected"
  shows "\<exists>t'. andthen (on_channel (Channel_disableWriting ctl) t) (\<lambda>t.
       (let t = (if writeCompleteCallback t then emit (Queue WriteComplete_fn) t else t) in
        Inr (if state t = kDisconnecting then TcpConnection_shutdownInLoop t else t))) = Inr t' \<and> conn_inv t' acc"
proof -
  from disableWriting_ok [OF ctl base] obtain p where p:
      "on_channel (Channel_disableWriting ctl) t = Inr (t\<lparr>poller := p\<rparr>)" "conn_base (t\<lparr>poller := p\<rparr>)"
      "events (chans p (chan t)) = events (channel t) AND NOT kWriteEvent"
      "events (channel t) AND NOT kWriteEvent \<noteq> 0 \<longrightarrow> index (chans p (chan t)) = kAdded"
    by auto
  define t1 where "t1 = (if writeCompleteCallback t then emit (Queue WriteComplete_fn) (t\<lparr>poller := p\<rparr>) else t\<lparr>poller := p\<rparr>)"
  have t1: "conn_base t1" "wire t1 = acc" "pending t1 = []" "state t1 = state t" "poller t1 = p" "chan t1 = chan t"
      "ShutdownWrite \<in> set (effects t1) \<longleftrightarrow> ShutdownWrite \<in> set (effects t)"
    using p(2) bytes conn_base_cong [of "emit (Queue WriteComplete_fn) (t\<lparr>poller := p\<rparr>)" "t\<lparr>poller := p\<rparr>"]
    by (auto simp: t1_def)
  have notw: "\<not> Channel_isWriting (channel t1)" by (simp add: t1 Channel_isWriting_def p(3))
  have ch: "index (channel t1) = kAdded \<and> Channel_isReading (channel t1)" if "up t"
  proof -
    have "Channel_isReading (channel t1)" using up that by (simp add: t1 Channel_isReading_def p(3))
    moreover from this have "events (channel t) AND NOT kWriteEvent \<noteq> 0"
      using reading_nonzero t1(5,6) p(3) by metis
    ultimately show ?thesis using p(4) t1 by simp
  qed
  have "conn_inv (if state t1 = kDisconnecting then TcpConnection_shutdownInLoop t1 else t1) acc"
  proof (cases "state t = kDisconnecting")
    case True
    then show ?thesis
      using t1 notw ch by (simp add: up_def) (rule shutdownInLoop_ok; simp)
  next
    case False
    then show ?thesis using t1 notw ch shut by (auto simp: conn_inv_def up_def)
  qed
  moreover have "andthen (on_channel (Channel_disableWriting ctl) t) (\<lambda>t.
       (let t = (if writeCompleteCallback t then emit (Queue WriteComplete_fn) t else t) in
        Inr (if state t = kDisconnecting then TcpConnection_shutdownInLoop t else t))) =
      Inr (if state t1 = kDisconnecting then TcpConnection_shutdownInLoop t1 else t1)"
    using p(1) by (simp add: Let_def t1_def)
  ultimately show ?thesis by blast
qed

lemma handleWrite_ok:
  assumes ctl: "epoll_ctl_spec ctl" and inv: "conn_inv t acc" and w: "write_spec write"
  shows "\<exists>t'. TcpConnection_handleWrite ctl write t = Inr t' \<and> conn_inv t' acc"
proof -
  let ?b = "outputBuffer t"
  obtain n se where n: "Buffer_writeFd write (ch_fd (channel t)) ?b = (n, se)" by fastforce
  have base: "conn_base t" and wf: "Buffer_wf ?b" using inv by (simp_all add: conn_inv_def conn_base_def)
  have le: "n \<le> int (length (pending t))"
    using n w peek_contents [OF wf] by (auto simp: Buffer_writeFd_def write_spec_def split: sum.splits)
  consider (idle) "\<not> Channel_isWriting (channel t) \<or> n \<le> 0" | (wrote) "Channel_isWriting (channel t)" "0 < n"
    by linarith
  then show ?thesis
  proof cases
    case idle
    then have "TcpConnection_handleWrite ctl write t = Inr (emit LogError t)"
      using n by (auto simp: TcpConnection_handleWrite_def)
    then show ?thesis using inv by (simp add: conn_inv_emit)
  next
    case wrote
    define t1 where "t1 = t\<lparr>wire := wire t @ take (nat n) (Buffer_peek ?b), outputBuffer := Buffer_retrieve ?b (of_int n)\<rparr>"
    have t1: "conn_base t1" "wire t1 @ pending t1 = acc" "poller t1 = poller t" "chan t1 = chan t" "state t1 = state t"
        "effects t1 = effects t"
      using base written_prefix [OF wf wrote(2) le] retrieve_wf_contents(1) [OF wf] inv
      by (simp_all add: t1_def conn_base_def conn_inv_def)
    have pend: "pending t \<noteq> []" using wrote(2) le by auto
    then have shut: "ShutdownWrite \<notin> set (effects t)" using inv by (auto simp: conn_inv_def)
    show ?thesis
    proof (cases "pending t1 = []")
      case True
      then have "Buffer_readableBytes (outputBuffer t1) = 0" using readable_0 [OF t1(1)] by simp
      then have "TcpConnection_handleWrite ctl write t =
          andthen (on_channel (Channel_disableWriting ctl) t1) (\<lambda>t.
            (let t = (if writeCompleteCallback t then emit (Queue WriteComplete_fn) t else t) in
             Inr (if state t = kDisconnecting then TcpConnection_shutdownInLoop t else t)))"
        using wrote n by (simp add: TcpConnection_handleWrite_def Let_def t1_def)
      then show ?thesis
        using drained_ok [OF ctl t1(1) _ True, of acc] t1(2-6) True shut inv
        by (simp add: conn_inv_def up_def)
    next
      case False
      then have "Buffer_readableBytes (outputBuffer t1) \<noteq> 0" using readable_0 [OF t1(1)] by simp
      then have "TcpConnection_handleWrite ctl write t = Inr t1"
        using wrote n by (simp add: TcpConnection_handleWrite_def Let_def t1_def)
      then show ?thesis using t1 False pend shut inv by (auto simp: conn_inv_def up_def)
    qed
  qed
qed

section \<open>Histories of a connection\<close>

lemma kInitialSize_room: "unat kInitialSize + 8 \<le> vec_max"
  by (simp add: kInitialSize_def vec_max_def)

lemma new_conn:
  fixes p c sockfd t wcb
  assumes p: "poller_inv p" "index (chans p c) = kNew" "channels p sockfd = None"
    and t: "TcpConnection_new p c sockfd = Inr t"
  defines "t' \<equiv> TcpConnection_setWriteCompleteCallback wcb t"
  shows "conn_base t'" "wire t' = []" "pending t' = []" "effects t' = []" "\<not> Channel_isWriting (channel t')"
    "chan t' = c" "state t' = kConnecting" "ch_fd (channel t') = sockfd" "writeCompleteCallback t' = wcb"
proof -
  obtain b where b: "Buffer_new kInitialSize = Inr b" "Buffer_wf b" "Buffer_contents b = []"
    by (rule Buffer_new_wf [OF kInitialSize_room])
  let ?ch = "(Channel_new sockfd)\<lparr>readCallback := True, writeCallback := True, closeCallback := True, errorCallback := True\<rparr>"
  have fd: "ch_fd ?ch = sockfd" "index ?ch = kNew" "events ?ch = 0" by (simp_all add: Channel_new_def kNew_def)
  have "poller_inv (set_chan p c ?ch)" "usable (set_chan p c ?ch) c"
    using p fd by (auto simp: poller_inv_def usable_def set_chan_def)
  with t b fd show "conn_base t'" "wire t' = []" "pending t' = []" "effects t' = []" "\<not> Channel_isWriting (channel t')"
    "chan t' = c" "state t' = kConnecting" "ch_fd (channel t') = sockfd" "writeCompleteCallback t' = wcb"
    by (auto simp: t'_def TcpConnection_new_def TcpConnection_setWriteCompleteCallback_def conn_base_def
        Channel_isWriting_def set_chan_def)
qed

lemma established_ok:
  assumes ctl: "epoll_ctl_spec ctl" and base: "conn_base t" and new: "wire t = []" "pending t = []"
    "effects t = []" "\<not> Channel_isWriting (channel t)"
  shows "\<exists>t'. TcpConnection_connectEstablished ctl t = Inr t' \<and> conn_inv t' [] \<and> state t' = kConnected"
proof -
  let ?t = "(setState kConnected t)\<lparr>poller := set_chan (poller t) (chan t) (Channel_tie (channel t))\<rparr>"
  have tie: "ch_fd (Channel_tie c) = ch_fd c" "index (Channel_tie c) = index c" "events (Channel_tie c) = events c" for c
    by (simp_all add: Channel_tie_def)
  then have "poller_inv (poller ?t)" "usable (poller ?t) (chan ?t)"
    using base by (auto simp: conn_base_def poller_inv_def usable_def set_chan_def setState_def)
  then have base': "conn_base ?t" using base by (simp add: conn_base_def setState_def)
  from enableReading_ok [OF ctl base'] obtain p where p:
      "on_channel (Channel_enableReading ctl) ?t = Inr (?t\<lparr>poller := p\<rparr>)" "conn_base (?t\<lparr>poller := p\<rparr>)"
      "events (chans p (chan t)) = events (channel t) OR kReadEvent" "index (chans p (chan t)) = kAdded"
    by (auto simp: setState_def set_chan_def tie)
  let ?t' = "emit (ConnectionCallback kConnected) (?t\<lparr>poller := p\<rparr>)"
  have "TcpConnection_connectEstablished ctl t = Inr ?t'"
    using p(1) by (simp add: TcpConnection_connectEstablished_def Let_def setState_def)
  moreover have "conn_base ?t'" using p(2) by (simp add: conn_base_def)
  then have "conn_inv ?t' []"
    using new p(3,4) by (auto simp: conn_inv_def setState_def Channel_isReading_def Channel_isWriting_def)
  ultimately show ?thesis by (auto simp: setState_def)
qed

lemma destroyed_ok:
  assumes ctl: "epoll_ctl_spec ctl" and base: "conn_base t"
  shows "\<exists>t'. TcpConnection_connectDestroyed ctl t = Inr t' \<and> watched (poller t') (chan t') = None \<and>
     \<not> Poller_hasChannel (poller t') (chan t') \<and> state t' \<noteq> kConnected \<and>
     effects t' = effects t @ (if state t = kConnected then [ConnectionCallback kDisconnected] else [])"
proof -
  have rem: "\<exists>p. on_channel (Channel_remove ctl) u = Inr (u\<lparr>poller := p\<rparr>) \<and> watched p (chan u) = None \<and>
      \<not> Poller_hasChannel p (chan u)" if "conn_base u" for u
    using ep.rem_ok [of ctl "poller u" "chan u"] ctl that by (auto simp: conn_base_def on_channel_def)
  show ?thesis
  proof (cases "state t = kConnected")
    case False
    then show ?thesis using rem [OF base] by (auto simp: TcpConnection_connectDestroyed_def)
  next
    case True
    let ?t = "setState kDisconnected t"
    have "conn_base ?t" using base by (simp add: conn_base_def setState_def)
    from disableAll_ok [OF ctl this] obtain p where p:
        "on_channel (Channel_disableAll ctl) ?t = Inr (?t\<lparr>poller := p\<rparr>)" "conn_base (?t\<lparr>poller := p\<rparr>)"
      by auto
    let ?u = "emit (ConnectionCallback kDisconnected) (?t\<lparr>poller := p\<rparr>)"
    have "conn_base ?u" using p(2) by (simp add: conn_base_def)
    from rem [OF this] obtain q where "on_channel (Channel_remove ctl) ?u = Inr (?u\<lparr>poller := q\<rparr>)"
        "watched q (chan t) = None" "\<not> Poller_hasChannel q (chan t)" by (auto simp: setState_def)
    then show ?thesis using True p(1) by (simp add: TcpConnection_connectDestroyed_def setState_def)
  qed
qed

text \<open>
  All histories of a connection in its loop's thread: it is established, then the user sends and
  shuts down and the poller reports events, in any order and with any behaviour of the system calls,
  errors and resets by the peer included. Calls of \<open>send\<close> and \<open>shutdown\<close> are those made in the loop's own thread;
  \<open>sendFile\<close> is not among them. \<open>acc\<close> is what the user has sent while connected, less the bytes of a \<open>send\<close>
  that found the peer gone: the code drops these.
\<close>

inductive conn_reach :: "epoll_ctl_call \<Rightarrow> TcpConnection \<Rightarrow> byte list \<Rightarrow> bool" for ctl where
  established: "poller_inv p \<Longrightarrow> index (chans p c) = kNew \<Longrightarrow> channels p sockfd = None \<Longrightarrow>
    TcpConnection_new p c sockfd = Inr t \<Longrightarrow> TcpConnection_connectEstablished ctl (TcpConnection_setWriteCompleteCallback wcb t) = Inr t' \<Longrightarrow>
    conn_reach ctl t' []"
| send: "conn_reach ctl t acc \<Longrightarrow> write_spec write \<Longrightarrow>
    Buffer_room (outputBuffer t) (length bytes) \<Longrightarrow> TcpConnection_send ctl write True t bytes = Inr t' \<Longrightarrow>
    conn_reach ctl t' (if state t = kConnected \<and> \<not> send_dropped write t bytes then acc @ bytes else acc)"
| writable: "conn_reach ctl t acc \<Longrightarrow> write_spec write \<Longrightarrow>
    TcpConnection_handleWrite ctl write t = Inr t' \<Longrightarrow> conn_reach ctl t' acc"
| readable: "conn_reach ctl t acc \<Longrightarrow> readv_spec readv \<Longrightarrow>
    length (buffer (inputBuffer t)) + 65536 \<le> vec_max \<Longrightarrow>
    TcpConnection_handleRead ctl readv t = Inr t' \<Longrightarrow> conn_reach ctl t' acc"
| consume: "conn_reach ctl t acc \<Longrightarrow>
    conn_reach ctl (t\<lparr>inputBuffer := Buffer_retrieve (inputBuffer t) n\<rparr>) acc"
| mark: "conn_reach ctl t acc \<Longrightarrow> conn_reach ctl (TcpConnection_setHighWaterMarkCallback hcb n t) acc"
| hangup: "conn_reach ctl t acc \<Longrightarrow> TcpConnection_handleClose ctl t = Inr t' \<Longrightarrow> conn_reach ctl t' acc"
| failed: "conn_reach ctl t acc \<Longrightarrow> conn_reach ctl (TcpConnection_handleError t) acc"
| shutdown: "conn_reach ctl t acc \<Longrightarrow> conn_reach ctl (TcpConnection_shutdown True t) acc"

lemma send_ok:
  assumes "epoll_ctl_spec ctl" and "conn_inv t acc" and "write_spec write"
    and "Buffer_room (outputBuffer t) (length bytes)"
  shows "\<exists>t'. TcpConnection_send ctl write True t bytes = Inr t' \<and>
     conn_inv t' (if state t = kConnected \<and> \<not> send_dropped write t bytes then acc @ bytes else acc)"
  using sendInLoop_ok [OF assms(1,2) _ assms(3) _ assms(4)] sendInLoop_dropped [OF assms(2)] assms(2)
  by (cases "send_dropped write t bytes") (auto simp: TcpConnection_send_def)

lemma conn_reach_inv:
  assumes "conn_reach ctl t acc" and ctl: "epoll_ctl_spec ctl"
  shows "conn_inv t acc"
  using assms(1)
proof induction
  case (established p c sockfd t wcb t')
  show ?case
    using established.hyps established_ok [OF ctl, of "TcpConnection_setWriteCompleteCallback wcb t"]
      new_conn [of p c sockfd t wcb] by auto
next
  case (send t acc wr bytes t')
  then show ?case using send_ok [OF ctl send.IH send.hyps(2,3)] by auto
next
  case (writable t acc wr t')
  then show ?case using handleWrite_ok [OF ctl writable.IH writable.hyps(2)] by auto
next
  case (readable t acc rv t')
  then show ?case using handleRead_ok [OF ctl readable.IH readable.hyps(2,3)] by auto
next
  case (consume t acc n)
  then show ?case
    using retrieve_wf_contents(1) by (auto simp: conn_inv_def conn_base_def up_def)
next
  case (mark t acc hcb n)
  then show ?case by (auto simp: conn_inv_def conn_base_def up_def TcpConnection_setHighWaterMarkCallback_def)
next
  case (hangup t acc t')
  then show ?case using handleClose_ok [OF ctl hangup.IH] by auto
next
  case (failed t acc)
  then show ?case by (simp add: TcpConnection_handleError_def conn_inv_emit)
next
  case (shutdown t acc)
  then show ?case by (simp add: shutdown_ok)
qed

section \<open>Properties\<close>

text \<open>
  C4. No byte of the stream is lost, repeated or reordered: in every history of calls made in the loop's own
  thread, whatever the system calls answer, what the kernel has accepted followed by what is pending in the
  output buffer is exactly what was sent while connected, except for the \<open>send\<close>s that found the peer gone: those
  are dropped whole (\<open>faultError\<close>), and the stream goes on without them. While the
  connection is up, the kernel watches it for input always, and for writability exactly while bytes
  are pending, so that pending bytes are never forgotten and an idle connection never spins.
\<close>

theorem TcpConnection_stream_integrity:
  assumes "epoll_ctl_spec ctl" and "conn_reach ctl t acc"
  shows "wire t @ pending t = acc \<and>
     (state t = kConnected \<or> state t = kDisconnecting \<longrightarrow>
       (\<exists>ev. watched (poller t) (chan t) = Some ev \<and> ev AND kReadEvent \<noteq> 0 \<and>
          (ev AND kWriteEvent \<noteq> 0 \<longleftrightarrow> pending t \<noteq> [])))"
proof -
  have inv: "conn_inv t acc" by (rule conn_reach_inv [OF assms(2,1)])
  then have "poller_inv (poller t)" by (simp add: conn_inv_def conn_base_def)
  from watched_iff [OF this, of "chan t"] inv show ?thesis
    by (auto simp: conn_inv_def up_def Channel_isReading_def Channel_isWriting_def)
qed

text \<open>
  C36. Graceful shutdown, for calls made in the loop's own thread: the write side of the socket is shut down only
  when the connection no longer accepts data and every byte sent before, except those of \<open>send\<close>s dropped because
  the peer was gone, has been accepted by the kernel; and once \<open>shutdown\<close> has been called, no close has come and
  nothing is pending, it has been shut down. (Called from another thread, \<open>shutdown\<close> changes the state at once and
  its functor shuts the write side down later.)
\<close>

theorem TcpConnection_graceful_shutdown:
  assumes "epoll_ctl_spec ctl" and "conn_reach ctl t acc"
  shows "(ShutdownWrite \<in> set (effects t) \<longrightarrow> state t \<noteq> kConnected \<and> wire t = acc) \<and>
     (state t = kDisconnecting \<and> wire t = acc \<longrightarrow> ShutdownWrite \<in> set (effects t))"
  using conn_reach_inv [OF assms(2,1)] by (auto simp: conn_inv_def)

text \<open>
  Every operation that can happen next in a history returns: no exception, no fatal \<open>epoll_ctl\<close> error.
  Closing turns the connection to disconnected, makes the kernel stop watching it and calls the connection
  callback before the close callback; destroying it removes its channel for good.
\<close>

theorem TcpConnection_operations_return:
  assumes ctl: "epoll_ctl_spec ctl" and r: "conn_reach ctl t acc" and w: "write_spec write"
    and rv: "readv_spec readv" and out: "Buffer_room (outputBuffer t) (length bytes)"
    and inp: "length (buffer (inputBuffer t)) + 65536 \<le> vec_max"
  shows "(\<exists>t'. TcpConnection_send ctl write True t bytes = Inr t') \<and>
     (\<exists>t'. TcpConnection_handleWrite ctl write t = Inr t') \<and>
     (\<exists>t'. TcpConnection_handleRead ctl readv t = Inr t') \<and>
     (\<exists>t'. TcpConnection_handleClose ctl t = Inr t' \<and> state t' = kDisconnected \<and>
        effects t' = effects t @ [ConnectionCallback kDisconnected, CloseCallback] \<and>
        (state t \<noteq> kDisconnected \<and> state t \<noteq> kConnecting \<longrightarrow> watched (poller t') (chan t') = None)) \<and>
     (\<exists>t'. TcpConnection_connectDestroyed ctl t = Inr t' \<and> watched (poller t') (chan t') = None \<and>
        \<not> Poller_hasChannel (poller t') (chan t'))"
proof -
  have inv: "conn_inv t acc" by (rule conn_reach_inv [OF r ctl])
  have base: "conn_base t" using inv by (simp add: conn_inv_def)
  have up: "state t \<noteq> kDisconnected \<and> state t \<noteq> kConnecting \<longleftrightarrow> up t" by (cases "state t") (simp_all add: up_def)
  show ?thesis
    unfolding up
    using send_ok [OF ctl inv w out] handleWrite_ok [OF ctl inv w] handleRead_ok [OF ctl inv rv inp]
      handleClose_ok [OF ctl inv] destroyed_ok [OF ctl base] by blast
qed

text \<open>
  \<open>sendInLoop\<close> logs that a disconnected connection gives up writing, but goes on: run after the
  connection was closed with bytes still pending (a functor that another thread had queued), it appends
  to the output buffer and registers the closed connection with the poller again, for writing.
\<close>

theorem TcpConnection_sendInLoop_after_close:
  assumes ctl: "epoll_ctl_spec ctl" and r: "conn_reach ctl t acc" and up: "state t = kConnected"
    and pend: "pending t \<noteq> []" and bytes: "bytes \<noteq> []" and room: "Buffer_room (outputBuffer t) (length bytes)"
  shows "\<exists>t1 t2 ev. TcpConnection_handleClose ctl t = Inr t1 \<and> watched (poller t1) (chan t1) = None \<and>
     TcpConnection_sendInLoop ctl write t1 bytes = Inr t2 \<and> state t2 = kDisconnected \<and>
     pending t2 = pending t @ bytes \<and> watched (poller t2) (chan t2) = Some ev \<and> ev AND kWriteEvent \<noteq> 0"
proof -
  have inv: "conn_inv t acc" by (rule conn_reach_inv [OF r ctl])
  let ?t = "setState kDisconnected t"
  have base: "conn_base ?t" using inv by (simp add: conn_inv_def setState_def conn_base_def)
  from disableAll_ok [OF ctl base] obtain p where p:
      "on_channel (Channel_disableAll ctl) ?t = Inr (?t\<lparr>poller := p\<rparr>)" "conn_base (?t\<lparr>poller := p\<rparr>)"
      "events (chans p (chan t)) = kNoneEvent"
    by (auto simp: setState_def)
  let ?t1 = "emit CloseCallback (emit (ConnectionCallback kDisconnected) (?t\<lparr>poller := p\<rparr>))"
  have close: "TcpConnection_handleClose ctl t = Inr ?t1"
    using p(1) by (simp add: TcpConnection_handleClose_def setState_def)
  have w1: "watched (poller ?t1) (chan ?t1) = None"
    using handleClose_ok [OF ctl inv] close up by (auto simp: up_def)
  let ?l = "emit LogError ?t1"
  have base': "conn_base ?l" using p(2) by (simp add: conn_base_def)
  have out: "outputBuffer ?l = outputBuffer t" by (simp add: setState_def)
  have st: "state ?t1 = kDisconnected" "chan ?l = chan t" "poller ?l = p" by (simp_all add: setState_def)
  have "Buffer_readableBytes (outputBuffer ?l) \<noteq> 0" using readable_0 [OF base'] pend out by simp
  then have "send_direct write ?l bytes = (?l, 0, False)" by (simp add: send_direct_def)
  then have run: "TcpConnection_sendInLoop ctl write ?t1 bytes = send_rest ctl ?l bytes"
    using bytes st(1) by (simp add: TcpConnection_sendInLoop_def)
  have notw: "\<not> Channel_isWriting (channel ?l)" using p(3) st by (simp add: Channel_isWriting_def kNoneEvent_def)
  from send_rest_ok [OF ctl base', of bytes] room out notw obtain t2 where t2: "send_rest ctl ?l bytes = Inr t2"
      "conn_base t2" "pending t2 = pending ?l @ bytes" "state t2 = state ?l" "Channel_isWriting (channel t2)"
      "index (channel t2) = kAdded"
    by auto
  have "watched (poller t2) (chan t2) = Some (events (channel t2))"
    using t2(2,6) by (simp add: conn_base_def watched_iff)
  with close w1 run t2 out st(1) show ?thesis
    by (intro exI [of _ ?t1] exI [of _ t2]) (auto simp: Channel_isWriting_def)
qed

lemma sendFile_at_end:
  assumes "state t = kConnected" and "\<not> Channel_isWriting (channel t)"
    and "Buffer_readableBytes (outputBuffer t) = 0" and "0 < count"
    and "sendfile (ch_fd (channel t)) f offset count = Inr 0"
  shows "TcpConnection_sendFileInLoop sendfile file_at t f offset count = emit (Queue (SendFile_fn f offset count)) t"
  using assms by (auto simp: TcpConnection_sendFileInLoop_def Let_def word_gt_0)

text \<open>
  When the file ends before \<open>count\<close> bytes were sent, \<open>sendfile\<close> returns 0 and \<open>sendFileInLoop\<close> queues
  itself again with the same arguments, however often it runs: it sends nothing and never finishes.
\<close>

theorem TcpConnection_sendFile_spins_at_end_of_file:
  fixes t count sendfile f offset file_at n
  assumes "state t = kConnected" and "\<not> Channel_isWriting (channel t)"
    and "Buffer_readableBytes (outputBuffer t) = 0" and "0 < count"
    and "sendfile (ch_fd (channel t)) f offset count = Inr 0"
  defines "t' \<equiv> ((\<lambda>t. TcpConnection_sendFileInLoop sendfile file_at t f offset count) ^^ n) t"
  shows "effects t' = effects t @ replicate n (Queue (SendFile_fn f offset count)) \<and> wire t' = wire t"
proof -
  have "t' = t\<lparr>effects := effects t @ replicate n (Queue (SendFile_fn f offset count))\<rparr>"
    unfolding t'_def
  proof (induction n)
    case (Suc n)
    let ?u = "t\<lparr>effects := effects t @ replicate n (Queue (SendFile_fn f offset count))\<rparr>"
    have "TcpConnection_sendFileInLoop sendfile file_at ?u f offset count = emit (Queue (SendFile_fn f offset count)) ?u"
      using assms(1-5) by (intro sendFile_at_end) simp_all
    then show ?case using Suc by (simp add: emit_def flip: replicate_append_same)
  qed simp
  then show ?thesis by simp
qed

section \<open>Witnesses\<close>

text \<open>A connection on descriptor 5 that sends three bytes while the socket's buffer is full.\<close>

definition full_socket :: write_call where
  "full_socket f bs = Inl EWOULDBLOCK"

definition free_socket :: write_call where
  "free_socket f bs = Inr (length bs)"

lemma socket_specs: "write_spec full_socket" "no_reset full_socket" "write_spec free_socket" "no_reset free_socket"
  by (simp_all add: write_spec_def no_reset_def full_socket_def free_socket_def EWOULDBLOCK_def EPIPE_def ECONNRESET_def)

lemma new_channels: "index (chans (EPollPoller_new (\<lambda>c. Channel_new (int c))) 5) = kNew"
    "channels (EPollPoller_new (\<lambda>c. Channel_new (int c))) 5 = None"
  by (simp_all add: EPollPoller_new_def Channel_new_def kNew_def)

lemma example_history:
  "\<exists>t. conn_reach kernel_ctl t ''abc'' \<and> state t = kConnected \<and> pending t = ''abc'' \<and>
     Buffer_room (outputBuffer t) 100 \<and> length (buffer (inputBuffer t)) = 1032"
proof -
  let ?p = "EPollPoller_new (\<lambda>c. Channel_new (int c))"
  obtain b where b: "Buffer_new kInitialSize = Inr b" by (rule Buffer_new_wf [OF kInitialSize_room])
  then have size: "unat (writerIndex b) = 8" "length (buffer b) = 1032"
    by (auto simp: Buffer_new_def vec_resize_def kInitialSize_def kCheapPrepend_def vec_max_def)
  obtain t0 where t0: "TcpConnection_new ?p 5 5 = Inr t0" "inputBuffer t0 = b" "outputBuffer t0 = b"
    using b by (simp add: TcpConnection_new_def)
  let ?t0 = "TcpConnection_setWriteCompleteCallback True t0"
  note new = new_conn [OF new_poller(1) new_channels t0(1), of True]
  obtain t1 where t1: "TcpConnection_connectEstablished kernel_ctl ?t0 = Inr t1" "conn_inv t1 []" "state t1 = kConnected"
    using established_ok [OF kernel_ctl_spec new(1-5)] by blast
  have reach1: "conn_reach kernel_ctl t1 []"
    by (rule conn_reach.established [OF new_poller(1) new_channels t0(1) t1(1)])
  have bufs: "inputBuffer t1 = b" "outputBuffer t1 = b"
    using t1(1) t0(2,3) by (auto simp: TcpConnection_connectEstablished_def Let_def andthen_Inr_iff on_channel_def setState_def
        TcpConnection_setWriteCompleteCallback_def)
  have room: "Buffer_room (outputBuffer t1) (length ''abc'')" using size bufs by (simp add: Buffer_room_def vec_max_def)
  have base: "conn_base t1" and none: "pending t1 = []" using t1(2) by (simp_all add: conn_inv_def)
  from send_rest_ok [OF kernel_ctl_spec base room] none obtain t2 where t2: "send_rest kernel_ctl t1 ''abc'' = Inr t2"
      "inputBuffer t2 = b" "Buffer_append b ''abc'' = Inr (outputBuffer t2)" "pending t2 = ''abc''" "state t2 = kConnected"
    using bufs t1(3) by auto
  have "send_direct full_socket t1 ''abc'' = (t1, 0, False)" by (simp add: send_direct_def full_socket_def)
  then have "TcpConnection_send kernel_ctl full_socket True t1 ''abc'' = Inr t2"
    using t1(3) t2(1) by (simp add: TcpConnection_send_def TcpConnection_sendInLoop_def)
  from conn_reach.send [OF reach1 socket_specs(1) room this] have reach2: "conn_reach kernel_ctl t2 ''abc''"
    using t1(3) no_reset_kept [OF socket_specs(2)] by simp
  have "Buffer_wf b" using base bufs by (simp add: conn_base_def)
  from append_ok [OF this, of "''abc''"] room bufs t2(3) have "unat (writerIndex (outputBuffer t2)) \<le> 11"
    using size(1) by auto
  then have "Buffer_room (outputBuffer t2) 100" by (simp add: Buffer_room_def vec_max_def)
  with reach2 t2 size(2) show ?thesis by blast
qed

theorem TcpConnection_stream_integrity_witness:
  "\<exists>t ev. conn_reach kernel_ctl t ''abc'' \<and> wire t @ pending t = ''abc'' \<and>
     watched (poller t) (chan t) = Some ev \<and> ev AND kWriteEvent \<noteq> 0"
proof -
  obtain t where "conn_reach kernel_ctl t ''abc''" "state t = kConnected" "pending t = ''abc''"
    using example_history by blast
  then show ?thesis using TcpConnection_stream_integrity [OF kernel_ctl_spec, of t "''abc''"] by fastforce
qed

theorem TcpConnection_graceful_shutdown_witness:
  "\<exists>t. conn_reach kernel_ctl t ''abc'' \<and> state t = kDisconnecting \<and> pending t = ''abc'' \<and>
     ShutdownWrite \<notin> set (effects t)"
proof -
  obtain t where t: "conn_reach kernel_ctl t ''abc''" "state t = kConnected" "pending t = ''abc''"
    using example_history by blast
  let ?t = "TcpConnection_shutdown True t"
  have r: "conn_reach kernel_ctl ?t ''abc''" using t(1) by (rule conn_reach.shutdown)
  have st: "state ?t = kDisconnecting" "pending ?t = ''abc''"
    using t by (simp_all add: TcpConnection_shutdown_def TcpConnection_shutdownInLoop_def setState_def Let_def)
  then have "wire ?t \<noteq> ''abc''" using conn_reach_inv [OF r kernel_ctl_spec] by (auto simp: conn_inv_def)
  with r st TcpConnection_graceful_shutdown [OF kernel_ctl_spec r] show ?thesis by blast
qed

theorem TcpConnection_operations_return_witness:
  "\<exists>t t'. conn_reach kernel_ctl t ''abc'' \<and> TcpConnection_handleClose kernel_ctl t = Inr t' \<and>
     watched (poller t') (chan t') = None"
proof -
  obtain t where t: "conn_reach kernel_ctl t ''abc''" "state t = kConnected" "Buffer_room (outputBuffer t) 100"
      "length (buffer (inputBuffer t)) = 1032"
    using example_history by blast
  have rv: "readv_spec (\<lambda>f vs. Inl 11)" by (simp add: readv_spec_def)
  have "Buffer_room (outputBuffer t) (length ''x'')" using t(3) by (simp add: Buffer_room_def)
  from TcpConnection_operations_return [OF kernel_ctl_spec t(1) socket_specs(3) rv this] t
  show ?thesis by (auto simp: vec_max_def)
qed

theorem TcpConnection_sendInLoop_after_close_witness:
  "\<exists>t t1 t2. conn_reach kernel_ctl t ''abc'' \<and> TcpConnection_handleClose kernel_ctl t = Inr t1 \<and>
     TcpConnection_sendInLoop kernel_ctl free_socket t1 ''d'' = Inr t2 \<and> pending t2 = ''abcd'' \<and>
     watched (poller t1) (chan t1) = None \<and> watched (poller t2) (chan t2) \<noteq> None"
proof -
  obtain t where t: "conn_reach kernel_ctl t ''abc''" "state t = kConnected" "pending t = ''abc''"
      "Buffer_room (outputBuffer t) 100"
    using example_history by blast
  have "Buffer_room (outputBuffer t) (length ''d'')" using t(4) by (simp add: Buffer_room_def)
  from TcpConnection_sendInLoop_after_close [OF kernel_ctl_spec t(1,2) _ _ this, of free_socket] t(1,3)
  show ?thesis by fastforce
qed

theorem TcpConnection_sendFile_spins_at_end_of_file_witness:
  "\<exists>t. conn_reach kernel_ctl t [] \<and>
     effects (((\<lambda>t. TcpConnection_sendFileInLoop (\<lambda>s f off n. Inr 0) (\<lambda>f off. []) t 9 100 7) ^^ 3) t) =
       effects t @ replicate 3 (Queue (SendFile_fn 9 100 7))"
proof -
  let ?p = "EPollPoller_new (\<lambda>c. Channel_new (int c))"
  obtain b where b: "Buffer_new kInitialSize = Inr b" by (rule Buffer_new_wf [OF kInitialSize_room])
  then obtain t0 where t0: "TcpConnection_new ?p 5 5 = Inr t0" by (simp add: TcpConnection_new_def)
  obtain t where t: "TcpConnection_connectEstablished kernel_ctl (TcpConnection_setWriteCompleteCallback True t0) = Inr t"
      "conn_inv t []" "state t = kConnected"
    using established_ok [OF kernel_ctl_spec new_conn(1-5) [OF new_poller(1) new_channels t0(1), of True]] by blast
  have reach: "conn_reach kernel_ctl t []"
    by (rule conn_reach.established [OF new_poller(1) new_channels t0 t(1)])
  have "pending t = []" "\<not> Channel_isWriting (channel t)" "conn_base t"
    using t(2,3) by (auto simp: conn_inv_def up_def)
  then show ?thesis
    using TcpConnection_sendFile_spins_at_end_of_file [OF t(3), of 7 "\<lambda>s f off n. Inr 0" 9 100 3 "\<lambda>f off. []"] reach
    by (intro exI [of _ t]) (simp add: readable_0)
qed

end
