(* ===== verification/Net_Timestamp.thy ===== *)
theory Net_Timestamp
  imports Log_Stream "HOL-Library.Signed_Division"
begin

text \<open>
  Points in time (\<open>include/net/Timestamp.h\<close>, \<open>src/net/Timestamp.cc\<close>): microseconds since the epoch, their
  order, and their printed forms. \<open>localtime\<close> and \<open>gettimeofday\<close> are arguments. C++ division truncates
  towards zero (\<open>sdiv\<close>, \<open>smod\<close>). The argument of \<open>addTime\<close> is a floating-point number of seconds: the
  sources use a \<open>double\<close> only to test whether it is positive and to convert a million times its value to
  \<open>int64_t\<close>, so that a \<open>double\<close> is given by these two results.
\<close>

datatype Timestamp = Timestamp (microSecondsSinceEpoch: int)

instantiation Timestamp :: linorder
begin

definition less_eq_Timestamp :: "Timestamp \<Rightarrow> Timestamp \<Rightarrow> bool" where
  "less_eq_Timestamp lhs rhs \<longleftrightarrow> microSecondsSinceEpoch lhs \<le> microSecondsSinceEpoch rhs"

definition less_Timestamp :: "Timestamp \<Rightarrow> Timestamp \<Rightarrow> bool" where
  "less_Timestamp lhs rhs \<longleftrightarrow> microSecondsSinceEpoch lhs < microSecondsSinceEpoch rhs"

instance
  by standard (auto simp: less_eq_Timestamp_def less_Timestamp_def Timestamp.expand)

end

lemma Timestamp_order [simp]:
  "Timestamp a \<le> Timestamp b \<longleftrightarrow> a \<le> b" "Timestamp a < Timestamp b \<longleftrightarrow> a < b"
  by (simp_all add: less_eq_Timestamp_def less_Timestamp_def)

record double =
  positive :: bool
  micros :: int

definition Timestamp_invalid :: Timestamp where
  "Timestamp_invalid = Timestamp 0"

definition Timestamp_now :: "int \<times> int \<Rightarrow> Timestamp" where
  "Timestamp_now tv = Timestamp (fst tv * int kMicroSecondsPerSecond + snd tv)"

definition secondsSinceEpoch :: "Timestamp \<Rightarrow> int" where
  "secondsSinceEpoch t = microSecondsSinceEpoch t sdiv int kMicroSecondsPerSecond"

definition addTime :: "Timestamp \<Rightarrow> double \<Rightarrow> Timestamp" where
  "addTime timestamp seconds = Timestamp (microSecondsSinceEpoch timestamp + micros seconds)"

text \<open>The conversion \<open>%06d\<close>, and \<open>snprintf\<close> into an array of a given size.\<close>

definition pad_int :: "nat \<Rightarrow> int \<Rightarrow> string" where
  "pad_int w i = (if i < 0 then ''-'' @ pad (CHR ''0'') (w - 1) (nat (- i)) else pad (CHR ''0'') w (nat i))"

definition snprintf :: "nat \<Rightarrow> string \<Rightarrow> string" where
  "snprintf n s = take (n - 1) s"

definition Timestamp_toString :: "(int \<Rightarrow> tm) \<Rightarrow> Timestamp \<Rightarrow> string" where
  "Timestamp_toString localtime t = snprintf 128 (time_text (localtime (microSecondsSinceEpoch t)))"

definition Timestamp_toFormattedString :: "(int \<Rightarrow> tm) \<Rightarrow> bool \<Rightarrow> Timestamp \<Rightarrow> string" where
  "Timestamp_toFormattedString localtime showMicroseconds t =
     (let seconds = microSecondsSinceEpoch t sdiv int kMicroSecondsPerSecond;
          tm_time = localtime seconds in
      if showMicroseconds then
        (let microseconds = microSecondsSinceEpoch t smod int kMicroSecondsPerSecond in
         snprintf 64 (time_text tm_time @ ''.'' @ pad_int 6 microseconds))
      else snprintf 64 (time_text tm_time))"

section \<open>Facts\<close>

lemma sdiv_multiple: "0 < k \<Longrightarrow> (a * k) sdiv k = (a :: int)"
  by (simp add: signed_divide_int_def sgn_mult abs_mult sgn_mult_abs)

lemma sdiv_smod_recover: "(a sdiv k) * k + a smod k = (a :: int)"
  by (rule sdiv_mult_smod_eq)

lemma digits_value_zeros: "digits_value (replicate n (CHR ''0'') @ ds) = digits_value ds"
proof (induction n)
  case (Suc n)
  have "digits_value (CHR ''0'' # xs) = digits_value xs" for xs
    by (simp add: digits_value_def)
  then show ?case using Suc by simp
qed simp

lemma pad_value: "digits_value (pad (CHR ''0'') w n) = n"
  by (simp add: pad_def digits_value_zeros)

section \<open>Properties\<close>

text \<open>
  \<open>toString\<close> gives \<open>localtime\<close> the microseconds where it expects seconds: what it prints is the date of
  the instant a million times later, as \<open>toFormattedString\<close> prints it (and so whenever that text fits
  the smaller array of the latter).
\<close>

theorem Timestamp_toString_scaled:
  assumes "length (time_text (localtime (microSecondsSinceEpoch t))) < 64"
  shows "Timestamp_toString localtime t =
     Timestamp_toFormattedString localtime False (Timestamp (microSecondsSinceEpoch t * 1000000))"
proof -
  have "(microSecondsSinceEpoch t * 1000000) sdiv int kMicroSecondsPerSecond = microSecondsSinceEpoch t"
    using sdiv_multiple [of 1000000] by (simp add: kMicroSecondsPerSecond_def)
  then show ?thesis
    using assms by (simp add: Timestamp_toString_def Timestamp_toFormattedString_def snprintf_def)
qed

text \<open>
  With microseconds shown, the text of an instant after the epoch determines it: two instants
  are printed alike exactly if they are equal, as long as \<open>localtime\<close> separates their seconds and the
  date is of the usual length.
\<close>

theorem Timestamp_toFormattedString_injective:
  assumes nonneg: "0 \<le> microSecondsSinceEpoch a" "0 \<le> microSecondsSinceEpoch b"
    and inj: "time_text (localtime (secondsSinceEpoch a)) = time_text (localtime (secondsSinceEpoch b)) \<Longrightarrow>
      secondsSinceEpoch a = secondsSinceEpoch b"
    and len: "length (time_text (localtime (secondsSinceEpoch a))) = 19"
      "length (time_text (localtime (secondsSinceEpoch b))) = 19"
  shows "Timestamp_toFormattedString localtime True a = Timestamp_toFormattedString localtime True b \<longleftrightarrow> a = b"
proof
  assume eq: "Timestamp_toFormattedString localtime True a = Timestamp_toFormattedString localtime True b"
  let ?m = "\<lambda>t. microSecondsSinceEpoch t smod int kMicroSecondsPerSecond"
  have m: "0 \<le> ?m t" "nat (?m t) < 10 ^ 6" if "0 \<le> microSecondsSinceEpoch t" for t
    using that by (auto simp: signed_modulo_int_def sgn_if kMicroSecondsPerSecond_def nat_less_iff)
  have form: "Timestamp_toFormattedString localtime True t =
      time_text (localtime (secondsSinceEpoch t)) @ ''.'' @ pad (CHR ''0'') 6 (nat (?m t))"
    if "0 \<le> microSecondsSinceEpoch t" "length (time_text (localtime (secondsSinceEpoch t))) = 19" for t
    using m [OF that(1)] that(2) length_pad [of 6 "nat (?m t)" "CHR ''0''"]
    by (simp add: Timestamp_toFormattedString_def secondsSinceEpoch_def Let_def snprintf_def pad_int_def)
  from eq have "secondsSinceEpoch a = secondsSinceEpoch b"
    and "pad (CHR ''0'') 6 (nat (?m a)) = pad (CHR ''0'') 6 (nat (?m b))"
    using form nonneg len inj by (simp_all add: append_eq_append_conv)
  then have "secondsSinceEpoch a = secondsSinceEpoch b" "?m a = ?m b"
    using m nonneg by (simp, metis pad_value nat_eq_iff2 nat_0_le)
  then have "microSecondsSinceEpoch a = microSecondsSinceEpoch b"
    unfolding secondsSinceEpoch_def using sdiv_smod_recover by metis
  then show "a = b" by (simp add: Timestamp.expand)
qed simp

end
