(* ===== verification/Util_Timer.thy ===== *)
theory Util_Timer
  imports Net_Timestamp Net_Poller "HOL-Library.Product_Lexorder"
begin

text \<open>
  Timers (\<open>include/util/Timer.h\<close>, \<open>src/util/Timer.cc\<close>, \<open>include/util/TimerQueue.h\<close>, \<open>src/util/TimerQueue.cc\<close>,
  and the timer interface of \<open>include/net/EventLoop.h\<close>). The ordered \<open>std::set\<close> of pairs of a time and
  a \<open>Timer*\<close> is the sorted list of its elements; the \<open>Timer\<close> objects live in a heap, so that using
  or freeing one twice is an error value. The clock is a sequence of readings, of which the state
  counts how many were taken; the one-shot timer descriptor is armed for an instant or not at all.
  A callback is a value; what the callbacks do to the queue (they may add timers) is an argument.
\<close>

section \<open>State\<close>

type_synonym timer_addr = nat
type_synonym entry = "Timestamp \<times> timer_addr"
type_synonym clock = "nat \<Rightarrow> Timestamp"

definition UINTPTR_MAX :: nat where
  "UINTPTR_MAX = 2 ^ 64 - 1"

record 'cb Timer =
  callback :: 'cb
  expiration :: Timestamp
  interval :: double
  repeat :: bool

definition Timer_new :: "'cb \<Rightarrow> Timestamp \<Rightarrow> double \<Rightarrow> 'cb Timer" where
  "Timer_new cb when intv = \<lparr>callback = cb, expiration = when, interval = intv, repeat = positive intv\<rparr>"

definition Timer_restart :: "Timestamp \<Rightarrow> 'cb Timer \<Rightarrow> 'cb Timer" where
  "Timer_restart now tm =
     (if repeat tm then tm\<lparr>expiration := addTime now (interval tm)\<rparr>
      else tm\<lparr>expiration := Timestamp 0\<rparr>)"

record 'cb TimerQueue =
  timers :: "entry list"
  callingExpiredTimers :: bool
  timer_heap :: "timer_addr \<rightharpoonup> 'cb Timer"
  armed :: "Timestamp option"
  queued :: "timer_addr list"
  clock_reads :: nat
  fired :: "'cb list"

definition timer_at :: "'cb TimerQueue \<Rightarrow> timer_addr \<Rightarrow> 'cb Timer result" where
  "timer_at q t = (case timer_heap q t of None \<Rightarrow> Inl Dangling_deref | Some tm \<Rightarrow> Inr tm)"

definition delete_timer :: "'cb TimerQueue \<Rightarrow> timer_addr \<Rightarrow> 'cb TimerQueue result" where
  "delete_timer q t = andthen (timer_at q t) (\<lambda>_. Inr (q\<lparr>timer_heap := (timer_heap q)(t := None)\<rparr>))"

definition TimerQueue_new :: "epoll_ctl_call \<Rightarrow> EPollPoller \<Rightarrow> chan \<Rightarrow> fd \<Rightarrow> ('cb TimerQueue \<times> EPollPoller) result" where
  "TimerQueue_new ctl p c timerfd =
     andthen (Channel_enableReading ctl (set_chan p c ((Channel_new timerfd)\<lparr>readCallback := True\<rparr>)) c) (\<lambda>p.
     Inr (\<lparr>timers = [], callingExpiredTimers = False, timer_heap = Map.empty, armed = None, queued = [],
           clock_reads = 0, fired = []\<rparr>, p))"

primrec delete_all :: "'cb TimerQueue \<Rightarrow> entry list \<Rightarrow> 'cb TimerQueue result" where
  "delete_all q [] = Inr q"
| "delete_all q (e # es) = andthen (delete_timer q (snd e)) (\<lambda>q. delete_all q es)"

definition TimerQueue_destroy ::
  "epoll_ctl_call \<Rightarrow> EPollPoller \<Rightarrow> chan \<Rightarrow> 'cb TimerQueue \<Rightarrow> ('cb TimerQueue \<times> EPollPoller) result" where
  "TimerQueue_destroy ctl p c q =
     andthen (Channel_disableAll ctl p c) (\<lambda>p. andthen (Channel_remove ctl p c) (\<lambda>p.
     andthen (delete_all q (timers q)) (\<lambda>q. Inr (q, p))))"

section \<open>Operations\<close>

text \<open>
  \<open>resetTimerfd\<close> hands the kernel a delay in seconds and nanoseconds; the descriptor becomes readable
  when it has passed. \<open>timerfd_settime\<close> refuses a negative time or a number of nanoseconds outside a second,
  and the code then only logs a message.
\<close>

definition timerfd_due :: "Timestamp \<Rightarrow> int \<Rightarrow> int \<Rightarrow> Timestamp" where
  "timerfd_due t tv_sec tv_nsec =
     Timestamp (microSecondsSinceEpoch t + tv_sec * int kMicroSecondsPerSecond + tv_nsec div 1000)"

definition timerfd_settime :: "Timestamp \<Rightarrow> int \<Rightarrow> int \<Rightarrow> 'cb TimerQueue \<Rightarrow> 'cb TimerQueue" where
  "timerfd_settime t tv_sec tv_nsec q =
     (if 0 \<le> tv_sec \<and> 0 \<le> tv_nsec \<and> tv_nsec \<le> 999999999 then q\<lparr>armed := Some (timerfd_due t tv_sec tv_nsec)\<rparr> else q)"

definition TimerQueue_resetTimerfd :: "clock \<Rightarrow> 'cb TimerQueue \<Rightarrow> Timestamp \<Rightarrow> 'cb TimerQueue" where
  "TimerQueue_resetTimerfd clock q expire =
     (let t = clock (clock_reads q);
          microSecondDif = microSecondsSinceEpoch expire - microSecondsSinceEpoch t;
          microSecondDif = (if microSecondDif < 100 then 100 else microSecondDif);
          tv_sec = microSecondDif sdiv int kMicroSecondsPerSecond;
          tv_nsec = (microSecondDif smod int kMicroSecondsPerSecond) * 1000 in
      timerfd_settime t tv_sec tv_nsec (q\<lparr>clock_reads := Suc (clock_reads q)\<rparr>))"

definition TimerQueue_insert :: "'cb TimerQueue \<Rightarrow> timer_addr \<Rightarrow> (bool \<times> 'cb TimerQueue) result" where
  "TimerQueue_insert q timer =
     andthen (timer_at q timer) (\<lambda>tm.
       (let when = expiration tm;
            earliestChanged = (case timers q of [] \<Rightarrow> True | it # _ \<Rightarrow> when < fst it) in
        Inr (earliestChanged, q\<lparr>timers := insort_insert (when, timer) (timers q)\<rparr>)))"

definition TimerQueue_addTimerInLoop :: "clock \<Rightarrow> 'cb TimerQueue \<Rightarrow> timer_addr \<Rightarrow> 'cb TimerQueue result" where
  "TimerQueue_addTimerInLoop clock q timer =
     andthen (TimerQueue_insert q timer) (\<lambda>(earliestChanged, q).
       if earliestChanged
       then andthen (timer_at q timer) (\<lambda>tm. Inr (TimerQueue_resetTimerfd clock q (expiration tm)))
       else Inr q)"

text \<open>
  \<open>addTimer\<close> allocates a timer and passes it to the loop: in the loop's thread it is inserted at once,
  from another thread it waits among the loop's functors. \<open>malloc\<close> is the allocator, which finds an
  unused address or fails.
\<close>

type_synonym 'cb malloc = "(timer_addr \<rightharpoonup> 'cb Timer) \<Rightarrow> timer_addr option"

definition TimerQueue_addTimer ::
  "'cb malloc \<Rightarrow> clock \<Rightarrow> bool \<Rightarrow> 'cb TimerQueue \<Rightarrow> 'cb \<times> Timestamp \<times> double \<Rightarrow> 'cb TimerQueue result" where
  "TimerQueue_addTimer malloc clock isInLoopThread q req =
     (case malloc (timer_heap q) of None \<Rightarrow> Inl Bad_alloc
      | Some timer \<Rightarrow>
          (let (cb, when, intv) = req;
               q = q\<lparr>timer_heap := (timer_heap q)(timer \<mapsto> Timer_new cb when intv)\<rparr> in
           if isInLoopThread then TimerQueue_addTimerInLoop clock q timer
           else Inr (q\<lparr>queued := queued q @ [timer]\<rparr>)))"

definition run_queued :: "clock \<Rightarrow> 'cb TimerQueue \<Rightarrow> 'cb TimerQueue result" where
  "run_queued clock q = (case queued q of [] \<Rightarrow> Inr q
     | timer # ts \<Rightarrow> TimerQueue_addTimerInLoop clock (q\<lparr>queued := ts\<rparr>) timer)"

definition TimerQueue_getExpired :: "'cb TimerQueue \<Rightarrow> Timestamp \<Rightarrow> entry list \<times> 'cb TimerQueue" where
  "TimerQueue_getExpired q now =
     (let sentry = (now, UINTPTR_MAX) in
      (takeWhile (\<lambda>e. e < sentry) (timers q), q\<lparr>timers := dropWhile (\<lambda>e. e < sentry) (timers q)\<rparr>))"

primrec add_requests ::
  "'cb malloc \<Rightarrow> clock \<Rightarrow> 'cb TimerQueue \<Rightarrow> ('cb \<times> Timestamp \<times> double) list \<Rightarrow> 'cb TimerQueue result" where
  "add_requests malloc clock q [] = Inr q"
| "add_requests malloc clock q (r # rs) =
     andthen (TimerQueue_addTimer malloc clock True q r) (\<lambda>q. add_requests malloc clock q rs)"

type_synonym 'cb behaviour = "'cb \<Rightarrow> 'cb TimerQueue \<Rightarrow> ('cb \<times> Timestamp \<times> double) list"

primrec run_expired ::
  "'cb malloc \<Rightarrow> 'cb behaviour \<Rightarrow> clock \<Rightarrow> 'cb TimerQueue \<Rightarrow> entry list \<Rightarrow> 'cb TimerQueue result" where
  "run_expired malloc does clock q [] = Inr q"
| "run_expired malloc does clock q (it # its) =
     andthen (timer_at q (snd it)) (\<lambda>tm.
     andthen (add_requests malloc clock (q\<lparr>fired := fired q @ [callback tm]\<rparr>) (does (callback tm) q)) (\<lambda>q.
     run_expired malloc does clock q its))"

definition reset_timer :: "clock \<Rightarrow> 'cb TimerQueue \<Rightarrow> timer_addr \<Rightarrow> 'cb TimerQueue result" where
  "reset_timer clock q timer =
     andthen (timer_at q timer) (\<lambda>tm.
       if repeat tm
       then (let q = q\<lparr>clock_reads := Suc (clock_reads q),
                       timer_heap := (timer_heap q)(timer \<mapsto> Timer_restart (clock (clock_reads q)) tm)\<rparr> in
             andthen (TimerQueue_insert q timer) (\<lambda>(_, q). Inr q))
       else delete_timer q timer)"

primrec TimerQueue_reset :: "clock \<Rightarrow> 'cb TimerQueue \<Rightarrow> entry list \<Rightarrow> 'cb TimerQueue result" where
  "TimerQueue_reset clock q [] = Inr q"
| "TimerQueue_reset clock q (it # its) =
     andthen (reset_timer clock q (snd it)) (\<lambda>q.
     andthen (case timers q of [] \<Rightarrow> Inr q
              | e # _ \<Rightarrow> andthen (timer_at q (snd e)) (\<lambda>tm. Inr (TimerQueue_resetTimerfd clock q (expiration tm))))
       (\<lambda>q. TimerQueue_reset clock q its))"

text \<open>
  \<open>handleRead\<close> runs when the descriptor has become readable; reading it leaves it disarmed until the
  next \<open>resetTimerfd\<close>.
\<close>

definition ReadTimerFd :: "'cb TimerQueue \<Rightarrow> 'cb TimerQueue" where
  [simp]: "ReadTimerFd q = q\<lparr>armed := None\<rparr>"

definition TimerQueue_handleRead ::
  "'cb malloc \<Rightarrow> 'cb behaviour \<Rightarrow> clock \<Rightarrow> 'cb TimerQueue \<Rightarrow> 'cb TimerQueue result" where
  "TimerQueue_handleRead malloc does clock q =
     (let now = clock (clock_reads q);
          q = ReadTimerFd (q\<lparr>clock_reads := Suc (clock_reads q)\<rparr>);
          (expired, q) = TimerQueue_getExpired q now;
          q = q\<lparr>callingExpiredTimers := True\<rparr> in
      andthen (run_expired malloc does clock q expired) (\<lambda>q.
      TimerQueue_reset clock (q\<lparr>callingExpiredTimers := False\<rparr>) expired))"

text \<open>
  The entry points in \<open>EventLoop\<close>. The loop's pointer to the queue is null until it is set, which the
  constructor does not do.
\<close>

definition EventLoop_runAt ::
  "'cb malloc \<Rightarrow> clock \<Rightarrow> bool \<Rightarrow> 'cb TimerQueue option \<Rightarrow> Timestamp \<Rightarrow> 'cb \<Rightarrow> 'cb TimerQueue result" where
  "EventLoop_runAt malloc clock inLoop timerQueue timestamp cb =
     (case timerQueue of None \<Rightarrow> Inl Null_deref
      | Some q \<Rightarrow> TimerQueue_addTimer malloc clock inLoop q (cb, timestamp, \<lparr>positive = False, micros = 0\<rparr>))"

definition EventLoop_runAfter ::
  "'cb malloc \<Rightarrow> clock \<Rightarrow> bool \<Rightarrow> 'cb TimerQueue option \<Rightarrow> Timestamp \<Rightarrow> double \<Rightarrow> 'cb \<Rightarrow> 'cb TimerQueue result" where
  "EventLoop_runAfter malloc clock inLoop timerQueue now waitTime cb =
     EventLoop_runAt malloc clock inLoop timerQueue (addTime now waitTime) cb"

definition EventLoop_runEvery ::
  "'cb malloc \<Rightarrow> clock \<Rightarrow> bool \<Rightarrow> 'cb TimerQueue option \<Rightarrow> Timestamp \<Rightarrow> double \<Rightarrow> 'cb \<Rightarrow> 'cb TimerQueue result" where
  "EventLoop_runEvery malloc clock inLoop timerQueue now intv cb =
     (case timerQueue of None \<Rightarrow> Inl Null_deref
      | Some q \<Rightarrow> TimerQueue_addTimer malloc clock inLoop q (cb, addTime now intv, intv))"

section \<open>The invariant\<close>

text \<open>
  \<open>tq_inv E q\<close>: the timers form a sorted set whose keys are the expirations of live timers, and the
  live timers are exactly those in the set, those still to be inserted by the loop, and those of \<open>E\<close>,
  the entries that \<open>handleRead\<close> has taken out and not yet reset.
\<close>

definition tq_inv :: "entry list \<Rightarrow> 'cb TimerQueue \<Rightarrow> bool" where
  "tq_inv E q \<longleftrightarrow> sorted (timers q) \<and> distinct (timers q @ E) \<and> distinct (queued q) \<and>
     (\<forall>e \<in> set (timers q) \<union> set E. \<exists>tm. timer_heap q (snd e) = Some tm \<and> expiration tm = fst e) \<and>
     dom (timer_heap q) = snd ` (set (timers q) \<union> set E) \<union> set (queued q) \<and>
     set (queued q) \<inter> snd ` (set (timers q) \<union> set E) = {} \<and>
     (\<forall>t \<in> dom (timer_heap q). t < UINTPTR_MAX)"

lemma tq_invD:
  assumes "tq_inv E q"
  shows "sorted (timers q)" "distinct (timers q @ E)" "distinct (queued q)"
    "e \<in> set (timers q) \<union> set E \<Longrightarrow> \<exists>tm. timer_heap q (snd e) = Some tm \<and> expiration tm = fst e"
    "dom (timer_heap q) = snd ` (set (timers q) \<union> set E) \<union> set (queued q)"
    "set (queued q) \<inter> snd ` (set (timers q) \<union> set E) = {}"
    "t \<in> dom (timer_heap q) \<Longrightarrow> t < UINTPTR_MAX"
  using assms unfolding tq_inv_def by simp_all

lemma tq_inv_entry:
  assumes "tq_inv E q" and "e \<in> set (timers q) \<union> set E"
  obtains tm where "timer_heap q (snd e) = Some tm" and "expiration tm = fst e" and "timer_at q (snd e) = Inr tm"
proof -
  from tq_invD(4) [OF assms] obtain tm where "timer_heap q (snd e) = Some tm" "expiration tm = fst e" by blast
  then show ?thesis by (intro that) (simp_all add: timer_at_def)
qed

lemma tq_inv_same_addr:
  assumes "tq_inv E q" and "e \<in> set (timers q) \<union> set E" and "e' \<in> set (timers q) \<union> set E" and "snd e = snd e'"
  shows "e = e'"
  using tq_inv_entry [OF assms(1,2)] tq_inv_entry [OF assms(1,3)] assms(4) by (metis option.inject prod_eqI)

lemma tq_inv_cong:
  "timers q' = timers q \<Longrightarrow> timer_heap q' = timer_heap q \<Longrightarrow> queued q' = queued q \<Longrightarrow> tq_inv E q' = tq_inv E q"
  by (simp add: tq_inv_def)

lemma tq_inv_requeue: "tq_inv E q \<Longrightarrow> set ts = set (queued q) \<Longrightarrow> distinct ts \<Longrightarrow> tq_inv E (q\<lparr>queued := ts\<rparr>)"
  by (simp add: tq_inv_def)

text \<open>What arming the descriptor amounts to: the deadline, but at least 100 microseconds from now. The kernel
  never refuses the arguments.\<close>

definition plus100 :: "Timestamp \<Rightarrow> Timestamp" where
  "plus100 t = Timestamp (microSecondsSinceEpoch t + 100)"

lemma max_Timestamp: "max (Timestamp a) (Timestamp b) = Timestamp (max a b)"
  by (simp add: max_def)

lemma resetTimerfd_eq:
  "TimerQueue_resetTimerfd clock q expire =
     q\<lparr>clock_reads := Suc (clock_reads q), armed := Some (max expire (plus100 (clock (clock_reads q))))\<rparr>"
proof -
  let ?K = "int kMicroSecondsPerSecond"
  have split: "t + (d sdiv ?K) * ?K + d smod ?K = t + d" for t d
    using sdiv_smod_recover [of d ?K] by linarith
  have valid: "0 \<le> d sdiv ?K \<and> 0 \<le> d smod ?K * 1000 \<and> d smod ?K * 1000 \<le> 999999999" if "100 \<le> d" for d
    using that pos_mod_bound [of ?K d]
    by (auto simp: signed_divide_int_def signed_modulo_int_def kMicroSecondsPerSecond_def sgn_if pos_imp_zdiv_nonneg_iff)
  have set: "timerfd_settime t (d sdiv ?K) (d smod ?K * 1000) q = q\<lparr>armed := Some (Timestamp (microSecondsSinceEpoch t + d))\<rparr>"
    if "100 \<le> d" for t d and q :: "'a TimerQueue"
    using valid [OF that] split [of "microSecondsSinceEpoch t" d] by (simp add: timerfd_settime_def timerfd_due_def)
  show ?thesis
    by (cases expire; cases "clock (clock_reads q)")
      (auto simp: TimerQueue_resetTimerfd_def Let_def set plus100_def max_Timestamp max_def)
qed

text \<open>The descriptor is armed for the earliest timer, as of some reading of the clock.\<close>

definition armed_inv :: "clock \<Rightarrow> 'cb TimerQueue \<Rightarrow> bool" where
  "armed_inv clock q \<longleftrightarrow> (timers q \<noteq> [] \<longrightarrow>
     (\<exists>n < clock_reads q. armed q = Some (max (fst (hd (timers q))) (plus100 (clock n)))))"

lemma hd_insort_insert:
  fixes x :: "'a::linorder"
  assumes "sorted xs"
  shows "hd (insort_insert x xs) = (case xs of [] \<Rightarrow> x | y # _ \<Rightarrow> min x y)"
  using assms by (cases xs) (auto simp: insort_insert_key_def min_def)

lemma insort_insert_not_Nil [simp]: "insort_insert x xs \<noteq> []"
  by (metis empty_iff insert_iff list.set(1) set_insort_insert)

section \<open>Adding timers\<close>

text \<open>A timer that is live but not in the set counts as queued.\<close>

lemma insert_ok:
  assumes inv: "tq_inv E (q\<lparr>queued := t # queued q\<rparr>)" and tm: "timer_heap q t = Some tm"
  shows "\<exists>ch. TimerQueue_insert q t = Inr (ch, q\<lparr>timers := insort_insert (expiration tm, t) (timers q)\<rparr>) \<and>
     (ch \<longleftrightarrow> timers q = [] \<or> expiration tm < fst (hd (timers q)))" (is "\<exists>ch. ?ins ch \<and> ?chg ch")
    and "tq_inv E (q\<lparr>timers := insort_insert (expiration tm, t) (timers q)\<rparr>)" (is "tq_inv E ?q")
proof -
  show "\<exists>ch. ?ins ch \<and> ?chg ch"
    using tm by (auto simp: TimerQueue_insert_def timer_at_def Let_def split: list.splits)
  note D = tq_invD [OF inv, simplified]
  have "t \<notin> snd ` (set (timers q) \<union> set E)" using D(6) by blast
  then have new: "(expiration tm, t) \<notin> set (timers q) \<union> set E" "t \<notin> set (queued q)"
    using D(3) by (metis image_eqI snd_conv, simp)
  then show "tq_inv E ?q"
    using inv tm by (auto simp: tq_inv_def sorted_insort_insert distinct_insort_insert set_insort_insert)
qed

lemma addTimerInLoop_ok:
  assumes inv: "tq_inv E (q\<lparr>queued := t # queued q\<rparr>)" and tm: "timer_heap q t = Some tm"
  shows "\<exists>q'. TimerQueue_addTimerInLoop clock q t = Inr q' \<and> tq_inv E q' \<and> timer_heap q' = timer_heap q \<and>
     queued q' = queued q \<and> fired q' = fired q \<and> set (timers q') = insert (expiration tm, t) (set (timers q)) \<and>
     clock_reads q \<le> clock_reads q' \<and> (armed_inv clock q \<longrightarrow> armed_inv clock q')"
proof -
  let ?q = "q\<lparr>timers := insort_insert (expiration tm, t) (timers q)\<rparr>"
  obtain ch where ins: "TimerQueue_insert q t = Inr (ch, ?q)" "ch \<longleftrightarrow> timers q = [] \<or> expiration tm < fst (hd (timers q))"
    using insert_ok(1) [OF inv tm] by blast
  have sorted: "sorted (timers q)" using inv by (simp add: tq_inv_def)
  have inv': "tq_inv E ?q" by (rule insert_ok(2) [OF inv tm])
  show ?thesis
  proof (cases ch)
    case True
    let ?q' = "TimerQueue_resetTimerfd clock ?q (expiration tm)"
    have "TimerQueue_addTimerInLoop clock q t = Inr ?q'"
      using ins(1) True tm by (simp add: TimerQueue_addTimerInLoop_def timer_at_def)
    moreover have "fst (hd (timers ?q)) = expiration tm"
      using hd_insort_insert [OF sorted, of "(expiration tm, t)"] True ins(2)
      by (cases "timers q") (auto simp: min_def less_eq_prod_def)
    then have "armed_inv clock ?q'" by (auto simp: armed_inv_def resetTimerfd_eq)
    ultimately show ?thesis
      using inv' tq_inv_cong [of ?q' ?q] by (simp add: resetTimerfd_eq set_insort_insert)
  next
    case False
    then have "fst (hd (timers ?q)) = fst (hd (timers q))" "timers q \<noteq> []"
      using hd_insort_insert [OF sorted, of "(expiration tm, t)"] ins(2)
      by (cases "timers q"; auto simp: min_def less_eq_prod_def)+
    then have "armed_inv clock q \<longrightarrow> armed_inv clock ?q" by (simp add: armed_inv_def)
    then show ?thesis
      using ins(1) False inv' by (simp add: TimerQueue_addTimerInLoop_def set_insort_insert)
  qed
qed

text \<open>What an allocator promises.\<close>

definition malloc_spec :: "'cb malloc \<Rightarrow> bool" where
  "malloc_spec malloc \<longleftrightarrow> (\<forall>h t. malloc h = Some t \<longrightarrow> h t = None \<and> t < UINTPTR_MAX)"

lemma tq_inv_alloc:
  assumes "tq_inv E q" and "timer_heap q t = None" and "t < UINTPTR_MAX"
  shows "tq_inv E (q\<lparr>timer_heap := (timer_heap q)(t \<mapsto> tm), queued := t # queued q\<rparr>)"
proof -
  have t: "t \<notin> snd ` (set (timers q) \<union> set E) \<union> set (queued q)" using assms(1,2) unfolding tq_inv_def by blast
  then have "((timer_heap q)(t \<mapsto> tm)) (snd e) = timer_heap q (snd e)" if "e \<in> set (timers q) \<union> set E" for e
    using that by auto
  with assms t show ?thesis by (simp add: tq_inv_def)
qed

lemma addTimer_ok:
  assumes inv: "tq_inv E q" and mal: "malloc_spec malloc"
    and mem: "TimerQueue_addTimer malloc clock inLoop q (cb, when, intv) \<noteq> Inl Bad_alloc"
  shows "\<exists>q' t. TimerQueue_addTimer malloc clock inLoop q (cb, when, intv) = Inr q' \<and> tq_inv E q' \<and>
     timer_heap q t = None \<and> timer_heap q' = (timer_heap q)(t \<mapsto> Timer_new cb when intv) \<and> fired q' = fired q \<and>
     clock_reads q \<le> clock_reads q' \<and> (armed_inv clock q \<longrightarrow> armed_inv clock q') \<and>
     (if inLoop then set (timers q') = insert (when, t) (set (timers q)) \<and> queued q' = queued q
      else timers q' = timers q \<and> queued q' = queued q @ [t])"
proof -
  from mem obtain t where alloc: "malloc (timer_heap q) = Some t"
    by (auto simp: TimerQueue_addTimer_def split: option.splits)
  let ?tm = "Timer_new cb when intv"
  let ?q = "q\<lparr>timer_heap := (timer_heap q)(t \<mapsto> ?tm)\<rparr>"
  have t: "timer_heap q t = None" "t < UINTPTR_MAX" using mal alloc by (simp_all add: malloc_spec_def)
  have inv': "tq_inv E (?q\<lparr>queued := t # queued ?q\<rparr>)" using tq_inv_alloc [OF inv t] by simp
  have arm: "armed_inv clock ?q = armed_inv clock q" by (simp add: armed_inv_def)
  show ?thesis
  proof (cases inLoop)
    case True
    then have "TimerQueue_addTimer malloc clock inLoop q (cb, when, intv) = TimerQueue_addTimerInLoop clock ?q t"
      by (simp add: TimerQueue_addTimer_def alloc Let_def)
    with addTimerInLoop_ok [OF inv', of ?tm clock] t(1) arm True show ?thesis
      by (auto simp: Timer_new_def intro!: exI [of _ t])
  next
    case False
    let ?q' = "?q\<lparr>queued := queued q @ [t]\<rparr>"
    have "tq_inv E ?q'"
      using tq_inv_requeue [OF inv', of "queued q @ [t]"] tq_invD(3) [OF inv'] by simp
    moreover have "armed_inv clock ?q' = armed_inv clock q" by (simp add: armed_inv_def)
    ultimately show ?thesis
      using False t(1) alloc by (simp add: TimerQueue_addTimer_def Let_def)
  qed
qed

section \<open>Expiry\<close>

text \<open>
  \<open>getExpired\<close> compares with the pair of the present and the greatest address, so that
  \<open>lower_bound\<close> also finds the timers that expire at this very instant.
\<close>

lemma below_sentry: "t < UINTPTR_MAX \<Longrightarrow> (w :: Timestamp, t) < (now, UINTPTR_MAX) \<longleftrightarrow> w \<le> now"
  by (auto simp: less_prod_def)

lemma sorted_takeWhile_filter:
  assumes "sorted xs" and "\<And>x y. x \<le> y \<Longrightarrow> P y \<Longrightarrow> P x"
  shows "takeWhile P xs = filter P xs" and "dropWhile P xs = filter (\<lambda>x. \<not> P x) xs"
  using assms(1)
proof (induction xs)
  case (Cons x xs)
  {
    case 1
    show ?case
    proof (cases "P x")
      case False
      then have "\<forall>y \<in> set xs. \<not> P y" using 1 assms(2) by auto
      then show ?thesis using False by (simp add: filter_empty_conv)
    qed (use Cons 1 in auto)
  next
    case 2
    show ?case
    proof (cases "P x")
      case False
      then have "\<forall>y \<in> set xs. \<not> P y" using 2 assms(2) by auto
      then show ?thesis using False by simp
    qed (use Cons 2 in auto)
  }
qed simp_all

lemma getExpired_eq:
  assumes inv: "tq_inv [] q"
  shows "TimerQueue_getExpired q now =
     (filter (\<lambda>e. fst e \<le> now) (timers q), q\<lparr>timers := filter (\<lambda>e. now < fst e) (timers q)\<rparr>)"
proof -
  have small: "snd e < UINTPTR_MAX" if "e \<in> set (timers q)" for e
    using tq_invD(5,7) [OF inv] that by auto
  have P: "e < (now, UINTPTR_MAX) \<longleftrightarrow> fst e \<le> now" if "e \<in> set (timers q)" for e
    using below_sentry [OF small [OF that], of "fst e" now] by simp
  have mono: "x < (now, UINTPTR_MAX)" if "x \<le> y" "y < (now, UINTPTR_MAX)" for x y :: entry
    using that by (rule le_less_trans)
  note sw = sorted_takeWhile_filter [OF tq_invD(1) [OF inv], of "\<lambda>e. e < (now, UINTPTR_MAX)", OF mono]
  have "takeWhile (\<lambda>e. e < (now, UINTPTR_MAX)) (timers q) = filter (\<lambda>e. fst e \<le> now) (timers q)"
    using sw(1) P by (simp cong: filter_cong)
  moreover have "dropWhile (\<lambda>e. e < (now, UINTPTR_MAX)) (timers q) = filter (\<lambda>e. now < fst e) (timers q)"
    using sw(2) P by (simp add: not_le cong: filter_cong)
  ultimately show ?thesis by (simp add: TimerQueue_getExpired_def)
qed

lemma getExpired_inv:
  assumes inv: "tq_inv [] q"
  shows "tq_inv (filter (\<lambda>e. fst e \<le> now) (timers q)) (q\<lparr>timers := filter (\<lambda>e. now < fst e) (timers q)\<rparr>)"
proof -
  have set: "set (filter (\<lambda>e. now < fst e) (timers q)) \<union> set (filter (\<lambda>e. fst e \<le> now) (timers q)) = set (timers q)"
    by auto
  note D = tq_invD [OF inv]
  show ?thesis
    unfolding tq_inv_def
    using D(1-3) tq_invD(4) [OF inv] D(5,6) tq_invD(7) [OF inv]
    by (simp add: set sorted_filter [of "\<lambda>x. x", simplified] del: set_filter) auto
qed

section \<open>Running and resetting\<close>

lemma andthen_no_error: "andthen r f \<noteq> Inl e \<Longrightarrow> r \<noteq> Inl e"
  by auto

lemma add_requests_ok:
  assumes "tq_inv E q" and "add_requests malloc clock q rs \<noteq> Inl Bad_alloc" and mal: "malloc_spec malloc"
  shows "\<exists>q'. add_requests malloc clock q rs = Inr q' \<and> tq_inv E q' \<and> timer_heap q \<subseteq>\<^sub>m timer_heap q' \<and>
     queued q' = queued q \<and> fired q' = fired q \<and> set (timers q) \<subseteq> set (timers q') \<and> clock_reads q \<le> clock_reads q'"
  using assms(1,2)
proof (induction rs arbitrary: q)
  case (Cons r rs)
  obtain cb "when" intv where r: "r = (cb, when, intv)" by (cases r)
  have "TimerQueue_addTimer malloc clock True q r \<noteq> Inl Bad_alloc" using Cons.prems(2) by (auto dest: andthen_no_error)
  with addTimer_ok [OF Cons.prems(1) mal, of clock True cb "when" intv] r obtain q1 t where q1:
      "TimerQueue_addTimer malloc clock True q r = Inr q1" "tq_inv E q1" "timer_heap q t = None"
      "timer_heap q1 = (timer_heap q)(t \<mapsto> Timer_new cb when intv)" "fired q1 = fired q" "clock_reads q \<le> clock_reads q1"
      "set (timers q1) = insert (when, t) (set (timers q))" "queued q1 = queued q"
    by auto
  then have "timer_heap q \<subseteq>\<^sub>m timer_heap q1" by (auto simp: map_le_def)
  moreover from Cons.IH [OF q1(2)] Cons.prems(2) q1(1) obtain q2 where q2: "add_requests malloc clock q1 rs = Inr q2" "tq_inv E q2"
      "timer_heap q1 \<subseteq>\<^sub>m timer_heap q2" "queued q2 = queued q1" "fired q2 = fired q1" "set (timers q1) \<subseteq> set (timers q2)"
      "clock_reads q1 \<le> clock_reads q2" by auto
  ultimately have "timer_heap q \<subseteq>\<^sub>m timer_heap q2" by (blast intro: map_le_trans)
  with q1(1,5-8) q2 show ?case by (intro exI [of _ q2]) auto
qed simp

lemma run_expired_ok:
  assumes "tq_inv E q" and "set es \<subseteq> set E" and "run_expired malloc does clock q es \<noteq> Inl Bad_alloc"
    and mal: "malloc_spec malloc"
  shows "\<exists>q'. run_expired malloc does clock q es = Inr q' \<and> tq_inv E q' \<and> timer_heap q \<subseteq>\<^sub>m timer_heap q' \<and>
     queued q' = queued q \<and> fired q' = fired q @ map (\<lambda>e. callback (the (timer_heap q (snd e)))) es \<and>
     set (timers q) \<subseteq> set (timers q') \<and> clock_reads q \<le> clock_reads q'"
  using assms(1-3)
proof (induction es arbitrary: q)
  case (Cons e es)
  from Cons.prems obtain tm where tm: "timer_heap q (snd e) = Some tm" "timer_at q (snd e) = Inr tm"
    by (auto elim: tq_inv_entry)
  let ?q = "q\<lparr>fired := fired q @ [callback tm]\<rparr>"
  have inv: "tq_inv E ?q" using Cons.prems(1) tq_inv_cong [of ?q q] by simp
  have "add_requests malloc clock ?q (does (callback tm) q) \<noteq> Inl Bad_alloc"
    using Cons.prems(3) tm(2) by (auto dest: andthen_no_error)
  from add_requests_ok [OF inv this mal] obtain q1 where q1:
      "add_requests malloc clock ?q (does (callback tm) q) = Inr q1" "tq_inv E q1" "timer_heap q \<subseteq>\<^sub>m timer_heap q1"
      "queued q1 = queued q" "fired q1 = fired q @ [callback tm]" "set (timers q) \<subseteq> set (timers q1)"
      "clock_reads q \<le> clock_reads q1" by auto
  from Cons.IH [OF q1(2)] Cons.prems(2,3) tm(2) q1(1) obtain q2 where q2: "run_expired malloc does clock q1 es = Inr q2" "tq_inv E q2"
      "timer_heap q1 \<subseteq>\<^sub>m timer_heap q2" "queued q2 = queued q1"
      "fired q2 = fired q1 @ map (\<lambda>e. callback (the (timer_heap q1 (snd e)))) es"
      "set (timers q1) \<subseteq> set (timers q2)" "clock_reads q1 \<le> clock_reads q2" by auto
  have "timer_heap q1 (snd x) = timer_heap q (snd x)" if "x \<in> set es" for x
  proof -
    have "x \<in> set (timers q) \<union> set E" using Cons.prems(2) that by auto
    from tq_inv_entry [OF Cons.prems(1) this] have "snd x \<in> dom (timer_heap q)" by blast
    then show ?thesis using q1(3) by (simp add: map_le_def)
  qed
  then have "map (\<lambda>e. callback (the (timer_heap q1 (snd e)))) es = map (\<lambda>e. callback (the (timer_heap q (snd e)))) es"
    by simp
  with q1 q2 tm show ?case by (auto intro: map_le_trans)
qed simp

text \<open>
  How a timer that has fired is settled between \<open>q\<close> and \<open>q'\<close>: a repeating one is in the set again, its
  interval after a reading of the clock made meanwhile, any other is gone.
\<close>

definition settled :: "clock \<Rightarrow> 'cb TimerQueue \<Rightarrow> 'cb TimerQueue \<Rightarrow> timer_addr \<Rightarrow> bool" where
  "settled clock q q' t \<longleftrightarrow> (\<exists>tm. timer_heap q t = Some tm \<and>
     (if repeat tm
      then \<exists>n. clock_reads q \<le> n \<and> n < clock_reads q' \<and> (addTime (clock n) (interval tm), t) \<in> set (timers q') \<and>
           timer_heap q' t = Some (Timer_restart (clock n) tm)
      else timer_heap q' t = None))"

lemma tq_inv_retire:
  assumes inv: "tq_inv ((w, t) # es) q"
  shows "tq_inv es (q\<lparr>timer_heap := (timer_heap q)(t := None)\<rparr>)"
proof -
  note D = tq_invD [OF inv]
  let ?S = "set (timers q) \<union> set es"
  have fresh: "snd x \<noteq> t" if "x \<in> ?S" for x
    using tq_inv_same_addr [OF inv, of x "(w, t)"] D(2) that by auto
  have "\<forall>x \<in> ?S. \<exists>tm. ((timer_heap q)(t := None)) (snd x) = Some tm \<and> expiration tm = fst x"
    using tq_invD(4) [OF inv] fresh by simp
  moreover have "dom ((timer_heap q)(t := None)) = snd ` ?S \<union> set (queued q)"
  proof -
    have "t \<notin> snd ` ?S \<union> set (queued q)" using fresh D(6) by auto
    moreover have "dom (timer_heap q) = insert t (snd ` ?S \<union> set (queued q))" using D(5) by simp
    ultimately show ?thesis by simp
  qed
  moreover have "set (queued q) \<inter> snd ` ?S = {}" using D(6) by simp
  moreover have "t' < UINTPTR_MAX" if "t' \<in> dom ((timer_heap q)(t := None))" for t'
    using tq_invD(7) [OF inv, of t'] that by auto
  ultimately show ?thesis unfolding tq_inv_def using D(1-3) by simp
qed

lemma reset_timer_ok:
  assumes inv: "tq_inv (e # es) q"
  shows "\<exists>q'. reset_timer clock q (snd e) = Inr q' \<and> tq_inv es q' \<and> fired q' = fired q \<and> queued q' = queued q \<and>
     set (timers q) \<subseteq> set (timers q') \<and> (\<forall>t. t \<noteq> snd e \<longrightarrow> timer_heap q' t = timer_heap q t) \<and>
     settled clock q q' (snd e) \<and> clock_reads q \<le> clock_reads q'"
proof -
  obtain w t where e: "e = (w, t)" by (cases e)
  obtain tm where tm: "timer_heap q t = Some tm" "expiration tm = w" "timer_at q t = Inr tm"
    using tq_inv_entry [OF inv, of e] e by auto
  let ?d = "q\<lparr>timer_heap := (timer_heap q)(t := None)\<rparr>"
  have gone: "tq_inv es ?d" using tq_inv_retire inv e by simp
  show ?thesis
  proof (cases "repeat tm")
    case True
    let ?r = "Timer_restart (clock (clock_reads q)) tm"
    let ?q = "q\<lparr>clock_reads := Suc (clock_reads q), timer_heap := (timer_heap q)(t \<mapsto> ?r)\<rparr>"
    have "t < UINTPTR_MAX" using tq_invD(7) [OF inv] tm(1) by auto
    from tq_inv_alloc [OF gone _ this, of ?r]
    have "tq_inv es (?d\<lparr>timer_heap := (timer_heap q)(t \<mapsto> ?r), queued := t # queued q\<rparr>)" by simp
    then have "tq_inv es (?q\<lparr>queued := t # queued ?q\<rparr>)"
      by (rule tq_inv_cong [THEN iffD2, rotated -1]) simp_all
    note ins = insert_ok [OF this, of ?r]
    let ?q' = "?q\<lparr>timers := insort_insert (expiration ?r, t) (timers ?q)\<rparr>"
    from ins(1) obtain ch where "TimerQueue_insert ?q t = Inr (ch, ?q')" by auto
    then have "reset_timer clock q t = Inr ?q'" using True tm(3) by (simp add: reset_timer_def Let_def)
    moreover have "tq_inv es ?q'" using ins(2) by simp
    moreover have "settled clock q ?q' t"
      using True tm(1) by (auto simp: settled_def set_insort_insert Timer_restart_def)
    ultimately show ?thesis using e by (intro exI [of _ ?q']) (auto simp: set_insort_insert)
  next
    case False
    have "reset_timer clock q t = Inr ?d" using False tm(3) by (simp add: reset_timer_def delete_timer_def)
    moreover have "settled clock q ?d t" using False tm(1) by (simp add: settled_def)
    ultimately show ?thesis using e gone by (intro exI [of _ ?d]) auto
  qed
qed

lemma rearm_ok:
  assumes inv: "tq_inv E q"
  shows "\<exists>q'. (case timers q of [] \<Rightarrow> Inr q
       | e # _ \<Rightarrow> andthen (timer_at q (snd e)) (\<lambda>tm. Inr (TimerQueue_resetTimerfd clock q (expiration tm)))) = Inr q' \<and>
     tq_inv E q' \<and> armed_inv clock q' \<and> timers q' = timers q \<and> timer_heap q' = timer_heap q \<and> queued q' = queued q \<and>
     fired q' = fired q \<and> clock_reads q \<le> clock_reads q'"
proof (cases "timers q")
  case Nil
  then show ?thesis using inv by (simp add: armed_inv_def)
next
  case (Cons e es)
  obtain tm where tm: "timer_at q (snd e) = Inr tm" "expiration tm = fst e"
    using tq_inv_entry [OF inv, of e] Cons by auto
  let ?q' = "TimerQueue_resetTimerfd clock q (fst e)"
  have "tq_inv E ?q'" using inv tq_inv_cong [of ?q' q] by (simp add: resetTimerfd_eq)
  moreover have "armed_inv clock ?q'" using Cons by (auto simp: resetTimerfd_eq armed_inv_def)
  ultimately show ?thesis using Cons tm by (simp add: resetTimerfd_eq)
qed

lemma settled_later:
  assumes "settled clock q q1 t" and "set (timers q1) \<subseteq> set (timers q2)" and "timer_heap q2 t = timer_heap q1 t"
    and "clock_reads q1 \<le> clock_reads q2"
  shows "settled clock q q2 t"
proof -
  obtain tm where "timer_heap q t = Some tm" using assms(1) by (auto simp: settled_def)
  with assms show ?thesis by (auto simp: settled_def intro: less_le_trans split: if_splits)
qed

lemma settled_earlier:
  assumes "settled clock q1 q2 t" and "timer_heap q1 t = timer_heap q t" and "clock_reads q \<le> clock_reads q1"
  shows "settled clock q q2 t"
proof -
  obtain tm where "timer_heap q t = Some tm" using assms(1,2) by (auto simp: settled_def)
  with assms show ?thesis by (auto simp: settled_def intro: order_trans split: if_splits)
qed

lemma reset_ok:
  assumes "tq_inv es q"
  shows "\<exists>q'. TimerQueue_reset clock q es = Inr q' \<and> tq_inv [] q' \<and> fired q' = fired q \<and> queued q' = queued q \<and>
     set (timers q) \<subseteq> set (timers q') \<and> (\<forall>t. t \<notin> snd ` set es \<longrightarrow> timer_heap q' t = timer_heap q t) \<and>
     (\<forall>e \<in> set es. settled clock q q' (snd e)) \<and> clock_reads q \<le> clock_reads q' \<and>
     (es \<noteq> [] \<or> armed_inv clock q \<longrightarrow> armed_inv clock q')"
  using assms
proof (induction es arbitrary: q)
  case (Cons e es)
  obtain q1 where q1: "reset_timer clock q (snd e) = Inr q1" "tq_inv es q1" "fired q1 = fired q" "queued q1 = queued q"
      "set (timers q) \<subseteq> set (timers q1)" "\<forall>t. t \<noteq> snd e \<longrightarrow> timer_heap q1 t = timer_heap q t"
      "settled clock q q1 (snd e)" "clock_reads q \<le> clock_reads q1"
    using reset_timer_ok [OF Cons.prems, of clock] by blast
  obtain q2 where q2: "(case timers q1 of [] \<Rightarrow> Inr q1
       | e # _ \<Rightarrow> andthen (timer_at q1 (snd e)) (\<lambda>tm. Inr (TimerQueue_resetTimerfd clock q1 (expiration tm)))) = Inr q2"
      "tq_inv es q2" "armed_inv clock q2" "timers q2 = timers q1" "timer_heap q2 = timer_heap q1" "queued q2 = queued q1"
      "fired q2 = fired q1" "clock_reads q1 \<le> clock_reads q2"
    using rearm_ok [OF q1(2), of clock] by blast
  from Cons.IH [OF q2(2)] q2(3) obtain q3 where q3: "TimerQueue_reset clock q2 es = Inr q3" "tq_inv [] q3"
      "fired q3 = fired q2" "queued q3 = queued q2" "set (timers q2) \<subseteq> set (timers q3)"
      "\<forall>t. t \<notin> snd ` set es \<longrightarrow> timer_heap q3 t = timer_heap q2 t" "\<forall>x \<in> set es. settled clock q2 q3 (snd x)"
      "clock_reads q2 \<le> clock_reads q3" "armed_inv clock q3" by auto
  have sep: "snd e \<noteq> snd x" if "x \<in> set es" for x
    using tq_inv_same_addr [OF Cons.prems, of e x] tq_invD(2) [OF Cons.prems] that by auto
  have "settled clock q q3 (snd e)"
    using settled_later [OF q1(7), of q3] q2 q3 sep by fastforce
  moreover have "settled clock q q3 (snd x)" if "x \<in> set es" for x
    using settled_earlier [of clock q2 q3 "snd x" q] q3(7) that q1(6,8) q2(5,8) sep [OF that] by auto
  moreover have "TimerQueue_reset clock q (e # es) = Inr q3" using q1(1) q2(1) q3(1) by simp
  ultimately show ?case using q1 q2 q3 by auto
qed simp

lemma timer_handleRead_ok:
  fixes clock :: clock
  assumes inv: "tq_inv [] q" and mal: "malloc_spec malloc"
    and mem: "TimerQueue_handleRead malloc does clock q \<noteq> Inl Bad_alloc"
  defines "expired \<equiv> filter (\<lambda>e. fst e \<le> clock (clock_reads q)) (timers q)"
  shows "\<exists>q'. TimerQueue_handleRead malloc does clock q = Inr q' \<and> tq_inv [] q' \<and> queued q' = queued q \<and>
     fired q' = fired q @ map (\<lambda>e. callback (the (timer_heap q (snd e)))) expired \<and>
     (\<forall>e \<in> set (timers q) - set expired. e \<in> set (timers q') \<and> timer_heap q' (snd e) = timer_heap q (snd e)) \<and>
     (\<forall>e \<in> set expired. settled clock q q' (snd e)) \<and> (expired \<noteq> [] \<longrightarrow> armed_inv clock q')"
proof -
  let ?now = "clock (clock_reads q)"
  let ?q0 = "q\<lparr>clock_reads := Suc (clock_reads q), armed := None\<rparr>"
  let ?late = "filter (\<lambda>e. ?now < fst e) (timers q)"
  let ?q1 = "?q0\<lparr>timers := ?late, callingExpiredTimers := True\<rparr>"
  have inv0: "tq_inv [] ?q0" using inv tq_inv_cong [of ?q0 q] by simp
  have get: "TimerQueue_getExpired ?q0 ?now = (expired, ?q0\<lparr>timers := ?late\<rparr>)"
    using getExpired_eq [OF inv0, of ?now] by (simp add: expired_def)
  have inv1: "tq_inv expired ?q1"
    using getExpired_inv [OF inv0, of ?now] tq_inv_cong [of ?q1 "?q0\<lparr>timers := ?late\<rparr>"] by (simp add: expired_def)
  have run: "TimerQueue_handleRead malloc does clock q = andthen (run_expired malloc does clock ?q1 expired)
      (\<lambda>q. TimerQueue_reset clock (q\<lparr>callingExpiredTimers := False\<rparr>) expired)"
    using get by (simp add: TimerQueue_handleRead_def Let_def)
  then have "run_expired malloc does clock ?q1 expired \<noteq> Inl Bad_alloc" using mem by (auto dest: andthen_no_error)
  then obtain q2 where q2: "run_expired malloc does clock ?q1 expired = Inr q2" "tq_inv expired q2"
      "timer_heap q \<subseteq>\<^sub>m timer_heap q2" "queued q2 = queued q"
      "fired q2 = fired q @ map (\<lambda>e. callback (the (timer_heap q (snd e)))) expired"
      "set ?late \<subseteq> set (timers q2)" "clock_reads q < clock_reads q2"
    using run_expired_ok [OF inv1 order_refl _ mal, of does clock] by (auto simp: Suc_le_eq)
  let ?q3 = "q2\<lparr>callingExpiredTimers := False\<rparr>"
  have "tq_inv expired ?q3" using q2(2) tq_inv_cong [of ?q3 q2] by simp
  from reset_ok [OF this, of clock] obtain q' where q': "TimerQueue_reset clock ?q3 expired = Inr q'" "tq_inv [] q'"
      "fired q' = fired q2" "queued q' = queued q2" "set (timers q2) \<subseteq> set (timers q')"
      "\<forall>t. t \<notin> snd ` set expired \<longrightarrow> timer_heap q' t = timer_heap q2 t"
      "\<forall>e \<in> set expired. settled clock ?q3 q' (snd e)" "expired \<noteq> [] \<longrightarrow> armed_inv clock q'" by auto
  have heap: "timer_heap q2 (snd e) = timer_heap q (snd e)" if "e \<in> set (timers q)" for e
    using tq_invD(4) [OF inv, of e] that q2(3) by (auto simp: map_le_def dom_def)
  have "settled clock q q' (snd e)" if "e \<in> set expired" for e
  proof (rule settled_earlier)
    show "settled clock ?q3 q' (snd e)" using q'(7) that by blast
  qed (use that heap q2(7) in \<open>auto simp: expired_def\<close>)
  moreover have "e \<in> set (timers q') \<and> timer_heap q' (snd e) = timer_heap q (snd e)"
    if "e \<in> set (timers q) - set expired" for e
  proof -
    have "e \<in> set ?late" using that by (auto simp: expired_def)
    then have "e \<in> set (timers q')" using q2(6) q'(5) by blast
    moreover have "snd e \<notin> snd ` set expired"
      using tq_inv_same_addr [OF inv, of e] that by (auto simp: expired_def)
    ultimately show ?thesis using q'(6) heap that by simp
  qed
  moreover have "TimerQueue_handleRead malloc does clock q = Inr q'"
    using run q2(1) q'(1) by simp
  ultimately show ?thesis using q2 q' by auto
qed

section \<open>Histories\<close>

text \<open>
  Timers are added in the loop's thread or from others, the loop inserts queued ones, and the descriptor,
  when armed, becomes readable some time. It counts with the monotonic clock while the queue reads the wall
  clock, so that at that moment the wall clock need not have come to the instant armed for, should it have
  been set back; \<open>steady\<close> says that this never happened so far.
\<close>

inductive tq_reach :: "'cb malloc \<Rightarrow> 'cb behaviour \<Rightarrow> clock \<Rightarrow> bool \<Rightarrow> 'cb TimerQueue \<Rightarrow> bool" for malloc does clock where
  new: "TimerQueue_new ctl p c timerfd = Inr (q, p') \<Longrightarrow> tq_reach malloc does clock True q"
| add: "tq_reach malloc does clock steady q \<Longrightarrow> TimerQueue_addTimer malloc clock inLoop q r = Inr q' \<Longrightarrow>
    tq_reach malloc does clock steady q'"
| queued: "tq_reach malloc does clock steady q \<Longrightarrow> run_queued clock q = Inr q' \<Longrightarrow> tq_reach malloc does clock steady q'"
| fire: "tq_reach malloc does clock steady q \<Longrightarrow> armed q = Some due \<Longrightarrow>
    TimerQueue_handleRead malloc does clock q = Inr q' \<Longrightarrow>
    tq_reach malloc does clock (steady \<and> due \<le> clock (clock_reads q)) q'"

lemma run_queued_ok:
  assumes inv: "tq_inv [] q"
  shows "\<exists>q'. run_queued clock q = Inr q' \<and> tq_inv [] q' \<and> (armed_inv clock q \<longrightarrow> armed_inv clock q')"
proof (cases "queued q")
  case (Cons t ts)
  let ?q = "q\<lparr>queued := ts\<rparr>"
  have "t \<in> dom (timer_heap q)" using tq_invD(5) [OF inv] Cons by simp
  then obtain tm where "timer_heap ?q t = Some tm" by auto
  moreover have "tq_inv [] (?q\<lparr>queued := t # queued ?q\<rparr>)" using inv Cons tq_inv_cong [of "?q\<lparr>queued := t # ts\<rparr>" q] by simp
  moreover have "armed_inv clock ?q = armed_inv clock q" by (simp add: armed_inv_def)
  ultimately show ?thesis using addTimerInLoop_ok [where q = ?q and t = t and clock = clock and E = "[]"] Cons by (auto simp: run_queued_def)
qed (use inv in \<open>simp add: run_queued_def\<close>)

lemma tq_reach_inv:
  assumes "tq_reach malloc does clock steady q" and mal: "malloc_spec malloc"
  shows "tq_inv [] q \<and> (steady \<longrightarrow> armed_inv clock q)"
  using assms(1)
proof induction
  case (new ctl p c timerfd q p')
  then show ?case
    by (auto simp: TimerQueue_new_def andthen_Inr_iff tq_inv_def armed_inv_def)
next
  case (add steady q inLoop r q')
  then show ?case
    using addTimer_ok [of "[]" q malloc clock inLoop "fst r" "fst (snd r)" "snd (snd r)"] mal by fastforce
next
  case (queued steady q q')
  then show ?case using run_queued_ok [of q clock] by auto
next
  case (fire steady q due q')
  have "armed_inv clock q'" if st: "steady" and due: "due \<le> clock (clock_reads q)"
  proof (cases "timers q")
    case Nil
    then show ?thesis
      using fire by (auto simp: TimerQueue_handleRead_def TimerQueue_getExpired_def armed_inv_def)
  next
    case (Cons e es)
    then have "fst e \<le> due" using fire st by (auto simp: armed_inv_def)
    then have "fst e \<le> clock (clock_reads q)" using due by simp
    then have "filter (\<lambda>e. fst e \<le> clock (clock_reads q)) (timers q) \<noteq> []" using Cons by simp
    then show ?thesis using timer_handleRead_ok [of q malloc does clock] fire mal by auto
  qed
  then show ?case using timer_handleRead_ok [of q malloc does clock] fire mal by auto
qed

section \<open>Properties\<close>

text \<open>
  C7. In every history, the set of timers is sorted and no timer is leaked or used after it was freed
  (the live timers are exactly those in the set or on their way into it). As long as the wall clock was never
  behind the instant the descriptor was armed for when it became readable, a set that is not empty means that
  the descriptor is armed for the earliest timer, or for 100 microseconds after a reading of the clock when
  that is later: no timer is forgotten. (When the wall clock was set back this fails, as
  \<open>TimerQueue_stalls_after_clock_step\<close> shows below.)
\<close>

theorem TimerQueue_armed_for_earliest:
  assumes "malloc_spec malloc" and "tq_reach malloc does clock steady q"
  shows "sorted (timers q) \<and> dom (timer_heap q) = snd ` set (timers q) \<union> set (queued q) \<and>
     (steady \<and> timers q \<noteq> [] \<longrightarrow>
        (\<exists>n < clock_reads q. armed q = Some (max (fst (hd (timers q))) (plus100 (clock n)))))"
  using tq_reach_inv [OF assms(2,1)] by (auto simp: tq_inv_def armed_inv_def)

text \<open>
  C21. When the descriptor becomes readable, \<open>handleRead\<close> returns (unless memory is exhausted by what the
  callbacks add), having called exactly the callbacks of the timers due, once each and in the order
  of their times. The timers not yet due stay; of those due, the repeating ones are in the set again,
  one interval after the clock was read for them, and the others are freed.
\<close>

theorem TimerQueue_handleRead_fires_due:
  assumes mal: "malloc_spec malloc" and r: "tq_reach malloc does clock steady q"
    and mem: "TimerQueue_handleRead malloc does clock q \<noteq> Inl Bad_alloc"
  shows "\<exists>q'. TimerQueue_handleRead malloc does clock q = Inr q' \<and>
     fired q' = fired q @ map (\<lambda>e. callback (the (timer_heap q (snd e))))
       (filter (\<lambda>e. fst e \<le> clock (clock_reads q)) (timers q)) \<and>
     (\<forall>e \<in> set (timers q). if fst e \<le> clock (clock_reads q) then settled clock q q' (snd e)
        else e \<in> set (timers q') \<and> timer_heap q' (snd e) = timer_heap q (snd e))"
proof -
  have "tq_inv [] q" using tq_reach_inv [OF r mal] by simp
  from timer_handleRead_ok [OF this mal mem] obtain q' where q': "TimerQueue_handleRead malloc does clock q = Inr q'"
      "fired q' = fired q @ map (\<lambda>e. callback (the (timer_heap q (snd e))))
         (filter (\<lambda>e. fst e \<le> clock (clock_reads q)) (timers q))"
      "\<forall>e \<in> set (timers q) - set (filter (\<lambda>e. fst e \<le> clock (clock_reads q)) (timers q)).
         e \<in> set (timers q') \<and> timer_heap q' (snd e) = timer_heap q (snd e)"
      "\<forall>e \<in> set (filter (\<lambda>e. fst e \<le> clock (clock_reads q)) (timers q)). settled clock q q' (snd e)"
    by blast
  from q'(3,4) have "\<forall>e \<in> set (timers q). if fst e \<le> clock (clock_reads q) then settled clock q q' (snd e)
      else e \<in> set (timers q') \<and> timer_heap q' (snd e) = timer_heap q (snd e)"
    by (simp add: Ball_def del: split_paired_All)
  with q'(1,2) show ?thesis by blast
qed

text \<open>
  C37. \<open>getExpired\<close>, which cuts the sorted set below the pair of the present and the greatest address,
  is equivalent to selecting the timers whose time is not after the present.
\<close>

theorem TimerQueue_getExpired_equals_filter:
  assumes "malloc_spec malloc" and "tq_reach malloc does clock steady q"
  shows "TimerQueue_getExpired q now =
     (filter (\<lambda>e. fst e \<le> now) (timers q), q\<lparr>timers := filter (\<lambda>e. \<not> fst e \<le> now) (timers q)\<rparr>)"
  using getExpired_eq [of q now] tq_reach_inv [OF assms(2,1)] by (simp add: not_le)

text \<open>
  The descriptor counts with the monotonic clock and the queue compares with the wall clock. When
  the wall clock was set back, so that the descriptor becomes readable before the first timer is due
  by it, \<open>handleRead\<close> takes nothing out and never arms the descriptor again; adding a timer that is
  not earlier than the first does not arm it either, so that no timer fires any more.
\<close>

theorem TimerQueue_stalls_after_clock_step:
  assumes mal: "malloc_spec malloc" and r: "tq_reach malloc does clock steady q"
    and nonempty: "timers q \<noteq> []" and early: "clock (clock_reads q) < fst (hd (timers q))"
    and late: "fst (hd (timers q)) \<le> when" and mem: "malloc (timer_heap q) \<noteq> None"
  shows "\<exists>q' q''. TimerQueue_handleRead malloc does clock q = Inr q' \<and> timers q' = timers q \<and> fired q' = fired q \<and>
     armed q' = None \<and> TimerQueue_addTimer malloc clock True q' (cb, when, intv) = Inr q'' \<and>
     set (timers q) \<subseteq> set (timers q'') \<and> armed q'' = None"
proof -
  have inv: "tq_inv [] q" using tq_reach_inv [OF r mal] by simp
  obtain e es where es: "timers q = e # es" using nonempty by (cases "timers q") auto
  have "fst e \<le> fst x" if "x \<in> set es" for x
    using tq_invD(1) [OF inv] es that by (auto simp: less_eq_prod_def)
  then have all: "clock (clock_reads q) < fst x" if "x \<in> set (timers q)" for x
    using early es that by (metis less_le_trans list.sel(1) set_ConsD)
  let ?q0 = "q\<lparr>clock_reads := Suc (clock_reads q), armed := None\<rparr>"
  let ?q' = "?q0\<lparr>callingExpiredTimers := False\<rparr>"
  have inv0: "tq_inv [] ?q0" "tq_inv [] ?q'" using inv by (simp_all add: tq_inv_def)
  have "filter (\<lambda>e. fst e \<le> clock (clock_reads q)) (timers q) = []"
    "filter (\<lambda>e. clock (clock_reads q) < fst e) (timers q) = timers q"
    using all by (auto simp: filter_empty_conv not_le intro!: filter_True)
  then have "TimerQueue_getExpired ?q0 (clock (clock_reads q)) = ([], ?q0)"
    using getExpired_eq [OF inv0(1), of "clock (clock_reads q)"] by simp
  then have hr: "TimerQueue_handleRead malloc does clock q = Inr ?q'"
    by (simp add: TimerQueue_handleRead_def Let_def)
  obtain t where t: "malloc (timer_heap q) = Some t" using mem by auto
  let ?h = "(timer_heap q)(t \<mapsto> Timer_new cb when intv)"
  let ?q'' = "?q'\<lparr>timer_heap := ?h, timers := insort_insert (when, t) (timers q)\<rparr>"
  have "TimerQueue_addTimer malloc clock True ?q' (cb, when, intv) = Inr ?q''"
    using t es late
    by (simp add: TimerQueue_addTimer_def TimerQueue_addTimerInLoop_def TimerQueue_insert_def timer_at_def
        Timer_new_def Let_def not_less)
  with hr show ?thesis by (intro exI [of _ ?q'] exI [of _ ?q'']) (auto simp: set_insort_insert)
qed

section \<open>Witnesses\<close>

definition first_free :: "nat malloc" where
  "first_free h = (if h 1 = None then Some 1 else if h 2 = None then Some 2 else None)"

lemma first_free_spec: "malloc_spec first_free"
  by (simp add: malloc_spec_def first_free_def UINTPTR_MAX_def)

definition once :: double where
  "once = \<lparr>positive = False, micros = 0\<rparr>"

text \<open>Callback 7 adds a timer for callback 8; one timer is set for instant 500, at instant 0.\<close>

definition sets_another :: "nat behaviour" where
  "sets_another cb q = (if cb = 7 then [(8, Timestamp 900, once)] else [])"

lemma example_queue:
  assumes "clock 0 = Timestamp 0"
  shows "\<exists>q. tq_reach first_free sets_another clock True q \<and> timers q = [(Timestamp 500, 1)] \<and>
     timer_heap q = [1 \<mapsto> Timer_new 7 (Timestamp 500) once] \<and> clock_reads q = 1 \<and> fired q = [] \<and>
     armed q = Some (Timestamp 500)"
proof -
  let ?e = "\<lparr>timers = [], callingExpiredTimers = False, timer_heap = Map.empty, armed = None, queued = [],
           clock_reads = 0, fired = []\<rparr> :: nat TimerQueue"
  let ?p = "EPollPoller_new (\<lambda>c. Channel_new (int c))"
  have "\<exists>p. Channel_enableReading kernel_ctl (set_chan ?p 5 ((Channel_new 5)\<lparr>readCallback := True\<rparr>)) 5 = Inr p"
    by (simp add: Channel_enableReading_def Channel_set_events_def EPollPoller_updateChannel_def set_chan_def
        set_index_def EPollPoller_update_def kernel_ctl_def EPollPoller_new_def Channel_new_def kNew_def Let_def)
  then obtain p where "TimerQueue_new kernel_ctl ?p 5 5 = Inr (?e, p)" by (auto simp: TimerQueue_new_def)
  then have r: "tq_reach first_free sets_another clock True ?e" by (rule tq_reach.new)
  let ?q = "?e\<lparr>timers := [(Timestamp 500, 1)], timer_heap := [1 \<mapsto> Timer_new 7 (Timestamp 500) once],
      clock_reads := 1, armed := Some (Timestamp 500)\<rparr>"
  have "TimerQueue_addTimer first_free clock True ?e (7, Timestamp 500, once) = Inr ?q"
    using assms by (simp add: TimerQueue_addTimer_def first_free_def TimerQueue_addTimerInLoop_def TimerQueue_insert_def
        timer_at_def Timer_new_def Let_def resetTimerfd_eq plus100_def max_Timestamp insort_insert_key_def)
  from tq_reach.add [OF r this] show ?thesis by (intro exI [of _ ?q]) simp
qed

theorem TimerQueue_armed_for_earliest_witness:
  "\<exists>q. tq_reach first_free sets_another (\<lambda>n. Timestamp (1000 * int n)) True q \<and> timers q = [(Timestamp 500, 1)] \<and>
     (\<exists>n < clock_reads q. armed q = Some (max (Timestamp 500) (plus100 (Timestamp (1000 * int n)))))"
proof -
  obtain q where "tq_reach first_free sets_another (\<lambda>n. Timestamp (1000 * int n)) True q" "timers q = [(Timestamp 500, 1)]"
    using example_queue [of "\<lambda>n. Timestamp (1000 * int n)"] by auto
  with TimerQueue_armed_for_earliest [OF first_free_spec this(1)] show ?thesis by auto
qed

theorem TimerQueue_handleRead_fires_due_witness:
  "\<exists>q q'. tq_reach first_free sets_another (\<lambda>n. Timestamp (1000 * int n)) True q \<and> timers q = [(Timestamp 500, 1)] \<and>
     TimerQueue_handleRead first_free sets_another (\<lambda>n. Timestamp (1000 * int n)) q = Inr q' \<and> fired q' = [7]"
proof -
  let ?c = "\<lambda>n. Timestamp (1000 * int n)"
  obtain q where q: "tq_reach first_free sets_another ?c True q" "timers q = [(Timestamp 500, 1)]"
      "timer_heap q = [1 \<mapsto> Timer_new 7 (Timestamp 500) once]" "clock_reads q = 1" "fired q = []"
    using example_queue [of ?c] by auto
  have "TimerQueue_handleRead first_free sets_another ?c q \<noteq> Inl Bad_alloc"
    using q(2-4)
    by (simp add: TimerQueue_handleRead_def TimerQueue_getExpired_def less_prod_def timer_at_def sets_another_def
        TimerQueue_addTimer_def first_free_def TimerQueue_addTimerInLoop_def TimerQueue_insert_def Timer_new_def
        reset_timer_def delete_timer_def once_def resetTimerfd_eq insort_insert_key_def)
  from TimerQueue_handleRead_fires_due [OF first_free_spec q(1) this] obtain q' where
      "TimerQueue_handleRead first_free sets_another ?c q = Inr q'" "fired q' = [7]"
    using q(2-5) by (auto simp: Timer_new_def)
  with q(1,2) show ?thesis by blast
qed

theorem TimerQueue_getExpired_equals_filter_witness:
  "\<exists>q. tq_reach first_free sets_another (\<lambda>n. Timestamp (1000 * int n)) True q \<and>
     TimerQueue_getExpired q (Timestamp 500) = ([(Timestamp 500, 1)], q\<lparr>timers := []\<rparr>)"
proof -
  obtain q where q: "tq_reach first_free sets_another (\<lambda>n. Timestamp (1000 * int n)) True q" "timers q = [(Timestamp 500, 1)]"
    using example_queue [of "\<lambda>n. Timestamp (1000 * int n)"] by auto
  with TimerQueue_getExpired_equals_filter [OF first_free_spec q(1), of "Timestamp 500"] show ?thesis
    by (intro exI [of _ q]) simp
qed

theorem TimerQueue_stalls_after_clock_step_witness:
  "\<exists>q q'. tq_reach first_free sets_another (\<lambda>n. Timestamp (- 3 * int n)) True q \<and> armed q = Some (Timestamp 500) \<and>
     TimerQueue_handleRead first_free sets_another (\<lambda>n. Timestamp (- 3 * int n)) q = Inr q' \<and>
     timers q' = [(Timestamp 500, 1)] \<and> armed q' = None"
proof -
  let ?c = "\<lambda>n. Timestamp (- 3 * int n)"
  obtain q where q: "tq_reach first_free sets_another ?c True q" "timers q = [(Timestamp 500, 1)]"
      "timer_heap q = [1 \<mapsto> Timer_new 7 (Timestamp 500) once]" "clock_reads q = 1" "armed q = Some (Timestamp 500)"
    using example_queue [of ?c] by auto
  have "first_free (timer_heap q) \<noteq> None" using q(3) by (simp add: first_free_def)
  with TimerQueue_stalls_after_clock_step [OF first_free_spec q(1), of "Timestamp 600" 9 once] q(2-4) obtain q' where
      "TimerQueue_handleRead first_free sets_another ?c q = Inr q'" "timers q' = [(Timestamp 500, 1)]" "armed q' = None"
    by auto
  with q(1,5) show ?thesis by blast
qed

end
