(* ===== verification/Util_FreqList.thy ===== *)
theory Util_FreqList
  imports Prelude
begin

text \<open>
  The doubly linked lists of the LFU cache (class \<open>FreqList\<close> of \<open>include/util/RainLfu.h\<close>) in a heap of
  nodes. A node's \<open>next\<close> and \<open>pre\<close> are addresses or null. Nodes are never removed from the heap: the
  sources hold them by \<open>shared_ptr\<close>, and the only test that could see a node disappear,
  \<open>pre.expired()\<close>, is made on unlinked nodes, which \<open>removeNode\<close> refuses for their null \<open>next\<close> as well.
  The dummy nodes at both ends are default-constructed: their key and value are whatever that leaves,
  an argument of the model.

  The pointer operations are related to operations on the list of the addresses between the dummies;
  clients use them through the interface \<open>node_lists\<close>.
\<close>

section \<open>Nodes and lists\<close>

type_synonym addr = nat

record ('k, 'v) Node =
  freq :: int
  node_key :: 'k
  node_value :: 'v
  pre :: "addr option"
  nxt :: "addr option"

type_synonym ('k, 'v) node_heap = "addr \<rightharpoonup> ('k, 'v) Node"

record FreqList =
  list_freq :: int
  head :: addr
  tail :: addr

definition Node_new :: "'k \<Rightarrow> 'v \<Rightarrow> ('k, 'v) Node" where
  "Node_new k v = \<lparr>freq = 1, node_key = k, node_value = v, pre = None, nxt = None\<rparr>"

definition deref :: "('k, 'v) node_heap \<Rightarrow> addr \<Rightarrow> ('k, 'v) Node result" where
  "deref h a = (case h a of None \<Rightarrow> Inl Dangling_deref | Some n \<Rightarrow> Inr n)"

definition set_node :: "addr \<Rightarrow> (('k, 'v) Node \<Rightarrow> ('k, 'v) Node) \<Rightarrow> ('k, 'v) node_heap \<Rightarrow> ('k, 'v) node_heap result" where
  "set_node a f h = andthen (deref h a) (\<lambda>n. Inr (h(a \<mapsto> f n)))"

text \<open>The constructor; the dummies are allocated at \<open>a\<close> and \<open>a + 1\<close>.\<close>

definition FreqList_new :: "'k \<times> 'v \<Rightarrow> addr \<Rightarrow> int \<Rightarrow> ('k, 'v) node_heap \<Rightarrow> FreqList \<times> ('k, 'v) node_heap" where
  "FreqList_new junk a n h =
     (let d = Node_new (fst junk) (snd junk) in
      (\<lparr>list_freq = n, head = a, tail = a + 1\<rparr>,
       h(a \<mapsto> d\<lparr>nxt := Some (a + 1)\<rparr>, a + 1 \<mapsto> d\<lparr>pre := Some a\<rparr>)))"

definition FreqList_isEmpty :: "('k, 'v) node_heap \<Rightarrow> FreqList \<Rightarrow> bool result" where
  "FreqList_isEmpty h l = andthen (deref h (head l)) (\<lambda>n. Inr (nxt n = Some (tail l)))"

definition FreqList_getFirstNode :: "('k, 'v) node_heap \<Rightarrow> FreqList \<Rightarrow> addr option result" where
  "FreqList_getFirstNode h l = andthen (deref h (head l)) (\<lambda>n. Inr (nxt n))"

definition FreqList_addNode :: "('k, 'v) node_heap \<Rightarrow> FreqList \<Rightarrow> addr \<Rightarrow> ('k, 'v) node_heap result" where
  "FreqList_addNode h l node =
     andthen (deref h (tail l)) (\<lambda>t.
     andthen (set_node node (\<lambda>n. n\<lparr>pre := pre t, nxt := Some (tail l)\<rparr>) h) (\<lambda>h.
     andthen (deref h (tail l)) (\<lambda>t.
       case pre t of None \<Rightarrow> Inl Null_deref
       | Some p \<Rightarrow> andthen (set_node p (\<lambda>n. n\<lparr>nxt := Some node\<rparr>) h) (\<lambda>h.
           set_node (tail l) (\<lambda>n. n\<lparr>pre := Some node\<rparr>) h))))"

definition FreqList_removeNode :: "('k, 'v) node_heap \<Rightarrow> FreqList \<Rightarrow> addr \<Rightarrow> ('k, 'v) node_heap result" where
  "FreqList_removeNode h l node =
     andthen (deref h node) (\<lambda>n.
       case pre n of None \<Rightarrow> Inr h
       | Some p \<Rightarrow>
         (case nxt n of None \<Rightarrow> Inr h
          | Some y \<Rightarrow>
              andthen (set_node p (\<lambda>n. n\<lparr>nxt := Some y\<rparr>) h) (\<lambda>h.
              andthen (set_node y (\<lambda>n. n\<lparr>pre := Some p\<rparr>) h) (\<lambda>h.
              set_node node (\<lambda>n. n\<lparr>nxt := None\<rparr>) h))))"

section \<open>Paths\<close>

text \<open>\<open>linked h as\<close>: the nodes at \<open>as\<close> point to each other, forwards and backwards.\<close>

definition points :: "('k, 'v) node_heap \<Rightarrow> addr \<Rightarrow> addr \<Rightarrow> bool" where
  "points h a b \<longleftrightarrow> (\<exists>n m. h a = Some n \<and> h b = Some m \<and> nxt n = Some b \<and> pre m = Some a)"

fun linked :: "('k, 'v) node_heap \<Rightarrow> addr list \<Rightarrow> bool" where
  "linked h [] \<longleftrightarrow> True"
| "linked h [a] \<longleftrightarrow> a \<in> dom h"
| "linked h (a # b # as) \<longleftrightarrow> points h a b \<and> linked h (b # as)"

lemma linked_dom: "linked h as \<Longrightarrow> set as \<subseteq> dom h"
  by (induction h as rule: linked.induct) (auto simp: points_def)

lemma linked_append: "linked h (as @ b # cs) \<longleftrightarrow> linked h (as @ [b]) \<and> linked h (b # cs)"
proof (induction as)
  case Nil
  then show ?case using linked_dom [of h "b # cs"] by auto
next
  case (Cons a as)
  then show ?case by (cases as) auto
qed

lemma linked_snoc2: "linked h (as @ [b, c]) \<longleftrightarrow> linked h (as @ [b]) \<and> points h b c"
proof -
  have "points h b c \<Longrightarrow> c \<in> dom h" by (auto simp: points_def)
  then show ?thesis using linked_append [of h as b "[c]"] by auto
qed

lemma in_set_tlD: "x \<in> set (tl xs) \<Longrightarrow> x \<in> set xs"
  by (cases xs) auto

definition nxt_of :: "('k, 'v) node_heap \<Rightarrow> addr \<Rightarrow> addr option option" where
  "nxt_of h a = map_option nxt (h a)"

definition pre_of :: "('k, 'v) node_heap \<Rightarrow> addr \<Rightarrow> addr option option" where
  "pre_of h a = map_option pre (h a)"

lemma points_iff: "points h a b \<longleftrightarrow> nxt_of h a = Some (Some b) \<and> pre_of h b = Some (Some a)"
  by (auto simp: points_def nxt_of_def pre_of_def)

text \<open>Only the forward pointers of all but the last and the backward ones of all but the first matter.\<close>

lemma linked_frame:
  assumes "dom h' \<inter> set as = dom h \<inter> set as" and "\<And>a. a \<in> set (butlast as) \<Longrightarrow> nxt_of h' a = nxt_of h a"
    and "\<And>a. a \<in> set (tl as) \<Longrightarrow> pre_of h' a = pre_of h a"
  shows "linked h' as \<longleftrightarrow> linked h as"
  using assms
proof (induction h as rule: linked.induct)
  case (3 h a b as)
  have "linked h' (b # as) \<longleftrightarrow> linked h (b # as)"
  proof (rule "3.IH")
    show "dom h' \<inter> set (b # as) = dom h \<inter> set (b # as)" using "3.prems"(1) by auto
    show "nxt_of h' x = nxt_of h x" if "x \<in> set (butlast (b # as))" for x using "3.prems"(2) that by auto
    show "pre_of h' x = pre_of h x" if "x \<in> set (tl (b # as))" for x using "3.prems"(3) that by auto
  qed
  moreover have "points h' a b \<longleftrightarrow> points h a b" using "3.prems"(2) [of a] "3.prems"(3) [of b] by (simp add: points_iff)
  ultimately show ?case by simp
qed auto

section \<open>The list of a \<open>FreqList\<close>\<close>

text \<open>
  \<open>fl_rel h l as\<close>: the list \<open>l\<close> holds the nodes \<open>as\<close>, in this order, between its dummies. The nodes it
  depends on are its footprint; the data of a node are its fields apart from the links.
\<close>

definition fl_rel :: "('k, 'v) node_heap \<Rightarrow> FreqList \<Rightarrow> addr list \<Rightarrow> bool" where
  "fl_rel h l as \<longleftrightarrow> distinct (head l # as @ [tail l]) \<and> linked h (head l # as @ [tail l]) \<and> nxt_of h (tail l) = Some None"

definition footprint :: "FreqList \<Rightarrow> addr list \<Rightarrow> addr set" where
  "footprint l as = insert (head l) (insert (tail l) (set as))"

definition data :: "('k, 'v) node_heap \<Rightarrow> addr \<Rightarrow> (int \<times> 'k \<times> 'v) option" where
  "data h a = map_option (\<lambda>n. (freq n, node_key n, node_value n)) (h a)"

lemma fl_rel_dom: "fl_rel h l as \<Longrightarrow> footprint l as \<subseteq> dom h"
  using linked_dom [of h "head l # as @ [tail l]"] by (auto simp: fl_rel_def footprint_def)

lemma fl_rel_frame:
  assumes "\<And>a. a \<in> footprint l as \<Longrightarrow> h' a = h a"
  shows "fl_rel h' l as \<longleftrightarrow> fl_rel h l as"
proof -
  have eq: "h' a = h a" if "a \<in> set (head l # as @ [tail l])" for a using assms that by (auto simp: footprint_def)
  have "linked h' (head l # as @ [tail l]) \<longleftrightarrow> linked h (head l # as @ [tail l])"
  proof (rule linked_frame)
    show "dom h' \<inter> set (head l # as @ [tail l]) = dom h \<inter> set (head l # as @ [tail l])"
      using eq by (auto simp: domIff)
    show "nxt_of h' a = nxt_of h a" if "a \<in> set (butlast (head l # as @ [tail l]))" for a
      using eq [OF in_set_butlastD [OF that]] by (simp add: nxt_of_def)
    show "pre_of h' a = pre_of h a" if "a \<in> set (tl (head l # as @ [tail l]))" for a
      using eq [of a] that by (simp add: pre_of_def)
  qed
  moreover have "nxt_of h' (tail l) = nxt_of h (tail l)" using eq [of "tail l"] by (simp add: nxt_of_def)
  ultimately show ?thesis by (simp add: fl_rel_def)
qed

text \<open>Only the links matter.\<close>

lemma fl_rel_links:
  assumes "\<And>a. nxt_of h' a = nxt_of h a" and "\<And>a. pre_of h' a = pre_of h a"
  shows "fl_rel h' l as \<longleftrightarrow> fl_rel h l as"
proof -
  have "a \<in> dom h' \<longleftrightarrow> a \<in> dom h" for a 
    using assms(1) [of a] by (metis (no_types, lifting) domIff map_option_is_None nxt_of_def)
  then have "linked h' bs \<longleftrightarrow> linked h bs" for bs using assms by (intro linked_frame) auto
  then show ?thesis using assms by (simp add: fl_rel_def)
qed

lemma add_ok:
  assumes rel: "fl_rel h l as" and a: "a \<notin> footprint l as" "h a = Some n"
  shows "\<exists>h'. FreqList_addNode h l a = Inr h' \<and> fl_rel h' l (as @ [a]) \<and> data h' = data h \<and>
     (\<forall>b. b \<notin> insert a (footprint l as) \<longrightarrow> h' b = h b)"
proof -
  obtain ps p where ps: "head l # as = ps @ [p]" by (metis append_butlast_last_id list.distinct(1))
  let ?t = "tail l"
  have path0: "head l # as @ [?t] = ps @ [p, ?t]" using ps by (metis append.assoc append_Cons append_Nil)
  then have dist: "distinct (ps @ [p, ?t])" and link: "linked h (ps @ [p, ?t])"
    using rel unfolding fl_rel_def path0 by blast+
  have foot: "footprint l as = set (ps @ [p, ?t])"
  proof -
    have "set (head l # as) = set (ps @ [p])" using ps by simp
    then show ?thesis by (auto simp: footprint_def)
  qed
  from link obtain pn t where pt: "h p = Some pn" "h ?t = Some t" "nxt pn = Some ?t" "pre t = Some p"
    by (auto simp: linked_snoc2 points_def)
  have ne: "a \<noteq> p" "a \<noteq> ?t" "p \<noteq> ?t" using a(1) dist foot by auto
  let ?h = "h(a \<mapsto> n\<lparr>pre := Some p, nxt := Some ?t\<rparr>, p \<mapsto> pn\<lparr>nxt := Some a\<rparr>, ?t \<mapsto> t\<lparr>pre := Some a\<rparr>)"
  have run: "FreqList_addNode h l a = Inr ?h"
    using pt a(2) ne by (simp add: FreqList_addNode_def deref_def set_node_def)
  have "linked ?h (ps @ [p]) \<longleftrightarrow> linked h (ps @ [p])"
  proof (rule linked_frame)
    show "dom ?h \<inter> set (ps @ [p]) = dom h \<inter> set (ps @ [p])" using pt a foot by auto
    show "nxt_of ?h x = nxt_of h x" if "x \<in> set (butlast (ps @ [p]))" for x
      using that dist a(1) foot by (auto simp: nxt_of_def)
    show "pre_of ?h x = pre_of h x" if "x \<in> set (tl (ps @ [p]))" for x
      using in_set_tlD [OF that] dist a(1) foot pt by (auto simp: pre_of_def)
  qed
  moreover have "points ?h p a" "points ?h a ?t" using ne by (simp_all add: points_def)
  ultimately have "linked ?h (ps @ [p, a, ?t])"
    using link linked_snoc2 [of ?h "ps @ [p]" a ?t] linked_snoc2 [of ?h ps p a] linked_snoc2 [of h ps p ?t] by simp
  moreover have "nxt_of ?h ?t = Some None" using rel pt by (simp add: fl_rel_def nxt_of_def)
  moreover have path: "head l # (as @ [a]) @ [?t] = ps @ [p, a, ?t]" using ps by (metis append.assoc append_Cons append_Nil)
  moreover have "distinct (ps @ [p, a, ?t])" using dist a(1) foot by auto
  ultimately have "fl_rel ?h l (as @ [a])" unfolding fl_rel_def path by blast
  moreover have "data ?h = data h" using pt a(2) by (auto simp: data_def fun_eq_iff)
  ultimately show ?thesis using run foot by (intro exI [of _ ?h]) auto
qed

lemma remove_ok:
  assumes rel: "fl_rel h l (xs @ a # zs)"
  shows "\<exists>h'. FreqList_removeNode h l a = Inr h' \<and> fl_rel h' l (xs @ zs) \<and> data h' = data h \<and>
     (\<forall>b. b \<notin> footprint l (xs @ a # zs) \<longrightarrow> h' b = h b)"
proof -
  let ?t = "tail l"
  obtain ps p where ps: "head l # xs = ps @ [p]" by (metis append_butlast_last_id list.distinct(1))
  obtain y qs where qs: "zs @ [?t] = y # qs" by (metis append_is_Nil_conv list.exhaust not_Cons_self2)
  have path: "head l # (xs @ a # zs) @ [?t] = ps @ p # a # y # qs" and path': "head l # (xs @ zs) @ [?t] = ps @ p # y # qs"
    using ps qs by (metis append.assoc append_Cons append_Nil)+
  then have dist: "distinct (ps @ p # a # y # qs)" and link: "linked h (ps @ p # a # y # qs)"
    using rel unfolding fl_rel_def path by blast+
  have foot: "footprint l (xs @ a # zs) = set (ps @ p # a # y # qs)"
    unfolding path [symmetric] by (auto simp: footprint_def)
  from link have parts: "linked h (ps @ [p])" "points h p a" "points h a y" "linked h (y # qs)"
    using linked_append [of h ps p "a # y # qs"] by simp_all
  then obtain pn n yn where nodes: "h p = Some pn" "h a = Some n" "h y = Some yn" "pre n = Some p" "nxt n = Some y"
      "nxt pn = Some a" "pre yn = Some a"
    by (auto simp: points_def)
  have ne: "p \<noteq> a" "p \<noteq> y" "a \<noteq> y" using dist by auto
  let ?h = "h(p \<mapsto> pn\<lparr>nxt := Some y\<rparr>, y \<mapsto> yn\<lparr>pre := Some p\<rparr>, a \<mapsto> n\<lparr>nxt := None\<rparr>)"
  have run: "FreqList_removeNode h l a = Inr ?h"
    using nodes ne by (simp add: FreqList_removeNode_def deref_def set_node_def)
  have "linked ?h (ps @ [p]) \<longleftrightarrow> linked h (ps @ [p])"
  proof (rule linked_frame)
    show "dom ?h \<inter> set (ps @ [p]) = dom h \<inter> set (ps @ [p])" using nodes by auto
    show "nxt_of ?h x = nxt_of h x" if "x \<in> set (butlast (ps @ [p]))" for x
      using that dist by (auto simp: nxt_of_def)
    show "pre_of ?h x = pre_of h x" if "x \<in> set (tl (ps @ [p]))" for x
      using in_set_tlD [OF that] dist nodes by (auto simp: pre_of_def)
  qed
  moreover have "linked ?h (y # qs) \<longleftrightarrow> linked h (y # qs)"
  proof (rule linked_frame)
    show "dom ?h \<inter> set (y # qs) = dom h \<inter> set (y # qs)" using nodes by auto
    show "nxt_of ?h x = nxt_of h x" if "x \<in> set (butlast (y # qs))" for x
      using that dist nodes by (auto simp: nxt_of_def dest: in_set_butlastD split: if_splits)
    show "pre_of ?h x = pre_of h x" if "x \<in> set (tl (y # qs))" for x
      using that dist by (auto simp: pre_of_def)
  qed
  moreover have "points ?h p y" using ne by (simp add: points_def)
  ultimately have "linked ?h (ps @ p # y # qs)" using parts linked_append [of ?h ps p "y # qs"] by simp
  moreover have "?t \<in> set (y # qs)" using qs by (metis in_set_conv_decomp)
  then have "nxt_of ?h ?t = nxt_of h ?t" using dist nodes by (auto simp: nxt_of_def)
  then have "nxt_of ?h ?t = Some None" using rel by (simp add: fl_rel_def)
  moreover have "distinct (ps @ p # y # qs)" using dist by auto
  ultimately have "fl_rel ?h l (xs @ zs)" unfolding fl_rel_def path' by blast
  moreover have "data ?h = data h" using nodes by (auto simp: data_def fun_eq_iff)
  ultimately show ?thesis using run foot by (intro exI [of _ ?h]) auto
qed

lemma first_ok:
  assumes "fl_rel h l as"
  shows "FreqList_getFirstNode h l = Inr (Some (hd (as @ [tail l])))" and "FreqList_isEmpty h l = Inr (as = [])"
proof -
  obtain n where n: "h (head l) = Some n" "nxt n = Some (hd (as @ [tail l]))"
    using assms by (cases as) (auto simp: fl_rel_def points_def)
  then show "FreqList_getFirstNode h l = Inr (Some (hd (as @ [tail l])))"
    by (simp add: FreqList_getFirstNode_def deref_def)
  have "hd (as @ [tail l]) = tail l \<longleftrightarrow> as = []" using assms by (cases as) (auto simp: fl_rel_def)
  then show "FreqList_isEmpty h l = Inr (as = [])" using n by (simp add: FreqList_isEmpty_def deref_def)
qed

lemma new_ok:
  "fl_rel (snd (FreqList_new junk a n h)) (fst (FreqList_new junk a n h)) []"
  by (simp add: FreqList_new_def Let_def fl_rel_def points_def nxt_of_def Node_new_def)

section \<open>The interface\<close>

text \<open>
  What a client of the lists relies on: a relation between the heap, a list and its sequence of
  nodes, which only depends on the footprint, and the effect of each operation on that sequence. The
  data of the nodes are never changed by list operations.
\<close>

locale node_lists =
  fixes rel :: "'h \<Rightarrow> 'l \<Rightarrow> 'a list \<Rightarrow> bool" and foot :: "'l \<Rightarrow> 'a list \<Rightarrow> 'a set" and cell :: "'h \<Rightarrow> 'a \<Rightarrow> 'c option"
    and contents :: "'h \<Rightarrow> 'a \<Rightarrow> 'd option"
    and add :: "'h \<Rightarrow> 'l \<Rightarrow> 'a \<Rightarrow> 'h result" and rem :: "'h \<Rightarrow> 'l \<Rightarrow> 'a \<Rightarrow> 'h result"
  assumes rel_frame: "(\<And>a. a \<in> foot l as \<Longrightarrow> cell h' a = cell h a) \<Longrightarrow> rel h' l as \<longleftrightarrow> rel h l as"
    and foot_add: "foot l (as @ [a]) = insert a (foot l as)"
    and foot_remove: "foot l (xs @ zs) \<subseteq> foot l (xs @ a # zs)"
    and foot_members: "set as \<subseteq> foot l as"
    and rel_distinct: "rel h l as \<Longrightarrow> distinct as"
    and add_rel: "rel h l as \<Longrightarrow> a \<notin> foot l as \<Longrightarrow> cell h a \<noteq> None \<Longrightarrow>
      \<exists>h'. add h l a = Inr h' \<and> rel h' l (as @ [a]) \<and> contents h' = contents h \<and>
        (\<forall>b. b \<notin> insert a (foot l as) \<longrightarrow> cell h' b = cell h b)"
    and rem_rel: "rel h l (xs @ a # zs) \<Longrightarrow>
      \<exists>h'. rem h l a = Inr h' \<and> rel h' l (xs @ zs) \<and> contents h' = contents h \<and>
        (\<forall>b. b \<notin> foot l (xs @ a # zs) \<longrightarrow> cell h' b = cell h b)"
begin

text \<open>A change to one list leaves every disjoint list as it is.\<close>

lemma add_other:
  assumes "rel h l as" and "a \<notin> foot l as" and "cell h a \<noteq> None" and "add h l a = Inr h'"
    and "rel h k bs" and "foot k bs \<inter> insert a (foot l as) = {}"
  shows "rel h' k bs"
proof -
  have "\<forall>b. b \<notin> insert a (foot l as) \<longrightarrow> cell h' b = cell h b" using add_rel [OF assms(1-3)] assms(4) by auto
  then show ?thesis using rel_frame [of k bs h' h] assms(5,6) by blast
qed

lemma rem_other:
  assumes "rel h l (xs @ a # zs)" and "rem h l a = Inr h'" and "rel h k bs" and "foot k bs \<inter> foot l (xs @ a # zs) = {}"
  shows "rel h' k bs"
proof -
  have "\<forall>b. b \<notin> foot l (xs @ a # zs) \<longrightarrow> cell h' b = cell h b" using rem_rel [OF assms(1)] assms(2) by auto
  then show ?thesis using rel_frame [of k bs h' h] assms(3,4) by blast
qed

text \<open>Removing a node and adding it again moves it to the end.\<close>

lemma move_to_end:
  assumes "rel h l (xs @ a # zs)" and cell: "\<And>h'. contents h' = contents h \<Longrightarrow> cell h' a \<noteq> None"
    and out: "a \<notin> foot l (xs @ zs)"
  shows "\<exists>h1 h2. rem h l a = Inr h1 \<and> add h1 l a = Inr h2 \<and> rel h2 l (xs @ zs @ [a])"
proof -
  obtain h1 where h1: "rem h l a = Inr h1" "rel h1 l (xs @ zs)" "contents h1 = contents h" using rem_rel [OF assms(1)] by blast
  from add_rel [OF h1(2) out cell [OF h1(3)]] h1(1) show ?thesis by auto
qed

end

interpretation fl: node_lists fl_rel footprint "\<lambda>h. h" data FreqList_addNode FreqList_removeNode
proof (unfold_locales, goal_cases)
  case 1
  then show ?case by (rule fl_rel_frame)
next
  case 2
  then show ?case by (auto simp: footprint_def)
next
  case 3
  then show ?case by (auto simp: footprint_def)
next
  case 4
  then show ?case by (auto simp: footprint_def)
next
  case 5
  then show ?case by (simp add: fl_rel_def)
next
  case (6 h l as a)
  then show ?case using add_ok by (metis not_None_eq)
next
  case 7
  then show ?case by (rule remove_ok)
qed

end
