(* ===== verification/Util_Cache.thy ===== *)
theory Util_Cache
  imports Prelude
begin

text \<open>
  \<open>RainCache.h\<close> as a contract: after a \<open>put\<close> the key has the value, other keys keep theirs or are dropped;
  \<open>get\<close> returns what the key has and changes nothing visible. \<open>ok\<close> says of a state that the cache may be
  used further. The client lemmas are about sequences of calls.
\<close>

datatype ('k, 'v) cache_op = Put 'k 'v | Get 'k

primrec last_put :: "('k, 'v) cache_op list \<Rightarrow> 'k \<Rightarrow> 'v option" where
  "last_put [] k = None"
| "last_put (p # ops) k = (case last_put ops k of Some v \<Rightarrow> Some v
     | None \<Rightarrow> (case p of Put k' v \<Rightarrow> if k' = k then Some v else None | Get _ \<Rightarrow> None))"

locale rain_cache =
  fixes inv ok :: "'s \<Rightarrow> bool" and view :: "'s \<Rightarrow> 'k \<rightharpoonup> 'v"
    and put :: "'s \<Rightarrow> 'k \<Rightarrow> 'v \<Rightarrow> 's result" and get :: "'s \<Rightarrow> 'k \<Rightarrow> ('v option \<times> 's) result"
  assumes put_law: "inv s \<Longrightarrow> \<exists>s'. put s k v = Inr s' \<and> view s' k = Some v \<and> view s' \<subseteq>\<^sub>m (view s)(k \<mapsto> v) \<and> (ok s' \<longrightarrow> inv s')"
    and get_law: "inv s \<Longrightarrow> \<exists>s'. get s k = Inr (view s k, s') \<and> view s' = view s \<and> (ok s' \<longrightarrow> inv s')"
begin

text \<open>A history of calls, each of which leaves the cache usable.\<close>

primrec exec :: "'s \<Rightarrow> ('k, 'v) cache_op \<Rightarrow> 's result" where
  "exec s (Put k v) = put s k v"
| "exec s (Get k) = andthen (get s k) (\<lambda>(_, s). Inr s)"

primrec hist :: "'s \<Rightarrow> ('k, 'v) cache_op list \<Rightarrow> 's \<Rightarrow> bool" where
  "hist s [] t \<longleftrightarrow> t = s"
| "hist s (p # ops) t \<longleftrightarrow> (\<exists>s'. exec s p = Inr s' \<and> ok s' \<and> hist s' ops t)"

lemma exec_ok:
  assumes "inv s"
  shows "\<exists>s'. exec s p = Inr s' \<and> (ok s' \<longrightarrow> inv s') \<and>
     view s' \<subseteq>\<^sub>m (case p of Put k v \<Rightarrow> (view s)(k \<mapsto> v) | Get _ \<Rightarrow> view s)"
proof (cases p)
  case (Put k v)
  then show ?thesis using put_law [OF assms, of k v] by auto
next
  case (Get k)
  then show ?thesis using get_law [OF assms, of k] by auto
qed

lemma hist_inv: "hist s ops t \<Longrightarrow> inv s \<Longrightarrow> inv t"
proof (induction ops arbitrary: s)
  case (Cons p ops)
  then show ?case using exec_ok [of s p] by auto
qed simp

lemma hist_coherent:
  assumes "hist s ops t" and "inv s" and "view t k = Some v"
  shows "last_put ops k = Some v \<or> (last_put ops k = None \<and> view s k = Some v)"
  using assms(1,2)
proof (induction ops arbitrary: s)
  case Nil
  then show ?case using assms(3) by simp
next
  case (Cons p ops)
  then obtain s1 where s1: "exec s p = Inr s1" "ok s1" "hist s1 ops t" by auto
  obtain inv1: "inv s1" and le: "view s1 \<subseteq>\<^sub>m (case p of Put k v \<Rightarrow> (view s)(k \<mapsto> v) | Get _ \<Rightarrow> view s)"
    using exec_ok [OF Cons.prems(2), of p] s1(1,2) by auto
  from Cons.IH [OF s1(3) inv1] show ?case
  proof (elim disjE conjE)
    assume none: "last_put ops k = None" and v: "view s1 k = Some v"
    then have "(case p of Put k v \<Rightarrow> (view s)(k \<mapsto> v) | Get _ \<Rightarrow> view s) k = Some v"
      using le by (auto simp: map_le_def dom_def)
    then show ?case using none by (cases p) (auto split: if_splits)
  qed simp
qed

lemma get_returns_last_put:
  assumes "hist s ops t" and "inv s" and "view s = Map.empty"
  shows "\<exists>r t'. get t k = Inr (r, t') \<and> (r = None \<or> r = last_put ops k)"
proof -
  obtain t' where "get t k = Inr (view t k, t')" using get_law [OF hist_inv [OF assms(1,2)]] by blast
  moreover have "view t k = None \<or> view t k = last_put ops k"
    using hist_coherent [OF assms(1,2)] assms(3) by (cases "view t k") auto
  ultimately show ?thesis by blast
qed

text \<open>Keys distributed over an array of caches.\<close>

definition shard_view :: "('k \<Rightarrow> nat) \<Rightarrow> 's list \<Rightarrow> 'k \<rightharpoonup> 'v" where
  "shard_view idx ss k = (if idx k < length ss then view (ss ! idx k) k else None)"

lemma shard_put:
  assumes "\<And>s. s \<in> set ss \<Longrightarrow> inv s" and i: "idx k < length ss"
  shows "\<exists>s'. put (ss ! idx k) k v = Inr s' \<and> shard_view idx (ss[idx k := s']) k = Some v \<and>
     shard_view idx (ss[idx k := s']) \<subseteq>\<^sub>m (shard_view idx ss)(k \<mapsto> v) \<and> (ok s' \<longrightarrow> (\<forall>s \<in> set (ss[idx k := s']). inv s))"
proof -
  have "inv (ss ! idx k)" using assms by simp
  from put_law [OF this, of k v] obtain s' where s': "put (ss ! idx k) k v = Inr s'" "view s' k = Some v"
      "view s' \<subseteq>\<^sub>m (view (ss ! idx k))(k \<mapsto> v)" "ok s' \<longrightarrow> inv s'" by blast
  have "shard_view idx (ss[idx k := s']) \<subseteq>\<^sub>m (shard_view idx ss)(k \<mapsto> v)"
    unfolding map_le_def
  proof
    fix k' assume dom: "k' \<in> dom (shard_view idx (ss[idx k := s']))"
    show "shard_view idx (ss[idx k := s']) k' = ((shard_view idx ss)(k \<mapsto> v)) k'"
    proof (cases "idx k' = idx k")
      case True
      then have "k' \<in> dom (view s')" using dom i by (auto simp: shard_view_def)
      then show ?thesis using s'(3) True i by (auto simp: map_le_def shard_view_def)
    next
      case False
      then have "k' \<noteq> k" by auto
      then show ?thesis using False by (simp add: shard_view_def)
    qed
  qed
  moreover have "inv s" if "ok s'" "s \<in> set (ss[idx k := s'])" for s
    using that s'(4) assms(1) set_update_subset_insert [of ss "idx k" s'] by auto
  ultimately show ?thesis using s' i by (auto simp: shard_view_def)
qed

lemma shard_get:
  assumes "\<And>s. s \<in> set ss \<Longrightarrow> inv s" and i: "idx k < length ss"
  shows "\<exists>s'. get (ss ! idx k) k = Inr (shard_view idx ss k, s') \<and> shard_view idx (ss[idx k := s']) = shard_view idx ss \<and>
     (ok s' \<longrightarrow> (\<forall>s \<in> set (ss[idx k := s']). inv s))"
proof -
  have "inv (ss ! idx k)" using assms by simp
  from get_law [OF this, of k] obtain s' where s': "get (ss ! idx k) k = Inr (view (ss ! idx k) k, s')"
      "view s' = view (ss ! idx k)" "ok s' \<longrightarrow> inv s'" by blast
  have "shard_view idx (ss[idx k := s']) k' = shard_view idx ss k'" for k'
    using s'(2) i by (cases "idx k' = idx k") (simp_all add: shard_view_def)
  moreover have "inv s" if "ok s'" "s \<in> set (ss[idx k := s'])" for s
    using that s'(3) assms(1) set_update_subset_insert [of ss "idx k" s'] by auto
  ultimately show ?thesis using s'(1) i by (auto simp: shard_view_def)
qed

end

end
