(* ===== verification/Util_Lfu.thy ===== *)
theory Util_Lfu
  imports Util_FreqList Util_Cache "HOL-Library.Signed_Division"
begin

text \<open>
  The least-frequently-used cache (\<open>include/util/RainLfu.h\<close>, classes \<open>RainLfu\<close> and \<open>RainLfuHash\<close>, and the
  interface \<open>include/util/RainCache.h\<close>). The state holds the map from keys to nodes, the map from
  frequencies to linked lists, the counters, and the heap in which the nodes and the dummies of the
  lists live. The order in which a \<open>std::unordered_map\<close> is traversed is unspecified and is an argument;
  so are the key and value that a default-constructed node holds (\<open>junk\<close>). An empty \<open>shared_ptr\<close> or a null list
  pointer that is dereferenced is an error value. Frequencies and counters are integers without a bound: the
  sources increment them as \<open>int\<close>, which is undefined from \<open>2 ^ 31 - 1\<close> on. The mutex that \<open>put\<close> and \<open>get\<close> hold
  makes each of them one step.
\<close>

section \<open>State\<close>

definition INT8_MAX :: int where
  "INT8_MAX = 127"

record ('k, 'v) RainLfu =
  capacity :: int
  minFreq :: int
  maxAverageNum :: int
  curAverageNum :: int
  curTotalNum :: int
  nodeMap :: "'k \<rightharpoonup> addr"
  freqToFreqList :: "int \<rightharpoonup> FreqList option"
  nodes :: "('k, 'v) node_heap"
  next_addr :: addr

text \<open>The parameters: default key and value, and the traversal orders of the two maps.\<close>

record ('k, 'v) lfu_env =
  junk :: "'k \<times> 'v"
  key_order :: "'k set \<Rightarrow> 'k list"
  freq_order :: "int set \<Rightarrow> int list"

definition RainLfu_new :: "int \<Rightarrow> int \<Rightarrow> ('k, 'v) RainLfu" where
  "RainLfu_new cap maxAvg = \<lparr>capacity = cap, minFreq = INT8_MAX, maxAverageNum = maxAvg, curAverageNum = 0,
     curTotalNum = 0, nodeMap = Map.empty, freqToFreqList = Map.empty, nodes = Map.empty, next_addr = 0\<rparr>"

section \<open>Frequency lists\<close>

definition list_at :: "('k, 'v) RainLfu \<Rightarrow> int \<Rightarrow> FreqList result" where
  "list_at s f = (case freqToFreqList s f of Some (Some l) \<Rightarrow> Inr l | _ \<Rightarrow> Inl Null_deref)"

definition removeFromFreqList :: "('k, 'v) RainLfu \<Rightarrow> addr \<Rightarrow> ('k, 'v) RainLfu result" where
  "removeFromFreqList s node =
     andthen (deref (nodes s) node) (\<lambda>n.
     andthen (list_at s (freq n)) (\<lambda>l.
     andthen (FreqList_removeNode (nodes s) l node) (\<lambda>h. Inr (s\<lparr>nodes := h\<rparr>))))"

definition new_list :: "('k, 'v) lfu_env \<Rightarrow> ('k, 'v) RainLfu \<Rightarrow> int \<Rightarrow> ('k, 'v) RainLfu" where
  "new_list E s f =
     (let (l, h) = FreqList_new (junk E) (next_addr s) f (nodes s) in
      s\<lparr>freqToFreqList := (freqToFreqList s)(f \<mapsto> Some l), nodes := h, next_addr := next_addr s + 2\<rparr>)"

definition addToFreqList :: "('k, 'v) lfu_env \<Rightarrow> ('k, 'v) RainLfu \<Rightarrow> addr \<Rightarrow> ('k, 'v) RainLfu result" where
  "addToFreqList E s node =
     andthen (deref (nodes s) node) (\<lambda>n.
       (let s = (if freqToFreqList s (freq n) = None then new_list E s (freq n) else s) in
        andthen (list_at s (freq n)) (\<lambda>l.
        andthen (FreqList_addNode (nodes s) l node) (\<lambda>h. Inr (s\<lparr>nodes := h\<rparr>)))))"

definition set_freq :: "('k, 'v) RainLfu \<Rightarrow> addr \<Rightarrow> (int \<Rightarrow> int) \<Rightarrow> ('k, 'v) RainLfu result" where
  "set_freq s node g = andthen (set_node node (\<lambda>n. n\<lparr>freq := g (freq n)\<rparr>) (nodes s)) (\<lambda>h. Inr (s\<lparr>nodes := h\<rparr>))"

text \<open>A node changes its frequency: out of its list, then into the other one.\<close>

definition refile :: "('k, 'v) lfu_env \<Rightarrow> ('k, 'v) RainLfu \<Rightarrow> addr \<Rightarrow> (int \<Rightarrow> int) \<Rightarrow> ('k, 'v) RainLfu result" where
  "refile E s node g =
     andthen (removeFromFreqList s node) (\<lambda>s.
     andthen (set_freq s node g) (\<lambda>s. addToFreqList E s node))"

section \<open>Counting\<close>

text \<open>
  \<open>curTotalNum_ / nodeMap_.size()\<close> is computed in \<open>size_t\<close> and converted back to \<open>int\<close>.
\<close>

definition to_int :: "int \<Rightarrow> int" where
  "to_int x = (x + 2 ^ 31) mod 2 ^ 32 - 2 ^ 31"

definition map_size :: "('k, 'v) RainLfu \<Rightarrow> nat" where
  "map_size s = card (dom (nodeMap s))"

definition averageNum :: "('k, 'v) RainLfu \<Rightarrow> int" where
  "averageNum s = (if map_size s = 0 then 0 else to_int ((curTotalNum s mod 2 ^ 64) div int (map_size s)))"

primrec nonempty_min :: "('k, 'v) RainLfu \<Rightarrow> int \<Rightarrow> int list \<Rightarrow> int result" where
  "nonempty_min s m [] = Inr m"
| "nonempty_min s m (f # fs) =
     (case freqToFreqList s f of
        Some (Some l) \<Rightarrow> andthen (FreqList_isEmpty (nodes s) l) (\<lambda>empty.
          nonempty_min s (if empty then m else min m f) fs)
      | _ \<Rightarrow> nonempty_min s m fs)"

definition updateMinFreq :: "('k, 'v) lfu_env \<Rightarrow> ('k, 'v) RainLfu \<Rightarrow> ('k, 'v) RainLfu result" where
  "updateMinFreq E s =
     andthen (nonempty_min s INT8_MAX (freq_order E (dom (freqToFreqList s)))) (\<lambda>m.
     Inr (s\<lparr>minFreq := if m = INT8_MAX then 1 else m\<rparr>))"

primrec age_all :: "('k, 'v) lfu_env \<Rightarrow> ('k, 'v) RainLfu \<Rightarrow> 'k list \<Rightarrow> ('k, 'v) RainLfu result" where
  "age_all E s [] = Inr s"
| "age_all E s (k # ks) =
     (case nodeMap s k of None \<Rightarrow> age_all E s ks
      | Some node \<Rightarrow>
          andthen (refile E s node (\<lambda>f. let f = f - maxAverageNum s sdiv 2 in if f < 1 then 1 else f)) (\<lambda>s.
          age_all E s ks))"

definition handleOverMaxAverageNum :: "('k, 'v) lfu_env \<Rightarrow> ('k, 'v) RainLfu \<Rightarrow> ('k, 'v) RainLfu result" where
  "handleOverMaxAverageNum E s =
     (if map_size s = 0 then Inr s
      else andthen (age_all E s (key_order E (dom (nodeMap s)))) (\<lambda>s. updateMinFreq E s))"

definition addFreqNum :: "('k, 'v) lfu_env \<Rightarrow> ('k, 'v) RainLfu \<Rightarrow> ('k, 'v) RainLfu result" where
  "addFreqNum E s =
     (let s = s\<lparr>curTotalNum := curTotalNum s + 1\<rparr>;
          s = s\<lparr>curAverageNum := averageNum s\<rparr> in
      if maxAverageNum s < curAverageNum s then handleOverMaxAverageNum E s else Inr s)"

definition decreaseFreqNum :: "('k, 'v) RainLfu \<Rightarrow> int \<Rightarrow> ('k, 'v) RainLfu" where
  "decreaseFreqNum s num =
     (let s = s\<lparr>curTotalNum := curTotalNum s - num\<rparr> in s\<lparr>curAverageNum := averageNum s\<rparr>)"

section \<open>The cache\<close>

definition kickOut :: "('k, 'v) RainLfu \<Rightarrow> ('k, 'v) RainLfu result" where
  "kickOut s =
     andthen (list_at s (minFreq s)) (\<lambda>l.
     andthen (FreqList_getFirstNode (nodes s) l) (\<lambda>first.
       case first of None \<Rightarrow> Inl Null_deref
       | Some node \<Rightarrow>
           andthen (removeFromFreqList s node) (\<lambda>s.
           andthen (deref (nodes s) node) (\<lambda>n.
             Inr (decreaseFreqNum (s\<lparr>nodeMap := (nodeMap s)(node_key n := None)\<rparr>) (freq n))))))"

definition getInternal :: "('k, 'v) lfu_env \<Rightarrow> ('k, 'v) RainLfu \<Rightarrow> addr \<Rightarrow> ('v \<times> ('k, 'v) RainLfu) result" where
  "getInternal E s node =
     andthen (deref (nodes s) node) (\<lambda>n.
     andthen (refile E s node (\<lambda>f. f + 1)) (\<lambda>s.
     andthen (if freq n = minFreq s
              then andthen (list_at s (freq n)) (\<lambda>l. andthen (FreqList_isEmpty (nodes s) l) (\<lambda>empty.
                     Inr (if empty then s\<lparr>minFreq := minFreq s + 1\<rparr> else s)))
              else Inr s) (\<lambda>s.
     andthen (addFreqNum E s) (\<lambda>s. Inr (node_value n, s)))))"

definition putInternal :: "('k, 'v) lfu_env \<Rightarrow> ('k, 'v) RainLfu \<Rightarrow> 'k \<Rightarrow> 'v \<Rightarrow> ('k, 'v) RainLfu result" where
  "putInternal E s key value =
     andthen (if int (map_size s) = capacity s mod 2 ^ 64 then kickOut s else Inr s) (\<lambda>s.
       (let node = next_addr s;
            s = s\<lparr>nodes := (nodes s)(node \<mapsto> Node_new key value), next_addr := node + 1,
                  nodeMap := (nodeMap s)(key \<mapsto> node)\<rparr> in
        andthen (addToFreqList E s node) (\<lambda>s.
        andthen (addFreqNum E s) (\<lambda>s. Inr (s\<lparr>minFreq := min (minFreq s) 1\<rparr>)))))"

definition RainLfu_put :: "('k, 'v) lfu_env \<Rightarrow> ('k, 'v) RainLfu \<Rightarrow> 'k \<Rightarrow> 'v \<Rightarrow> ('k, 'v) RainLfu result" where
  "RainLfu_put E s key value =
     (if capacity s = 0 then Inr s
      else case nodeMap s key of
        Some node \<Rightarrow>
          andthen (set_node node (\<lambda>n. n\<lparr>node_value := value\<rparr>) (nodes s)) (\<lambda>h.
          andthen (getInternal E (s\<lparr>nodes := h\<rparr>) node) (\<lambda>(_, s). Inr s))
      | None \<Rightarrow> putInternal E s key value)"

definition RainLfu_get :: "('k, 'v) lfu_env \<Rightarrow> ('k, 'v) RainLfu \<Rightarrow> 'k \<Rightarrow> ('v option \<times> ('k, 'v) RainLfu) result" where
  "RainLfu_get E s key =
     (case nodeMap s key of
        Some node \<Rightarrow> andthen (getInternal E s node) (\<lambda>(v, s). Inr (Some v, s))
      | None \<Rightarrow> Inr (None, s))"

definition RainLfu_purge :: "('k, 'v) RainLfu \<Rightarrow> ('k, 'v) RainLfu" where
  "RainLfu_purge s = s\<lparr>nodeMap := Map.empty, freqToFreqList := Map.empty\<rparr>"

text \<open>
  \<open>get(key)\<close> with a returned value declares a variable, calls the other overload and returns the variable:
  for a missing key the caller receives what default initialisation left there.
\<close>

definition RainLfu_get_value :: "('k, 'v) lfu_env \<Rightarrow> ('k, 'v) RainLfu \<Rightarrow> 'k \<Rightarrow> ('v \<times> ('k, 'v) RainLfu) result" where
  "RainLfu_get_value E s key =
     andthen (RainLfu_get E s key) (\<lambda>(r, s). Inr (case r of Some v \<Rightarrow> v | None \<Rightarrow> snd (junk E), s))"

section \<open>Slices\<close>

text \<open>
  \<open>RainLfuHash\<close> distributes the keys over slices by their hash. The quotient of the capacity is computed in
  \<open>double\<close> and rounded up, which is exact below \<open>2 ^ 53\<close>; the constructor of a slice takes it as an \<open>int\<close>. With
  no positive number of slices the number of hardware threads is taken, which may be reported as 0.
\<close>

record ('k, 'v) RainLfuHash =
  hash_capacity :: nat
  sliceNum :: int
  lfuSliceCaches :: "('k, 'v) RainLfu list"

definition RainLfuHash_new :: "nat \<Rightarrow> nat \<Rightarrow> int \<Rightarrow> int \<Rightarrow> ('k, 'v) RainLfuHash" where
  "RainLfuHash_new hardware_concurrency cap num maxAvg =
     (let num = (if 0 < num then num else int hardware_concurrency);
          sliceSize = (int cap + num - 1) div num in
      \<lparr>hash_capacity = cap, sliceNum = num, lfuSliceCaches = replicate (nat num) (RainLfu_new (to_int sliceSize) maxAvg)\<rparr>)"

definition slice_index :: "('k \<Rightarrow> size_t) \<Rightarrow> ('k, 'v) RainLfuHash \<Rightarrow> 'k \<Rightarrow> nat result" where
  "slice_index Hash c key =
     (if sliceNum c = 0 then Inl Div_by_zero else Inr (unat (Hash key mod of_int (sliceNum c))))"

definition slice_at :: "('k, 'v) RainLfuHash \<Rightarrow> nat \<Rightarrow> ('k, 'v) RainLfu result" where
  "slice_at c i = (if i < length (lfuSliceCaches c) then Inr (lfuSliceCaches c ! i) else Inl Out_of_bounds)"

definition RainLfuHash_put ::
  "('k, 'v) lfu_env \<Rightarrow> ('k \<Rightarrow> size_t) \<Rightarrow> ('k, 'v) RainLfuHash \<Rightarrow> 'k \<Rightarrow> 'v \<Rightarrow> ('k, 'v) RainLfuHash result" where
  "RainLfuHash_put E Hash c key value =
     andthen (slice_index Hash c key) (\<lambda>i. andthen (slice_at c i) (\<lambda>s. andthen (RainLfu_put E s key value) (\<lambda>s.
     Inr (c\<lparr>lfuSliceCaches := (lfuSliceCaches c)[i := s]\<rparr>))))"

definition RainLfuHash_get ::
  "('k, 'v) lfu_env \<Rightarrow> ('k \<Rightarrow> size_t) \<Rightarrow> ('k, 'v) RainLfuHash \<Rightarrow> 'k \<Rightarrow> ('v option \<times> ('k, 'v) RainLfuHash) result" where
  "RainLfuHash_get E Hash c key =
     andthen (slice_index Hash c key) (\<lambda>i. andthen (slice_at c i) (\<lambda>s. andthen (RainLfu_get E s key) (\<lambda>(r, s).
     Inr (r, c\<lparr>lfuSliceCaches := (lfuSliceCaches c)[i := s]\<rparr>))))"

definition RainLfuHash_get_value ::
  "('k, 'v) lfu_env \<Rightarrow> ('k \<Rightarrow> size_t) \<Rightarrow> ('k, 'v) RainLfuHash \<Rightarrow> 'k \<Rightarrow> ('v \<times> ('k, 'v) RainLfuHash) result" where
  "RainLfuHash_get_value E Hash c key =
     andthen (RainLfuHash_get E Hash c key) (\<lambda>(r, c). Inr (case r of Some v \<Rightarrow> v | None \<Rightarrow> snd (junk E), c))"

definition RainLfuHash_purge :: "('k, 'v) RainLfuHash \<Rightarrow> ('k, 'v) RainLfuHash" where
  "RainLfuHash_purge c = c\<lparr>lfuSliceCaches := map RainLfu_purge (lfuSliceCaches c)\<rparr>"

section \<open>The lists and the map\<close>

text \<open>
  \<open>lists_inv E s L\<close>: every list object represents the sequence \<open>L f\<close> of its frequency, and no two lists share
  a node; the dummies still hold what they were constructed with. A node is unlisted if it is neither
  in a list nor one of the dummies.
\<close>

definition lists_inv :: "('k, 'v) lfu_env \<Rightarrow> ('k, 'v) RainLfu \<Rightarrow> (int \<Rightarrow> addr list) \<Rightarrow> bool" where
  "lists_inv E s L \<longleftrightarrow>
     (\<forall>f. freqToFreqList s f = None \<longrightarrow> L f = []) \<and> (\<forall>f. freqToFreqList s f \<noteq> Some None) \<and>
     (\<forall>f l. freqToFreqList s f = Some (Some l) \<longrightarrow> fl_rel (nodes s) l (L f)) \<and>
     (\<forall>f g l m. freqToFreqList s f = Some (Some l) \<longrightarrow> freqToFreqList s g = Some (Some m) \<longrightarrow> f \<noteq> g \<longrightarrow>
        footprint l (L f) \<inter> footprint m (L g) = {}) \<and>
     dom (nodes s) \<subseteq> {..<next_addr s} \<and> finite (dom (freqToFreqList s)) \<and>
     (\<forall>f l. freqToFreqList s f = Some (Some l) \<longrightarrow> data (nodes s) (tail l) = Some (1, junk E))"

definition unlisted :: "('k, 'v) RainLfu \<Rightarrow> (int \<Rightarrow> addr list) \<Rightarrow> addr \<Rightarrow> bool" where
  "unlisted s L a \<longleftrightarrow> (\<forall>f l. freqToFreqList s f = Some (Some l) \<longrightarrow> a \<notin> footprint l (L f))"

lemma lists_invD:
  assumes "lists_inv E s L"
  shows "freqToFreqList s f = None \<Longrightarrow> L f = []" and "freqToFreqList s f \<noteq> Some None"
    and "freqToFreqList s f = Some (Some l) \<Longrightarrow> fl_rel (nodes s) l (L f)"
    and "freqToFreqList s f = Some (Some l) \<Longrightarrow> freqToFreqList s g = Some (Some m) \<Longrightarrow> f \<noteq> g \<Longrightarrow>
      footprint l (L f) \<inter> footprint m (L g) = {}"
    and "dom (nodes s) \<subseteq> {..<next_addr s}" and "finite (dom (freqToFreqList s))"
    and "freqToFreqList s f = Some (Some l) \<Longrightarrow> data (nodes s) (tail l) = Some (1, junk E)"
  using assms unfolding lists_inv_def by blast+

lemma data_eq_freq: "data h a = Some (f, k, v) \<Longrightarrow> \<exists>n. h a = Some n \<and> freq n = f \<and> node_key n = k \<and> node_value n = v"
  by (auto simp: data_def)

lemma data_None: "data h a = None \<longleftrightarrow> h a = None"
  by (simp add: data_def)

lemma data_dom: "data h = data h' \<Longrightarrow> dom h = dom h'"
  unfolding data_def fun_eq_iff by (auto simp: dom_def map_option_case split: option.splits)

lemma data_cong: "h' a = h a \<Longrightarrow> data h' a = data h a"
  by (simp add: data_def)

lemma lists_inv_member:
  assumes "lists_inv E s L" and "a \<in> set (L f)"
  obtains l where "freqToFreqList s f = Some (Some l)" and "fl_rel (nodes s) l (L f)" and "list_at s f = Inr l"
proof -
  have "freqToFreqList s f \<noteq> None" using lists_invD(1) [OF assms(1)] assms(2) by force
  then obtain l where l: "freqToFreqList s f = Some (Some l)" using lists_invD(2) [OF assms(1), of f] by fastforce
  then show ?thesis using that lists_invD(3) [OF assms(1)] by (simp add: list_at_def)
qed

text \<open>One list changes, inside its own footprint and a set of unlisted nodes.\<close>

lemma lists_inv_update:
  assumes inv: "lists_inv E s L" and l: "freqToFreqList s f = Some (Some l)" and rel: "fl_rel h l as"
    and out: "\<And>b. b \<notin> footprint l (L f) \<union> X \<Longrightarrow> h b = nodes s b"
    and foot: "footprint l as \<subseteq> footprint l (L f) \<union> X" and X: "\<And>x. x \<in> X \<Longrightarrow> unlisted s L x" and dat: "data h = data (nodes s)"
  shows "lists_inv E (s\<lparr>nodes := h\<rparr>) (L(f := as))"
proof -
  have sep: "footprint m (L g) \<inter> (footprint l (L f) \<union> X) = {}" if "freqToFreqList s g = Some (Some m)" "g \<noteq> f" for g m
    using lists_invD(4) [OF inv that(1) l that(2)] X that(1) by (auto simp: unlisted_def)
  have other: "fl_rel h m (L g)" if g: "freqToFreqList s g = Some (Some m)" "g \<noteq> f" for g m
  proof -
    have "h a = nodes s a" if "a \<in> footprint m (L g)" for a
    proof (rule out)
      show "a \<notin> footprint l (L f) \<union> X" using sep [OF g] that by blast
    qed
    then show ?thesis using fl.rel_frame [of m "L g" h "nodes s"] lists_invD(3) [OF inv g(1)] by blast
  qed
  have disj: "footprint l1 ((L(f := as)) f1) \<inter> footprint l2 ((L(f := as)) f2) = {}"
    if g: "freqToFreqList s f1 = Some (Some l1)" "freqToFreqList s f2 = Some (Some l2)" "f1 \<noteq> f2" for f1 f2 l1 l2
  proof -
    consider "f1 = f" "l1 = l" "f2 \<noteq> f" | "f2 = f" "l2 = l" "f1 \<noteq> f" | "f1 \<noteq> f" "f2 \<noteq> f"
      using g l by (metis option.inject)
    then show ?thesis
    proof cases
      case 1
      then show ?thesis using sep [OF g(2)] foot by auto
    next
      case 2
      then show ?thesis using sep [OF g(1)] foot by auto
    next
      case 3
      then show ?thesis using lists_invD(4) [OF inv g] by simp
    qed
  qed
  show ?thesis
    unfolding lists_inv_def
    using rel l other disj dat data_dom [OF dat] lists_invD(1,2,5-7) [OF inv] by auto
qed

lemma removeFromFreqList_ok:
  assumes inv: "lists_inv E s L" and a: "data (nodes s) a = Some (f, k, v)" "a \<in> set (L f)"
  shows "\<exists>h. removeFromFreqList s a = Inr (s\<lparr>nodes := h\<rparr>) \<and> data h = data (nodes s) \<and>
     lists_inv E (s\<lparr>nodes := h\<rparr>) (L(f := remove1 a (L f))) \<and> unlisted (s\<lparr>nodes := h\<rparr>) (L(f := remove1 a (L f))) a"
proof -
  obtain l where l: "freqToFreqList s f = Some (Some l)" "fl_rel (nodes s) l (L f)" "list_at s f = Inr l"
    using lists_inv_member [OF inv a(2)] .
  obtain xs zs where xz: "L f = xs @ a # zs" using a(2) by (meson split_list)
  have dist: "distinct (L f)" by (rule fl.rel_distinct [OF l(2)])
  have rem1: "remove1 a (L f) = xs @ zs" using dist xz by (simp add: remove1_append)
  from fl.rem_rel [of "nodes s" l xs a zs] l(2) xz obtain h where h: "FreqList_removeNode (nodes s) l a = Inr h"
      "fl_rel h l (xs @ zs)" "data h = data (nodes s)" "\<forall>b. b \<notin> footprint l (L f) \<longrightarrow> h b = nodes s b"
    by auto
  obtain n where n: "nodes s a = Some n" "freq n = f" using data_eq_freq [OF a(1)] by blast
  then have run: "removeFromFreqList s a = Inr (s\<lparr>nodes := h\<rparr>)"
    using l(3) h(1) by (simp add: removeFromFreqList_def deref_def)
  have inv': "lists_inv E (s\<lparr>nodes := h\<rparr>) (L(f := xs @ zs))"
  proof (rule lists_inv_update [OF inv l(1) h(2), where X = "{}"])
    show "footprint l (xs @ zs) \<subseteq> footprint l (L f) \<union> {}" using fl.foot_remove [of l xs zs a] xz by simp
    show "data h = data (nodes s)" by (rule h(3))
  qed (use h(4) in auto)
  have "a \<notin> footprint l (xs @ zs)"
    using l(2) xz by (auto simp: fl_rel_def footprint_def)
  moreover have "a \<notin> footprint m (L g)" if "freqToFreqList s g = Some (Some m)" "g \<noteq> f" for g m
    using lists_invD(4) [OF inv that(1) l(1) that(2)] fl.foot_members [of "L f" l] a(2) by blast
  ultimately have "unlisted (s\<lparr>nodes := h\<rparr>) (L(f := xs @ zs)) a" using l(1) by (auto simp: unlisted_def)
  with run h(3) inv' rem1 show ?thesis by auto
qed

lemma set_freq_ok:
  assumes inv: "lists_inv E s L" and a: "data (nodes s) a = Some (f, k, v)" "unlisted s L a"
  shows "\<exists>h. set_freq s a g = Inr (s\<lparr>nodes := h\<rparr>) \<and> data h = (data (nodes s))(a \<mapsto> (g f, k, v)) \<and>
     lists_inv E (s\<lparr>nodes := h\<rparr>) L \<and> unlisted (s\<lparr>nodes := h\<rparr>) L a"
proof -
  obtain n where n: "nodes s a = Some n" "freq n = f" "node_key n = k" "node_value n = v" using data_eq_freq [OF a(1)] by blast
  let ?h = "(nodes s)(a \<mapsto> n\<lparr>freq := g f\<rparr>)"
  have rel: "fl_rel ?h m (L i)" if i: "freqToFreqList s i = Some (Some m)" for i m
  proof -
    have "a \<notin> footprint m (L i)" using a(2) i by (simp add: unlisted_def)
    then have "?h b = nodes s b" if "b \<in> footprint m (L i)" for b using that by auto
    then show ?thesis using fl.rel_frame [of m "L i" ?h "nodes s"] lists_invD(3) [OF inv i] by blast
  qed
  have "dom ?h = dom (nodes s)" using n by auto
  moreover have "data ?h (tail l) = data (nodes s) (tail l)" if "freqToFreqList s i = Some (Some l)" for i l
    using a(2) that by (auto simp: unlisted_def footprint_def data_def)
  ultimately have "lists_inv E (s\<lparr>nodes := ?h\<rparr>) L" using rel inv by (simp add: lists_inv_def)
  moreover have "data ?h = (data (nodes s))(a \<mapsto> (g f, k, v))" using n by (auto simp: data_def fun_eq_iff)
  moreover have "set_freq s a g = Inr (s\<lparr>nodes := ?h\<rparr>)" using n by (simp add: set_freq_def set_node_def deref_def)
  ultimately show ?thesis using a(2) by (auto simp: unlisted_def)
qed

lemma new_list_ok:
  assumes inv: "lists_inv E s L" and f: "freqToFreqList s f = None" and a: "unlisted s L a" "a \<in> dom (nodes s)"
  shows "lists_inv E (new_list E s f) L" and "unlisted (new_list E s f) L a"
    and "\<forall>b \<in> dom (nodes s). nodes (new_list E s f) b = nodes s b"
    and "\<exists>l. freqToFreqList (new_list E s f) f = Some (Some l)"
proof -
  let ?x = "next_addr s"
  obtain l h where new: "FreqList_new (junk E) ?x f (nodes s) = (l, h)" by fastforce
  then have l: "l = \<lparr>list_freq = f, head = ?x, tail = ?x + 1\<rparr>" and "\<exists>n1 n2. h = (nodes s)(?x \<mapsto> n1, ?x + 1 \<mapsto> n2)"
    by (auto simp: FreqList_new_def Let_def)
  then obtain n1 n2 where h: "h = (nodes s)(?x \<mapsto> n1, ?x + 1 \<mapsto> n2)" by blast
  have rel: "fl_rel h l []" using new_ok [of "junk E" ?x f "nodes s"] new by simp
  have fresh: "?x \<notin> dom (nodes s)" "?x + 1 \<notin> dom (nodes s)" using lists_invD(5) [OF inv] by force+
  have same: "h b = nodes s b" if "b \<in> dom (nodes s)" for b using h fresh that by (metis fun_upd_other)
  have foot: "footprint m (L g) \<subseteq> dom (nodes s)" if "freqToFreqList s g = Some (Some m)" for g m
    using fl_rel_dom lists_invD(3) [OF inv that] by blast
  have old: "fl_rel h m (L g)" if "freqToFreqList s g = Some (Some m)" for g m
    using fl.rel_frame [of m "L g" h "nodes s"] lists_invD(3) [OF inv that] foot [OF that] same by blast
  have Lf: "L f = []" by (rule lists_invD(1) [OF inv f])
  have fl: "footprint l [] = {?x, ?x + 1}" using l by (auto simp: footprint_def)
  have eq: "new_list E s f = s\<lparr>freqToFreqList := (freqToFreqList s)(f \<mapsto> Some l), nodes := h, next_addr := ?x + 2\<rparr>"
    using new by (simp add: new_list_def)
  have sep: "{?x, ?x + 1} \<inter> footprint m (L g) = {}" if "freqToFreqList s g = Some (Some m)" for g m
    using foot [OF that] fresh by blast
  have dummy: "data h (tail m) = Some (1, junk E)" if "freqToFreqList s g = Some (Some m)" for g m
    using lists_invD(7) [OF inv that] foot [OF that] same data_cong [of h "tail m" "nodes s"] by (auto simp: footprint_def)
  have dummy1: "data h (tail l) = Some (1, junk E)" using new by (auto simp: FreqList_new_def Let_def data_def Node_new_def)
  have "dom h \<subseteq> {..<?x + 2}"
  proof
    fix b assume b: "b \<in> dom h"
    have "b = ?x \<or> b = ?x + 1 \<or> b \<in> dom (nodes s)" using b h by (metis domIff fun_upd_other)
    then show "b \<in> {..<?x + 2}" using lists_invD(5) [OF inv] by auto
  qed
  then show "lists_inv E (new_list E s f) L"
    unfolding lists_inv_def eq
    using rel old Lf fl sep dummy dummy1 lists_invD(1,2,4,6) [OF inv] by (auto split: if_splits)
  show "unlisted (new_list E s f) L a"
    using a fresh fl Lf by (auto simp: unlisted_def eq)
  show "\<forall>b \<in> dom (nodes s). nodes (new_list E s f) b = nodes s b" using same eq by simp
  show "\<exists>l. freqToFreqList (new_list E s f) f = Some (Some l)" by (simp add: eq)
qed

lemma add_listed:
  assumes inv: "lists_inv E s L" and a: "data (nodes s) a = Some (f, k, v)" "unlisted s L a"
    and l: "freqToFreqList s f = Some (Some l)"
  shows "\<exists>h. FreqList_addNode (nodes s) l a = Inr h \<and> lists_inv E (s\<lparr>nodes := h\<rparr>) (L(f := L f @ [a])) \<and> data h = data (nodes s)"
proof -
  have out: "a \<notin> footprint l (L f)" using a(2) l by (simp add: unlisted_def)
  have "nodes s a \<noteq> None" using data_eq_freq [OF a(1)] by auto
  from fl.add_rel [OF lists_invD(3) [OF inv l] out this] obtain h where h: "FreqList_addNode (nodes s) l a = Inr h"
      "fl_rel h l (L f @ [a])" "data h = data (nodes s)" "\<forall>b. b \<notin> insert a (footprint l (L f)) \<longrightarrow> h b = nodes s b"
    by blast
  have "lists_inv E (s\<lparr>nodes := h\<rparr>) (L(f := L f @ [a]))"
  proof (rule lists_inv_update [OF inv l h(2), where X = "{a}"])
    show "footprint l (L f @ [a]) \<subseteq> footprint l (L f) \<union> {a}" by (simp add: fl.foot_add)
    show "data h = data (nodes s)" by (rule h(3))
  qed (use h(4) a(2) in auto)
  then show ?thesis using h by blast
qed

lemma addToFreqList_ok:
  assumes inv: "lists_inv E s L" and a: "data (nodes s) a = Some (f, k, v)" "unlisted s L a"
  shows "\<exists>F h x. addToFreqList E s a = Inr (s\<lparr>freqToFreqList := F, nodes := h, next_addr := x\<rparr>) \<and>
     lists_inv E (s\<lparr>freqToFreqList := F, nodes := h, next_addr := x\<rparr>) (L(f := L f @ [a])) \<and>
     (\<forall>b \<in> dom (nodes s). data h b = data (nodes s) b) \<and> (\<forall>g l. freqToFreqList s g = Some l \<longrightarrow> F g = Some l)"
proof -
  obtain n where n: "nodes s a = Some n" "freq n = f" using data_eq_freq [OF a(1)] by blast
  show ?thesis
  proof (cases "freqToFreqList s f")
    case None
    let ?s = "new_list E s f"
    have dom: "a \<in> dom (nodes s)" using n by auto
    note new = new_list_ok [OF inv None a(2) dom]
    from new(4) obtain l where l: "freqToFreqList ?s f = Some (Some l)" by blast
    have da: "data (nodes ?s) a = Some (f, k, v)" using new(3) dom a(1) data_cong by metis
    obtain h where h: "FreqList_addNode (nodes ?s) l a = Inr h" "lists_inv E (?s\<lparr>nodes := h\<rparr>) (L(f := L f @ [a]))"
        "data h = data (nodes ?s)"
      using add_listed [OF new(1) da new(2) l] by blast
    have eq: "?s\<lparr>nodes := h\<rparr> = s\<lparr>freqToFreqList := freqToFreqList ?s, nodes := h, next_addr := next_addr ?s\<rparr>"
      by (simp add: new_list_def split: prod.split)
    have "freqToFreqList ?s g = Some m" if "freqToFreqList s g = Some m" for g m
      using that None by (auto simp: new_list_def split: prod.split)
    moreover have "addToFreqList E s a = Inr (?s\<lparr>nodes := h\<rparr>)"
      using n None l h(1) by (simp add: addToFreqList_def deref_def list_at_def)
    moreover have "\<forall>b \<in> dom (nodes s). data h b = data (nodes s) b" using h(3) new(3) data_cong by metis
    ultimately show ?thesis using h(2) unfolding eq by blast
  next
    case (Some lo)
    then obtain l where l: "freqToFreqList s f = Some (Some l)" using lists_invD(2) [OF inv, of f] by (cases lo) auto
    obtain h where h: "FreqList_addNode (nodes s) l a = Inr h" "lists_inv E (s\<lparr>nodes := h\<rparr>) (L(f := L f @ [a]))"
        "data h = data (nodes s)"
      using add_listed [OF inv a l] by blast
    have "addToFreqList E s a = Inr (s\<lparr>nodes := h\<rparr>)"
      using n l h(1) by (simp add: addToFreqList_def deref_def list_at_def)
    with h(2,3) show ?thesis
      by (intro exI [of _ "freqToFreqList s"] exI [of _ h] exI [of _ "next_addr s"]) simp
  qed
qed

text \<open>The cached keys are exactly the nodes in the lists, each in the list of its frequency.\<close>

definition map_inv :: "('k, 'v) RainLfu \<Rightarrow> (int \<Rightarrow> addr list) \<Rightarrow> bool" where
  "map_inv s L \<longleftrightarrow>
     (\<forall>k a. nodeMap s k = Some a \<longrightarrow> (\<exists>f v. data (nodes s) a = Some (f, k, v) \<and> a \<in> set (L f) \<and> 1 \<le> f)) \<and>
     (\<forall>f a. a \<in> set (L f) \<longrightarrow> (\<exists>k v. data (nodes s) a = Some (f, k, v) \<and> nodeMap s k = Some a)) \<and>
     finite (dom (nodeMap s))"

text \<open>What the cache holds: for each key its frequency and its value.\<close>

definition entry :: "('k, 'v) RainLfu \<Rightarrow> 'k \<rightharpoonup> int \<times> 'v" where
  "entry s k = (case nodeMap s k of None \<Rightarrow> None | Some a \<Rightarrow> map_option (\<lambda>(f, _, v). (f, v)) (data (nodes s) a))"

lemma map_invD:
  assumes "map_inv s L" and "nodeMap s k = Some a"
  obtains f v where "data (nodes s) a = Some (f, k, v)" "a \<in> set (L f)" "1 \<le> f" "entry s k = Some (f, v)"
proof -
  from assms obtain f v where "data (nodes s) a = Some (f, k, v)" "a \<in> set (L f)" "1 \<le> f" unfolding map_inv_def by blast
  then show ?thesis using that assms(2) by (simp add: entry_def)
qed

lemma map_inv_ex: "map_inv s L \<Longrightarrow> nodeMap s k = Some a \<Longrightarrow>
    \<exists>f v. data (nodes s) a = Some (f, k, v) \<and> a \<in> set (L f) \<and> 1 \<le> f"
  unfolding map_inv_def by blast

lemma entry_dom: "map_inv s L \<Longrightarrow> dom (entry s) = dom (nodeMap s)"
  by (auto simp: entry_def dom_def elim: map_invD split: option.splits)

definition move :: "(int \<Rightarrow> addr list) \<Rightarrow> addr \<Rightarrow> int \<Rightarrow> int \<Rightarrow> int \<Rightarrow> addr list" where
  "move L a f g = (let M = L(f := remove1 a (L f)) in M(g := M g @ [a]))"

lemma move_member: "distinct (L f) \<Longrightarrow> b \<in> set (move L a f g i) \<longleftrightarrow>
    (if b = a then i = g \<or> (i \<noteq> f \<and> a \<in> set (L i)) else b \<in> set (L i))"
  by (auto simp: move_def Let_def)

lemma refile_ok:
  assumes inv: "lists_inv E s L" "map_inv s L" and a: "nodeMap s k = Some a" "data (nodes s) a = Some (f, k, v)"
    and g: "1 \<le> g f"
  shows "\<exists>F h x. refile E s a g = Inr (s\<lparr>freqToFreqList := F, nodes := h, next_addr := x\<rparr>) \<and>
     lists_inv E (s\<lparr>freqToFreqList := F, nodes := h, next_addr := x\<rparr>) (move L a f (g f)) \<and>
     map_inv (s\<lparr>freqToFreqList := F, nodes := h, next_addr := x\<rparr>) (move L a f (g f)) \<and>
     entry (s\<lparr>freqToFreqList := F, nodes := h, next_addr := x\<rparr>) = (entry s)(k \<mapsto> (g f, v)) \<and>
     (\<forall>i l. freqToFreqList s i = Some l \<longrightarrow> F i = Some l) \<and>
     (\<forall>b \<in> dom (nodes s). data h b = ((data (nodes s))(a \<mapsto> (g f, k, v))) b)"
proof -
  have mem: "a \<in> set (L f)" using map_invD [OF inv(2) a(1)] a(2) by auto
  let ?L = "L(f := remove1 a (L f))"
  obtain h1 where h1: "removeFromFreqList s a = Inr (s\<lparr>nodes := h1\<rparr>)" "data h1 = data (nodes s)"
      "lists_inv E (s\<lparr>nodes := h1\<rparr>) ?L" "unlisted (s\<lparr>nodes := h1\<rparr>) ?L a"
    using removeFromFreqList_ok [OF inv(1) a(2) mem] by blast
  have "data (nodes (s\<lparr>nodes := h1\<rparr>)) a = Some (f, k, v)" using a(2) h1(2) by simp
  from set_freq_ok [OF h1(3) this h1(4), of g] obtain h2 where h2:
      "set_freq (s\<lparr>nodes := h1\<rparr>) a g = Inr (s\<lparr>nodes := h2\<rparr>)" "data h2 = (data (nodes s))(a \<mapsto> (g f, k, v))"
      "lists_inv E (s\<lparr>nodes := h2\<rparr>) ?L" "unlisted (s\<lparr>nodes := h2\<rparr>) ?L a"
    using h1(2) by auto
  have "data (nodes (s\<lparr>nodes := h2\<rparr>)) a = Some (g f, k, v)" using h2(2) by simp
  from addToFreqList_ok [OF h2(3) this h2(4)] obtain F h x where add:
      "addToFreqList E (s\<lparr>nodes := h2\<rparr>) a = Inr (s\<lparr>freqToFreqList := F, nodes := h, next_addr := x\<rparr>)"
      "lists_inv E (s\<lparr>freqToFreqList := F, nodes := h, next_addr := x\<rparr>) (move L a f (g f))"
      "\<forall>b \<in> dom h2. data h b = data h2 b" "\<forall>i l. freqToFreqList s i = Some l \<longrightarrow> F i = Some l"
    by (auto simp: move_def Let_def)
  let ?s' = "s\<lparr>freqToFreqList := F, nodes := h, next_addr := x\<rparr>"
  have "dom h2 = dom (nodes s)"
  proof -
    have "a \<in> dom (nodes s)" using a(2) by (auto simp: data_def)
    moreover have "b \<in> dom h2 \<longleftrightarrow> b = a \<or> b \<in> dom (nodes s)" for b
      using fun_cong [OF h2(2), of b] by (auto simp: domIff simp flip: data_None split: if_splits)
    ultimately show ?thesis by (intro set_eqI) metis
  qed
  then have dat: "\<forall>b \<in> dom (nodes s). data h b = ((data (nodes s))(a \<mapsto> (g f, k, v))) b" using add(3) h2(2) by auto
  obtain l where "fl_rel (nodes s) l (L f)" using lists_inv_member [OF inv(1) mem] by blast
  then have dist: "distinct (L f)" by (rule fl.rel_distinct)
  have only: "i = f" if "a \<in> set (L i)" for i using inv(2) that a(2) unfolding map_inv_def by fastforce
  have data_of: "data h b = ((data (nodes s))(a \<mapsto> (g f, k, v))) b" if "data (nodes s) b \<noteq> None" for b
    using dat that data_None [of "nodes s" b] by (metis domIff)
  have "map_inv ?s' (move L a f (g f))"
    unfolding map_inv_def
  proof (intro conjI allI impI)
    fix k' b assume "nodeMap ?s' k' = Some b"
    then have b: "nodeMap s k' = Some b" by simp
    obtain f' v' where d: "data (nodes s) b = Some (f', k', v')" "b \<in> set (L f')" "1 \<le> f'" using map_invD [OF inv(2) b] .
    show "\<exists>f'' v'. data (nodes ?s') b = Some (f'', k', v') \<and> b \<in> set (move L a f (g f) f'') \<and> 1 \<le> f''"
    proof (cases "b = a")
      case True
      then have "k' = k" using d(1) a(2) by simp
      then show ?thesis using True data_of [of a] a(2) g move_member [where L = L and f = f, OF dist, of a a "g f" "g f"] by auto
    next
      case False
      then show ?thesis using data_of [of b] d move_member [where L = L and f = f, OF dist, of b a "g f" f'] by auto
    qed
  next
    fix i b assume "b \<in> set (move L a f (g f) i)"
    then consider "b = a" "i = g f" | "b \<noteq> a" "b \<in> set (L i)" using move_member [where L = L and f = f, OF dist] only by (metis (full_types))
    then show "\<exists>k v. data (nodes ?s') b = Some (i, k, v) \<and> nodeMap ?s' k = Some b"
    proof cases
      case 1
      then show ?thesis using data_of [of a] a by auto
    next
      case 2
      then obtain k' v' where "data (nodes s) b = Some (i, k', v')" "nodeMap s k' = Some b" using inv(2) unfolding map_inv_def by blast
      then show ?thesis using data_of [of b] 2 by auto
    qed
  next
    show "finite (dom (nodeMap ?s'))" using inv(2) by (simp add: map_inv_def)
  qed
  moreover have "entry ?s' = (entry s)(k \<mapsto> (g f, v))"
  proof
    fix k' show "entry ?s' k' = ((entry s)(k \<mapsto> (g f, v))) k'"
    proof (cases "nodeMap s k'")
      case None
      then show ?thesis using a(1) by (auto simp: entry_def)
    next
      case (Some b)
      obtain f' v' where d: "data (nodes s) b = Some (f', k', v')" using map_invD [OF inv(2) Some] .
      then show ?thesis using Some data_of [of b] a by (auto simp: entry_def)
    qed
  qed
  moreover have "refile E s a g = Inr ?s'" using h1(1) h2(1) add(1) by (simp add: refile_def)
  ultimately show ?thesis using add(2,4) dat by blast
qed

section \<open>Counting and ageing\<close>

definition env_ok :: "('k, 'v) lfu_env \<Rightarrow> bool" where
  "env_ok E \<longleftrightarrow> (\<forall>S. finite S \<longrightarrow> distinct (key_order E S) \<and> set (key_order E S) = S) \<and>
     (\<forall>S. finite S \<longrightarrow> distinct (freq_order E S) \<and> set (freq_order E S) = S)"

definition same_rest :: "('k, 'v) RainLfu \<Rightarrow> ('k, 'v) RainLfu \<Rightarrow> bool" where
  "same_rest s s' \<longleftrightarrow> nodeMap s' = nodeMap s \<and> capacity s' = capacity s \<and> maxAverageNum s' = maxAverageNum s \<and>
     curTotalNum s' = curTotalNum s \<and> curAverageNum s' = curAverageNum s"

definition lists_kept :: "('k, 'v) RainLfu \<Rightarrow> ('k, 'v) RainLfu \<Rightarrow> bool" where
  "lists_kept s s' \<longleftrightarrow> dom (freqToFreqList s) \<subseteq> dom (freqToFreqList s')"

lemma lists_kept_trans:
  assumes "\<forall>i l. freqToFreqList s i = Some l \<longrightarrow> freqToFreqList s1 i = Some l" and "lists_kept s1 s'"
  shows "lists_kept s s'"
proof -
  have "dom (freqToFreqList s) \<subseteq> dom (freqToFreqList s1)" using assms(1) by (auto simp: dom_def)
  then show ?thesis using assms(2) unfolding lists_kept_def by (rule subset_trans)
qed

definition aged :: "int \<Rightarrow> int \<Rightarrow> int" where
  "aged m f = (let f = f - m sdiv 2 in if f < 1 then 1 else f)"

lemma aged_pos: "1 \<le> aged m f"
  by (simp add: aged_def Let_def)

lemma aged_max: "0 \<le> m \<Longrightarrow> aged m f = max 1 (f - m div 2)"
  by (auto simp: aged_def Let_def signed_divide_int_def sgn_if)

lemma aged_1: "0 \<le> m \<Longrightarrow> aged m 1 = 1"
  by (auto simp: aged_def Let_def signed_divide_int_def sgn_if)

lemma age_all_ok:
  assumes "lists_inv E s L" and "map_inv s L" and "distinct ks"
  shows "\<exists>s' L'. age_all E s ks = Inr s' \<and> lists_inv E s' L' \<and> map_inv s' L' \<and> same_rest s s' \<and> minFreq s' = minFreq s \<and>
     lists_kept s s' \<and>
     (\<forall>k. entry s' k = (if k \<in> set ks then map_option (\<lambda>(f, v). (aged (maxAverageNum s) f, v)) (entry s k) else entry s k))"
  using assms
proof (induction ks arbitrary: s L)
  case Nil
  then show ?case by (auto simp: same_rest_def lists_kept_def)
next
  case (Cons k ks)
  show ?case
  proof (cases "nodeMap s k")
    case None
    then have "entry s k = None" by (simp add: entry_def)
    with Cons.IH [OF Cons.prems(1,2)] Cons.prems(3) None show ?thesis by (fastforce split: if_splits)
  next
    case (Some a)
    obtain f v where d: "data (nodes s) a = Some (f, k, v)" "entry s k = Some (f, v)" using map_invD [OF Cons.prems(2) Some] by blast
    let ?g = "aged (maxAverageNum s)"
    from refile_ok [OF Cons.prems(1,2) Some d(1), of ?g] aged_pos obtain F h x where
        s1: "refile E s a ?g = Inr (s\<lparr>freqToFreqList := F, nodes := h, next_addr := x\<rparr>)"
        "lists_inv E (s\<lparr>freqToFreqList := F, nodes := h, next_addr := x\<rparr>) (move L a f (?g f))"
        "map_inv (s\<lparr>freqToFreqList := F, nodes := h, next_addr := x\<rparr>) (move L a f (?g f))"
        "entry (s\<lparr>freqToFreqList := F, nodes := h, next_addr := x\<rparr>) = (entry s)(k \<mapsto> (?g f, v))"
        "\<forall>i l. freqToFreqList s i = Some l \<longrightarrow> F i = Some l"
      by blast
    let ?s1 = "s\<lparr>freqToFreqList := F, nodes := h, next_addr := x\<rparr>"
    have run: "age_all E s (k # ks) = age_all E ?s1 ks"
      using Some s1(1) by (simp add: aged_def [abs_def] Let_def)
    from Cons.IH [OF s1(2,3)] Cons.prems(3) obtain s' L' where s': "age_all E ?s1 ks = Inr s'" "lists_inv E s' L'" "map_inv s' L'"
        "same_rest ?s1 s'" "minFreq s' = minFreq s" "lists_kept ?s1 s'"
        "\<forall>k. entry s' k = (if k \<in> set ks then map_option (\<lambda>(f, v). (?g f, v)) (entry ?s1 k) else entry ?s1 k)"
      by auto
    have "entry s' k' = (if k' \<in> set (k # ks) then map_option (\<lambda>(f, v). (?g f, v)) (entry s k') else entry s k')" for k'
      using s'(7) s1(4) d(2) Cons.prems(3) by auto
    moreover have "lists_kept s s'" by (rule lists_kept_trans [OF _ s'(6)]) (use s1(5) in simp)
    ultimately show ?thesis using run s' by (auto simp: same_rest_def)
  qed
qed

lemma nonempty_min_ok:
  assumes inv: "lists_inv E s L"
  shows "\<exists>r. nonempty_min s m fs = Inr r \<and> r \<le> m \<and> (\<forall>f \<in> set fs. L f \<noteq> [] \<longrightarrow> r \<le> f) \<and>
     (r = m \<or> (r \<in> set fs \<and> L r \<noteq> []))"
proof (induction fs arbitrary: m)
  case (Cons f fs)
  show ?case
  proof (cases "freqToFreqList s f")
    case None
    then show ?thesis using Cons [of m] lists_invD(1) [OF inv None] by auto
  next
    case (Some lo)
    then obtain l where l: "freqToFreqList s f = Some (Some l)" using lists_invD(2) [OF inv, of f] by (cases lo) auto
    have e: "FreqList_isEmpty (nodes s) l = Inr (L f = [])" using first_ok(2) lists_invD(3) [OF inv l] by blast
    let ?m = "if L f = [] then m else min m f"
    obtain r where "nonempty_min s ?m fs = Inr r" "r \<le> ?m" "\<forall>f \<in> set fs. L f \<noteq> [] \<longrightarrow> r \<le> f"
        "r = ?m \<or> (r \<in> set fs \<and> L r \<noteq> [])" using Cons by blast
    then show ?thesis using l e by (auto simp: min_def split: if_splits)
  qed
qed simp

definition min_ok :: "('k, 'v) RainLfu \<Rightarrow> (int \<Rightarrow> addr list) \<Rightarrow> bool" where
  "min_ok s L \<longleftrightarrow> 1 \<le> minFreq s \<and>
     (dom (nodeMap s) \<noteq> {} \<longrightarrow> L (minFreq s) \<noteq> [] \<and> (\<forall>f. L f \<noteq> [] \<longrightarrow> minFreq s \<le> f))"

lemma map_inv_list: "map_inv s L \<Longrightarrow> L f \<noteq> [] \<longleftrightarrow> (\<exists>k v. entry s k = Some (f, v))"
proof
  assume m: "map_inv s L" and "L f \<noteq> []"
  then obtain a where "a \<in> set (L f)" by (metis list.set_sel(1))
  then obtain k v where "data (nodes s) a = Some (f, k, v)" "nodeMap s k = Some a" using m unfolding map_inv_def by blast
  then have "entry s k = Some (f, v)" by (simp add: entry_def)
  then show "\<exists>k v. entry s k = Some (f, v)" by blast
next
  assume m: "map_inv s L" and "\<exists>k v. entry s k = Some (f, v)"
  then obtain k v where kv: "entry s k = Some (f, v)" by blast
  then obtain a where a: "nodeMap s k = Some a" by (auto simp: entry_def split: option.splits)
  from map_invD [OF m a] kv show "L f \<noteq> []" by (metis Pair_inject empty_iff list.set(1) option.inject)
qed

lemma entry_pos: "map_inv s L \<Longrightarrow> entry s k = Some (f, v) \<Longrightarrow> 1 \<le> f"
proof -
  assume m: "map_inv s L" and e: "entry s k = Some (f, v)"
  then obtain a where a: "nodeMap s k = Some a" by (auto simp: entry_def split: option.splits)
  from map_invD [OF m a] e show "1 \<le> f" by (metis Pair_inject option.inject)
qed

lemma updateMinFreq_ok:
  assumes E: "env_ok E" and inv: "lists_inv E s L" "map_inv s L"
  shows "\<exists>m. updateMinFreq E s = Inr (s\<lparr>minFreq := m\<rparr>) \<and>
     (if \<exists>k f v. entry s k = Some (f, v) \<and> f < 127 then min_ok (s\<lparr>minFreq := m\<rparr>) L else m = 1)"
proof -
  let ?fs = "freq_order E (dom (freqToFreqList s))"
  have fs: "set ?fs = dom (freqToFreqList s)" using E lists_invD(6) [OF inv(1)] by (simp add: env_ok_def)
  have all: "f \<in> set ?fs" if "L f \<noteq> []" for f using lists_invD(1) [OF inv(1)] that fs by auto
  obtain r where r: "nonempty_min s INT8_MAX ?fs = Inr r" "r \<le> 127" "\<forall>f \<in> set ?fs. L f \<noteq> [] \<longrightarrow> r \<le> f"
      "r = 127 \<or> L r \<noteq> []"
    using nonempty_min_ok [OF inv(1), of INT8_MAX ?fs] by (auto simp: INT8_MAX_def)
  let ?m = "if r = 127 then 1 else r"
  have run: "updateMinFreq E s = Inr (s\<lparr>minFreq := ?m\<rparr>)" using r(1) by (simp add: updateMinFreq_def INT8_MAX_def)
  show ?thesis
  proof (cases "\<exists>k f v. entry s k = Some (f, v) \<and> f < 127")
    case True
    then obtain f where "L f \<noteq> []" "f < 127" using map_inv_list [OF inv(2)] by blast
    then have "r < 127" using r(3) all by fastforce
    then have "L r \<noteq> []" using r(4) by auto
    moreover from this have "1 \<le> r" using map_inv_list [OF inv(2)] entry_pos [OF inv(2)] by blast
    ultimately have "min_ok (s\<lparr>minFreq := ?m\<rparr>) L" using \<open>r < 127\<close> r(3) all by (auto simp: min_ok_def)
    then show ?thesis using run True by auto
  next
    case False
    have "r = 127"
    proof (rule ccontr)
      assume "r \<noteq> 127"
      then have "L r \<noteq> []" "r < 127" using r(2,4) by auto
      then show False using False map_inv_list [OF inv(2)] by blast
    qed
    then show ?thesis using run False by auto
  qed
qed

lemma handleOver_ok:
  assumes E: "env_ok E" and inv: "lists_inv E s L" "map_inv s L" and ne: "map_size s \<noteq> 0"
  shows "\<exists>s' L'. handleOverMaxAverageNum E s = Inr s' \<and> lists_inv E s' L' \<and> map_inv s' L' \<and> same_rest s s' \<and> lists_kept s s' \<and>
     (\<forall>k. entry s' k = map_option (\<lambda>(f, v). (aged (maxAverageNum s) f, v)) (entry s k)) \<and>
     (if \<exists>k f v. entry s' k = Some (f, v) \<and> f < 127 then min_ok s' L' else minFreq s' = 1)"
proof -
  let ?ks = "key_order E (dom (nodeMap s))"
  have ks: "distinct ?ks" "set ?ks = dom (nodeMap s)" using E inv(2) by (simp_all add: env_ok_def map_inv_def)
  obtain s1 L1 where s1: "age_all E s ?ks = Inr s1" "lists_inv E s1 L1" "map_inv s1 L1" "same_rest s s1" "lists_kept s s1"
      "\<forall>k. entry s1 k = (if k \<in> set ?ks then map_option (\<lambda>(f, v). (aged (maxAverageNum s) f, v)) (entry s k) else entry s k)"
    using age_all_ok [OF inv ks(1)] by blast
  have "entry s k = None" if "k \<notin> dom (nodeMap s)" for k using that entry_dom [OF inv(2)] by auto
  then have e: "entry s1 k = map_option (\<lambda>(f, v). (aged (maxAverageNum s) f, v)) (entry s k)" for k using s1(6) ks(2) by simp
  obtain m where m: "updateMinFreq E s1 = Inr (s1\<lparr>minFreq := m\<rparr>)"
      "if \<exists>k f v. entry s1 k = Some (f, v) \<and> f < 127 then min_ok (s1\<lparr>minFreq := m\<rparr>) L1 else m = 1"
    using updateMinFreq_ok [OF E s1(2,3)] by blast
  let ?s' = "s1\<lparr>minFreq := m\<rparr>"
  have same: "entry ?s' = entry s1" by (simp add: entry_def fun_eq_iff split: option.split)
  have "lists_inv E ?s' L1" "map_inv ?s' L1" "same_rest s ?s'" "lists_kept s ?s'"
    using s1(2-5) by (simp_all add: lists_inv_def map_inv_def same_rest_def lists_kept_def)
  moreover have "handleOverMaxAverageNum E s = Inr ?s'" using ne s1(1) m(1) by (simp add: handleOverMaxAverageNum_def)
  moreover have "if \<exists>k f v. entry ?s' k = Some (f, v) \<and> f < 127 then min_ok ?s' L1 else minFreq ?s' = 1"
    unfolding same using m(2) by simp
  ultimately show ?thesis unfolding same using e by (intro exI [of _ ?s'] exI [of _ L1]) (simp add: same)
qed

text \<open>
  A state is steady if the last operation did not age the nodes, or left one below 127. Otherwise
  \<open>updateMinFreq\<close>, which starts from \<open>INT8_MAX\<close>, has not found the least frequency.
\<close>

definition steady :: "('k, 'v) RainLfu \<Rightarrow> bool" where
  "steady s \<longleftrightarrow> curAverageNum s \<le> maxAverageNum s \<or> (\<exists>k f v. entry s k = Some (f, v) \<and> f < 127)"

lemma entry_simps [simp]:
  "entry (s\<lparr>curTotalNum := t\<rparr>) = entry s" "entry (s\<lparr>curAverageNum := c\<rparr>) = entry s" "entry (s\<lparr>minFreq := m\<rparr>) = entry s"
  by (simp_all add: entry_def fun_eq_iff split: option.split)

lemma inv_simps [simp]:
  "lists_inv E (s\<lparr>curTotalNum := t\<rparr>) L = lists_inv E s L" "lists_inv E (s\<lparr>curAverageNum := c\<rparr>) L = lists_inv E s L"
  "lists_inv E (s\<lparr>minFreq := m\<rparr>) L = lists_inv E s L" "map_inv (s\<lparr>curTotalNum := t\<rparr>) L = map_inv s L"
  "map_inv (s\<lparr>curAverageNum := c\<rparr>) L = map_inv s L" "map_inv (s\<lparr>minFreq := m\<rparr>) L = map_inv s L"
  by (simp_all add: lists_inv_def map_inv_def)

definition values_same :: "('k, 'v) RainLfu \<Rightarrow> ('k, 'v) RainLfu \<Rightarrow> bool" where
  "values_same s s' \<longleftrightarrow> (\<forall>k. map_option snd (entry s' k) = map_option snd (entry s k))"

lemma addFreqNum_ok:
  assumes E: "env_ok E" and inv: "lists_inv E s L" "map_inv s L" and max: "0 \<le> maxAverageNum s"
  shows "\<exists>s' L'. addFreqNum E s = Inr s' \<and> lists_inv E s' L' \<and> map_inv s' L' \<and> nodeMap s' = nodeMap s \<and>
     capacity s' = capacity s \<and> maxAverageNum s' = maxAverageNum s \<and> curTotalNum s' = curTotalNum s + 1 \<and> values_same s s' \<and>
     lists_kept s s' \<and> curAverageNum s' = averageNum s' \<and>
     (if curAverageNum s' \<le> maxAverageNum s' then entry s' = entry s \<and> minFreq s' = minFreq s \<and> L' = L
      else (\<forall>k. entry s' k = map_option (\<lambda>(f, v). (aged (maxAverageNum s) f, v)) (entry s k)) \<and>
           (if \<exists>k f v. entry s' k = Some (f, v) \<and> f < 127 then min_ok s' L' else minFreq s' = 1))"
proof -
  define s0 where "s0 = s\<lparr>curTotalNum := curTotalNum s + 1\<rparr>"
  define s1 where "s1 = s0\<lparr>curAverageNum := averageNum s0\<rparr>"
  have inv1: "lists_inv E s1 L" "map_inv s1 L" and e1: "entry s1 = entry s" using inv by (simp_all add: s1_def s0_def)
  have rest: "nodeMap s1 = nodeMap s" "capacity s1 = capacity s" "maxAverageNum s1 = maxAverageNum s"
    "curTotalNum s1 = curTotalNum s + 1" "minFreq s1 = minFreq s" by (simp_all add: s1_def s0_def)
  have run: "addFreqNum E s = (if maxAverageNum s1 < curAverageNum s1 then handleOverMaxAverageNum E s1 else Inr s1)"
    by (simp add: addFreqNum_def Let_def s1_def s0_def)
  show ?thesis
  proof (cases "maxAverageNum s1 < curAverageNum s1 \<and> map_size s1 \<noteq> 0")
    case True
    from handleOver_ok [OF E inv1] True obtain s' L' where s': "handleOverMaxAverageNum E s1 = Inr s'" "lists_inv E s' L'"
        "map_inv s' L'" "same_rest s1 s'" "lists_kept s1 s'"
        "\<forall>k. entry s' k = map_option (\<lambda>(f, v). (aged (maxAverageNum s1) f, v)) (entry s1 k)"
        "if \<exists>k f v. entry s' k = Some (f, v) \<and> f < 127 then min_ok s' L' else minFreq s' = 1"
      by blast
    have avg: "curAverageNum s' = averageNum s'"
      using s'(4) by (simp add: same_rest_def averageNum_def map_size_def s1_def s0_def)
    have kept: "lists_kept s s'" using s'(5) by (simp add: lists_kept_def s1_def s0_def)
    have "values_same s s'" using s'(6) e1 by (auto simp: values_same_def option.map_comp comp_def case_prod_beta)
    then show ?thesis
      using s' True run rest e1 avg kept by (intro exI [of _ s'] exI [of _ L']) (auto simp: same_rest_def)
  next
    case False
    have "curAverageNum s1 = 0" if "map_size s1 = 0" using that by (simp add: s1_def s0_def averageNum_def map_size_def)
    then have "curAverageNum s1 \<le> maxAverageNum s1" using False max rest(3) by (cases "map_size s1 = 0") auto
    then show ?thesis
      using run inv1 e1 rest
      by (intro exI [of _ s1] exI [of _ L])
        (simp add: values_same_def lists_kept_def s1_def s0_def averageNum_def map_size_def)
  qed
qed

section \<open>Operations\<close>

lemma kickOut_ok:
  assumes inv: "lists_inv E s L" "map_inv s L" and mn: "min_ok s L" and ne: "dom (nodeMap s) \<noteq> {}"
  shows "\<exists>s' L' k f v. kickOut s = Inr s' \<and> lists_inv E s' L' \<and> map_inv s' L' \<and> nodeMap s' = (nodeMap s)(k := None) \<and>
     capacity s' = capacity s \<and> maxAverageNum s' = maxAverageNum s \<and> minFreq s' = minFreq s \<and>
     entry s k = Some (f, v) \<and> entry s' = (entry s)(k := None) \<and> (\<forall>k' f' v'. entry s k' = Some (f', v') \<longrightarrow> f \<le> f')"
proof -
  let ?f = "minFreq s"
  have Lf: "L ?f \<noteq> []" "\<And>f. L f \<noteq> [] \<Longrightarrow> ?f \<le> f" using mn ne by (simp_all add: min_ok_def)
  then obtain a as where as: "L ?f = a # as" by (cases "L ?f") auto
  obtain l where l: "fl_rel (nodes s) l (L ?f)" "list_at s ?f = Inr l" using lists_inv_member [OF inv(1), of a ?f] as by auto
  have first: "FreqList_getFirstNode (nodes s) l = Inr (Some a)" using first_ok(1) [OF l(1)] as by simp
  obtain k v where d: "data (nodes s) a = Some (?f, k, v)" "nodeMap s k = Some a"
    using inv(2) as unfolding map_inv_def by (metis list.set_intros(1))
  let ?L = "L(?f := remove1 a (L ?f))"
  obtain h where h: "removeFromFreqList s a = Inr (s\<lparr>nodes := h\<rparr>)" "data h = data (nodes s)" "lists_inv E (s\<lparr>nodes := h\<rparr>) ?L"
    using removeFromFreqList_ok [OF inv(1) d(1)] as by auto
  obtain n where n: "h a = Some n" "freq n = ?f" "node_key n = k" using data_eq_freq [of h a] d(1) h(2) by fastforce
  let ?s = "s\<lparr>nodes := h, nodeMap := (nodeMap s)(k := None)\<rparr>"
  let ?s' = "decreaseFreqNum ?s ?f"
  have run: "kickOut s = Inr ?s'"
    using l(2) first h(1) n by (simp add: kickOut_def deref_def)
  have dec: "lists_inv E ?s' M = lists_inv E ?s M" "map_inv ?s' M = map_inv ?s M" "entry ?s' = entry ?s" for M
    by (simp_all add: decreaseFreqNum_def Let_def)
  have dist: "distinct (L ?f)" by (rule fl.rel_distinct [OF l(1)])
  have uniq: "k' = k" if "nodeMap s k' = Some a" for k' using map_invD [OF inv(2) that] d(1) by auto
  have "lists_inv E ?s ?L" using h(3) by (simp add: lists_inv_def)
  moreover have "map_inv ?s ?L"
    unfolding map_inv_def
  proof (intro conjI allI impI)
    fix k' b assume "nodeMap ?s k' = Some b"
    then have k': "nodeMap s k' = Some b" "k' \<noteq> k" by (auto split: if_splits)
    then have "b \<noteq> a" using uniq by auto
    then show "\<exists>f v. data (nodes ?s) b = Some (f, k', v) \<and> b \<in> set (?L f) \<and> 1 \<le> f"
      using map_inv_ex [OF inv(2) k'(1)] h(2) by (auto simp: in_set_remove1)
  next
    fix i b assume "b \<in> set (?L i)"
    then have "b \<in> set (L i)" "b \<noteq> a"
      using dist inv(2) d(1) unfolding map_inv_def by (auto split: if_splits) (metis (no_types, lifting) Pair_inject option.inject)
    then obtain k' v' where "data (nodes s) b = Some (i, k', v')" "nodeMap s k' = Some b" using inv(2) unfolding map_inv_def by blast
    then show "\<exists>k v. data (nodes ?s) b = Some (i, k, v) \<and> nodeMap ?s k = Some b"
      using h(2) d(2) \<open>b \<noteq> a\<close> by auto
  next
    show "finite (dom (nodeMap ?s))" using inv(2) by (simp add: map_inv_def)
  qed
  moreover have "entry ?s = (entry s)(k := None)" using h(2) by (auto simp: entry_def fun_eq_iff split: option.split)
  moreover have "entry s k = Some (?f, v)" using d by (simp add: entry_def)
  moreover have "?f \<le> f'" if "entry s k' = Some (f', v')" for k' f' v' using Lf(2) map_inv_list [OF inv(2)] that by blast
  ultimately show ?thesis
    using run dec by (intro exI [of _ ?s'] exI [of _ ?L] exI [of _ k] exI [of _ ?f] exI [of _ v])
      (simp add: decreaseFreqNum_def Let_def)
qed

lemma insert_node_ok:
  fixes s :: "('k, 'v) RainLfu" and key :: 'k and "value" :: 'v
  assumes inv: "lists_inv E s L" "map_inv s L" and new: "nodeMap s key = None"
  defines "node \<equiv> next_addr s"
  defines "s1 \<equiv> s\<lparr>nodes := (nodes s)(node \<mapsto> Node_new key value), next_addr := node + 1, nodeMap := (nodeMap s)(key \<mapsto> node)\<rparr>"
  shows "\<exists>s' L'. addToFreqList E s1 node = Inr s' \<and> lists_inv E s' L' \<and> map_inv s' L' \<and> nodeMap s' = (nodeMap s)(key \<mapsto> node) \<and>
     capacity s' = capacity s \<and> maxAverageNum s' = maxAverageNum s \<and> minFreq s' = minFreq s \<and>
     curTotalNum s' = curTotalNum s \<and> entry s' = (entry s)(key \<mapsto> (1, value))"
proof -
  have fresh: "node \<notin> dom (nodes s)" using lists_invD(5) [OF inv(1)] by (auto simp: node_def)
  have foot: "footprint m (L g) \<subseteq> dom (nodes s)" if "freqToFreqList s g = Some (Some m)" for g m
    using fl_rel_dom lists_invD(3) [OF inv(1) that] by blast
  have "fl_rel (nodes s1) m (L g)" if "freqToFreqList s g = Some (Some m)" for g m
  proof -
    have "nodes s1 b = nodes s b" if "b \<in> footprint m (L g)" for b
      using that foot [OF \<open>freqToFreqList s g = Some (Some m)\<close>] fresh by (auto simp: s1_def)
    then show ?thesis using fl.rel_frame [of m "L g" "nodes s1" "nodes s"] lists_invD(3) [OF inv(1) that] by blast
  qed
  moreover have "dom (nodes s1) \<subseteq> {..<next_addr s1}"
    using lists_invD(5) [OF inv(1)] by (auto simp: s1_def node_def)
  moreover have "data (nodes s1) (tail m) = data (nodes s) (tail m)" if "freqToFreqList s g = Some (Some m)" for g m
    using foot [OF that] fresh by (auto simp: footprint_def s1_def data_def)
  ultimately have inv1: "lists_inv E s1 L" using inv(1) by (simp add: lists_inv_def s1_def)
  have unl: "unlisted s1 L node" using foot fresh by (auto simp: unlisted_def s1_def)
  have d: "data (nodes s1) node = Some (1, key, value)" by (simp add: data_def s1_def Node_new_def)
  obtain F h x where add: "addToFreqList E s1 node = Inr (s1\<lparr>freqToFreqList := F, nodes := h, next_addr := x\<rparr>)"
      "lists_inv E (s1\<lparr>freqToFreqList := F, nodes := h, next_addr := x\<rparr>) (L(1 := L 1 @ [node]))"
      "\<forall>b \<in> dom (nodes s1). data h b = data (nodes s1) b"
    using addToFreqList_ok [OF inv1 d unl] by blast
  let ?s' = "s1\<lparr>freqToFreqList := F, nodes := h, next_addr := x\<rparr>"
  have dn: "data h node = Some (1, key, value)" using add(3) d by (auto simp: s1_def)
  have old: "data h b = data (nodes s) b" "b \<noteq> node" if "data (nodes s) b \<noteq> None" for b
  proof -
    have b: "b \<in> dom (nodes s)" using that data_None [of "nodes s" b] by auto
    then show ne: "b \<noteq> node" using fresh by auto
    have "data h b = data (nodes s1) b" using add(3) b by (auto simp: s1_def)
    then show "data h b = data (nodes s) b" using ne by (simp add: data_def s1_def)
  qed
  have oldmap: "data (nodes s) b \<noteq> None" if "nodeMap s k = Some b" for k b using map_inv_ex [OF inv(2) that] by auto
  have "map_inv ?s' (L(1 := L 1 @ [node]))"
    unfolding map_inv_def
  proof (intro conjI allI impI)
    fix k b assume "nodeMap ?s' k = Some b"
    then consider "k = key" "b = node" | "k \<noteq> key" "nodeMap s k = Some b" by (auto simp: s1_def split: if_splits)
    then show "\<exists>f v. data (nodes ?s') b = Some (f, k, v) \<and> b \<in> set ((L(1 := L 1 @ [node])) f) \<and> 1 \<le> f"
    proof cases
      case 1
      then show ?thesis using dn by auto
    next
      case 2
      then show ?thesis using map_inv_ex [OF inv(2) 2(2)] old(1) [OF oldmap [OF 2(2)]] by auto
    qed
  next
    fix i b assume "b \<in> set ((L(1 := L 1 @ [node])) i)"
    then consider "b = node" "i = 1" | "b \<in> set (L i)" by (auto split: if_splits)
    then show "\<exists>k v. data (nodes ?s') b = Some (i, k, v) \<and> nodeMap ?s' k = Some b"
    proof cases
      case 1
      then show ?thesis using dn by (auto simp: s1_def)
    next
      case 2
      then obtain k v where kv: "data (nodes s) b = Some (i, k, v)" "nodeMap s k = Some b" using inv(2) unfolding map_inv_def by blast
      then have "k \<noteq> key" using new by auto
      then show ?thesis using kv old(1) [of b] by (auto simp: s1_def)
    qed
  next
    show "finite (dom (nodeMap ?s'))" using inv(2) by (simp add: map_inv_def s1_def)
  qed
  moreover have "entry ?s' k = ((entry s)(key \<mapsto> (1, value))) k" for k
    using dn old(1) oldmap by (auto simp: entry_def s1_def split: option.split)
  ultimately show ?thesis using add(1,2) by (intro exI [of _ ?s'] exI) (auto simp: s1_def)
qed

lemma move_min:
  assumes mn: "L m \<noteq> []" "\<And>i. L i \<noteq> [] \<Longrightarrow> m \<le> i" and a: "a \<in> set (L f)"
  defines "m' \<equiv> if f = m \<and> move L a f (f + 1) f = [] then m + 1 else m"
  shows "move L a f (f + 1) m' \<noteq> []" and "move L a f (f + 1) i \<noteq> [] \<Longrightarrow> m' \<le> i"
proof -
  let ?M = "move L a f (f + 1)"
  have M: "?M i = (if i = f + 1 then L (f + 1) @ [a] else if i = f then remove1 a (L f) else L i)" for i
    by (simp add: move_def Let_def)
  have "L f \<noteq> []" using a by auto
  then have mf: "m \<le> f" by (rule mn(2))
  show "?M m' \<noteq> []" using mn(1) by (auto simp: m'_def M)
  show "m' \<le> i" if "?M i \<noteq> []"
  proof (cases "f = m \<and> ?M f = []")
    case True
    then have "i \<noteq> f" using that by auto
    then have "i = f + 1 \<or> m \<le> i" using that mn(2) [of i] by (auto simp: M split: if_splits)
    then show ?thesis using True \<open>i \<noteq> f\<close> by (auto simp: m'_def)
  next
    case False
    have "i = f + 1 \<or> L i \<noteq> []" using that \<open>L f \<noteq> []\<close> by (auto simp: M split: if_splits)
    then have "m \<le> i" using mf mn(2) by fastforce
    then show ?thesis using False by (auto simp: m'_def)
  qed
qed

lemma nested_if: "if A then B else C \<and> (if D then X else Y) \<Longrightarrow> \<not> A \<Longrightarrow> \<not> D \<Longrightarrow> Y"
  by simp

lemma getInternal_ok:
  assumes E: "env_ok E" and inv: "lists_inv E s L" "map_inv s L" and mn: "min_ok s L" and mx: "0 \<le> maxAverageNum s"
    and k: "nodeMap s k = Some a" "entry s k = Some (f, v)"
  shows "\<exists>s' L'. getInternal E s a = Inr (v, s') \<and> lists_inv E s' L' \<and> map_inv s' L' \<and> nodeMap s' = nodeMap s \<and>
     capacity s' = capacity s \<and> maxAverageNum s' = maxAverageNum s \<and> values_same s s' \<and> (steady s' \<longrightarrow> min_ok s' L') \<and>
     curTotalNum s' = curTotalNum s + 1 \<and> lists_kept s s' \<and> curAverageNum s' = averageNum s' \<and>
     (if curAverageNum s' \<le> maxAverageNum s' then entry s' = (entry s)(k \<mapsto> (f + 1, v))
      else (\<forall>k'. entry s' k' = map_option (\<lambda>(f, v). (aged (maxAverageNum s) f, v)) (((entry s)(k \<mapsto> (f + 1, v))) k')) \<and>
        (steady s' \<or> minFreq s' = 1))"
proof -
  have d: "data (nodes s) a = Some (f, k, v)" and mem: "a \<in> set (L f)" and pos: "1 \<le> f"
    using map_inv_ex [OF inv(2) k(1)] k by (auto simp: entry_def)
  from refile_ok [OF inv k(1) d, of "\<lambda>f. f + 1"] pos obtain F h x where
      s1: "refile E s a (\<lambda>f. f + 1) = Inr (s\<lparr>freqToFreqList := F, nodes := h, next_addr := x\<rparr>)"
      "lists_inv E (s\<lparr>freqToFreqList := F, nodes := h, next_addr := x\<rparr>) (move L a f (f + 1))"
      "map_inv (s\<lparr>freqToFreqList := F, nodes := h, next_addr := x\<rparr>) (move L a f (f + 1))"
      "entry (s\<lparr>freqToFreqList := F, nodes := h, next_addr := x\<rparr>) = (entry s)(k \<mapsto> (f + 1, v))"
      "\<forall>i l. freqToFreqList s i = Some l \<longrightarrow> F i = Some l"
    by auto
  let ?s1 = "s\<lparr>freqToFreqList := F, nodes := h, next_addr := x\<rparr>" and ?L = "move L a f (f + 1)"
  let ?s2 = "?s1\<lparr>minFreq := if f = minFreq s \<and> ?L f = [] then minFreq s + 1 else minFreq s\<rparr>"
  obtain l where l: "freqToFreqList s f = Some (Some l)" using lists_inv_member [OF inv(1) mem] by blast
  then have l1: "list_at ?s1 f = Inr l" "freqToFreqList ?s1 f = Some (Some l)" using s1(5) by (simp_all add: list_at_def)
  have empty: "FreqList_isEmpty h l = Inr (?L f = [])" using first_ok(2) lists_invD(3) [OF s1(2) l1(2)] by auto
  obtain n where n: "nodes s a = Some n" "freq n = f" "node_value n = v" using data_eq_freq [OF d] by blast
  have s2: "?s1\<lparr>minFreq := minFreq s\<rparr> = ?s1" by simp
  have run: "getInternal E s a = andthen (addFreqNum E ?s2) (\<lambda>s. Inr (v, s))"
    using n s1(1) l1(1) empty by (auto simp: getInternal_def deref_def s2)
  have ne: "dom (nodeMap s) \<noteq> {}" using k(1) by auto
  have "min_ok ?s2 ?L"
    using move_min [of L "minFreq s" a f] mem mn ne by (auto simp: min_ok_def)
  have inv2: "lists_inv E ?s2 ?L" "map_inv ?s2 ?L" "0 \<le> maxAverageNum ?s2" using s1(2,3) mx by simp_all
  from addFreqNum_ok [OF E inv2] obtain s' L' where raw: "addFreqNum E ?s2 = Inr s'" "lists_inv E s' L'" "map_inv s' L'"
      "nodeMap s' = nodeMap ?s2" "capacity s' = capacity ?s2" "maxAverageNum s' = maxAverageNum ?s2"
      "curTotalNum s' = curTotalNum ?s2 + 1" "values_same ?s2 s'" "lists_kept ?s2 s'" "curAverageNum s' = averageNum s'"
      "if curAverageNum s' \<le> maxAverageNum s' then entry s' = entry ?s2 \<and> minFreq s' = minFreq ?s2 \<and> L' = ?L
       else (\<forall>k. entry s' k = map_option (\<lambda>(f, v). (aged (maxAverageNum ?s2) f, v)) (entry ?s2 k)) \<and>
         (if \<exists>k f v. entry s' k = Some (f, v) \<and> f < 127 then min_ok s' L' else minFreq s' = 1)"
    by blast
  then have s': "nodeMap s' = nodeMap s" "capacity s' = capacity s" "maxAverageNum s' = maxAverageNum s"
      "curTotalNum s' = curTotalNum s + 1" by simp_all
  have e2: "entry ?s2 = (entry s)(k \<mapsto> (f + 1, v))" using s1(4) by (simp add: entry_def)
  have "map_option snd (entry ?s2 k') = map_option snd (entry s k')" for k' using k(2) by (simp add: s1(4))
  then have "values_same s s'" using raw(8) unfolding values_same_def by metis
  moreover have "min_ok s' L'" if "steady s'"
  proof (cases "curAverageNum s' \<le> maxAverageNum s'")
    case True
    then have "minFreq s' = minFreq ?s2" "L' = ?L" using raw(11) by auto
    then show ?thesis using s'(1) \<open>min_ok ?s2 ?L\<close> unfolding min_ok_def by simp
  next
    case False
    then have "\<exists>k f v. entry s' k = Some (f, v) \<and> f < 127" using that by (simp add: steady_def)
    then show ?thesis using raw(11) False by presburger
  qed
  moreover have "getInternal E s a = Inr (v, s')" using run raw(1) by simp
  moreover have "if curAverageNum s' \<le> maxAverageNum s' then entry s' = (entry s)(k \<mapsto> (f + 1, v))
      else (\<forall>k'. entry s' k' = map_option (\<lambda>(f, v). (aged (maxAverageNum s) f, v)) (((entry s)(k \<mapsto> (f + 1, v))) k')) \<and>
        (steady s' \<or> minFreq s' = 1)"
  proof (cases "curAverageNum s' \<le> maxAverageNum s'")
    case True
    then show ?thesis using raw(11) e2 by simp
  next
    case False
    then have "\<forall>k'. entry s' k' = map_option (\<lambda>(f, v). (aged (maxAverageNum s) f, v)) (((entry s)(k \<mapsto> (f + 1, v))) k')"
      using raw(11) unfolding e2 by simp
    moreover have "steady s' \<or> minFreq s' = 1"
    proof (cases "\<exists>k f v. entry s' k = Some (f, v) \<and> f < 127")
      case True
      then show ?thesis unfolding steady_def by simp
    next
      case False
      then show ?thesis using nested_if [OF raw(11) \<open>\<not> curAverageNum s' \<le> maxAverageNum s'\<close>] by (intro disjI2)
    qed
    ultimately show ?thesis using False by presburger
  qed
  moreover have "lists_kept s s'" by (rule lists_kept_trans [OF _ raw(9)]) (use s1(5) in simp)
  ultimately show ?thesis using s' raw(2,3,10) by (intro exI [of _ s'] exI [of _ L']) blast
qed

text \<open>
  The invariant of a cache that is used as intended: a positive capacity, not exceeded, and the
  least frequency known.
\<close>

definition lfu_inv :: "('k, 'v) lfu_env \<Rightarrow> ('k, 'v) RainLfu \<Rightarrow> bool" where
  "lfu_inv E s \<longleftrightarrow> 0 < capacity s \<and> capacity s < 2 ^ 31 \<and> 0 \<le> maxAverageNum s \<and> int (map_size s) \<le> capacity s \<and>
     (\<exists>L. lists_inv E s L \<and> map_inv s L \<and> min_ok s L)"

definition cached :: "('k, 'v) RainLfu \<Rightarrow> 'k \<rightharpoonup> 'v" where
  "cached s k = map_option snd (entry s k)"

lemma new_lfu_inv: "0 < cap \<Longrightarrow> cap < 2 ^ 31 \<Longrightarrow> 0 \<le> m \<Longrightarrow> lfu_inv E (RainLfu_new cap m)"
  unfolding lfu_inv_def
  by (intro conjI exI [of _ "\<lambda>_. []"])
    (simp_all add: RainLfu_new_def map_size_def lists_inv_def map_inv_def min_ok_def INT8_MAX_def)

lemma get_ok:
  assumes E: "env_ok E" and inv: "lfu_inv E s"
  shows "\<exists>s'. RainLfu_get E s k = Inr (cached s k, s') \<and> cached s' = cached s \<and> (steady s' \<longrightarrow> lfu_inv E s') \<and>
     capacity s' = capacity s \<and> maxAverageNum s' = maxAverageNum s \<and>
     (case entry s k of None \<Rightarrow> s' = s
      | Some (f, v) \<Rightarrow>
          if curAverageNum s' \<le> maxAverageNum s then entry s' = (entry s)(k \<mapsto> (f + 1, v))
          else \<forall>k'. entry s' k' = map_option (\<lambda>(f, v). (aged (maxAverageNum s) f, v)) (((entry s)(k \<mapsto> (f + 1, v))) k'))"
proof -
  obtain L where L: "lists_inv E s L" "map_inv s L" "min_ok s L" and mx: "0 \<le> maxAverageNum s"
    using inv by (auto simp: lfu_inv_def)
  show ?thesis
  proof (cases "nodeMap s k")
    case None
    then show ?thesis using inv by (simp add: RainLfu_get_def cached_def entry_def)
  next
    case (Some a)
    obtain f v where e: "entry s k = Some (f, v)" using map_invD [OF L(2) Some] by blast
    obtain s' L' where s': "getInternal E s a = Inr (v, s')" "lists_inv E s' L'" "map_inv s' L'" "nodeMap s' = nodeMap s"
        "capacity s' = capacity s" "maxAverageNum s' = maxAverageNum s" "values_same s s'" "steady s' \<longrightarrow> min_ok s' L'"
        "if curAverageNum s' \<le> maxAverageNum s' then entry s' = (entry s)(k \<mapsto> (f + 1, v))
         else (\<forall>k'. entry s' k' = map_option (\<lambda>(f, v). (aged (maxAverageNum s) f, v)) (((entry s)(k \<mapsto> (f + 1, v))) k')) \<and>
           (steady s' \<or> minFreq s' = 1)"
      using getInternal_ok [OF E L mx Some e] by blast
    have "cached s' = cached s" using s'(7) by (simp add: values_same_def cached_def fun_eq_iff)
    moreover have "steady s' \<longrightarrow> lfu_inv E s'" using inv s' by (auto simp: lfu_inv_def map_size_def)
    moreover have "RainLfu_get E s k = Inr (cached s k, s')" using Some s'(1) e by (simp add: RainLfu_get_def cached_def)
    moreover have "case entry s k of None \<Rightarrow> s' = s
      | Some (f, v) \<Rightarrow>
          if curAverageNum s' \<le> maxAverageNum s then entry s' = (entry s)(k \<mapsto> (f + 1, v))
          else \<forall>k'. entry s' k' = map_option (\<lambda>(f, v). (aged (maxAverageNum s) f, v)) (((entry s)(k \<mapsto> (f + 1, v))) k')"
      using s'(9) s'(6) e by (auto split: if_splits)
    ultimately show ?thesis using s'(5,6) by blast
  qed
qed

lemma tail_not_listed:
  assumes inv: "lists_inv E s L" "map_inv s L" and l: "freqToFreqList s i = Some (Some l)" and a: "a \<in> set (L f)"
  shows "tail l \<noteq> a"
proof (cases "f = i")
  case True
  then show ?thesis using lists_invD(3) [OF inv(1) l] a by (auto simp: fl_rel_def)
next
  case False
  obtain m where m: "freqToFreqList s f = Some (Some m)" using lists_inv_member [OF inv(1) a] by blast
  then show ?thesis using lists_invD(4) [OF inv(1) m l False] a by (auto simp: footprint_def)
qed

lemma set_value_ok:
  assumes inv: "lists_inv E s L" "map_inv s L" and k: "nodeMap s k = Some a" "entry s k = Some (f, v0)"
  shows "\<exists>h. set_node a (\<lambda>n. n\<lparr>node_value := v\<rparr>) (nodes s) = Inr h \<and> lists_inv E (s\<lparr>nodes := h\<rparr>) L \<and>
     map_inv (s\<lparr>nodes := h\<rparr>) L \<and> entry (s\<lparr>nodes := h\<rparr>) = (entry s)(k \<mapsto> (f, v))"
proof -
  have d: "data (nodes s) a = Some (f, k, v0)" using map_inv_ex [OF inv(2) k(1)] k by (auto simp: entry_def)
  obtain n where n: "nodes s a = Some n" "freq n = f" "node_key n = k" using data_eq_freq [OF d] by blast
  let ?h = "(nodes s)(a \<mapsto> n\<lparr>node_value := v\<rparr>)"
  have links: "nxt_of ?h b = nxt_of (nodes s) b" "pre_of ?h b = pre_of (nodes s) b" for b
    using n(1) by (simp_all add: nxt_of_def pre_of_def)
  have "dom ?h = dom (nodes s)" using n(1) by auto
  moreover have "data ?h (tail l) = data (nodes s) (tail l)" if l: "freqToFreqList s i = Some (Some l)" for i l
    using tail_not_listed [OF inv l, of a] map_inv_ex [OF inv(2) k(1)] by (auto simp: data_def)
  ultimately have "lists_inv E (s\<lparr>nodes := ?h\<rparr>) L" using inv(1) fl_rel_links [OF links] by (simp add: lists_inv_def)
  moreover have dat: "data ?h b = (if b = a then Some (f, k, v) else data (nodes s) b)" for b
    using n by (simp add: data_def)
  have key: "k' = k" if "nodeMap s k' = Some a" for k' using map_inv_ex [OF inv(2) that] d by auto
  have freq: "i = f" if "a \<in> set (L i)" for i using inv(2) that d unfolding map_inv_def by fastforce
  have "map_inv (s\<lparr>nodes := ?h\<rparr>) L"
    unfolding map_inv_def
  proof (intro conjI allI impI)
    fix k' b assume "nodeMap (s\<lparr>nodes := ?h\<rparr>) k' = Some b"
    then have b: "nodeMap s k' = Some b" by simp
    show "\<exists>f v. data (nodes (s\<lparr>nodes := ?h\<rparr>)) b = Some (f, k', v) \<and> b \<in> set (L f) \<and> 1 \<le> f"
    proof (cases "b = a")
      case True
      then have "k' = k" "a \<in> set (L f)" "1 \<le> f" using key b map_inv_ex [OF inv(2) k(1)] d by auto
      then show ?thesis using dat [of a] True by simp
    next
      case False
      then show ?thesis using map_inv_ex [OF inv(2) b] dat [of b] by simp
    qed
  next
    fix i b assume b: "b \<in> set (L i)"
    then obtain k' v' where "data (nodes s) b = Some (i, k', v')" "nodeMap s k' = Some b" using inv(2) unfolding map_inv_def by blast
    then show "\<exists>k v. data (nodes (s\<lparr>nodes := ?h\<rparr>)) b = Some (i, k, v) \<and> nodeMap (s\<lparr>nodes := ?h\<rparr>) k = Some b"
      using dat [of b] k(1) freq [of i] b by (cases "b = a") simp_all
  next
    show "finite (dom (nodeMap (s\<lparr>nodes := ?h\<rparr>)))" using inv(2) by (simp add: map_inv_def)
  qed
  moreover have "entry (s\<lparr>nodes := ?h\<rparr>) k' = ((entry s)(k \<mapsto> (f, v))) k'" for k'
  proof (cases "nodeMap s k'")
    case (Some b)
    then show ?thesis using dat [of b] key [of k'] k(1) by (cases "b = a") (auto simp: entry_def)
  qed (use k(1) in \<open>auto simp: entry_def\<close>)
  moreover have "set_node a (\<lambda>n. n\<lparr>node_value := v\<rparr>) (nodes s) = Inr ?h" using n(1) by (simp add: set_node_def deref_def)
  ultimately show ?thesis by blast
qed

text \<open>Storing a new key once there is room.\<close>

lemma store_ok:
  fixes s :: "('k, 'v) RainLfu" and key :: 'k and "value" :: 'v
  assumes E: "env_ok E" and inv: "lists_inv E s L" "map_inv s L" and mn: "1 \<le> minFreq s" and mx: "0 \<le> maxAverageNum s"
    and new: "nodeMap s key = None"
  defines "s1 \<equiv> s\<lparr>nodes := (nodes s)(next_addr s \<mapsto> Node_new key value), next_addr := next_addr s + 1,
     nodeMap := (nodeMap s)(key \<mapsto> next_addr s)\<rparr>"
  shows "\<exists>s' L'. andthen (addToFreqList E s1 (next_addr s)) (\<lambda>s.
       andthen (addFreqNum E s) (\<lambda>s. Inr (s\<lparr>minFreq := min (minFreq s) 1\<rparr>))) = Inr s' \<and>
     lists_inv E s' L' \<and> map_inv s' L' \<and> min_ok s' L' \<and> dom (nodeMap s') = insert key (dom (nodeMap s)) \<and>
     capacity s' = capacity s \<and> maxAverageNum s' = maxAverageNum s \<and> cached s' = (cached s)(key \<mapsto> value) \<and>
     curTotalNum s' = curTotalNum s + 1 \<and> curAverageNum s' = averageNum s' \<and>
     (curAverageNum s' \<le> maxAverageNum s' \<longrightarrow> entry s' = (entry s)(key \<mapsto> (1, value)))"
proof -
  obtain s2 L2 where s2: "addToFreqList E s1 (next_addr s) = Inr s2" "lists_inv E s2 L2" "map_inv s2 L2"
      "nodeMap s2 = (nodeMap s)(key \<mapsto> next_addr s)" "capacity s2 = capacity s" "maxAverageNum s2 = maxAverageNum s"
      "minFreq s2 = minFreq s" "curTotalNum s2 = curTotalNum s" "entry s2 = (entry s)(key \<mapsto> (1, value))"
    using insert_node_ok [OF inv new, of "value"] unfolding s1_def by blast
  have mx2: "0 \<le> maxAverageNum s2" using mx s2(6) by simp
  from addFreqNum_ok [OF E s2(2,3) mx2] obtain s3 L3 where s3: "addFreqNum E s2 = Inr s3" "lists_inv E s3 L3" "map_inv s3 L3"
      "nodeMap s3 = nodeMap s2" "capacity s3 = capacity s2" "maxAverageNum s3 = maxAverageNum s2" "values_same s2 s3"
      "curTotalNum s3 = curTotalNum s2 + 1" "curAverageNum s3 = averageNum s3"
      "if curAverageNum s3 \<le> maxAverageNum s3 then entry s3 = entry s2 \<and> minFreq s3 = minFreq s2 \<and> L3 = L2
       else (\<forall>k. entry s3 k = map_option (\<lambda>(f, v). (aged (maxAverageNum s2) f, v)) (entry s2 k)) \<and>
         (if \<exists>k f v. entry s3 k = Some (f, v) \<and> f < 127 then min_ok s3 L3 else minFreq s3 = 1)"
    by blast
  have one: "entry s3 key = Some (1, value)"
    using s3(10) s2(9) aged_1 [OF mx2] by (cases "curAverageNum s3 \<le> maxAverageNum s3") auto
  have pos: "1 \<le> minFreq s3"
  proof (cases "curAverageNum s3 \<le> maxAverageNum s3")
    case True
    then show ?thesis using s3(10) s2(7) mn by simp
  next
    case False
    have "\<exists>k f v. entry s3 k = Some (f, v) \<and> f < 127" using one by (intro exI [of _ key] exI [of _ 1] exI [of _ "value"]) simp
    then have "min_ok s3 L3" using s3(10) False by presburger
    then show ?thesis by (simp add: min_ok_def)
  qed
  let ?s' = "s3\<lparr>minFreq := min (minFreq s3) 1\<rparr>"
  have "minFreq ?s' = 1" using pos by simp
  moreover have "L3 1 \<noteq> []" using map_inv_list [OF s3(3)] one by blast
  moreover have "1 \<le> i" if "L3 i \<noteq> []" for i using map_inv_list [OF s3(3)] entry_pos [OF s3(3)] that by blast
  ultimately have "min_ok ?s' L3" by (simp add: min_ok_def)
  moreover have "cached ?s' = (cached s)(key \<mapsto> value)"
    using s3(7) s2(9) by (simp add: cached_def fun_eq_iff values_same_def)
  moreover have "averageNum ?s' = averageNum s3" by (simp add: averageNum_def map_size_def)
  ultimately show ?thesis using s2(1,4-6,8,9) s3 by (intro exI [of _ ?s'] exI [of _ L3]) simp
qed

lemma put_ok:
  assumes E: "env_ok E" and inv: "lfu_inv E s"
  shows "\<exists>s'. RainLfu_put E s k v = Inr s' \<and> (steady s' \<longrightarrow> lfu_inv E s') \<and> capacity s' = capacity s \<and>
     (if k \<in> dom (cached s) \<or> int (map_size s) < capacity s then cached s' = (cached s)(k \<mapsto> v)
      else \<exists>k0 f v0. entry s k0 = Some (f, v0) \<and> (\<forall>k' f' v'. entry s k' = Some (f', v') \<longrightarrow> f \<le> f') \<and>
        cached s' = (cached s)(k0 := None, k \<mapsto> v))"
proof -
  obtain L where L: "lists_inv E s L" "map_inv s L" "min_ok s L" and cap: "0 < capacity s" "capacity s < 2 ^ 31"
      "int (map_size s) \<le> capacity s" and mx: "0 \<le> maxAverageNum s"
    using inv by (auto simp: lfu_inv_def)
  have dom: "k \<in> dom (cached s) \<longleftrightarrow> nodeMap s k \<noteq> None"
    using entry_dom [OF L(2)] by (auto simp: cached_def dom_def)
  have fin: "finite (dom (nodeMap s))" using L(2) by (simp add: map_inv_def)
  show ?thesis
  proof (cases "nodeMap s k")
    case (Some a)
    obtain f v0 where e: "entry s k = Some (f, v0)" using map_invD [OF L(2) Some] by blast
    obtain h where h: "set_node a (\<lambda>n. n\<lparr>node_value := v\<rparr>) (nodes s) = Inr h" "lists_inv E (s\<lparr>nodes := h\<rparr>) L"
        "map_inv (s\<lparr>nodes := h\<rparr>) L" "entry (s\<lparr>nodes := h\<rparr>) = (entry s)(k \<mapsto> (f, v))"
      using set_value_ok [OF L(1,2) Some e] by blast
    let ?s = "s\<lparr>nodes := h\<rparr>"
    have pre: "min_ok ?s L" "0 \<le> maxAverageNum ?s" "nodeMap ?s k = Some a" "entry ?s k = Some (f, v)"
      using L(3) mx Some h(4) by (simp_all add: min_ok_def)
    obtain s' L' where s': "getInternal E ?s a = Inr (v, s')" "lists_inv E s' L'" "map_inv s' L'" "nodeMap s' = nodeMap ?s"
        "capacity s' = capacity ?s" "maxAverageNum s' = maxAverageNum ?s" "values_same ?s s'" "steady s' \<longrightarrow> min_ok s' L'"
      using getInternal_ok [OF E h(2,3) pre] by blast
    have "cached s' = (cached s)(k \<mapsto> v)"
      using s'(7) h(4) by (simp add: values_same_def cached_def fun_eq_iff)
    moreover have "steady s' \<longrightarrow> lfu_inv E s'" using cap mx s' by (auto simp: lfu_inv_def map_size_def)
    moreover have "RainLfu_put E s k v = Inr s'" using cap(1) Some h(1) s'(1) by (simp add: RainLfu_put_def)
    ultimately show ?thesis using Some dom s'(5) by auto
  next
    case None
    have full: "int (map_size s) = capacity s mod 2 ^ 64 \<longleftrightarrow> int (map_size s) = capacity s" using cap by simp
    have put: "RainLfu_put E s k v = putInternal E s k v" using cap(1) None by (simp add: RainLfu_put_def)
    show ?thesis
    proof (cases "int (map_size s) = capacity s")
      case False
      obtain s' L' where s': "putInternal E s k v = Inr s'" "lists_inv E s' L'" "map_inv s' L'" "min_ok s' L'"
          "dom (nodeMap s') = insert k (dom (nodeMap s))" "capacity s' = capacity s" "maxAverageNum s' = maxAverageNum s"
          "cached s' = (cached s)(k \<mapsto> v)"
        using store_ok [OF E L(1,2) _ mx None, of v] L(3) False full by (auto simp: putInternal_def min_ok_def Let_def)
      have "map_size s' = Suc (map_size s)" using s'(5) None fin by (simp add: map_size_def domIff)
      then have "lfu_inv E s'" using cap mx s' False by (auto simp: lfu_inv_def)
      then show ?thesis using put s' cap(3) False by auto
    next
      case True
      then have ne: "dom (nodeMap s) \<noteq> {}" using cap(1) by (auto simp: map_size_def)
      obtain s0 L0 k0 f v0 where s0: "kickOut s = Inr s0" "lists_inv E s0 L0" "map_inv s0 L0" "nodeMap s0 = (nodeMap s)(k0 := None)"
          "capacity s0 = capacity s" "maxAverageNum s0 = maxAverageNum s" "minFreq s0 = minFreq s" "entry s k0 = Some (f, v0)"
          "entry s0 = (entry s)(k0 := None)" "\<forall>k' f' v'. entry s k' = Some (f', v') \<longrightarrow> f \<le> f'"
        using kickOut_ok [OF L ne] by blast
      have pre: "1 \<le> minFreq s0" "0 \<le> maxAverageNum s0" "nodeMap s0 k = None"
        using L(3) mx None s0(4,6,7) by (simp_all add: min_ok_def)
      have run: "putInternal E s k v = andthen (addToFreqList E (s0\<lparr>nodes := (nodes s0)(next_addr s0 \<mapsto> Node_new k v),
            next_addr := next_addr s0 + 1, nodeMap := (nodeMap s0)(k \<mapsto> next_addr s0)\<rparr>) (next_addr s0)) (\<lambda>s.
          andthen (addFreqNum E s) (\<lambda>s. Inr (s\<lparr>minFreq := min (minFreq s) 1\<rparr>)))"
        using True full s0(1) by (simp add: putInternal_def Let_def)
      obtain s' L' where s': "putInternal E s k v = Inr s'" "lists_inv E s' L'" "map_inv s' L'" "min_ok s' L'"
          "dom (nodeMap s') = insert k (dom (nodeMap s0))" "capacity s' = capacity s0" "maxAverageNum s' = maxAverageNum s0"
          "cached s' = (cached s0)(k \<mapsto> v)"
        unfolding run using store_ok [OF E s0(2,3) pre, of v] by blast
      have "k0 \<in> dom (nodeMap s)" using s0(8) entry_dom [OF L(2)] by blast
      then have "card (dom (nodeMap s0)) = map_size s - 1" using s0(4) fin by (simp add: map_size_def)
      moreover have "finite (dom (nodeMap s0))" "k \<notin> dom (nodeMap s0)"
        using s0(4) fin pre(3) by (simp, blast)
      ultimately have "map_size s' = map_size s" using s'(5) True cap(1) by (simp add: map_size_def)
      then have "lfu_inv E s'" using cap mx s' s0(5,6) by (auto simp: lfu_inv_def)
      moreover have "cached s0 = (cached s)(k0 := None)" using s0(9) by (auto simp: cached_def)
      ultimately have out: "cached s' = (cached s)(k0 := None, k \<mapsto> v)" "lfu_inv E s'" using s'(8) by simp_all
      have "\<not> (k \<in> dom (cached s) \<or> int (map_size s) < capacity s)" using dom None True by simp
      moreover have "\<exists>k0 f v0. entry s k0 = Some (f, v0) \<and> (\<forall>k' f' v'. entry s k' = Some (f', v') \<longrightarrow> f \<le> f') \<and>
          cached s' = (cached s)(k0 := None, k \<mapsto> v)"
        using s0(8,10) out(1) by blast
      ultimately show ?thesis using put s'(1,6) s0(5) out(2) by (intro exI [of _ s']) simp
    qed
  qed
qed

text \<open>The LFU cache keeps the contract as long as it is steady.\<close>

interpretation lfu: rain_cache "\<lambda>s. env_ok E \<and> lfu_inv E s" steady cached "RainLfu_put E" "RainLfu_get E"
proof (unfold_locales, goal_cases)
  case (1 s k v)
  then obtain s' where s': "RainLfu_put E s k v = Inr s'" "steady s' \<longrightarrow> lfu_inv E s'"
      "if k \<in> dom (cached s) \<or> int (map_size s) < capacity s then cached s' = (cached s)(k \<mapsto> v)
       else \<exists>k0 f v0. entry s k0 = Some (f, v0) \<and> (\<forall>k' f' v'. entry s k' = Some (f', v') \<longrightarrow> f \<le> f') \<and>
         cached s' = (cached s)(k0 := None, k \<mapsto> v)"
    using put_ok [of E s k v] by blast
  then obtain k0 where "cached s' = (cached s)(k \<mapsto> v) \<or> cached s' = (cached s)(k0 := None, k \<mapsto> v)" by metis
  then have "cached s' k = Some v" "cached s' \<subseteq>\<^sub>m (cached s)(k \<mapsto> v)"
    by (auto simp: map_le_def split: if_splits)
  then show ?case using s' 1 by blast
next
  case (2 s k)
  then show ?case using get_ok [of E s k] by blast
qed

end
