(* ===== verification/Util_LfuCache.thy ===== *)
theory Util_LfuCache
  imports Util_Lfu
begin

text \<open>
  What a client of \<open>RainLfu\<close> and \<open>RainLfuHash\<close> may rely on: sequences of \<open>put\<close> and \<open>get\<close> on a cache that was
  constructed with a positive capacity, and the sequence on which the bound of the cache is lost.
\<close>

section \<open>Sequences of calls\<close>

primrec lfu_exec :: "('k, 'v) lfu_env \<Rightarrow> ('k, 'v) RainLfu \<Rightarrow> ('k, 'v) cache_op \<Rightarrow> ('k, 'v) RainLfu result" where
  "lfu_exec E s (Put k v) = RainLfu_put E s k v"
| "lfu_exec E s (Get k) = andthen (RainLfu_get E s k) (\<lambda>(_, s). Inr s)"

primrec lfu_run :: "('k, 'v) lfu_env \<Rightarrow> ('k, 'v) RainLfu \<Rightarrow> ('k, 'v) cache_op list \<Rightarrow> ('k, 'v) RainLfu result" where
  "lfu_run E s [] = Inr s"
| "lfu_run E s (p # ops) = andthen (lfu_exec E s p) (\<lambda>s. lfu_run E s ops)"

text \<open>A history all of whose states are steady.\<close>

primrec lfu_hist :: "('k, 'v) lfu_env \<Rightarrow> ('k, 'v) RainLfu \<Rightarrow> ('k, 'v) cache_op list \<Rightarrow> ('k, 'v) RainLfu \<Rightarrow> bool" where
  "lfu_hist E s [] t \<longleftrightarrow> t = s"
| "lfu_hist E s (p # ops) t \<longleftrightarrow> (case lfu_exec E s p of Inr s' \<Rightarrow> steady s' \<and> lfu_hist E s' ops t | Inl _ \<Rightarrow> False)"

lemma lfu_exec_eq: "lfu_exec E s p = lfu.exec E s p"
  by (cases p) simp_all

lemma lfu_hist_eq: "lfu_hist E s ops t = lfu.hist E s ops t"
  by (induction ops arbitrary: s) (auto simp: lfu_exec_eq split: sum.split)

lemma new_cached [simp]: "cached (RainLfu_new cap m) = Map.empty"
  by (simp add: cached_def entry_def RainLfu_new_def fun_eq_iff)

lemma hist_lfu_inv:
  assumes "env_ok E" and "0 < cap" and "cap < 2 ^ 31" and "0 \<le> m" and "lfu_hist E (RainLfu_new cap m) ops s"
  shows "lfu_inv E s"
  using lfu.hist_inv [OF assms(5) [unfolded lfu_hist_eq]] assms(1) new_lfu_inv [OF assms(2-4)] by blast

lemma hist_capacity:
  assumes "env_ok E" and "lfu_inv E s" and "lfu_hist E s ops t"
  shows "capacity t = capacity s"
  using assms(2,3)
proof (induction ops arbitrary: s)
  case (Cons p ops)
  obtain s1 where s1: "lfu_exec E s p = Inr s1" "steady s1" "lfu_hist E s1 ops t" using Cons.prems(2) by (auto split: sum.splits)
  have "lfu_inv E s1 \<and> capacity s1 = capacity s"
  proof (cases p)
    case (Put k v)
    then show ?thesis using put_ok [OF assms(1) Cons.prems(1), of k v] s1(1,2) by auto
  next
    case (Get k)
    then show ?thesis using get_ok [OF assms(1) Cons.prems(1), of k] s1(1,2) by auto
  qed
  then show ?case using Cons.IH s1(3) by auto
qed simp

lemma card_cached: "lfu_inv E s \<Longrightarrow> card (dom (cached s)) = map_size s"
  using entry_dom by (fastforce simp: lfu_inv_def cached_def map_size_def dom_def)


text \<open>Single calls, with what they count.\<close>

definition lfu_base :: "('k, 'v) lfu_env \<Rightarrow> ('k, 'v) RainLfu \<Rightarrow> bool" where
  "lfu_base E s \<longleftrightarrow> (\<exists>L. lists_inv E s L \<and> map_inv s L)"

lemma put_new_counts:
  assumes E: "env_ok E" and inv: "lfu_inv E s" and new: "entry s k = None" and room: "int (map_size s) < capacity s"
  shows "\<exists>s'. RainLfu_put E s k v = Inr s' \<and> (steady s' \<longrightarrow> lfu_inv E s') \<and> capacity s' = capacity s \<and>
     maxAverageNum s' = maxAverageNum s \<and> curTotalNum s' = curTotalNum s + 1 \<and> curAverageNum s' = averageNum s' \<and>
     map_size s' = Suc (map_size s) \<and> (curAverageNum s' \<le> maxAverageNum s \<longrightarrow> entry s' = (entry s)(k \<mapsto> (1, v)))"
proof -
  obtain L where L: "lists_inv E s L" "map_inv s L" "min_ok s L" and cap: "0 < capacity s" "capacity s < 2 ^ 31"
    and mx: "0 \<le> maxAverageNum s" using inv by (auto simp: lfu_inv_def)
  have k: "nodeMap s k = None" using new entry_dom [OF L(2)] by (metis domIff)
  have fin: "finite (dom (nodeMap s))" using L(2) by (simp add: map_inv_def)
  have put: "RainLfu_put E s k v = putInternal E s k v" using cap(1) k by (simp add: RainLfu_put_def)
  have run: "putInternal E s k v = andthen (addToFreqList E (s\<lparr>nodes := (nodes s)(next_addr s \<mapsto> Node_new k v),
        next_addr := next_addr s + 1, nodeMap := (nodeMap s)(k \<mapsto> next_addr s)\<rparr>) (next_addr s)) (\<lambda>s.
      andthen (addFreqNum E s) (\<lambda>s. Inr (s\<lparr>minFreq := min (minFreq s) 1\<rparr>)))"
    using room cap by (simp add: putInternal_def Let_def)
  have mn: "1 \<le> minFreq s" using L(3) by (simp add: min_ok_def)
  obtain s' L' where s': "putInternal E s k v = Inr s'" "lists_inv E s' L'" "map_inv s' L'" "min_ok s' L'"
      "dom (nodeMap s') = insert k (dom (nodeMap s))" "capacity s' = capacity s" "maxAverageNum s' = maxAverageNum s"
      "curTotalNum s' = curTotalNum s + 1" "curAverageNum s' = averageNum s'"
      "curAverageNum s' \<le> maxAverageNum s' \<longrightarrow> entry s' = (entry s)(k \<mapsto> (1, v))"
    unfolding run using store_ok [OF E L(1,2) mn mx k, of v] by blast
  have sz: "map_size s' = Suc (map_size s)" using s'(5) k fin by (simp add: map_size_def domIff)
  then have "lfu_inv E s'" using cap mx s' room by (auto simp: lfu_inv_def)
  then show ?thesis using put s' sz by auto
qed

lemma get_counts:
  assumes E: "env_ok E" and inv: "lfu_inv E s" and k: "entry s k = Some (f, v)"
  shows "\<exists>s'. RainLfu_get E s k = Inr (Some v, s') \<and> lfu_base E s' \<and> (steady s' \<longrightarrow> lfu_inv E s') \<and> capacity s' = capacity s \<and>
     maxAverageNum s' = maxAverageNum s \<and> curTotalNum s' = curTotalNum s + 1 \<and> curAverageNum s' = averageNum s' \<and>
     map_size s' = map_size s \<and> lists_kept s s' \<and>
     (if curAverageNum s' \<le> maxAverageNum s then entry s' = (entry s)(k \<mapsto> (f + 1, v))
      else entry s' = (\<lambda>k'. map_option (\<lambda>(f, v). (aged (maxAverageNum s) f, v)) (((entry s)(k \<mapsto> (f + 1, v))) k')) \<and>
        (steady s' \<or> minFreq s' = 1))"
proof -
  obtain L where L: "lists_inv E s L" "map_inv s L" "min_ok s L" and mx: "0 \<le> maxAverageNum s"
    using inv by (auto simp: lfu_inv_def)
  obtain a where a: "nodeMap s k = Some a" using k entry_dom [OF L(2)] by blast
  obtain s' L' where s': "getInternal E s a = Inr (v, s')" "lists_inv E s' L'" "map_inv s' L'" "nodeMap s' = nodeMap s"
      "capacity s' = capacity s" "maxAverageNum s' = maxAverageNum s" "steady s' \<longrightarrow> min_ok s' L'"
      "curTotalNum s' = curTotalNum s + 1" "lists_kept s s'" "curAverageNum s' = averageNum s'"
      "if curAverageNum s' \<le> maxAverageNum s' then entry s' = (entry s)(k \<mapsto> (f + 1, v))
       else (\<forall>k'. entry s' k' = map_option (\<lambda>(f, v). (aged (maxAverageNum s) f, v)) (((entry s)(k \<mapsto> (f + 1, v))) k')) \<and>
         (steady s' \<or> minFreq s' = 1)"
    using getInternal_ok [OF E L mx a k] by blast
  have "RainLfu_get E s k = Inr (Some v, s')" using a s'(1) by (simp add: RainLfu_get_def)
  moreover have "lfu_base E s'" using s'(2,3) by (auto simp: lfu_base_def)
  moreover have "map_size s' = map_size s" using s'(4) by (simp add: map_size_def)
  moreover have "steady s' \<longrightarrow> lfu_inv E s'" using inv s' by (auto simp: lfu_inv_def map_size_def)
  ultimately show ?thesis using s'(5,6,8-11) unfolding fun_eq_iff by (intro exI [of _ s']) simp
qed

lemma average_exact: "map_size s = Suc n \<Longrightarrow> 0 \<le> curTotalNum s \<Longrightarrow> curTotalNum s < 2 ^ 31 \<Longrightarrow>
    averageNum s = curTotalNum s div (int n + 1)"
proof -
  assume s: "map_size s = Suc n" "0 \<le> curTotalNum s" "curTotalNum s < 2 ^ 31"
  have "0 \<le> curTotalNum s div (int n + 1)" "curTotalNum s div (int n + 1) \<le> curTotalNum s"
    using s(2) zdiv_mono2 [of "curTotalNum s" 1 "int n + 1"] by (simp_all add: pos_imp_zdiv_nonneg_iff)
  then show ?thesis using s by (simp add: averageNum_def to_int_def add.commute)
qed

section \<open>A cache in use\<close>

text \<open>
  C8. A cache of capacity \<open>cap\<close> that has only been through steady states holds at most \<open>cap\<close> keys. \<open>get\<close> answers
  with what is cached, changes no cached value and counts the use: the frequency of the key grows by one,
  unless the average exceeds \<open>maxAverageNum\<close> and all frequencies are lowered by half of it, to no less
  than one. \<open>put\<close> stores the value; when the key is new and the cache is full it drops one key, and that
  key is used least.
\<close>

theorem RainLfu_evicts_least_frequent:
  assumes E: "env_ok E" and cap: "0 < cap" "cap < 2 ^ 31" "0 \<le> m" and hist: "lfu_hist E (RainLfu_new cap m) ops s"
  shows "int (card (dom (cached s))) \<le> cap \<and>
     (\<exists>s'. RainLfu_get E s k = Inr (cached s k, s') \<and> cached s' = cached s \<and>
        (case entry s k of None \<Rightarrow> s' = s
         | Some (f, w) \<Rightarrow>
             if curAverageNum s' \<le> maxAverageNum s then entry s' = (entry s)(k \<mapsto> (f + 1, w))
             else \<forall>k'. entry s' k' = map_option (\<lambda>(f, w). (max 1 (f - maxAverageNum s div 2), w)) (((entry s)(k \<mapsto> (f + 1, w))) k'))) \<and>
     (\<exists>s'. RainLfu_put E s k v = Inr s' \<and>
        (if k \<in> dom (cached s) \<or> int (card (dom (cached s))) < cap then cached s' = (cached s)(k \<mapsto> v)
         else \<exists>k0 f w. entry s k0 = Some (f, w) \<and> (\<forall>k' f' w'. entry s k' = Some (f', w') \<longrightarrow> f \<le> f') \<and>
           cached s' = (cached s)(k0 := None, k \<mapsto> v)))"
proof (intro conjI)
  have inv: "lfu_inv E s" by (rule hist_lfu_inv [OF E cap hist])
  have c: "capacity s = cap" using hist_capacity [OF E new_lfu_inv [OF cap] hist] by (simp add: RainLfu_new_def)
  have mx: "0 \<le> maxAverageNum s" using inv by (simp add: lfu_inv_def)
  show "int (card (dom (cached s))) \<le> cap" using inv c card_cached [OF inv] by (simp add: lfu_inv_def)
  show "\<exists>s'. RainLfu_get E s k = Inr (cached s k, s') \<and> cached s' = cached s \<and>
        (case entry s k of None \<Rightarrow> s' = s
         | Some (f, w) \<Rightarrow>
             if curAverageNum s' \<le> maxAverageNum s then entry s' = (entry s)(k \<mapsto> (f + 1, w))
             else \<forall>k'. entry s' k' = map_option (\<lambda>(f, w). (max 1 (f - maxAverageNum s div 2), w)) (((entry s)(k \<mapsto> (f + 1, w))) k'))"
    using get_ok [OF E inv, of k] unfolding aged_max [OF mx] by blast
  show "\<exists>s'. RainLfu_put E s k v = Inr s' \<and>
        (if k \<in> dom (cached s) \<or> int (card (dom (cached s))) < cap then cached s' = (cached s)(k \<mapsto> v)
         else \<exists>k0 f w. entry s k0 = Some (f, w) \<and> (\<forall>k' f' w'. entry s k' = Some (f', w') \<longrightarrow> f \<le> f') \<and>
           cached s' = (cached s)(k0 := None, k \<mapsto> v))"
    using put_ok [OF E inv, of k v] unfolding c card_cached [OF inv] by blast
qed

text \<open>A concrete environment: keys and frequencies are visited in increasing order.\<close>

definition env_asc :: "(nat, nat) lfu_env" where
  "env_asc = \<lparr>junk = (0, 0), key_order = sorted_list_of_set, freq_order = sorted_list_of_set\<rparr>"

lemma env_asc_ok: "env_ok env_asc"
  by (simp add: env_ok_def env_asc_def)

definition lfu_ops :: "(nat, nat) cache_op list" where
  "lfu_ops = [Put 1 10, Put 2 20, Get 1]"


lemma lfu_ops_hist: "\<exists>s. lfu_hist env_asc (RainLfu_new 2 10) lfu_ops s \<and> entry s = [1 \<mapsto> (2, 10), 2 \<mapsto> (1, 20)]"
proof -
  let ?s0 = "RainLfu_new 2 10 :: (nat, nat) RainLfu"
  have inv0: "lfu_inv env_asc ?s0" by (rule new_lfu_inv) simp_all
  have e0: "entry ?s0 = Map.empty" "map_size ?s0 = 0" "capacity ?s0 = 2" "maxAverageNum ?s0 = 10" "curTotalNum ?s0 = 0"
    by (simp_all add: entry_def RainLfu_new_def fun_eq_iff map_size_def)
  obtain s1 where s1: "RainLfu_put env_asc ?s0 1 10 = Inr s1" "steady s1 \<longrightarrow> lfu_inv env_asc s1" "capacity s1 = 2" "maxAverageNum s1 = 10"
      "curTotalNum s1 = 1" "curAverageNum s1 = averageNum s1" "map_size s1 = 1"
      "curAverageNum s1 \<le> 10 \<longrightarrow> entry s1 = (entry ?s0)(1 \<mapsto> (1, 10))"
    using put_new_counts [OF env_asc_ok inv0, of 1 10] e0 by auto
  have a1: "curAverageNum s1 = 1" using s1(5-7) average_exact [of s1 0] by simp
  then have st1: "steady s1" "entry s1 = [1 \<mapsto> (1, 10)]" using s1(4,8) e0(1) by (simp_all add: steady_def)
  obtain s2 where s2: "RainLfu_put env_asc s1 2 20 = Inr s2" "steady s2 \<longrightarrow> lfu_inv env_asc s2" "maxAverageNum s2 = 10"
      "curTotalNum s2 = 2" "curAverageNum s2 = averageNum s2" "map_size s2 = Suc 1"
      "curAverageNum s2 \<le> 10 \<longrightarrow> entry s2 = (entry s1)(2 \<mapsto> (1, 20))"
    using put_new_counts [of env_asc s1 2 20] env_asc_ok s1 st1 by auto
  have a2: "curAverageNum s2 = 1" using s2(4-6) average_exact [of s2 1] by simp
  then have st2: "steady s2" "entry s2 = [1 \<mapsto> (1, 10), 2 \<mapsto> (1, 20)]" using s2(3,7) st1(2) by (simp_all add: steady_def)
  have "lfu_inv env_asc s2" "entry s2 1 = Some (1, 10)" using s2(2) st2 by simp_all
  from get_counts [OF env_asc_ok this] obtain s3 where s3: "RainLfu_get env_asc s2 1 = Inr (Some 10, s3)"
      "maxAverageNum s3 = maxAverageNum s2" "curTotalNum s3 = curTotalNum s2 + 1" "curAverageNum s3 = averageNum s3" "map_size s3 = map_size s2"
      "if curAverageNum s3 \<le> maxAverageNum s2 then entry s3 = (entry s2)(1 \<mapsto> (1 + 1, 10))
       else entry s3 = (\<lambda>k'. map_option (\<lambda>(f, v). (aged (maxAverageNum s2) f, v)) (((entry s2)(1 \<mapsto> (1 + 1, 10))) k')) \<and>
         (steady s3 \<or> minFreq s3 = 1)"
    by blast
  have a3: "curAverageNum s3 = 1" using s3(3-5) s2(4,6) average_exact [of s3 1] by simp
  then have st3: "steady s3" "entry s3 = (entry s2)(1 \<mapsto> (2, 10))" using s3(2,6) s2(3) by (simp_all add: steady_def)
  have "lfu_hist env_asc ?s0 lfu_ops s3" using s1(1) s2(1) s3(1) st1(1) st2(1) st3(1) by (simp add: lfu_ops_def)
  moreover have "entry s3 = [1 \<mapsto> (2, 10), 2 \<mapsto> (1, 20)]" using st3(2) st2(2) by (simp add: fun_upd_twist)
  ultimately show ?thesis by blast
qed

theorem RainLfu_evicts_least_frequent_witness:
  "\<exists>s. lfu_hist env_asc (RainLfu_new 2 10) lfu_ops s \<and>
     (\<exists>s'. RainLfu_put env_asc s 3 30 = Inr s' \<and> cached s' = [1 \<mapsto> 10, 3 \<mapsto> 30])"
proof -
  obtain s where s: "lfu_hist env_asc (RainLfu_new 2 10) lfu_ops s" "entry s = [1 \<mapsto> (2, 10), 2 \<mapsto> (1, 20)]"
    using lfu_ops_hist by blast
  have c: "cached s = [1 \<mapsto> 10, 2 \<mapsto> 20]" using s(2) by (auto simp: cached_def)
  have "\<exists>s'. RainLfu_put env_asc s 3 30 = Inr s' \<and>
        (if 3 \<in> dom (cached s) \<or> int (card (dom (cached s))) < 2 then cached s' = (cached s)(3 \<mapsto> 30)
         else \<exists>k0 f w. entry s k0 = Some (f, w) \<and> (\<forall>k' f' w'. entry s k' = Some (f', w') \<longrightarrow> f \<le> f') \<and>
           cached s' = (cached s)(k0 := None, 3 \<mapsto> 30))"
    using RainLfu_evicts_least_frequent [OF env_asc_ok _ _ _ s(1), of 3 30] by simp
  then obtain s' k0 f w where s': "RainLfu_put env_asc s 3 30 = Inr s'" "entry s k0 = Some (f, w)"
      "\<forall>k' f' w'. entry s k' = Some (f', w') \<longrightarrow> f \<le> f'" "cached s' = (cached s)(k0 := None, 3 \<mapsto> 30)"
    using c by (auto split: if_splits)
  have "f \<le> 1" using s'(3) s(2) by (metis fun_upd_same)
  then have "k0 = 2" using s'(2) s(2) by (auto split: if_splits)
  then have "cached s' = [1 \<mapsto> 10, 3 \<mapsto> 30]" using s'(4) c by (auto simp: fun_eq_iff)
  then show ?thesis using s(1) s'(1) by blast
qed

text \<open>
  C38. What \<open>get\<close> finds in a cache that was empty and has only been through steady states is the value of
  the last \<open>put\<close> for the key; it never fails and never finds anything else.
\<close>

theorem RainLfu_get_returns_last_put:
  assumes "env_ok E" and "0 < cap" and "cap < 2 ^ 31" and "0 \<le> m" and "lfu_hist E (RainLfu_new cap m) ops s"
  shows "\<exists>r s'. RainLfu_get E s k = Inr (r, s') \<and> (r = None \<or> r = last_put ops k)"
  by (rule lfu.get_returns_last_put [OF assms(5) [unfolded lfu_hist_eq]]) (simp_all add: assms(1) new_lfu_inv [OF assms(2-4)])

theorem RainLfu_get_returns_last_put_witness:
  "\<exists>s s'. lfu_hist env_asc (RainLfu_new 2 10) lfu_ops s \<and> RainLfu_get env_asc s 2 = Inr (Some 20, s') \<and> last_put lfu_ops 2 = Some 20"
proof -
  obtain s where s: "lfu_hist env_asc (RainLfu_new 2 10) lfu_ops s" "entry s = [1 \<mapsto> (2, 10), 2 \<mapsto> (1, 20)]"
    using lfu_ops_hist by blast
  have inv: "lfu_inv env_asc s" by (rule hist_lfu_inv [OF env_asc_ok _ _ _ s(1)]) simp_all
  have "last_put lfu_ops 2 = Some 20" by (simp add: lfu_ops_def)
  moreover obtain r s' where "RainLfu_get env_asc s 2 = Inr (r, s')" "r = None \<or> r = last_put lfu_ops 2"
    using RainLfu_get_returns_last_put [OF env_asc_ok _ _ _ s(1), of 2] by auto
  moreover have "cached s 2 = Some 20" using s(2) by (simp add: cached_def)
  ultimately show ?thesis using s(1) get_ok [OF env_asc_ok inv, of 2] by auto
qed

section \<open>Where the bound is lost\<close>

text \<open>
  When ageing leaves no frequency below 127, \<open>updateMinFreq\<close> falls back to 1, and the list of that
  frequency is empty: its first node is the dummy at the end. \<open>kickOut\<close> drops the default key, that is,
  nothing.
\<close>

lemma kickOut_dummy:
  assumes inv: "lists_inv E s L" "map_inv s L" and mn: "minFreq s = 1" "freqToFreqList s 1 \<noteq> None" "L 1 = []"
    and junk: "nodeMap s (fst (junk E)) = None"
  shows "kickOut s = Inr (decreaseFreqNum s 1)"
proof -
  obtain l where l: "freqToFreqList s 1 = Some (Some l)" using mn(2) lists_invD(2) [OF inv(1), of 1] by (cases "freqToFreqList s 1") auto
  have at: "list_at s 1 = Inr l" using l by (simp add: list_at_def)
  have rel: "fl_rel (nodes s) l []" using lists_invD(3) [OF inv(1) l] mn(3) by simp
  have first: "FreqList_getFirstNode (nodes s) l = Inr (Some (tail l))" using first_ok(1) [OF rel] by simp
  obtain n where n: "nodes s (tail l) = Some n" "freq n = 1" "node_key n = fst (junk E)"
    using lists_invD(7) [OF inv(1) l] data_eq_freq [of "nodes s" "tail l" 1 "fst (junk E)" "snd (junk E)"] by auto
  have "nxt n = None" using rel n(1) by (simp add: fl_rel_def nxt_of_def)
  then have rem: "removeFromFreqList s (tail l) = Inr s"
    using n at by (simp add: removeFromFreqList_def deref_def FreqList_removeNode_def split: option.split)
  have same: "s\<lparr>nodeMap := (nodeMap s)(fst (junk E) := None)\<rparr> = s" using junk by (simp add: fun_upd_idem)
  show ?thesis using mn(1) at first rem n same by (simp add: kickOut_def deref_def)
qed

lemma lfu_run_append: "lfu_run E s (xs @ ys) = andthen (lfu_run E s xs) (\<lambda>s. lfu_run E s ys)"
  by (induction xs arbitrary: s) (simp_all add: andthen_def split: sum.split)

lemma lfu_run_snoc_get:
  assumes "lfu_run E s0 (p # replicate j (Get k)) = Inr s" and "RainLfu_get E s k = Inr (r, s')"
  shows "lfu_run E s0 (p # replicate (Suc j) (Get k)) = Inr s'"
proof -
  have "p # replicate (Suc j) (Get k) = (p # replicate j (Get k)) @ [Get k]" by (simp add: replicate_append_same)
  then show ?thesis unfolding lfu_run_append using assms by (simp only: lfu_run_append) simp
qed

lemma run_gets:
  assumes E: "env_ok E" and m: "0 < m" "m < 2 ^ 31 - 1" and j: "int j < m"
  shows "\<exists>s. lfu_run E (RainLfu_new 1 m) (Put k v # replicate j (Get k)) = Inr s \<and> lfu_inv E s \<and> capacity s = 1 \<and> maxAverageNum s = m \<and>
     curTotalNum s = 1 + int j \<and> entry s = [k \<mapsto> (1 + int j, v)] \<and> map_size s = 1 \<and> freqToFreqList s 1 \<noteq> None"
  using j
proof (induction j)
  case 0
  let ?s0 = "RainLfu_new 1 m :: ('a, 'b) RainLfu"
  have inv0: "lfu_inv E ?s0" using m(1) by (intro new_lfu_inv) simp_all
  have e0: "entry ?s0 = Map.empty" "map_size ?s0 = 0" "capacity ?s0 = 1" "maxAverageNum ?s0 = m" "curTotalNum ?s0 = 0"
    by (simp_all add: entry_def RainLfu_new_def fun_eq_iff map_size_def)
  obtain s where s: "RainLfu_put E ?s0 k v = Inr s" "steady s \<longrightarrow> lfu_inv E s" "capacity s = 1" "maxAverageNum s = m"
      "curTotalNum s = 1" "curAverageNum s = averageNum s" "map_size s = 1" "curAverageNum s \<le> m \<longrightarrow> entry s = [k \<mapsto> (1, v)]"
    using put_new_counts [OF E inv0, of k v] e0 by auto
  have "curAverageNum s = 1" using s(5-7) average_exact [of s 0] by simp
  then have st: "lfu_inv E s" "entry s = [k \<mapsto> (1, v)]" using s(2,4,8) m(1) by (simp_all add: steady_def)
  obtain L where L: "lists_inv E s L" "map_inv s L" using st(1) by (auto simp: lfu_inv_def)
  have "L 1 \<noteq> []" using map_inv_list [OF L(2), of 1] st(2) by simp
  then have "freqToFreqList s 1 \<noteq> None" using lists_invD(1) [OF L(1)] by blast
  then show ?case using s st by (simp add: fun_upd_def)
next
  case (Suc j)
  then have "int j < m" by simp
  from Suc.IH [OF this] obtain s where s: "lfu_run E (RainLfu_new 1 m) (Put k v # replicate j (Get k)) = Inr s" "lfu_inv E s" "capacity s = 1"
      "maxAverageNum s = m" "curTotalNum s = 1 + int j" "entry s = [k \<mapsto> (1 + int j, v)]" "map_size s = 1" "freqToFreqList s 1 \<noteq> None"
    by blast
  have k: "entry s k = Some (1 + int j, v)" using s(6) by simp
  from get_counts [OF E s(2) k] obtain s' where s': "RainLfu_get E s k = Inr (Some v, s')" "steady s' \<longrightarrow> lfu_inv E s'"
      "capacity s' = capacity s" "maxAverageNum s' = maxAverageNum s" "curTotalNum s' = curTotalNum s + 1"
      "curAverageNum s' = averageNum s'" "map_size s' = map_size s" "lists_kept s s'"
      "if curAverageNum s' \<le> maxAverageNum s then entry s' = (entry s)(k \<mapsto> (1 + int j + 1, v))
       else entry s' = (\<lambda>k'. map_option (\<lambda>(f, v). (aged (maxAverageNum s) f, v)) (((entry s)(k \<mapsto> (1 + int j + 1, v))) k')) \<and>
         (steady s' \<or> minFreq s' = 1)"
    by blast
  have "curAverageNum s' = 2 + int j" using s'(5-7) s(5,7) average_exact [of s' 0] Suc.prems m(2) by simp
  then have le: "curAverageNum s' \<le> m" using Suc.prems by simp
  then have "entry s' = [k \<mapsto> (2 + int j, v)]" "lfu_inv E s'" using s'(2,4,9) s(4,6) by (simp_all add: steady_def)
  moreover have "freqToFreqList s' 1 \<noteq> None" using s'(8) s(8) by (auto simp: lists_kept_def)
  moreover have "lfu_run E (RainLfu_new 1 m) (Put k v # replicate (Suc j) (Get k)) = Inr s'"
    by (rule lfu_run_snoc_get [OF s(1) s'(1)])
  ultimately show ?case using s' s by (simp add: add.commute fun_upd_def)
qed

text \<open>
  A cache of capacity 1 comes to hold two keys. With \<open>maxAverageNum\<close> at least 252 one \<open>put\<close> and \<open>maxAverageNum\<close>
  calls of \<open>get\<close> for the same key make the average exceed the bound; ageing leaves the frequency at 127 or more, which
  \<open>updateMinFreq\<close>, starting its search for the minimum from \<open>INT8_MAX\<close>, does not see. The next \<open>put\<close> evicts
  nothing, for any keys other than the default one.
\<close>

theorem RainLfu_ageing_exceeds_capacity:
  assumes E: "env_ok E" and m: "252 \<le> m" "m < 2 ^ 31 - 1" and ne: "k2 \<noteq> k" and junk: "fst (junk E) \<noteq> k"
  shows "\<exists>s s'. lfu_run E (RainLfu_new 1 m) (Put k v # replicate (nat m) (Get k)) = Inr s \<and>
     RainLfu_put E s k2 v2 = Inr s' \<and> capacity s' = 1 \<and> cached s' = [k \<mapsto> v, k2 \<mapsto> v2]"
proof -
  define j where "j = nat m - 1"
  have j: "int j = m - 1" "nat m = Suc j" using m(1) by (simp_all add: j_def)
  obtain s where s: "lfu_run E (RainLfu_new 1 m) (Put k v # replicate j (Get k)) = Inr s" "lfu_inv E s" "capacity s = 1"
      "maxAverageNum s = m" "curTotalNum s = m" "entry s = [k \<mapsto> (m, v)]" "map_size s = 1" "freqToFreqList s 1 \<noteq> None"
    using run_gets [OF E, of m j k v] m j(1) by auto
  have k: "entry s k = Some (m, v)" using s(6) by simp
  from get_counts [OF E s(2) k] obtain t where t: "RainLfu_get E s k = Inr (Some v, t)" "lfu_base E t" "capacity t = capacity s"
      "maxAverageNum t = maxAverageNum s" "curTotalNum t = curTotalNum s + 1"
      "curAverageNum t = averageNum t" "map_size t = map_size s" "lists_kept s t"
      "if curAverageNum t \<le> maxAverageNum s then entry t = (entry s)(k \<mapsto> (m + 1, v))
       else entry t = (\<lambda>k'. map_option (\<lambda>(f, v). (aged (maxAverageNum s) f, v)) (((entry s)(k \<mapsto> (m + 1, v))) k')) \<and>
         (steady t \<or> minFreq t = 1)"
    by blast
  have over: "\<not> curAverageNum t \<le> maxAverageNum s" using t(5-7) s(4,5,7) average_exact [of t 0] m by simp
  have big: "127 \<le> aged m (m + 1)" using m(1) by (simp add: aged_max)
  have e: "entry t = [k \<mapsto> (aged m (m + 1), v)]" using t(9) over s(4,6) by (auto simp: fun_eq_iff)
  have "\<not> steady t" using over t(4) e big by (auto simp: steady_def split: if_splits)
  then have mn: "minFreq t = 1" using t(9) over by simp
  have lists: "freqToFreqList t 1 \<noteq> None" using t(8) s(8) by (auto simp: lists_kept_def)
  obtain L where L: "lists_inv E t L" "map_inv t L" using t(2) by (auto simp: lfu_base_def)
  have "\<not> (\<exists>k v. entry t k = Some (1, v))" using e big by auto
  then have L1: "L 1 = []" using map_inv_list [OF L(2), of 1] by blast
  have dom: "dom (nodeMap t) = {k}" using e entry_dom [OF L(2)] by simp
  then have out: "nodeMap t (fst (junk E)) = None" "nodeMap t k2 = None" using junk ne by auto
  let ?t = "decreaseFreqNum t 1"
  have kick: "kickOut t = Inr ?t" by (rule kickOut_dummy [OF L mn lists L1 out(1)])
  have t': "lists_inv E ?t L" "map_inv ?t L" "1 \<le> minFreq ?t" "0 \<le> maxAverageNum ?t" "nodeMap ?t k2 = None" "cached ?t = cached t"
      "capacity ?t = 1"
    using L mn t(3,4) s(3,4) m(1) out(2) by (simp_all add: decreaseFreqNum_def Let_def cached_def fun_eq_iff)
  have run: "RainLfu_put E t k2 v2 = andthen (addToFreqList E (?t\<lparr>nodes := (nodes ?t)(next_addr ?t \<mapsto> Node_new k2 v2),
        next_addr := next_addr ?t + 1, nodeMap := (nodeMap ?t)(k2 \<mapsto> next_addr ?t)\<rparr>) (next_addr ?t)) (\<lambda>s.
      andthen (addFreqNum E s) (\<lambda>s. Inr (s\<lparr>minFreq := min (minFreq s) 1\<rparr>)))"
    using kick out(2) t(3,7) s(3,7) by (simp add: RainLfu_put_def putInternal_def Let_def)
  obtain s' where s': "RainLfu_put E t k2 v2 = Inr s'" "capacity s' = capacity ?t" "cached s' = (cached ?t)(k2 \<mapsto> v2)"
    unfolding run using store_ok [OF E t'(1-5), of v2] by blast
  have "cached t = [k \<mapsto> v]" using e by (auto simp: cached_def)
  moreover have "lfu_run E (RainLfu_new 1 m) (Put k v # replicate (nat m) (Get k)) = Inr t"
    unfolding j(2) by (rule lfu_run_snoc_get [OF s(1) t(1)])
  ultimately show ?thesis using s' t'(6,7) by auto
qed

theorem RainLfu_ageing_exceeds_capacity_witness:
  "\<exists>s s'. lfu_run env_asc (RainLfu_new 1 1000) (Put 1 10 # replicate 1000 (Get 1)) = Inr s \<and>
     RainLfu_put env_asc s 2 20 = Inr s' \<and> capacity s' = 1 \<and> cached s' = [1 \<mapsto> 10, 2 \<mapsto> 20]"
  using RainLfu_ageing_exceeds_capacity [OF env_asc_ok, of 1000 2 1 10 20] by (simp add: env_asc_def)

section \<open>Slices\<close>

definition slice_of :: "('k \<Rightarrow> size_t) \<Rightarrow> int \<Rightarrow> 'k \<Rightarrow> nat" where
  "slice_of Hash num k = unat (Hash k mod of_int num)"

definition hash_cached :: "('k \<Rightarrow> size_t) \<Rightarrow> ('k, 'v) RainLfuHash \<Rightarrow> 'k \<rightharpoonup> 'v" where
  "hash_cached Hash c = lfu.shard_view (slice_of Hash (sliceNum c)) (lfuSliceCaches c)"

definition hash_inv :: "('k, 'v) lfu_env \<Rightarrow> ('k, 'v) RainLfuHash \<Rightarrow> bool" where
  "hash_inv E c \<longleftrightarrow> 0 < sliceNum c \<and> sliceNum c < 2 ^ 31 \<and> length (lfuSliceCaches c) = nat (sliceNum c) \<and>
     env_ok E \<and> (\<forall>s \<in> set (lfuSliceCaches c). lfu_inv E s)"

lemma slice_bound:
  assumes "0 < num" and "num < 2 ^ 31"
  shows "slice_of Hash num k < nat num"
proof -
  have "uint (word_of_int num :: size_t) = take_bit 64 num" by (simp add: uint_word_of_int_eq)
  also have "\<dots> = num" using assms by (simp add: take_bit_int_eq_self)
  finally have n: "unat (of_int num :: size_t) = nat num" by (simp add: unat_eq_nat_uint)
  then have "unat (Hash k) mod nat num < nat num" using assms(1) by simp
  then show ?thesis unfolding slice_of_def unat_mod n .
qed

lemma slice_index_ok: "hash_inv E c \<Longrightarrow> slice_index Hash c k = Inr (slice_of Hash (sliceNum c) k)"
  by (simp add: hash_inv_def slice_index_def slice_of_def)

lemma RainLfuHash_new_inv:
  assumes "env_ok E" and "0 < num" and "num < 2 ^ 31" and "0 < cap" and "int cap < 2 ^ 31" and "0 \<le> m"
  shows "hash_inv E (RainLfuHash_new hc cap num m)"
proof -
  let ?n = "(int cap + num - 1) div num"
  have "0 < ?n" using assms(2,4) by (simp add: pos_imp_zdiv_pos_iff)
  moreover have "?n \<le> int cap"
  proof -
    have "int cap + num - 1 \<le> int cap * num"
      using assms(2,4) mult_nonneg_nonneg [of "int cap - 1" "num - 1"] by (simp add: algebra_simps)
    then have "?n \<le> (int cap * num) div num" using assms(2) by (intro zdiv_mono1)
    then show ?thesis using assms(2) by simp
  qed
  ultimately have "to_int ?n = ?n" "0 < ?n" "?n < 2 ^ 31" using assms(5) by (auto simp: to_int_def)
  then have "lfu_inv E (RainLfu_new (to_int ?n) m)" using assms(6) new_lfu_inv [of ?n m E] by simp
  then show ?thesis using assms by (simp add: hash_inv_def RainLfuHash_new_def Let_def)
qed

lemma hash_put_law:
  assumes inv: "hash_inv E c"
  shows "\<exists>c'. RainLfuHash_put E Hash c k v = Inr c' \<and> hash_cached Hash c' k = Some v \<and>
     hash_cached Hash c' \<subseteq>\<^sub>m (hash_cached Hash c)(k \<mapsto> v) \<and> ((\<forall>s \<in> set (lfuSliceCaches c'). steady s) \<longrightarrow> hash_inv E c')"
proof -
  let ?i = "slice_of Hash (sliceNum c)" and ?ss = "lfuSliceCaches c"
  have ss: "env_ok E \<and> lfu_inv E s" if "s \<in> set ?ss" for s using inv that by (simp add: hash_inv_def)
  have i: "?i k < length ?ss" using inv slice_bound [of "sliceNum c"] by (simp add: hash_inv_def)
  obtain s' where s': "RainLfu_put E (?ss ! ?i k) k v = Inr s'" "lfu.shard_view ?i (?ss[?i k := s']) k = Some v"
      "lfu.shard_view ?i (?ss[?i k := s']) \<subseteq>\<^sub>m (lfu.shard_view ?i ?ss)(k \<mapsto> v)"
      "steady s' \<longrightarrow> (\<forall>s \<in> set (?ss[?i k := s']). env_ok E \<and> lfu_inv E s)"
    using lfu.shard_put [where ss = ?ss and idx = ?i and k = k and v = v, OF ss i] by blast
  have "hash_inv E (c\<lparr>lfuSliceCaches := ?ss[?i k := s']\<rparr>)" if "\<forall>s \<in> set (?ss[?i k := s']). steady s"
    using that s'(4) inv set_update_memI [OF i] by (auto simp: hash_inv_def)
  then show ?thesis
    using s'(1-3) i slice_index_ok [OF inv] by (simp add: RainLfuHash_put_def hash_cached_def slice_at_def)
qed

lemma hash_get_law:
  assumes inv: "hash_inv E c"
  shows "\<exists>c'. RainLfuHash_get E Hash c k = Inr (hash_cached Hash c k, c') \<and> hash_cached Hash c' = hash_cached Hash c \<and>
     ((\<forall>s \<in> set (lfuSliceCaches c'). steady s) \<longrightarrow> hash_inv E c')"
proof -
  let ?i = "slice_of Hash (sliceNum c)" and ?ss = "lfuSliceCaches c"
  have ss: "env_ok E \<and> lfu_inv E s" if "s \<in> set ?ss" for s using inv that by (simp add: hash_inv_def)
  have i: "?i k < length ?ss" using inv slice_bound [of "sliceNum c"] by (simp add: hash_inv_def)
  obtain t where t: "RainLfu_get E (?ss ! ?i k) k = Inr (lfu.shard_view ?i ?ss k, t)"
      "lfu.shard_view ?i (?ss[?i k := t]) = lfu.shard_view ?i ?ss"
      "steady t \<longrightarrow> (\<forall>s \<in> set (?ss[?i k := t]). env_ok E \<and> lfu_inv E s)"
    using lfu.shard_get [where ss = ?ss and idx = ?i and k = k, OF ss i] by blast
  have "hash_inv E (c\<lparr>lfuSliceCaches := ?ss[?i k := t]\<rparr>)" if "\<forall>s \<in> set (?ss[?i k := t]). steady s"
    using that t(3) inv set_update_memI [OF i] by (auto simp: hash_inv_def)
  then show ?thesis
    using t(1,2) i slice_index_ok [OF inv] by (simp add: RainLfuHash_get_def hash_cached_def slice_at_def)
qed

text \<open>The sliced cache keeps the contract of a cache, as long as every slice is steady.\<close>

interpretation lfu_hash: rain_cache "hash_inv E" "\<lambda>c. \<forall>s \<in> set (lfuSliceCaches c). steady s" "hash_cached Hash"
  "RainLfuHash_put E Hash" "RainLfuHash_get E Hash" for E Hash
  by unfold_locales (rule hash_put_law hash_get_law; assumption)+

text \<open>A history of the sliced cache all of whose states are steady in every slice.\<close>

primrec hash_exec :: "('k, 'v) lfu_env \<Rightarrow> ('k \<Rightarrow> size_t) \<Rightarrow> ('k, 'v) RainLfuHash \<Rightarrow> ('k, 'v) cache_op \<Rightarrow> ('k, 'v) RainLfuHash result" where
  "hash_exec E Hash c (Put k v) = RainLfuHash_put E Hash c k v"
| "hash_exec E Hash c (Get k) = andthen (RainLfuHash_get E Hash c k) (\<lambda>(_, c). Inr c)"

primrec hash_hist ::
  "('k, 'v) lfu_env \<Rightarrow> ('k \<Rightarrow> size_t) \<Rightarrow> ('k, 'v) RainLfuHash \<Rightarrow> ('k, 'v) cache_op list \<Rightarrow> ('k, 'v) RainLfuHash \<Rightarrow> bool" where
  "hash_hist E Hash c [] t \<longleftrightarrow> t = c"
| "hash_hist E Hash c (p # ops) t \<longleftrightarrow>
     (case hash_exec E Hash c p of Inr c' \<Rightarrow> (\<forall>s \<in> set (lfuSliceCaches c'). steady s) \<and> hash_hist E Hash c' ops t | Inl _ \<Rightarrow> False)"

lemma hash_hist_eq: "hash_hist E Hash c ops t = lfu_hash.hist E Hash c ops t"
proof -
  have "hash_exec E Hash c p = lfu_hash.exec E Hash c p" for c p by (cases p) simp_all
  then show ?thesis by (induction ops arbitrary: c) (auto split: sum.split)
qed

lemma new_hash_cached: "hash_cached Hash (RainLfuHash_new hc cap num m) = Map.empty"
  by (simp add: hash_cached_def lfu.shard_view_def RainLfuHash_new_def Let_def fun_eq_iff)

text \<open>
  C39. The sliced cache behaves as one cache. It is constructed with a positive capacity and number of slices (both \<open>int\<close>s), and has only
  been through states in which every slice is steady. Then \<open>put\<close> succeeds and the value is found under its key, while every other
  key keeps its value or is evicted; \<open>get\<close> succeeds, changes nothing visible, and finds nothing but the value of the last \<open>put\<close>
  for the key. The states that the calls leave can be used further as long as every slice is steady. With capacity 0
  nothing is ever stored, and with no slices the calls divide by zero.
\<close>

theorem RainLfuHash_is_a_map:
  assumes "env_ok E" and "0 < num" and "num < 2 ^ 31" and "0 < cap" and "int cap < 2 ^ 31" and "0 \<le> m"
    and "hash_hist E Hash (RainLfuHash_new hc cap num m) ops c"
  shows "\<exists>c' d r. RainLfuHash_put E Hash c k v = Inr c' \<and> hash_cached Hash c' k = Some v \<and>
     hash_cached Hash c' \<subseteq>\<^sub>m (hash_cached Hash c)(k \<mapsto> v) \<and>
     RainLfuHash_get E Hash c k = Inr (r, d) \<and> r = hash_cached Hash c k \<and> (r = None \<or> r = last_put ops k) \<and>
     hash_cached Hash d = hash_cached Hash c \<and>
     ((\<forall>s \<in> set (lfuSliceCaches c'). steady s) \<longrightarrow> hash_hist E Hash (RainLfuHash_new hc cap num m) (ops @ [Put k v]) c') \<and>
     ((\<forall>s \<in> set (lfuSliceCaches d). steady s) \<longrightarrow> hash_hist E Hash (RainLfuHash_new hc cap num m) (ops @ [Get k]) d)"
proof -
  note new = RainLfuHash_new_inv [OF assms(1-6)]
  have inv: "hash_inv E c" by (rule lfu_hash.hist_inv [OF assms(7) [unfolded hash_hist_eq] new])
  have snoc: "hash_hist E Hash a (ops @ [p]) t" if "hash_hist E Hash a ops c" "hash_exec E Hash c p = Inr t" "\<forall>s \<in> set (lfuSliceCaches t). steady s" for a p t
    using that by (induction ops arbitrary: a) (auto split: sum.splits)
  obtain c' where c': "RainLfuHash_put E Hash c k v = Inr c'" "hash_cached Hash c' k = Some v"
      "hash_cached Hash c' \<subseteq>\<^sub>m (hash_cached Hash c)(k \<mapsto> v)"
    using hash_put_law [OF inv] by blast
  obtain d where d: "RainLfuHash_get E Hash c k = Inr (hash_cached Hash c k, d)" "hash_cached Hash d = hash_cached Hash c"
    using hash_get_law [OF inv] by blast
  have "hash_cached Hash c k = None \<or> hash_cached Hash c k = last_put ops k"
    using lfu_hash.get_returns_last_put [OF assms(7) [unfolded hash_hist_eq] new new_hash_cached, of k] d(1) by simp
  then show ?thesis using c' d snoc [OF assms(7)] by auto
qed

theorem RainLfuHash_is_a_map_witness:
  "\<exists>c d. RainLfuHash_put env_asc of_nat (RainLfuHash_new 4 10 3 10) 7 70 = Inr c \<and>
     RainLfuHash_get env_asc of_nat (RainLfuHash_new 4 10 3 10) 7 = Inr (None, d) \<and> hash_cached of_nat c 7 = Some 70"
proof -
  from RainLfuHash_is_a_map [OF env_asc_ok, of 3 10 10 of_nat 4 "[]" "RainLfuHash_new 4 10 3 10" 7 70] show ?thesis by auto
qed

text \<open>
  \<open>purge\<close> empties every slice but keeps their counters; the slices stay usable.
\<close>

lemma purge_ok:
  assumes "lfu_inv E s"
  shows "lfu_inv E (RainLfu_purge s)" and "cached (RainLfu_purge s) = Map.empty" and "curTotalNum (RainLfu_purge s) = curTotalNum s"
proof -
  obtain L where L: "lists_inv E s L" "min_ok s L" using assms by (auto simp: lfu_inv_def)
  have "lists_inv E (RainLfu_purge s) (\<lambda>_. [])" "map_inv (RainLfu_purge s) (\<lambda>_. [])" "min_ok (RainLfu_purge s) (\<lambda>_. [])"
    using lists_invD(5) [OF L(1)] L(2) by (simp_all add: lists_inv_def map_inv_def min_ok_def RainLfu_purge_def)
  then show "lfu_inv E (RainLfu_purge s)"
    using assms by (auto simp: lfu_inv_def RainLfu_purge_def map_size_def)
  show "cached (RainLfu_purge s) = Map.empty" by (simp add: cached_def entry_def RainLfu_purge_def fun_eq_iff)
  show "curTotalNum (RainLfu_purge s) = curTotalNum s" by (simp add: RainLfu_purge_def)
qed

end
