(* ===== verification/Net_EventLoopThread.thy ===== *)
theory Net_EventLoopThread
  imports Prelude
begin

text \<open>
  Threads and the hand-over of a loop (\<open>src/util/Thread.cc\<close>, \<open>src/log/CurrentThread.cc\<close>, \<open>src/net/EventLoopThread.cc\<close>).
  The thread that owns the object calls \<open>startLoop\<close> and later the destructor; the thread it creates runs \<open>threadFunc\<close>.
  Their steps are interleaved where they wait for each other: at the semaphore of \<open>Thread::start\<close>, at the condition
  variable of \<open>startLoop\<close>, and at \<open>join\<close>. A thread that waits at the condition variable sleeps until it is notified, and then
  tests its predicate again. Creating the thread may throw, and the constructor of the new thread's
  \<open>EventLoop\<close> may abort the process. Of the loop itself only its flag \<open>quit_\<close> is kept, with what \<open>loop()\<close>
  and \<open>quit()\<close> do to it; how the loop uses it is in \<open>Net_EventLoop\<close>.
\<close>

section \<open>Threads\<close>

record Thread =
  th_started :: bool
  joined :: bool
  tid :: int
  th_name :: string

text \<open>The cached thread identifier; \<open>gettid\<close> is the system call.\<close>

definition CurrentThread_cacheTid :: "int \<Rightarrow> int \<Rightarrow> int" where
  "CurrentThread_cacheTid gettid cachedTid = (if cachedTid = 0 then gettid else cachedTid)"

definition CurrentThread_tid :: "int \<Rightarrow> int \<Rightarrow> int" where
  "CurrentThread_tid gettid cachedTid = (if cachedTid = 0 then CurrentThread_cacheTid gettid cachedTid else cachedTid)"

text \<open>
  The constructor, with the counter of created threads. A thread without a name gets one from the counter, which \<open>snprintf\<close> cuts
  to 31 characters.
\<close>

definition Thread_setDefaultName :: "nat \<Rightarrow> Thread \<Rightarrow> Thread \<times> nat" where
  "Thread_setDefaultName numCreated th =
     (let num = numCreated + 1 in
      (if th_name th = [] then th\<lparr>th_name := take 31 (''Thread'' @ dec num)\<rparr> else th, num))"

definition Thread_new :: "nat \<Rightarrow> string \<Rightarrow> Thread \<times> nat" where
  "Thread_new numCreated name =
     Thread_setDefaultName numCreated \<lparr>th_started = False, joined = False, tid = 0, th_name = name\<rparr>"

text \<open>The destructor detaches a thread that runs on.\<close>

definition Thread_destroy_detaches :: "Thread \<Rightarrow> bool" where
  "Thread_destroy_detaches th \<longleftrightarrow> th_started th \<and> \<not> joined th"

section \<open>Handing over the loop\<close>

datatype child_pc =
    Absent       \<comment> \<open>not created\<close>
  | Entered      \<comment> \<open>in the lambda of \<open>Thread::start\<close>\<close>
  | Posted       \<comment> \<open>behind \<open>sem_post\<close>: in \<open>threadFunc\<close>, before the \<open>EventLoop\<close> is constructed\<close>
  | Constructed  \<comment> \<open>before the test of \<open>callback_\<close>\<close>
  | Initialised  \<comment> \<open>before \<open>loop_ = &loop\<close>\<close>
  | Published    \<comment> \<open>behind \<open>notify_one\<close>, before \<open>loop.loop()\<close>\<close>
  | Looping      \<comment> \<open>in \<open>loop.loop()\<close>\<close>
  | Loop_done    \<comment> \<open>behind it, before \<open>loop_ = nullptr\<close>\<close>
  | Finished

datatype owner_pc =
    Before_start
  | Sem_waiting     \<comment> \<open>in \<open>Thread::start\<close>, at \<open>sem_wait\<close>\<close>
  | Cond_testing    \<comment> \<open>in \<open>cond_.wait\<close> of \<open>startLoop\<close>, about to test the predicate under the mutex\<close>
  | Cond_asleep     \<comment> \<open>there, blocked until notified\<close>
  | Threw           \<comment> \<open>\<open>std::thread\<close> has thrown out of \<open>startLoop\<close>\<close>
  | Returned        \<comment> \<open>\<open>startLoop\<close> has returned the loop\<close>
  | Joining         \<comment> \<open>in the destructor, at \<open>thread_.join()\<close>\<close>
  | Destroyed

record EventLoopThread =
  loop_set :: bool
  exiting :: bool
  init_callback :: bool
  init_calls :: nat
  aborted :: bool
  thr :: Thread
  sem :: nat
  loop_quit :: bool
  child :: child_pc
  owner :: owner_pc

definition EventLoopThread_new :: "nat \<Rightarrow> bool \<Rightarrow> string \<Rightarrow> EventLoopThread" where
  "EventLoopThread_new numCreated cb name =
     \<lparr>loop_set = False, exiting = False, init_callback = cb, init_calls = 0, aborted = False, thr = fst (Thread_new numCreated name), sem = 0, loop_quit = False,
      child = Absent, owner = Before_start\<rparr>"

text \<open>The pieces of \<open>Thread::start\<close> and \<open>startLoop\<close> in the owner; \<open>created\<close> says whether \<open>std::thread\<close> finds a thread to run.\<close>

definition Thread_start :: "bool \<Rightarrow> EventLoopThread \<Rightarrow> EventLoopThread" where
  "Thread_start created t =
     (let t = t\<lparr>thr := (thr t)\<lparr>th_started := True\<rparr>, sem := 0\<rparr> in
      if created then t\<lparr>child := Entered, owner := Sem_waiting\<rparr> else t\<lparr>owner := Threw\<rparr>)"

definition sem_wait :: "EventLoopThread \<Rightarrow> EventLoopThread option" where
  "sem_wait t = (if 0 < sem t then Some (t\<lparr>sem := sem t - 1, owner := Cond_testing\<rparr>) else None)"

text \<open>The loop of \<open>cond_.wait(lock, pred)\<close>: return when the predicate holds, otherwise release the mutex and sleep, in one step.\<close>

definition startLoop_wait :: "EventLoopThread \<Rightarrow> EventLoopThread" where
  "startLoop_wait t = (if loop_set t then t\<lparr>owner := Returned\<rparr> else t\<lparr>owner := Cond_asleep\<rparr>)"

definition notify_one :: "EventLoopThread \<Rightarrow> EventLoopThread" where
  "notify_one t = (if owner t = Cond_asleep then t\<lparr>owner := Cond_testing\<rparr> else t)"

text \<open>
  The pieces of the new thread. \<open>built\<close> says whether \<open>epoll_create1\<close> and \<open>eventfd\<close> succeed in the constructor of its \<open>EventLoop\<close>; when
  one fails, \<open>LOG_FATAL\<close> aborts the process. The publication is made under the mutex.
\<close>

definition thread_entry :: "int \<Rightarrow> EventLoopThread \<Rightarrow> EventLoopThread" where
  "thread_entry gettid t = t\<lparr>thr := (thr t)\<lparr>tid := CurrentThread_tid gettid 0\<rparr>, sem := sem t + 1, child := Posted\<rparr>"

definition threadFunc_construct :: "bool \<Rightarrow> EventLoopThread \<Rightarrow> EventLoopThread" where
  "threadFunc_construct built t = (if built then t\<lparr>child := Constructed\<rparr> else t\<lparr>aborted := True\<rparr>)"

definition threadFunc_init :: "EventLoopThread \<Rightarrow> EventLoopThread" where
  "threadFunc_init t =
     (if init_callback t then t\<lparr>init_calls := init_calls t + 1, child := Initialised\<rparr> else t\<lparr>child := Initialised\<rparr>)"

definition threadFunc_publish :: "EventLoopThread \<Rightarrow> EventLoopThread" where
  "threadFunc_publish t = notify_one (t\<lparr>loop_set := True, child := Published\<rparr>)"

text \<open>\<open>loop()\<close> begins by resetting \<open>quit_\<close>.\<close>

definition threadFunc_loop :: "EventLoopThread \<Rightarrow> EventLoopThread" where
  "threadFunc_loop t = t\<lparr>loop_quit := False, child := Looping\<rparr>"

definition threadFunc_end :: "EventLoopThread \<Rightarrow> EventLoopThread" where
  "threadFunc_end t = t\<lparr>loop_set := False, child := Finished\<rparr>"

text \<open>The destructor up to \<open>join\<close>, and \<open>Thread::join\<close>.\<close>

definition EventLoopThread_destroy :: "EventLoopThread \<Rightarrow> EventLoopThread" where
  "EventLoopThread_destroy t =
     (let t = t\<lparr>exiting := True\<rparr> in
      if loop_set t then t\<lparr>loop_quit := True, thr := (thr t)\<lparr>joined := True\<rparr>, owner := Joining\<rparr>
      else t\<lparr>owner := Destroyed\<rparr>)"

definition Thread_join :: "EventLoopThread \<Rightarrow> EventLoopThread option" where
  "Thread_join t = (if child t = Finished then Some (t\<lparr>owner := Destroyed\<rparr>) else None)"

text \<open>
  All interleavings. A loop leaves \<open>loop()\<close> when \<open>quit_\<close> is set; a handler in the loop may also set it. A sleeping thread may also be
  woken without a notification, which the language allows but does not promise.
\<close>

inductive thread_step :: "int \<Rightarrow> EventLoopThread \<Rightarrow> EventLoopThread \<Rightarrow> bool" for gettid where
  start: "owner t = Before_start \<Longrightarrow> \<not> aborted t \<Longrightarrow> thread_step gettid t (Thread_start created t)"
| entry: "child t = Entered \<Longrightarrow> \<not> aborted t \<Longrightarrow> thread_step gettid t (thread_entry gettid t)"
| sem: "owner t = Sem_waiting \<Longrightarrow> \<not> aborted t \<Longrightarrow> sem_wait t = Some t' \<Longrightarrow> thread_step gettid t t'"
| construct: "child t = Posted \<Longrightarrow> \<not> aborted t \<Longrightarrow> thread_step gettid t (threadFunc_construct built t)"
| init: "child t = Constructed \<Longrightarrow> \<not> aborted t \<Longrightarrow> thread_step gettid t (threadFunc_init t)"
| publish: "child t = Initialised \<Longrightarrow> \<not> aborted t \<Longrightarrow> thread_step gettid t (threadFunc_publish t)"
| wait: "owner t = Cond_testing \<Longrightarrow> \<not> aborted t \<Longrightarrow> thread_step gettid t (startLoop_wait t)"
| loop: "child t = Published \<Longrightarrow> \<not> aborted t \<Longrightarrow> thread_step gettid t (threadFunc_loop t)"
| quit: "child t = Looping \<Longrightarrow> \<not> aborted t \<Longrightarrow> thread_step gettid t (t\<lparr>loop_quit := True\<rparr>)"
| leave: "child t = Looping \<Longrightarrow> \<not> aborted t \<Longrightarrow> loop_quit t \<Longrightarrow> thread_step gettid t (t\<lparr>child := Loop_done\<rparr>)"
| finish: "child t = Loop_done \<Longrightarrow> \<not> aborted t \<Longrightarrow> thread_step gettid t (threadFunc_end t)"
| destroy: "owner t = Returned \<Longrightarrow> \<not> aborted t \<Longrightarrow> thread_step gettid t (EventLoopThread_destroy t)"
| join: "owner t = Joining \<Longrightarrow> \<not> aborted t \<Longrightarrow> Thread_join t = Some t' \<Longrightarrow> thread_step gettid t t'"

inductive thread_reach :: "int \<Rightarrow> EventLoopThread \<Rightarrow> bool" for gettid where
  new: "thread_reach gettid (EventLoopThread_new n cb name)"
| step: "thread_reach gettid t \<Longrightarrow> thread_step gettid t t' \<Longrightarrow> thread_reach gettid t'"
| spurious: "thread_reach gettid t \<Longrightarrow> owner t = Cond_asleep \<Longrightarrow> thread_reach gettid (t\<lparr>owner := Cond_testing\<rparr>)"

inductive_cases thread_stepE: "thread_step gettid t t'"

lemmas thread_defs = Thread_start_def sem_wait_def startLoop_wait_def notify_one_def thread_entry_def threadFunc_construct_def threadFunc_init_def
  threadFunc_publish_def threadFunc_loop_def threadFunc_end_def EventLoopThread_destroy_def Thread_join_def CurrentThread_tid_def
  CurrentThread_cacheTid_def Let_def

definition thread_inv :: "int \<Rightarrow> EventLoopThread \<Rightarrow> bool" where
  "thread_inv gettid t \<longleftrightarrow>
     (child t = Absent \<longleftrightarrow> owner t \<in> {Before_start, Threw}) \<and>
     (loop_set t \<longleftrightarrow> child t \<in> {Published, Looping, Loop_done}) \<and>
     (owner t = Sem_waiting \<longrightarrow> sem t = (if child t = Entered then 0 else 1)) \<and>
     (child t \<in> {Absent, Entered} \<or> tid (thr t) = gettid) \<and>
     (owner t \<in> {Cond_testing, Cond_asleep, Returned, Joining, Destroyed} \<longrightarrow> child t \<noteq> Entered) \<and>
     (owner t \<in> {Returned, Joining, Destroyed} \<longrightarrow> child t \<notin> {Posted, Constructed, Initialised}) \<and>
     (owner t = Cond_asleep \<longrightarrow> child t \<notin> {Absent, Entered, Published, Looping, Loop_done})"

lemma thread_invD:
  assumes "thread_inv gettid t"
  shows "child t = Absent \<longleftrightarrow> owner t \<in> {Before_start, Threw}" and "loop_set t \<longleftrightarrow> child t \<in> {Published, Looping, Loop_done}"
    and "child t \<notin> {Absent, Entered} \<Longrightarrow> tid (thr t) = gettid"
    and "owner t = Cond_asleep \<Longrightarrow> child t \<notin> {Absent, Entered, Published, Looping, Loop_done}"
  using assms unfolding thread_inv_def by argo+

lemma thread_inv_step: "thread_inv gettid t \<Longrightarrow> thread_step gettid t t' \<Longrightarrow> thread_inv gettid t'"
  by (erule thread_stepE) (auto simp: thread_inv_def thread_defs split: if_splits)

lemma thread_reach_inv: "thread_reach gettid t \<Longrightarrow> thread_inv gettid t"
proof (induction rule: thread_reach.induct)
  case (new n cb name)
  then show ?case by (simp add: thread_inv_def EventLoopThread_new_def)
next
  case (step t t')
  then show ?case by (blast intro: thread_inv_step)
next
  case (spurious t)
  then show ?case by (auto simp: thread_inv_def)
qed

text \<open>The initial callback, if there is one, is called once, before the loop is published.\<close>

lemma init_calls_reach:
  "thread_reach gettid t \<Longrightarrow> init_calls t = (if child t \<notin> {Absent, Entered, Posted, Constructed} \<and> init_callback t then 1 else 0)"
proof (induction rule: thread_reach.induct)
  case (step t t')
  have "owner t = Before_start \<Longrightarrow> child t = Absent" using thread_invD(1) [OF thread_reach_inv [OF step.hyps(1)]] by simp
  with step.hyps(2) step.IH show ?case by (elim thread_stepE) (auto simp: thread_defs split: if_splits)
qed (simp_all add: EventLoopThread_new_def)

section \<open>The hand-over ends\<close>

text \<open>A state from which the steps of the two threads, without a spurious wake-up, lead \<open>startLoop\<close> to its return.\<close>

definition handed_over :: "EventLoopThread \<Rightarrow> bool" where
  "handed_over t \<longleftrightarrow> owner t = Returned \<and> child t \<in> {Published, Looping, Loop_done}"

definition hands_over :: "int \<Rightarrow> EventLoopThread \<Rightarrow> bool" where
  "hands_over gettid t \<longleftrightarrow> (\<exists>t'. (thread_step gettid)\<^sup>*\<^sup>* t t' \<and> handed_over t')"

lemma hands_over_step: "thread_step gettid t t' \<Longrightarrow> hands_over gettid t' \<Longrightarrow> hands_over gettid t"
  unfolding hands_over_def by (blast intro: converse_rtranclp_into_rtranclp)

lemma hands_over_published:
  assumes "thread_inv gettid t" and "\<not> aborted t" and "loop_set t" and "owner t \<in> {Sem_waiting, Cond_testing}"
  shows "hands_over gettid t"
proof -
  have test: "hands_over gettid u" if "owner u = Cond_testing" "\<not> aborted u" "loop_set u" "child u \<in> {Published, Looping, Loop_done}" for u
  proof (rule hands_over_step [OF thread_step.wait [OF that(1,2)]])
    have "handed_over (startLoop_wait u)" using that by (simp add: handed_over_def startLoop_wait_def)
    then show "hands_over gettid (startLoop_wait u)" unfolding hands_over_def by blast
  qed
  have child: "child t \<in> {Published, Looping, Loop_done}" using assms(1,3) by (simp add: thread_inv_def)
  show ?thesis
  proof (cases "owner t = Sem_waiting")
    case True
    then have sem: "sem_wait t = Some (t\<lparr>sem := sem t - 1, owner := Cond_testing\<rparr>)"
      using assms(1) child by (auto simp: thread_inv_def sem_wait_def)
    show ?thesis using True assms(2) sem by (rule hands_over_step [OF thread_step.sem]) (rule test, use assms(2,3) child in simp_all)
  qed (use assms child in \<open>intro test, simp_all\<close>)
qed

lemma hands_over_waiting:
  assumes inv: "thread_inv gettid t" and run: "\<not> aborted t" and own: "owner t \<in> {Sem_waiting, Cond_testing, Cond_asleep}"
    and child: "child t \<noteq> Finished"
  shows "hands_over gettid t"
proof -
  have init: "hands_over gettid u"
    if "thread_inv gettid u" "\<not> aborted u" "owner u \<in> {Sem_waiting, Cond_testing, Cond_asleep}" "child u = Initialised" for u
  proof (rule hands_over_step [OF thread_step.publish [OF that(4,2)]], rule hands_over_published)
    show "thread_inv gettid (threadFunc_publish u)" by (rule thread_inv_step [OF that(1) thread_step.publish [OF that(4,2)]])
  qed (use that in \<open>auto simp: threadFunc_publish_def notify_one_def\<close>)
  have built: "hands_over gettid u"
    if "thread_inv gettid u" "\<not> aborted u" "owner u \<in> {Sem_waiting, Cond_testing, Cond_asleep}" "child u = Constructed" for u
  proof (rule hands_over_step [OF thread_step.init [OF that(4,2)]], rule init)
    show "thread_inv gettid (threadFunc_init u)" by (rule thread_inv_step [OF that(1) thread_step.init [OF that(4,2)]])
  qed (use that in \<open>auto simp: threadFunc_init_def\<close>)
  have posted: "hands_over gettid u"
    if "thread_inv gettid u" "\<not> aborted u" "owner u \<in> {Sem_waiting, Cond_testing, Cond_asleep}" "child u = Posted" for u
  proof (rule hands_over_step [OF thread_step.construct [OF that(4,2), where built = True]], rule built)
    show "thread_inv gettid (threadFunc_construct True u)" by (rule thread_inv_step [OF that(1) thread_step.construct [OF that(4,2)]])
  qed (use that in \<open>auto simp: threadFunc_construct_def\<close>)
  have entered: "hands_over gettid u"
    if "thread_inv gettid u" "\<not> aborted u" "owner u \<in> {Sem_waiting, Cond_testing, Cond_asleep}" "child u = Entered" for u
  proof (rule hands_over_step [OF thread_step.entry [OF that(4,2)]], rule posted)
    show "thread_inv gettid (thread_entry gettid u)" by (rule thread_inv_step [OF that(1) thread_step.entry [OF that(4,2)]])
  qed (use that in \<open>auto simp: thread_entry_def\<close>)
  have rest: "child t \<in> {Published, Looping, Loop_done} \<Longrightarrow> loop_set t \<and> owner t \<in> {Sem_waiting, Cond_testing}" "child t \<noteq> Absent"
    using thread_invD(1,2,4) [OF inv] own by auto
  note published = hands_over_published [OF inv run conjunct1 [OF rest(1)] conjunct2 [OF rest(1)]]
  show ?thesis
  proof (cases "child t")
    case Entered
    then show ?thesis by (rule entered [OF inv run own])
  next
    case Posted
    then show ?thesis by (rule posted [OF inv run own])
  next
    case Constructed
    then show ?thesis by (rule built [OF inv run own])
  next
    case Initialised
    then show ?thesis by (rule init [OF inv run own])
  qed (use rest(2) child in \<open>simp_all add: published\<close>)
qed

section \<open>Properties\<close>

text \<open>
  C40. The hand-over of a loop. In whatever state the two threads are while the owner waits in \<open>startLoop\<close>, at the semaphore or at the condition
  variable, unless the process has aborted or the loop has already come and gone: the owner sleeps only while the loop is not yet published, so that the
  notification is still to come; the steps of the two threads, without any spurious wake-up, lead on to the return of \<open>startLoop\<close>, provided the new thread's \<open>EventLoop\<close> can be constructed; and what
  \<open>startLoop\<close> returns, whenever it does, is a loop that exists at that moment, in a thread whose identifier is known, with the initial callback called if there is one.
\<close>

theorem EventLoopThread_startLoop:
  assumes "thread_reach gettid t" and "\<not> aborted t" and "child t \<noteq> Finished"
    and "owner t = Sem_waiting \<or> owner t = Cond_testing \<or> owner t = Cond_asleep"
  shows "(owner t = Cond_asleep \<longrightarrow> child t = Posted \<or> child t = Constructed \<or> child t = Initialised) \<and>
     (\<exists>t'. (thread_step gettid)\<^sup>*\<^sup>* t t' \<and> owner t' = Returned) \<and>
     (\<forall>t'. thread_step gettid t t' \<and> owner t' = Returned \<longrightarrow>
       (child t' = Published \<or> child t' = Looping \<or> child t' = Loop_done) \<and> tid (thr t') = gettid \<and>
       init_calls t' = (if init_callback t' then 1 else 0))"
proof -
  have inv: "thread_inv gettid t" by (rule thread_reach_inv [OF assms(1)])
  have "hands_over gettid t" using assms(4) by (intro hands_over_waiting [OF inv assms(2)] assms(3)) auto
  moreover have "(child t' = Published \<or> child t' = Looping \<or> child t' = Loop_done) \<and> tid (thr t') = gettid \<and>
      init_calls t' = (if init_callback t' then 1 else 0)"
    if step: "thread_step gettid t t'" and ret: "owner t' = Returned" for t'
  proof -
    have "loop_set t'" using step ret assms(4) by (elim thread_stepE) (auto simp: thread_defs split: if_splits)
    then show ?thesis using thread_invD(2,3) [OF thread_inv_step [OF inv step]] init_calls_reach [OF thread_reach.step [OF assms(1) step]] by auto
  qed
  moreover have "owner t = Cond_asleep \<longrightarrow> child t = Posted \<or> child t = Constructed \<or> child t = Initialised"
    using inv assms(3) by (cases "child t") (simp_all add: thread_inv_def)
  ultimately show ?thesis unfolding hands_over_def handed_over_def by blast
qed

text \<open>
  A destructor that runs before the new thread has entered \<open>loop()\<close> never returns, unless a handler quits the loop:
  \<open>loop()\<close> resets the flag that the destructor has set, and \<open>join\<close> waits for a loop that goes on.
\<close>

theorem EventLoopThread_destroy_hangs:
  assumes "thread_reach gettid t" and "\<not> aborted t" and "owner t = Returned" and "child t = Published"
  shows "\<exists>t1 t2. thread_step gettid t t1 \<and> thread_step gettid t1 t2 \<and> owner t2 = Joining \<and> child t2 = Looping \<and>
     \<not> loop_quit t2 \<and> (\<forall>t3. thread_step gettid t2 t3 \<longrightarrow> t3 = t2\<lparr>loop_quit := True\<rparr>)"
proof -
  have set: "loop_set t" using thread_reach_inv [OF assms(1)] assms(4) by (simp add: thread_inv_def)
  let ?t1 = "EventLoopThread_destroy t"
  let ?t2 = "threadFunc_loop ?t1"
  have "thread_step gettid t ?t1" using assms(3,2) by (rule thread_step.destroy)
  moreover have "thread_step gettid ?t1 ?t2" by (rule thread_step.loop) (use assms(2,4) set in \<open>simp_all add: thread_defs\<close>)
  moreover have t2: "owner ?t2 = Joining" "child ?t2 = Looping" "\<not> loop_quit ?t2" using set by (simp_all add: thread_defs)
  moreover have "t3 = ?t2\<lparr>loop_quit := True\<rparr>" if "thread_step gettid ?t2 t3" for t3
    using that t2 by (elim thread_stepE) (simp_all add: Thread_join_def)
  ultimately show ?thesis by blast
qed

text \<open>
  A destructor that runs when the new thread is in \<open>loop()\<close> does return: nothing resets the flag any more, and whatever steps are made, the way to the
  end of \<open>join\<close> stays open.
\<close>

theorem EventLoopThread_destroy_returns:
  assumes "thread_reach gettid t" and "\<not> aborted t" and "owner t = Returned" and "child t = Looping"
    and "(thread_step gettid)\<^sup>*\<^sup>* (EventLoopThread_destroy t) t1"
  shows "\<exists>t2. (thread_step gettid)\<^sup>*\<^sup>* t1 t2 \<and> owner t2 = Destroyed \<and> child t2 = Finished"
proof -
  let ?P = "\<lambda>u. \<not> aborted u \<and> (owner u = Joining \<and> (child u = Looping \<and> loop_quit u \<or> child u = Loop_done \<or> child u = Finished) \<or>
      owner u = Destroyed \<and> child u = Finished)"
  have set: "loop_set t" using thread_invD(2) [OF thread_reach_inv [OF assms(1)]] assms(4) by simp
  have "?P (EventLoopThread_destroy t)" using assms(2,4) set by (simp add: EventLoopThread_destroy_def Let_def)
  with assms(5) have P: "?P t1"
  proof (induction rule: rtranclp_induct)
    case (step u v)
    from step.hyps(2) step.IH [OF step.prems] show ?case by (elim thread_stepE) (auto simp: thread_defs)
  qed
  have joins: "\<exists>t2. (thread_step gettid)\<^sup>*\<^sup>* u t2 \<and> owner t2 = Destroyed \<and> child t2 = Finished"
    if "owner u = Joining" "\<not> aborted u" "child u = Finished" for u
    using thread_step.join [OF that(1,2), of "u\<lparr>owner := Destroyed\<rparr>" gettid] that(3) by (auto simp: Thread_join_def)
  have left: "\<exists>t2. (thread_step gettid)\<^sup>*\<^sup>* u t2 \<and> owner t2 = Destroyed \<and> child t2 = Finished"
    if "owner u = Joining" "\<not> aborted u" "child u = Loop_done" for u
    using joins [of "threadFunc_end u"] thread_step.finish [OF that(3,2), of gettid] that
    by (auto simp: threadFunc_end_def intro: converse_rtranclp_into_rtranclp)
  have "\<exists>t2. (thread_step gettid)\<^sup>*\<^sup>* u t2 \<and> owner t2 = Destroyed \<and> child t2 = Finished"
    if "owner u = Joining" "\<not> aborted u" "child u = Looping" "loop_quit u" for u
    using left [of "u\<lparr>child := Loop_done\<rparr>"] thread_step.leave [OF that(3,2,4), of gettid] that
    by (auto intro: converse_rtranclp_into_rtranclp)
  then show ?thesis using P joins [of t1] left [of t1] by auto
qed

section \<open>Witness\<close>

text \<open>The owner has gone to sleep before the new thread has constructed its loop.\<close>

theorem EventLoopThread_startLoop_witness:
  "\<exists>t t'. thread_reach 42 t \<and> owner t = Cond_asleep \<and> child t = Posted \<and> (thread_step 42)\<^sup>*\<^sup>* t t' \<and> owner t' = Returned"
proof -
  let ?a = "EventLoopThread_new 0 False ''io''"
  let ?b = "Thread_start True ?a"
  let ?c = "thread_entry 42 ?b"
  let ?d = "?c\<lparr>sem := 0, owner := Cond_testing\<rparr>"
  let ?e = "startLoop_wait ?d"
  have "thread_step 42 ?a ?b" by (rule thread_step.start) (simp_all add: EventLoopThread_new_def)
  moreover have "thread_step 42 ?b ?c" by (rule thread_step.entry) (simp_all add: thread_defs EventLoopThread_new_def)
  moreover have "thread_step 42 ?c ?d" by (rule thread_step.sem) (simp_all add: thread_defs EventLoopThread_new_def)
  moreover have "thread_step 42 ?d ?e" by (rule thread_step.wait) (simp_all add: thread_defs EventLoopThread_new_def)
  ultimately have reach: "thread_reach 42 ?e" using thread_reach.new thread_reach.step by meson
  have own: "owner ?e = Cond_asleep" "child ?e = Posted" "\<not> aborted ?e" by (simp_all add: thread_defs EventLoopThread_new_def)
  from EventLoopThread_startLoop [OF reach own(3)] own obtain t' where "(thread_step 42)\<^sup>*\<^sup>* ?e t'" "owner t' = Returned" by auto
  then show ?thesis using reach own by blast
qed

end
