(* ===== verification/Net_ConnLife.thy ===== *)
theory Net_ConnLife
  imports Net_TcpConnection
begin

unbundle bit_operations_syntax

text \<open>
  What the operations of a connection (\<open>src/net/TcpConnection.cc\<close>) do to the poller of its loop, which other
  connections share: they touch their own channel only and keep the poller's invariant. These facts
  are about single operations, whatever the buffers hold.
\<close>

definition own :: "TcpConnection \<Rightarrow> TcpConnection \<Rightarrow> bool" where
  "own t t' \<longleftrightarrow> chan t' = chan t \<and> (\<forall>d. d \<noteq> chan t \<longrightarrow> chans (poller t') d = chans (poller t) d) \<and>
     ch_fd (channel t') = ch_fd (channel t) \<and> poller_inv (poller t')"

definition pbase :: "TcpConnection \<Rightarrow> bool" where
  "pbase t \<longleftrightarrow> poller_inv (poller t) \<and> usable (poller t) (chan t)"

definition registered :: "TcpConnection \<Rightarrow> bool" where
  "registered t \<longleftrightarrow> index (channel t) = kAdded \<and> Channel_isReading (channel t)"

definition closed :: "TcpConnection \<Rightarrow> bool" where
  "closed t \<longleftrightarrow> state t = kDisconnected \<and> index (channel t) = kDeleted \<and> events (channel t) = 0"

definition news :: "TcpConnection \<Rightarrow> TcpConnection \<Rightarrow> effect set" where
  "news t t' = set (drop (length (effects t)) (effects t'))"

lemma setState_simps [simp]:
  "state (setState s t) = s" "poller (setState s t) = poller t" "chan (setState s t) = chan t" "effects (setState s t) = effects t"
  by (simp_all add: setState_def)

lemma own_refl: "poller_inv (poller t) \<Longrightarrow> own t t"
  by (simp add: own_def)

lemma own_trans: "own t t1 \<Longrightarrow> own t1 t2 \<Longrightarrow> own t t2"
  by (auto simp: own_def)

lemma own_cong: "poller t' = poller t \<Longrightarrow> chan t' = chan t \<Longrightarrow> poller_inv (poller t) \<Longrightarrow> own t t'"
  by (simp add: own_def)

lemma pbaseD: "pbase t \<Longrightarrow> poller_inv (poller t)" "pbase t \<Longrightarrow> usable (poller t) (chan t)"
  by (simp_all add: pbase_def)

lemma set_events_own:
  assumes ctl: "epoll_ctl_spec ctl" and b: "pbase t"
  shows "\<exists>p. on_channel (\<lambda>p c. Channel_set_events ctl p c (g (events (chans p c)))) t = Inr (t\<lparr>poller := p\<rparr>) \<and>
     own t (t\<lparr>poller := p\<rparr>) \<and> pbase (t\<lparr>poller := p\<rparr>) \<and> events (chans p (chan t)) = g (events (channel t)) \<and>
     index (chans p (chan t)) = (if index (channel t) = kAdded \<and> g (events (channel t)) = 0 then kDeleted else kAdded)"
proof -
  let ?p = "poller t" and ?c = "chan t" and ?ev = "g (events (channel t))"
  define i where "i = (if index (channel t) = kAdded \<and> ?ev = 0 then kDeleted else kAdded)"
  have i: "i = kNew \<or> i = kAdded \<or> i = kDeleted" by (simp add: i_def)
  note pu = pbaseD [OF b]
  have "Channel_set_events ctl ?p ?c ?ev = Inr (with_reg ?p ?c ?ev i)"
    unfolding i_def by (rule set_events_eq [OF ctl pu])
  then show ?thesis
    using with_reg_inv [OF pu i] with_reg_view(4) [OF pu i]
    by (intro exI [of _ "with_reg ?p ?c ?ev i"]) (auto simp: on_channel_def own_def pbase_def i_def)
qed

lemmas enableWriting_own = set_events_own [where g = "\<lambda>e. e OR kWriteEvent", folded Channel_enableWriting_def]
lemmas disableWriting_own = set_events_own [where g = "\<lambda>e. e AND NOT kWriteEvent", folded Channel_disableWriting_def]
lemmas enableReading_own = set_events_own [where g = "\<lambda>e. e OR kReadEvent", folded Channel_enableReading_def]
lemmas disableAll_own = set_events_own [where g = "\<lambda>e. kNoneEvent", folded Channel_disableAll_def]

lemma established_life:
  assumes ctl: "epoll_ctl_spec ctl" and b: "pbase t"
  shows "\<exists>t'. TcpConnection_connectEstablished ctl t = Inr t' \<and> own t t' \<and> state t' = kConnected \<and> registered t'"
proof -
  let ?t = "(setState kConnected t)\<lparr>poller := set_chan (poller t) (chan t) (Channel_tie (channel t))\<rparr>"
  have "poller_inv (poller ?t)" "usable (poller ?t) (chan ?t)"
    using pbaseD [OF b]
    by (simp_all add: poller_inv_def usable_def set_chan_def Channel_tie_def setState_def)
  then have b1: "pbase ?t" by (simp add: pbase_def)
  have o1: "own t ?t" using pbaseD(1) [OF b1] by (auto simp: own_def set_chan_def Channel_tie_def setState_def)
  from enableReading_own [OF ctl b1] obtain p where p: "on_channel (Channel_enableReading ctl) ?t = Inr (?t\<lparr>poller := p\<rparr>)"
      "own ?t (?t\<lparr>poller := p\<rparr>)" "events (chans p (chan ?t)) = events (channel ?t) OR kReadEvent"
      "index (chans p (chan ?t)) = (if index (channel ?t) = kAdded \<and> events (channel ?t) OR kReadEvent = 0 then kDeleted else kAdded)"
    by blast
  let ?t' = "emit (ConnectionCallback kConnected) (?t\<lparr>poller := p\<rparr>)"
  have "TcpConnection_connectEstablished ctl t = Inr ?t'"
    using p(1) by (simp add: TcpConnection_connectEstablished_def Let_def setState_def)
  moreover have "own t ?t'" using own_trans [OF o1 p(2)] by (simp add: own_def)
  moreover have "registered ?t'" using p(3,4) by (simp add: registered_def Channel_isReading_def)
  ultimately show ?thesis by (intro exI [of _ ?t']) (simp add: setState_def)
qed

lemma close_life:
  assumes ctl: "epoll_ctl_spec ctl" and b: "pbase t" and r: "index (channel t) = kAdded"
  shows "\<exists>t'. TcpConnection_handleClose ctl t = Inr t' \<and> own t t' \<and> closed t' \<and>
     effects t' = effects t @ [ConnectionCallback kDisconnected, CloseCallback]"
proof -
  let ?t = "setState kDisconnected t"
  have b1: "pbase ?t" "own t ?t" using b by (simp_all add: pbase_def setState_def own_def)
  from disableAll_own [OF ctl b1(1)] obtain p where p: "on_channel (Channel_disableAll ctl) ?t = Inr (?t\<lparr>poller := p\<rparr>)"
      "own ?t (?t\<lparr>poller := p\<rparr>)" "events (chans p (chan ?t)) = kNoneEvent"
      "index (chans p (chan ?t)) = (if index (channel ?t) = kAdded \<and> kNoneEvent = 0 then kDeleted else kAdded)"
    by blast
  let ?t' = "emit CloseCallback (emit (ConnectionCallback kDisconnected) (?t\<lparr>poller := p\<rparr>))"
  have "TcpConnection_handleClose ctl t = Inr ?t'"
    using p(1) by (simp add: TcpConnection_handleClose_def setState_def)
  moreover have "own t ?t'" using own_trans [OF b1(2) p(2)] by (simp add: own_def)
  moreover have "closed ?t'" using p(3,4) r by (simp add: closed_def kNoneEvent_def setState_def)
  ultimately show ?thesis by (intro exI [of _ ?t']) (simp add: setState_def)
qed

lemma destroyed_life:
  assumes ctl: "epoll_ctl_spec ctl" and b: "pbase t"
  shows "\<exists>t'. TcpConnection_connectDestroyed ctl t = Inr t' \<and> own t t' \<and> index (channel t') = kNew"
proof -
  have rem: "\<exists>t'. on_channel (Channel_remove ctl) t = Inr t' \<and> own t t' \<and> index (channel t') = kNew" if b: "pbase t" for t
    using remove_eq [OF ctl pbaseD [OF b]] with_reg_inv [OF pbaseD [OF b], of kNew]
    by (auto simp: on_channel_def own_def)
  show ?thesis
  proof (cases "state t = kConnected")
    case True
    let ?t = "setState kDisconnected t"
    have b1: "pbase ?t" "own t ?t" using b by (simp_all add: pbase_def setState_def own_def)
    from disableAll_own [OF ctl b1(1)] obtain p where p: "on_channel (Channel_disableAll ctl) ?t = Inr (?t\<lparr>poller := p\<rparr>)"
        "own ?t (?t\<lparr>poller := p\<rparr>)" "pbase (?t\<lparr>poller := p\<rparr>)" by blast
    let ?t1 = "emit (ConnectionCallback kDisconnected) (?t\<lparr>poller := p\<rparr>)"
    have "pbase ?t1" "own t ?t1" using p(3) own_trans [OF b1(2) p(2)] by (simp_all add: pbase_def own_def)
    moreover obtain t' where "on_channel (Channel_remove ctl) ?t1 = Inr t'" "own ?t1 t'" "index (channel t') = kNew"
      using rem [OF \<open>pbase ?t1\<close>] by blast
    ultimately show ?thesis
      using True p(1) own_trans by (fastforce simp: TcpConnection_connectDestroyed_def setState_def)
  next
    case False
    then show ?thesis using rem [OF b] by (simp add: TcpConnection_connectDestroyed_def)
  qed
qed

lemma read_life:
  assumes ctl: "epoll_ctl_spec ctl" and b: "pbase t" and r: "registered t" and run: "TcpConnection_handleRead ctl readv t = Inr t'"
  shows "own t t' \<and> (if CloseCallback \<in> news t t' then closed t' \<and> MessageCallback \<notin> news t t'
     else state t' = state t \<and> registered t' \<and> pbase t')"
proof -
  obtain n e ib where rd: "Buffer_readFd readv (ch_fd (channel t)) (inputBuffer t) = Inr (n, e, ib)"
    using run by (auto simp: TcpConnection_handleRead_def andthen_Inr_iff)
  let ?t = "t\<lparr>inputBuffer := ib\<rparr>"
  have b1: "pbase ?t" "own t ?t" "index (channel ?t) = kAdded" using b r by (simp_all add: pbase_def own_def registered_def)
  consider "0 < n" | "n = 0" | "n < 0" by linarith
  then show ?thesis
  proof cases
    case 1
    then have "t' = emit MessageCallback ?t" using run rd by (simp add: TcpConnection_handleRead_def Let_def)
    then show ?thesis using b b1(2) r by (simp add: news_def own_def registered_def pbase_def)
  next
    case 2
    then have "TcpConnection_handleClose ctl ?t = Inr t'" using run rd by (simp add: TcpConnection_handleRead_def Let_def)
    then show ?thesis using close_life [OF ctl b1(1,3)] own_trans [OF b1(2)] by (auto simp: news_def)
  next
    case 3
    then have "t' = emit LogError (emit LogError ?t)"
      using run rd by (simp add: TcpConnection_handleRead_def TcpConnection_handleError_def Let_def)
    then show ?thesis using b b1(2) r by (simp add: news_def own_def registered_def pbase_def)
  qed
qed

lemma write_life:
  assumes ctl: "epoll_ctl_spec ctl" and b: "pbase t" and run: "TcpConnection_handleWrite ctl write t = Inr t'"
  shows "own t t' \<and> state t' = state t \<and> CloseCallback \<notin> news t t' \<and> MessageCallback \<notin> news t t' \<and>
     (registered t \<longrightarrow> registered t') \<and> (closed t \<longrightarrow> closed t')"
proof (cases "Channel_isWriting (channel t) \<and> 0 < fst (Buffer_writeFd write (ch_fd (channel t)) (outputBuffer t))")
  case False
  then have "t' = emit LogError t"
    using run by (auto simp: TcpConnection_handleWrite_def Let_def split: if_splits prod.splits)
  then show ?thesis using b by (simp add: own_def pbase_def news_def registered_def closed_def)
next
  case True
  then have wr: "events (channel t) \<noteq> 0" by (auto simp: Channel_isWriting_def)
  obtain n e where wf: "Buffer_writeFd write (ch_fd (channel t)) (outputBuffer t) = (n, e)" by fastforce
  then have n: "0 < n" using True by simp
  let ?t = "t\<lparr>wire := wire t @ take (nat n) (Buffer_peek (outputBuffer t)), outputBuffer := Buffer_retrieve (outputBuffer t) (of_int n)\<rparr>"
  have b1: "pbase ?t" "own t ?t" using b by (simp_all add: pbase_def own_def)
  show ?thesis
  proof (cases "Buffer_readableBytes (outputBuffer ?t) = 0")
    case False
    then have "t' = ?t" using run True wf n by (simp add: TcpConnection_handleWrite_def Let_def)
    then show ?thesis using b1(2) wr by (simp add: news_def registered_def closed_def)
  next
    case drained: True
    from disableWriting_own [OF ctl b1(1)] obtain p where p: "on_channel (Channel_disableWriting ctl) ?t = Inr (?t\<lparr>poller := p\<rparr>)"
        "own ?t (?t\<lparr>poller := p\<rparr>)" "events (chans p (chan ?t)) = events (channel ?t) AND NOT kWriteEvent"
        "index (chans p (chan ?t)) = (if index (channel ?t) = kAdded \<and> events (channel ?t) AND NOT kWriteEvent = 0 then kDeleted else kAdded)"
      by blast
    let ?t1 = "?t\<lparr>poller := p\<rparr>"
    let ?t2 = "if writeCompleteCallback ?t1 then emit (Queue WriteComplete_fn) ?t1 else ?t1"
    have t': "t' = (if state ?t2 = kDisconnecting then TcpConnection_shutdownInLoop ?t2 else ?t2)"
      using run True wf n drained p(1) by (simp add: TcpConnection_handleWrite_def Let_def)
    have same: "poller t' = p" "chan t' = chan t" "state t' = state t" "news t t' \<subseteq> {Queue WriteComplete_fn, ShutdownWrite}"
      unfolding t' by (auto simp: TcpConnection_shutdownInLoop_def news_def)
    have reading: "registered t \<longrightarrow> events (channel t) AND NOT kWriteEvent \<noteq> 0"
      using mask_simps(5) [of "events (channel t)"] unfolding registered_def Channel_isReading_def
      by (metis bit.conj_zero_left)
    have "registered t \<longrightarrow> registered t'"
      using p(3,4) same(1,2) reading by (simp add: registered_def Channel_isReading_def)
    moreover have "own t t'" using own_trans [OF b1(2) p(2)] same(1,2) by (simp add: own_def)
    ultimately show ?thesis using same(3,4) wr by (auto simp: closed_def)
  qed
qed

text \<open>What a message callback may do with a connection that is up: send and shut down, but not close it.\<close>

definition message_ok :: "(TcpConnection \<Rightarrow> TcpConnection result) \<Rightarrow> bool" where
  "message_ok f \<longleftrightarrow> (\<forall>t t'. pbase t \<longrightarrow> up t \<longrightarrow> registered t \<longrightarrow> f t = Inr t' \<longrightarrow> own t t' \<and> up t' \<and> registered t')"

lemma send_rest_life:
  assumes ctl: "epoll_ctl_spec ctl" and b: "pbase t" and r: "registered t" and run: "send_rest ctl t rest = Inr t'"
  shows "own t t' \<and> state t' = state t \<and> registered t'"
proof -
  define t0 where "t0 = (if highWaterMark t \<le> Buffer_readableBytes (outputBuffer t) + of_nat (length rest) \<and>
      Buffer_readableBytes (outputBuffer t) < highWaterMark t \<and> highWaterMarkCallback t
      then emit (Queue (HighWaterMark_fn (Buffer_readableBytes (outputBuffer t) + of_nat (length rest)))) t else t)"
  obtain ob where ob: "Buffer_append (outputBuffer t0) rest = Inr ob"
      "(if \<not> Channel_isWriting (channel t0) then on_channel (Channel_enableWriting ctl) (t0\<lparr>outputBuffer := ob\<rparr>)
        else Inr (t0\<lparr>outputBuffer := ob\<rparr>)) = Inr t'"
    using run unfolding send_rest_def Let_def t0_def [symmetric] andthen_Inr_iff by auto
  let ?t = "t0\<lparr>outputBuffer := ob\<rparr>"
  have s: "poller ?t = poller t" "chan ?t = chan t" "state ?t = state t" by (simp_all add: t0_def)
  have b1: "pbase ?t" "own t ?t" "registered ?t" using b r s by (simp_all add: pbase_def own_def registered_def)
  show ?thesis
  proof (cases "Channel_isWriting (channel t0)")
    case True
    then have "t' = ?t" using ob(2) by simp
    then show ?thesis using b1 s by simp
  next
    case False
    from enableWriting_own [OF ctl b1(1)] obtain p where p: "on_channel (Channel_enableWriting ctl) ?t = Inr (?t\<lparr>poller := p\<rparr>)"
        "own ?t (?t\<lparr>poller := p\<rparr>)" "events (chans p (chan ?t)) = events (channel ?t) OR kWriteEvent"
        "index (chans p (chan ?t)) = (if index (channel ?t) = kAdded \<and> events (channel ?t) OR kWriteEvent = 0 then kDeleted else kAdded)"
      by blast
    then have t': "t' = ?t\<lparr>poller := p\<rparr>" using ob(2) False by simp
    have "registered t'" using p(3,4) b1(3) by (simp add: t' registered_def Channel_isReading_def)
    then show ?thesis using own_trans [OF b1(2) p(2)] s by (simp add: t')
  qed
qed

lemma send_direct_same:
  assumes "send_direct write t bytes = (t1, n, f)"
  shows "poller t1 = poller t" "chan t1 = chan t" "state t1 = state t"
  using assms by (auto simp: send_direct_def Let_def split: if_splits sum.splits)

text \<open>
  \<open>sendInLoop\<close> on a connection that is registered, and on one that has been closed: there it leaves the channel alone as long as nothing has to be
  kept for later, because the socket took everything or is broken.
\<close>

lemma sendInLoop_life:
  assumes ctl: "epoll_ctl_spec ctl" and b: "pbase t" and r: "registered t" and run: "TcpConnection_sendInLoop ctl write t bytes = Inr t'"
  shows "own t t' \<and> state t' = state t \<and> registered t'"
proof -
  let ?t = "if state t = kDisconnected then emit LogError t else t"
  obtain t1 n f where sd: "send_direct write ?t bytes = (t1, n, f)" by (metis prod_cases3)
  have s: "poller t1 = poller t" "chan t1 = chan t" "state t1 = state t" using send_direct_same [OF sd] by (simp_all split: if_splits)
  have b1: "pbase t1" "own t t1" "registered t1" using b r s by (simp_all add: pbase_def own_def registered_def)
  have "(if \<not> f \<and> 0 < length bytes - n then send_rest ctl t1 (drop n bytes) else Inr t1) = Inr t'"
    using run sd by (simp add: TcpConnection_sendInLoop_def)
  then show ?thesis
    using send_rest_life [OF ctl b1(1,3)] own_trans [OF b1(2)] b1 s by (auto split: if_splits)
qed

definition settled :: "write_call \<Rightarrow> TcpConnection \<Rightarrow> byte list \<Rightarrow> bool" where
  "settled write t bytes \<longleftrightarrow> (case send_direct write (emit LogError t) bytes of (_, nwrote, faultError) \<Rightarrow> faultError \<or> length bytes \<le> nwrote)"

lemma sendInLoop_closed:
  assumes b: "pbase t" and c: "closed t" and s: "settled write t bytes" and run: "TcpConnection_sendInLoop ctl write t bytes = Inr t'"
  shows "own t t' \<and> closed t'"
proof -
  obtain t1 n f where sd: "send_direct write (emit LogError t) bytes = (t1, n, f)" by (metis prod_cases3)
  then have "t' = t1" using run c s by (auto simp: TcpConnection_sendInLoop_def closed_def settled_def)
  then show ?thesis using send_direct_same [OF sd] b c by (simp add: own_def closed_def pbase_def)
qed

lemma shutdownInLoop_same:
  "poller (TcpConnection_shutdownInLoop t) = poller t" "chan (TcpConnection_shutdownInLoop t) = chan t"
  "state (TcpConnection_shutdownInLoop t) = state t"
  by (simp_all add: TcpConnection_shutdownInLoop_def)

lemma send_life:
  assumes ctl: "epoll_ctl_spec ctl" and b: "pbase t" and r: "registered t"
    and run: "TcpConnection_send ctl write True t bytes = Inr t'"
  shows "own t t' \<and> state t' = state t \<and> registered t'"
  using run sendInLoop_life [OF ctl b r] b r
  by (auto simp: TcpConnection_send_def own_refl pbase_def split: if_splits)

end
