(* ===== verification/Net_InetAddress.thy ===== *)
theory Net_InetAddress
  imports Prelude
begin

unbundle bit_operations_syntax

text \<open>
  Socket addresses (\<open>include/net/InetAddress.h\<close>, \<open>src/net/InetAddress.cc\<close>). The fields of \<open>sockaddr_in\<close> are in
  network byte order; the host is little-endian, so the first byte of the address is its lowest one.
  \<open>inet_ntop\<close> prints the four bytes in decimal; \<open>inet_addr\<close>, which reads several notations, is a parameter.
\<close>

record InetAddress =
  sin_family :: nat
  sin_port :: "16 word"
  s_addr :: "32 word"

definition AF_INET :: nat where
  "AF_INET = 2"

definition htons :: "16 word \<Rightarrow> 16 word" where
  "htons x = push_bit 8 x OR drop_bit 8 x"

definition ntohs :: "16 word \<Rightarrow> 16 word" where
  "ntohs x = push_bit 8 x OR drop_bit 8 x"

definition addr_byte :: "nat \<Rightarrow> 32 word \<Rightarrow> nat" where
  "addr_byte i a = unat (drop_bit (8 * i) a AND 0xFF)"

definition inet_ntop :: "32 word \<Rightarrow> string" where
  "inet_ntop a = dec (addr_byte 0 a) @ ''.'' @ dec (addr_byte 1 a) @ ''.'' @ dec (addr_byte 2 a) @ ''.'' @ dec (addr_byte 3 a)"

definition InetAddress_new :: "(string \<Rightarrow> 32 word) \<Rightarrow> 16 word \<Rightarrow> string \<Rightarrow> InetAddress" where
  "InetAddress_new inet_addr port ip = \<lparr>sin_family = AF_INET, sin_port = htons port, s_addr = inet_addr ip\<rparr>"

definition InetAddress_toIp :: "InetAddress \<Rightarrow> string" where
  "InetAddress_toIp a = inet_ntop (s_addr a)"

text \<open>\<open>sprintf\<close> writes behind the printed address, into a buffer of 64 bytes with a zero at its end.\<close>

definition InetAddress_toIpPort :: "InetAddress \<Rightarrow> string result" where
  "InetAddress_toIpPort a =
     (let buf = inet_ntop (s_addr a) @ '':'' @ dec (unat (ntohs (sin_port a))) in
      if length buf < 64 then Inr buf else Inl Out_of_bounds)"

definition InetAddress_toPort :: "InetAddress \<Rightarrow> 16 word" where
  "InetAddress_toPort a = ntohs (sin_port a)"

lemma ntohs_htons: "ntohs (htons x) = x"
proof (rule bit_word_eqI)
  fix n assume "n < LENGTH(16)"
  then show "bit (ntohs (htons x)) n \<longleftrightarrow> bit x n"
    by (auto simp: ntohs_def htons_def bit_simps)
qed

lemma port_bound: "unat (x :: 16 word) < 65536"
proof -
  have "unat x < 2 ^ LENGTH(16)" by (rule unsigned_less)
  then show ?thesis by simp
qed

lemma addr_byte_bound: "addr_byte i a < 256"
proof -
  have "drop_bit (8 * i) a AND 0xFF = take_bit 8 (drop_bit (8 * i) a)"
    by (simp add: take_bit_eq_mask mask_numeral and.commute)
  then show ?thesis using take_bit_nat_less_exp [of 8 "unat (drop_bit (8 * i) a)"]
    by (simp add: addr_byte_def unsigned_take_bit_eq)
qed

lemma length_inet_ntop: "length (inet_ntop a) \<le> 15"
proof -
  have "length (dec (addr_byte i a)) \<le> 3" for i
    using length_dec [of "addr_byte i a" 3] addr_byte_bound [of i a] by simp
  from this [of 0] this [of 1] this [of 2] this [of 3] show ?thesis by (simp add: inet_ntop_def)
qed

text \<open>
  The port comes back from network byte order, the printed form is the address, a colon and the port, and it
  fits the 64 bytes of \<open>toIpPort\<close> with room to spare: it has at most 21 characters.
\<close>

theorem InetAddress_printing:
  fixes inet_addr port a
  assumes "inet_addr (inet_ntop a) = a"
  defines "addr \<equiv> InetAddress_new inet_addr port (inet_ntop a)"
  shows "InetAddress_toPort addr = port \<and> InetAddress_toIp addr = inet_ntop a \<and>
     InetAddress_toIpPort addr = Inr (inet_ntop a @ '':'' @ dec (unat port)) \<and>
     length (inet_ntop a @ '':'' @ dec (unat port)) \<le> 21"
proof -
  have "unat port < 65536" by (rule port_bound)
  then have "length (dec (unat port)) \<le> 5" using length_dec [of "unat port" 5] by simp
  then have "length (inet_ntop a @ '':'' @ dec (unat port)) \<le> 21" using length_inet_ntop [of a] by simp
  then show ?thesis
    using assms(1) by (simp add: addr_def InetAddress_new_def InetAddress_toPort_def InetAddress_toIp_def
      InetAddress_toIpPort_def ntohs_htons Let_def)
qed

lemma toIpPort_bound: "\<exists>str. InetAddress_toIpPort a = Inr str \<and> length str \<le> 21"
proof -
  have "unat (ntohs (sin_port a)) < 65536" by (rule port_bound)
  then have "length (dec (unat (ntohs (sin_port a)))) \<le> 5" using length_dec [of "unat (ntohs (sin_port a))" 5] by simp
  then show ?thesis using length_inet_ntop [of "s_addr a"] by (simp add: InetAddress_toIpPort_def Let_def)
qed

end
