(* ===== verification/Net_TcpServer.thy ===== *)
theory Net_TcpServer
  imports Net_ConnLife Net_ThreadPool Net_InetAddress
begin

unbundle bit_operations_syntax

text \<open>
  The server (\<open>src/net/TcpServer.cc\<close>), its acceptor (\<open>src/net/Acceptor.cc\<close>) and the listening socket
  (\<open>src/net/Socket.cc\<close>), together with the connections they create: who owns a connection, in which loop
  it lives, and how it is established and torn down across the threads of the loops.

  A connection object is identified by a number, which is also the identifier of its channel; the channel
  of the acceptor is number 0. Each loop has its poller and its queue of functors. Only the functors that
  the server hands over are in the queues; those of the connections themselves are recorded as effects in
  \<open>Net_TcpConnection\<close>. An object exists as long as the server's map or a queued functor holds it.
\<close>

section \<open>Sockets\<close>

record Socket =
  sockfd :: fd
  tcpNoDelay :: bool
  reuseAddr :: bool
  reusePort :: bool
  keepAlive :: bool

definition Socket_new :: "fd \<Rightarrow> Socket" where
  "Socket_new f = \<lparr>sockfd = f, tcpNoDelay = False, reuseAddr = False, reusePort = False, keepAlive = False\<rparr>"

text \<open>\<open>ok\<close>: the system call returned 0. \<open>LOG_FATAL\<close> aborts the process.\<close>

definition Socket_bindAddress :: "bool \<Rightarrow> Socket \<Rightarrow> Socket result" where
  "Socket_bindAddress ok s = (if \<not> ok then Inl Aborted else Inr s)"

definition Socket_listen :: "bool \<Rightarrow> Socket \<Rightarrow> Socket result" where
  "Socket_listen ok s = (if \<not> ok then Inl Aborted else Inr s)"

definition Socket_setTcpNoDelay :: "bool \<Rightarrow> Socket \<Rightarrow> Socket" where
  "Socket_setTcpNoDelay on s = s\<lparr>tcpNoDelay := on\<rparr>"

definition Socket_setReuseAddr :: "bool \<Rightarrow> Socket \<Rightarrow> Socket" where
  "Socket_setReuseAddr on s = s\<lparr>reuseAddr := on\<rparr>"

definition Socket_setReusePort :: "bool \<Rightarrow> Socket \<Rightarrow> Socket" where
  "Socket_setReusePort on s = s\<lparr>reusePort := on\<rparr>"

definition Socket_setKeepAlive :: "bool \<Rightarrow> Socket \<Rightarrow> Socket" where
  "Socket_setKeepAlive on s = s\<lparr>keepAlive := on\<rparr>"

text \<open>\<open>accept4\<close> gives an error number, or a descriptor and the address of the peer.\<close>

type_synonym accept_result = "int + fd \<times> InetAddress"

definition Socket_accept :: "accept_result \<Rightarrow> InetAddress \<Rightarrow> int \<times> InetAddress" where
  "Socket_accept r peeraddr = (case r of Inl _ \<Rightarrow> (- 1, peeraddr) | Inr (connfd, addr) \<Rightarrow> (connfd, addr))"

section \<open>State\<close>

type_synonym conn = nat

datatype server_fn = Established_fn conn | Remove_fn conn | Destroyed_fn conn

fun target :: "server_fn \<Rightarrow> conn" where
  "target (Established_fn c) = c"
| "target (Remove_fn c) = c"
| "target (Destroyed_fn c) = c"

record Acceptor =
  acceptSocket :: Socket
  newConnectionCallback :: bool
  listening :: bool

record conn_obj =
  conn_name :: string
  conn_loop :: loop
  tcp :: TcpConnection

record TcpServer =
  base_loop :: loop
  ipPort :: string
  srv_name :: string
  acceptor :: Acceptor
  threadPool :: EventLoopThreadPool
  srv_writeCompleteCallback :: bool
  started_count :: int
  nextConnId :: nat
  connections :: "string \<rightharpoonup> conn"

record world =
  server :: TcpServer
  objs :: "conn \<rightharpoonup> conn_obj"
  queue :: "loop \<Rightarrow> server_fn list"
  pollers :: "loop \<Rightarrow> EPollPoller"
  next_obj :: conn

abbreviation base :: "world \<Rightarrow> loop" where
  "base w \<equiv> base_loop (server w)"

definition acceptChannel :: chan where
  "acceptChannel = 0"

section \<open>Acceptor\<close>

definition createNonblocking :: "int \<Rightarrow> fd result" where
  "createNonblocking s = (if s < 0 then Inl Aborted else Inr s)"

definition Acceptor_new :: "int \<Rightarrow> bool \<Rightarrow> bool \<Rightarrow> EPollPoller \<Rightarrow> (Acceptor \<times> EPollPoller) result" where
  "Acceptor_new s bind_ok reuseport p =
     andthen (createNonblocking s) (\<lambda>f.
     andthen (Socket_bindAddress bind_ok (Socket_setReusePort True (Socket_setReuseAddr True (Socket_new f)))) (\<lambda>sock.
     Inr (\<lparr>acceptSocket = sock, newConnectionCallback = False, listening = False\<rparr>,
       set_chan p acceptChannel ((Channel_new f)\<lparr>readCallback := True\<rparr>))))"

definition Acceptor_setNewConnectionCallback :: "Acceptor \<Rightarrow> Acceptor" where
  "Acceptor_setNewConnectionCallback a = a\<lparr>newConnectionCallback := True\<rparr>"

definition Acceptor_listen :: "epoll_ctl_call \<Rightarrow> bool \<Rightarrow> Acceptor \<Rightarrow> EPollPoller \<Rightarrow> (Acceptor \<times> EPollPoller) result" where
  "Acceptor_listen ctl ok a p =
     (let a = a\<lparr>listening := True\<rparr> in
      andthen (Socket_listen ok (acceptSocket a)) (\<lambda>sock.
      andthen (Channel_enableReading ctl p acceptChannel) (\<lambda>p. Inr (a\<lparr>acceptSocket := sock\<rparr>, p))))"

definition Acceptor_destroy :: "epoll_ctl_call \<Rightarrow> EPollPoller \<Rightarrow> EPollPoller result" where
  "Acceptor_destroy ctl p = andthen (Channel_disableAll ctl p acceptChannel) (\<lambda>p. Channel_remove ctl p acceptChannel)"

section \<open>Connections in the world\<close>

text \<open>A connection works on the poller of its loop.\<close>

definition load :: "world \<Rightarrow> conn_obj \<Rightarrow> TcpConnection" where
  "load w ob = (tcp ob)\<lparr>poller := pollers w (conn_loop ob)\<rparr>"

definition store :: "world \<Rightarrow> conn \<Rightarrow> conn_obj \<Rightarrow> TcpConnection \<Rightarrow> world" where
  "store w c ob t = w\<lparr>objs := (objs w)(c \<mapsto> ob\<lparr>tcp := t\<rparr>), pollers := (pollers w)(conn_loop ob := poller t)\<rparr>"

definition conn_at :: "world \<Rightarrow> conn \<Rightarrow> conn_obj result" where
  "conn_at w c = (case objs w c of None \<Rightarrow> Inl Dangling_deref | Some ob \<Rightarrow> Inr ob)"

definition enqueue :: "world \<Rightarrow> loop \<Rightarrow> server_fn \<Rightarrow> world" where
  "enqueue w l f = w\<lparr>queue := (queue w)(l := queue w l @ [f])\<rparr>"

definition run_established :: "epoll_ctl_call \<Rightarrow> world \<Rightarrow> conn \<Rightarrow> world result" where
  "run_established ctl w c =
     andthen (conn_at w c) (\<lambda>ob. andthen (TcpConnection_connectEstablished ctl (load w ob)) (\<lambda>t. Inr (store w c ob t)))"

text \<open>The functor of \<open>connectDestroyed\<close> is the last to hold the connection: behind it the object is gone.\<close>

definition run_destroyed :: "epoll_ctl_call \<Rightarrow> world \<Rightarrow> conn \<Rightarrow> world result" where
  "run_destroyed ctl w c =
     andthen (conn_at w c) (\<lambda>ob. andthen (TcpConnection_connectDestroyed ctl (load w ob)) (\<lambda>t.
     (let w = store w c ob t in Inr (w\<lparr>objs := (objs w)(c := None)\<rparr>))))"

section \<open>Server\<close>

definition TcpServer_new :: "(string \<Rightarrow> size_t) \<Rightarrow> int \<Rightarrow> bool \<Rightarrow> loop option \<Rightarrow> InetAddress \<Rightarrow> string \<Rightarrow> bool \<Rightarrow> world result" where
  "TcpServer_new hashFunc s bind_ok lp listenAddr nameArg reuseport =
     (case lp of None \<Rightarrow> Inl Aborted
      | Some l \<Rightarrow>
          andthen (InetAddress_toIpPort listenAddr) (\<lambda>addr.
          andthen (Acceptor_new s bind_ok reuseport (EPollPoller_new (\<lambda>_. Channel_new (- 1)))) (\<lambda>(a, p).
          Inr \<lparr>server = \<lparr>base_loop = l, ipPort = addr, srv_name = nameArg, acceptor = Acceptor_setNewConnectionCallback a,
                 threadPool = EventLoopThreadPool_new hashFunc l nameArg, srv_writeCompleteCallback = False,
                 started_count = 0, nextConnId = 1, connections = Map.empty\<rparr>,
               objs = Map.empty, queue = (\<lambda>_. []),
               pollers = (\<lambda>_. EPollPoller_new (\<lambda>_. Channel_new (- 1)))(l := p), next_obj = 1\<rparr>)))"

definition TcpServer_setThreadNum :: "world \<Rightarrow> int \<Rightarrow> world" where
  "TcpServer_setThreadNum w n = w\<lparr>server := (server w)\<lparr>threadPool := EventLoopThreadPool_setThreadNum (threadPool (server w)) n\<rparr>\<rparr>"

definition TcpServer_setWriteCompleteCallback :: "world \<Rightarrow> bool \<Rightarrow> world" where
  "TcpServer_setWriteCompleteCallback w cb = w\<lparr>server := (server w)\<lparr>srv_writeCompleteCallback := cb\<rparr>\<rparr>"

text \<open>\<open>start\<close> is called in the thread of the base loop, so that \<open>listen\<close> runs at once.\<close>

definition TcpServer_start :: "epoll_ctl_call \<Rightarrow> (nat \<Rightarrow> loop result) \<Rightarrow> bool \<Rightarrow> bool \<Rightarrow> world \<Rightarrow> world result" where
  "TcpServer_start ctl new_loop cb listen_ok w =
     (let was = started_count (server w);
          w = w\<lparr>server := (server w)\<lparr>started_count := was + 1\<rparr>\<rparr> in
      if was = 0 then
        andthen (EventLoopThreadPool_start new_loop cb (threadPool (server w))) (\<lambda>(pool, called).
        (let w = w\<lparr>server := (server w)\<lparr>threadPool := pool\<rparr>\<rparr> in
         andthen (Acceptor_listen ctl listen_ok (acceptor (server w)) (pollers w (base w))) (\<lambda>(a, p).
         Inr (w\<lparr>server := (server w)\<lparr>acceptor := a\<rparr>, pollers := (pollers w)(base w := p)\<rparr>))))
      else Inr w)"

text \<open>The name of a connection; \<open>snprintf\<close> writes at most 63 characters.\<close>

definition connName :: "TcpServer \<Rightarrow> nat \<Rightarrow> string" where
  "connName s n = srv_name s @ take 63 (''-'' @ ipPort s @ ''#'' @ dec n)"

definition TcpServer_newConnection :: "epoll_ctl_call \<Rightarrow> world \<Rightarrow> fd \<Rightarrow> InetAddress \<Rightarrow> world result" where
  "TcpServer_newConnection ctl w sock peerAddr =
     andthen (EventLoopThreadPool_getNextLoop (threadPool (server w)) (InetAddress_toIp peerAddr)) (\<lambda>ioLoop.
       (let n = nextConnId (server w);
            w = w\<lparr>server := (server w)\<lparr>nextConnId := n + 1\<rparr>\<rparr>;
            name = connName (server w) n;
            c = next_obj w in
        andthen (TcpConnection_new (pollers w ioLoop) c sock) (\<lambda>t.
          (let w = w\<lparr>next_obj := c + 1\<rparr>;
               w = store w c \<lparr>conn_name = name, conn_loop = ioLoop, tcp = t\<rparr> t;
               w = w\<lparr>server := (server w)\<lparr>connections := (connections (server w))(name \<mapsto> c)\<rparr>\<rparr>;
               t = TcpConnection_setWriteCompleteCallback (srv_writeCompleteCallback (server w)) t;
               w = store w c \<lparr>conn_name = name, conn_loop = ioLoop, tcp = t\<rparr> t in
           if ioLoop = base w then run_established ctl w c
           else Inr (enqueue w ioLoop (Established_fn c))))))"

definition TcpServer_removeConnectionInLoop :: "world \<Rightarrow> conn \<Rightarrow> world result" where
  "TcpServer_removeConnectionInLoop w c =
     andthen (conn_at w c) (\<lambda>ob.
       (let w = w\<lparr>server := (server w)\<lparr>connections := (connections (server w))(conn_name ob := None)\<rparr>\<rparr> in
        Inr (enqueue w (conn_loop ob) (Destroyed_fn c))))"

text \<open>\<open>cur\<close> is the loop whose thread makes the call.\<close>

definition TcpServer_removeConnection :: "loop \<Rightarrow> world \<Rightarrow> conn \<Rightarrow> world result" where
  "TcpServer_removeConnection cur w c =
     (if cur = base w then TcpServer_removeConnectionInLoop w c else Inr (enqueue w (base w) (Remove_fn c)))"

text \<open>The loop of the destructor over the connections; the destructor itself is in \<open>Net_ServerEnd\<close>.\<close>

primrec destroy_conns :: "epoll_ctl_call \<Rightarrow> world \<Rightarrow> conn list \<Rightarrow> world result" where
  "destroy_conns ctl w [] = Inr w"
| "destroy_conns ctl w (c # cs) =
     andthen (conn_at w c) (\<lambda>ob.
     andthen (if conn_loop ob = base w then run_destroyed ctl w c else Inr (enqueue w (conn_loop ob) (Destroyed_fn c))) (\<lambda>w.
     destroy_conns ctl w cs))"

definition Acceptor_handleRead :: "epoll_ctl_call \<Rightarrow> accept_result \<Rightarrow> world \<Rightarrow> world result" where
  "Acceptor_handleRead ctl r w =
     (let (connfd, peerAddr) = Socket_accept r \<lparr>sin_family = AF_INET, sin_port = 0, s_addr = 0x0100007F\<rparr> in
      if 0 \<le> connfd then
        if newConnectionCallback (acceptor (server w)) then TcpServer_newConnection ctl w connfd peerAddr
        else Inr w
      else Inr w)"

section \<open>Steps\<close>

fun run_functor :: "epoll_ctl_call \<Rightarrow> world \<Rightarrow> server_fn \<Rightarrow> world result" where
  "run_functor ctl w (Established_fn c) = run_established ctl w c"
| "run_functor ctl w (Remove_fn c) = TcpServer_removeConnectionInLoop w c"
| "run_functor ctl w (Destroyed_fn c) = run_destroyed ctl w c"

text \<open>
  One callback of the channel of a connection, with what the connection calls in turn: the user's
  message callback at the end of \<open>handleRead\<close>, the server's close callback at the end of \<open>handleClose\<close>. The
  user's connection callback is one that leaves the connection alone.
\<close>

record io =
  io_readv :: readv_call
  io_write :: write_call

definition run_callback ::
  "epoll_ctl_call \<Rightarrow> io \<Rightarrow> (TcpConnection \<Rightarrow> TcpConnection result) \<Rightarrow> conn \<Rightarrow> world \<Rightarrow> callback \<Rightarrow> world result" where
  "run_callback ctl k onMessage c w cb =
     andthen (conn_at w c) (\<lambda>ob.
       (let t = load w ob in
        andthen (case cb of
            Close_cb \<Rightarrow> TcpConnection_handleClose ctl t
          | Error_cb \<Rightarrow> Inr (TcpConnection_handleError t)
          | Read_cb \<Rightarrow> TcpConnection_handleRead ctl (io_readv k) t
          | Write_cb \<Rightarrow> TcpConnection_handleWrite ctl (io_write k) t) (\<lambda>t'.
        andthen (if MessageCallback \<in> news t t' then onMessage t' else Inr t') (\<lambda>t''.
          (let w = store w c ob t'' in
           if CloseCallback \<in> news t t' then TcpServer_removeConnection (conn_loop ob) w c else Inr w)))))"

primrec run_callbacks ::
  "epoll_ctl_call \<Rightarrow> io \<Rightarrow> (TcpConnection \<Rightarrow> TcpConnection result) \<Rightarrow> conn \<Rightarrow> world \<Rightarrow> callback list \<Rightarrow> world result" where
  "run_callbacks ctl k onMessage c w [] = Inr w"
| "run_callbacks ctl k onMessage c w (cb # cbs) =
     andthen (run_callback ctl k onMessage c w cb) (\<lambda>w. run_callbacks ctl k onMessage c w cbs)"

text \<open>
  What can happen: a connection is accepted, in the base loop, on a descriptor that the kernel has not given
  to an open socket of the process; \<open>accept\<close> fails; a loop calls its next functor; the poller of a loop reports
  events on a channel it watches. The kernel reports a hang-up without input only when there is no
  urgent data either.
\<close>

definition conn_fd :: "world \<Rightarrow> conn \<Rightarrow> conn_obj \<Rightarrow> fd" where
  "conn_fd w c ob = ch_fd (chans (pollers w (conn_loop ob)) c)"

definition fresh_fd :: "world \<Rightarrow> fd \<Rightarrow> bool" where
  "fresh_fd w f \<longleftrightarrow> 0 \<le> f \<and> f \<noteq> ch_fd (chans (pollers w (base w)) acceptChannel) \<and>
     (\<forall>c ob. objs w c = Some ob \<longrightarrow> conn_fd w c ob \<noteq> f)"

definition hup_ok :: "event_mask \<Rightarrow> bool" where
  "hup_ok r \<longleftrightarrow> (r AND EPOLLHUP \<noteq> 0 \<and> r AND EPOLLIN = 0 \<longrightarrow> r AND EPOLLPRI = 0)"

inductive server_step :: "epoll_ctl_call \<Rightarrow> (TcpConnection \<Rightarrow> TcpConnection result) \<Rightarrow> world \<Rightarrow> world \<Rightarrow> bool"
  for ctl onMessage where
  accepted: "fresh_fd w f \<Longrightarrow> nextConnId (server w) < 2 ^ 31 - 1 \<Longrightarrow>
     Acceptor_handleRead ctl (Inr (f, peer)) w = Inr w' \<Longrightarrow> server_step ctl onMessage w w'"
| not_accepted: "Acceptor_handleRead ctl (Inl err) w = Inr w' \<Longrightarrow> server_step ctl onMessage w w'"
| called: "queue w l = f # fs \<Longrightarrow> run_functor ctl (w\<lparr>queue := (queue w)(l := fs)\<rparr>) f = Inr w' \<Longrightarrow>
     server_step ctl onMessage w w'"
| event: "objs w c = Some ob \<Longrightarrow> watched (pollers w (conn_loop ob)) c \<noteq> None \<Longrightarrow> hup_ok r \<Longrightarrow>
     run_callbacks ctl k onMessage c w
       (Channel_handleEvent True (chans (pollers w (conn_loop ob)) c\<lparr>revents := r\<rparr>)) = Inr w' \<Longrightarrow>
     server_step ctl onMessage w w'"

inductive server_reach :: "epoll_ctl_call \<Rightarrow> (TcpConnection \<Rightarrow> TcpConnection result) \<Rightarrow> world \<Rightarrow> world \<Rightarrow> bool"
  for ctl onMessage w0 where
  start: "server_reach ctl onMessage w0 w0"
| step: "server_reach ctl onMessage w0 w \<Longrightarrow> server_step ctl onMessage w w' \<Longrightarrow> server_reach ctl onMessage w0 w'"

lemma server_reach_runs: "(server_step ctl onMessage)\<^sup>*\<^sup>* w w' \<Longrightarrow> server_reach ctl onMessage w w'"
  by (induction rule: rtranclp_induct) (auto intro: server_reach.intros)

section \<open>The life of a connection\<close>

datatype stage = Gone | Connecting | Up | Removing | Destroying

definition stage_ok :: "stage \<Rightarrow> StateE \<Rightarrow> Channel \<Rightarrow> bool" where
  "stage_ok s e ch = (case s of
      Gone \<Rightarrow> False
    | Connecting \<Rightarrow> e = kConnecting \<and> index ch = kNew
    | Up \<Rightarrow> (e = kConnected \<or> e = kDisconnecting) \<and> index ch = kAdded \<and> Channel_isReading ch
    | Removing \<Rightarrow> e = kDisconnected \<and> index ch = kDeleted \<and> events ch = 0
    | Destroying \<Rightarrow> e = kDisconnected \<and> index ch = kDeleted \<and> events ch = 0)"

text \<open>The one functor that is queued for a connection in each stage.\<close>

definition due_fn :: "loop \<Rightarrow> loop \<Rightarrow> stage \<Rightarrow> conn \<Rightarrow> (loop \<times> server_fn) option" where
  "due_fn b io s c = (case s of
      Connecting \<Rightarrow> Some (io, Established_fn c)
    | Removing \<Rightarrow> Some (b, Remove_fn c)
    | Destroying \<Rightarrow> Some (io, Destroyed_fn c)
    | _ \<Rightarrow> None)"

definition queued_once :: "world \<Rightarrow> conn \<Rightarrow> (loop \<times> server_fn) option \<Rightarrow> bool" where
  "queued_once w c d \<longleftrightarrow> (\<forall>l f. target f = c \<longrightarrow> count_list (queue w l) f = (if d = Some (l, f) then 1 else 0))"

definition dead_ok :: "world \<Rightarrow> conn \<Rightarrow> bool" where
  "dead_ok w c \<longleftrightarrow> queued_once w c None \<and> (\<forall>n. connections (server w) n \<noteq> Some c) \<and>
     (\<forall>l. c \<noteq> acceptChannel \<or> l \<noteq> base w \<longrightarrow> index (chans (pollers w l) c) = kNew)"

definition live_ok :: "world \<Rightarrow> conn \<Rightarrow> conn_obj \<Rightarrow> stage \<Rightarrow> bool" where
  "live_ok w c ob s \<longleftrightarrow> c \<noteq> acceptChannel \<and> chan (tcp ob) = c \<and> queued_once w c (due_fn (base w) (conn_loop ob) s c) \<and>
     (\<forall>n. connections (server w) n = Some c \<longleftrightarrow> n = conn_name ob \<and> s \<noteq> Destroying) \<and>
     (\<forall>l. l \<noteq> conn_loop ob \<longrightarrow> index (chans (pollers w l) c) = kNew) \<and>
     stage_ok s (state (tcp ob)) (chans (pollers w (conn_loop ob)) c)"

definition conns_ok :: "world \<Rightarrow> (conn \<Rightarrow> stage) \<Rightarrow> bool" where
  "conns_ok w st \<longleftrightarrow> (\<forall>c. case objs w c of None \<Rightarrow> dead_ok w c | Some ob \<Rightarrow> live_ok w c ob (st c))"

text \<open>No two open sockets have the same descriptor, no two connections the same name.\<close>

definition fds_ok :: "world \<Rightarrow> bool" where
  "fds_ok w \<longleftrightarrow> (\<forall>c ob. objs w c = Some ob \<longrightarrow> conn_fd w c ob \<noteq> ch_fd (chans (pollers w (base w)) acceptChannel)) \<and>
     (\<forall>c d ob ob'. objs w c = Some ob \<longrightarrow> objs w d = Some ob' \<longrightarrow> conn_fd w c ob = conn_fd w d ob' \<longrightarrow> c = d)"

definition names_ok :: "world \<Rightarrow> bool" where
  "names_ok w \<longleftrightarrow> length (ipPort (server w)) \<le> 21 \<and> nextConnId (server w) < 2 ^ 31 \<and>
     (\<forall>c ob. objs w c = Some ob \<longrightarrow> (\<exists>n < nextConnId (server w). conn_name ob = connName (server w) n)) \<and>
     (\<forall>c d ob ob'. objs w c = Some ob \<longrightarrow> objs w d = Some ob' \<longrightarrow> conn_name ob = conn_name ob' \<longrightarrow> c = d)"

definition srv_inv :: "world \<Rightarrow> (conn \<Rightarrow> stage) \<Rightarrow> bool" where
  "srv_inv w st \<longleftrightarrow> (\<forall>l. poller_inv (pollers w l)) \<and> conns_ok w st \<and> fds_ok w \<and> names_ok w \<and>
     0 < next_obj w \<and> (\<forall>c. next_obj w \<le> c \<longrightarrow> objs w c = None)"

lemma srv_invD:
  assumes "srv_inv w st"
  shows "poller_inv (pollers w l)" and "objs w c = None \<Longrightarrow> dead_ok w c" and "objs w c = Some ob \<Longrightarrow> live_ok w c ob (st c)"
    and "fds_ok w" and "names_ok w"
  using assms unfolding srv_inv_def conns_ok_def by (auto dest: spec [of _ c])

lemma conn_usable:
  assumes inv: "srv_inv w st" and ob: "objs w c = Some ob"
  shows "usable (pollers w (conn_loop ob)) c"
  unfolding usable_def
proof (intro allI impI)
  let ?p = "pollers w (conn_loop ob)"
  fix d assume "channels ?p (ch_fd (chans ?p c)) = Some d"
  then have d: "ch_fd (chans ?p d) = ch_fd (chans ?p c)" "index (chans ?p d) \<noteq> kNew"
    using poller_invD(2) [OF srv_invD(1) [OF inv]] by auto
  show "d = c"
  proof (cases "objs w d")
    case None
    then have "d = acceptChannel" "conn_loop ob = base w" using srv_invD(2) [OF inv None] d(2) by (auto simp: dead_ok_def)
    then have "conn_fd w c ob = ch_fd (chans (pollers w (base w)) acceptChannel)" using d(1) by (simp add: conn_fd_def)
    then show ?thesis using srv_invD(4) [OF inv] ob unfolding fds_ok_def by blast
  next
    case (Some ob')
    then have "conn_loop ob' = conn_loop ob" using srv_invD(3) [OF inv Some] d(2) by (auto simp: live_ok_def)
    then have "conn_fd w d ob' = conn_fd w c ob" using d(1) by (simp add: conn_fd_def)
    then show ?thesis using srv_invD(4) [OF inv] ob Some unfolding fds_ok_def by blast
  qed
qed

lemma load_simps [simp]: "poller (load w ob) = pollers w (conn_loop ob)" "chan (load w ob) = chan (tcp ob)"
    "state (load w ob) = state (tcp ob)" "effects (load w ob) = effects (tcp ob)"
  by (simp_all add: load_def)

lemma load_pbase:
  assumes "srv_inv w st" and "objs w c = Some ob"
  shows "pbase (load w ob)" and "chan (tcp ob) = c"
proof -
  show c: "chan (tcp ob) = c" using srv_invD(3) [OF assms] by (simp add: live_ok_def)
  show "pbase (load w ob)" using srv_invD(1) [OF assms(1)] conn_usable [OF assms] c by (simp add: pbase_def)
qed

text \<open>A step that changes one connection, within its own channel, keeps what holds of the others.\<close>

lemma others_ok:
  assumes inv: "srv_inv w st" and d: "d \<noteq> c" "objs w' d = objs w d"
    and p: "\<And>l. chans (pollers w' l) d = chans (pollers w l) d" and b: "base w' = base w"
    and M: "\<And>n. connections (server w') n = Some d \<longleftrightarrow> connections (server w) n = Some d"
    and q: "\<And>l f. target f \<noteq> c \<Longrightarrow> count_list (queue w' l) f = count_list (queue w l) f"
  shows "case objs w' d of None \<Rightarrow> dead_ok w' d | Some ob \<Rightarrow> live_ok w' d ob (st d)"
proof -
  have qd: "queued_once w' d due = queued_once w d due" for due using q d(1) by (auto simp: queued_once_def)
  show ?thesis
  proof (cases "objs w d")
    case None
    then have "dead_ok w d" by (rule srv_invD(2) [OF inv])
    then have "dead_ok w' d" using qd p b M by (simp add: dead_ok_def)
    then show ?thesis using None d(2) by simp
  next
    case (Some ob)
    then have "live_ok w d ob (st d)" by (rule srv_invD(3) [OF inv])
    then have "live_ok w' d ob (st d)" using qd p b M by (simp add: live_ok_def)
    then show ?thesis using Some d(2) by simp
  qed
qed

text \<open>Descriptors and names stay distinct when no connection is added.\<close>

lemma fds_names_ok:
  assumes inv: "srv_inv w st"
    and old: "\<And>d o1. objs w' d = Some o1 \<Longrightarrow> \<exists>ob. objs w d = Some ob \<and> conn_fd w' d o1 = conn_fd w d ob \<and> conn_name o1 = conn_name ob"
    and acc: "ch_fd (chans (pollers w' (base w')) acceptChannel) = ch_fd (chans (pollers w (base w)) acceptChannel)"
    and srv: "server w' = server w\<lparr>connections := M\<rparr>"
  shows "fds_ok w'" and "names_ok w'"
proof -
  show "fds_ok w'" unfolding fds_ok_def acc using srv_invD(4) [OF inv] old unfolding fds_ok_def by metis
  have nm: "connName (server w') n = connName (server w) n" for n using srv by (simp add: connName_def)
  show "names_ok w'" unfolding names_ok_def nm using srv_invD(5) [OF inv] old srv unfolding names_ok_def by simp metis
qed

lemma srv_inv_change:
  assumes inv: "srv_inv w st" and ob: "objs w c = Some ob"
    and ob': "conn_name ob' = conn_name ob" "conn_loop ob' = conn_loop ob" "chan (tcp ob') = c"
    and p: "poller_inv p" "\<And>d. d \<noteq> c \<Longrightarrow> chans p d = chans (pollers w (conn_loop ob)) d"
      "ch_fd (chans p c) = ch_fd (chans (pollers w (conn_loop ob)) c)"
    and w': "objs w' = (objs w)(c \<mapsto> ob')" "pollers w' = (pollers w)(conn_loop ob := p)"
      "next_obj w' = next_obj w" "server w' = server w\<lparr>connections := M\<rparr>"
    and M: "\<And>n. M n = Some c \<longleftrightarrow> n = conn_name ob \<and> s' \<noteq> Destroying"
      "\<And>n d. d \<noteq> c \<Longrightarrow> M n = Some d \<longleftrightarrow> connections (server w) n = Some d"
    and stage: "stage_ok s' (state (tcp ob')) (chans p c)"
    and q: "\<And>l f. target f \<noteq> c \<Longrightarrow> count_list (queue w' l) f = count_list (queue w l) f"
      "queued_once w' c (due_fn (base w) (conn_loop ob) s' c)"
  shows "srv_inv w' (st(c := s'))"
proof -
  have live: "live_ok w c ob (st c)" by (rule srv_invD(3) [OF inv ob])
  have ch: "chans (pollers w' l) d = chans (pollers w l) d" if "d \<noteq> c \<or> l \<noteq> conn_loop ob" for l d
    using that p(2) w'(2) by auto
  have base: "base w' = base w" "acceptChannel \<noteq> c" using w'(4) live by (simp_all add: live_ok_def)
  have "case objs w' d of None \<Rightarrow> dead_ok w' d | Some o1 \<Rightarrow> live_ok w' d o1 ((st(c := s')) d)" for d
  proof (cases "d = c")
    case True
    have "live_ok w' c ob' s'" using live M(1) stage q(2) base w'(2,4) ob' ch by (simp add: live_ok_def)
    then show ?thesis using True w'(1) by simp
  next
    case False
    have "case objs w' d of None \<Rightarrow> dead_ok w' d | Some o1 \<Rightarrow> live_ok w' d o1 (st d)"
      using False ch w'(1,4) base(1) M(2) q(1) by (intro others_ok [OF inv False]) simp_all
    then show ?thesis using False by (cases "objs w' d") simp_all
  qed
  then have "conns_ok w' (st(c := s'))" unfolding conns_ok_def by blast
  moreover have "poller_inv (pollers w' l)" for l using w'(2) p(1) srv_invD(1) [OF inv] by simp
  moreover have "fds_ok w'" "names_ok w'"
  proof (rule_tac [!] fds_names_ok [OF inv _ _ w'(4)])
    fix d o1 assume "objs w' d = Some o1"
    then show "\<exists>ob. objs w d = Some ob \<and> conn_fd w' d o1 = conn_fd w d ob \<and> conn_name o1 = conn_name ob"
      "\<exists>ob. objs w d = Some ob \<and> conn_fd w' d o1 = conn_fd w d ob \<and> conn_name o1 = conn_name ob"
      using w'(1,2) p(2,3) ob ob'(1,2) by (auto simp: conn_fd_def split: if_splits)
  qed (use ch base in simp_all)
  ultimately show ?thesis using inv w'(1,3) ob unfolding srv_inv_def by (auto split: if_splits)
qed

lemma srv_inv_free:
  assumes inv: "srv_inv w st" and ob: "objs w c = Some ob" "st c = Destroying"
    and p: "poller_inv p" "\<And>d. d \<noteq> c \<Longrightarrow> chans p d = chans (pollers w (conn_loop ob)) d" "index (chans p c) = kNew"
    and w': "objs w' = (objs w)(c := None)" "pollers w' = (pollers w)(conn_loop ob := p)"
      "next_obj w' = next_obj w" "server w' = server w"
    and q: "\<And>l f. target f \<noteq> c \<Longrightarrow> count_list (queue w' l) f = count_list (queue w l) f" "queued_once w' c None"
  shows "srv_inv w' (st(c := Gone))"
proof -
  have live: "live_ok w c ob (st c)" by (rule srv_invD(3) [OF inv ob(1)])
  have ch: "chans (pollers w' l) d = chans (pollers w l) d" if "d \<noteq> c \<or> l \<noteq> conn_loop ob" for l d
    using that p(2) w'(2) by auto
  have acc: "acceptChannel \<noteq> c" using live by (simp add: live_ok_def)
  have srv: "server w' = server w\<lparr>connections := connections (server w)\<rparr>" using w'(4) by simp
  have "case objs w' d of None \<Rightarrow> dead_ok w' d | Some o1 \<Rightarrow> live_ok w' d o1 ((st(c := Gone)) d)" for d
  proof (cases "d = c")
    case True
    have "dead_ok w' c" using live ob(2) q(2) w'(2,4) p(3) by (auto simp: live_ok_def dead_ok_def)
    then show ?thesis using True w'(1) by simp
  next
    case False
    have "case objs w' d of None \<Rightarrow> dead_ok w' d | Some o1 \<Rightarrow> live_ok w' d o1 (st d)"
      using False ch w'(1,4) q(1) by (intro others_ok [OF inv False]) simp_all
    then show ?thesis using False by (cases "objs w' d") simp_all
  qed
  then have "conns_ok w' (st(c := Gone))" unfolding conns_ok_def by blast
  moreover have "poller_inv (pollers w' l)" for l using w'(2) p(1) srv_invD(1) [OF inv] by simp
  moreover have "fds_ok w'" "names_ok w'"
  proof (rule_tac [!] fds_names_ok [OF inv _ _ srv])
    fix d o1 assume "objs w' d = Some o1"
    then show "\<exists>ob. objs w d = Some ob \<and> conn_fd w' d o1 = conn_fd w d ob \<and> conn_name o1 = conn_name ob"
      "\<exists>ob. objs w d = Some ob \<and> conn_fd w' d o1 = conn_fd w d ob \<and> conn_name o1 = conn_name ob"
      using w'(1,2) p(2) by (auto simp: conn_fd_def split: if_splits)
  qed (use ch acc w'(4) in simp_all)
  ultimately show ?thesis using inv w'(1,3) unfolding srv_inv_def by auto
qed

lemma due_of_queued:
  assumes inv: "srv_inv w st" and f: "f \<in> set (queue w l)"
  shows "\<exists>ob. objs w (target f) = Some ob \<and> due_fn (base w) (conn_loop ob) (st (target f)) (target f) = Some (l, f)"
proof -
  have n: "count_list (queue w l) f \<noteq> 0" using f by (simp add: count_list_0_iff)
  show ?thesis
  proof (cases "objs w (target f)")
    case None
    then show ?thesis using srv_invD(2) [OF inv None] n by (simp add: dead_ok_def queued_once_def)
  next
    case (Some ob)
    then show ?thesis using srv_invD(3) [OF inv Some] n by (auto simp: live_ok_def queued_once_def split: if_splits)
  qed
qed

lemma queued_pop:
  assumes "queued_once w (target f) (Some (l, f))" and "queue w l = f # fs"
  shows "queued_once (w\<lparr>queue := (queue w)(l := fs)\<rparr>) (target f) None"
    and "target g \<noteq> target f \<Longrightarrow> count_list ((queue (w\<lparr>queue := (queue w)(l := fs)\<rparr>)) k) g = count_list (queue w k) g"
proof -
  show "queued_once (w\<lparr>queue := (queue w)(l := fs)\<rparr>) (target f) None"
    unfolding queued_once_def
  proof (intro allI impI)
    fix k g assume "target g = target f"
    then have "count_list (queue w k) g = (if Some (l, f) = Some (k, g) then 1 else 0)"
      using assms(1) unfolding queued_once_def by blast
    then show "count_list (queue (w\<lparr>queue := (queue w)(l := fs)\<rparr>) k) g = (if None = Some (k, g) then 1 else 0)"
      using assms(2) by (auto split: if_splits)
  qed
  show "target g \<noteq> target f \<Longrightarrow> count_list ((queue (w\<lparr>queue := (queue w)(l := fs)\<rparr>)) k) g = count_list (queue w k) g"
    using assms(2) by auto
qed

lemma queued_push:
  assumes "queued_once w (target f) None"
  shows "queued_once (enqueue w l f) (target f) (Some (l, f))"
    and "target g \<noteq> target f \<Longrightarrow> count_list (queue (enqueue w l f) k) g = count_list (queue w k) g"
  using assms by (auto simp: queued_once_def enqueue_def)

lemma queued_cong: "queue w' = queue w \<Longrightarrow> queued_once w' c d = queued_once w c d"
  by (simp add: queued_once_def)

text \<open>The descriptors that the server's sockets hold.\<close>

definition sock_fds :: "world \<Rightarrow> conn \<rightharpoonup> fd" where
  "sock_fds w c = map_option (conn_fd w c) (objs w c)"

definition listen_fd :: "world \<Rightarrow> fd" where
  "listen_fd w = ch_fd (chans (pollers w (base w)) acceptChannel)"

definition same_fds :: "world \<Rightarrow> world \<Rightarrow> bool" where
  "same_fds w w' \<longleftrightarrow> sock_fds w' = sock_fds w \<and> listen_fd w' = listen_fd w"

lemma enqueue_fds [simp]: "sock_fds (enqueue w l f) = sock_fds w" "listen_fd (enqueue w l f) = listen_fd w"
    "sock_fds (w\<lparr>queue := q\<rparr>) = sock_fds w" "listen_fd (w\<lparr>queue := q\<rparr>) = listen_fd w"
  by (simp_all add: fun_eq_iff sock_fds_def conn_fd_def [abs_def] enqueue_def listen_fd_def)

lemma fds_cong:
  "objs w' = objs w \<Longrightarrow> pollers w' = pollers w \<Longrightarrow> base w' = base w \<Longrightarrow> same_fds w w'"
  by (simp add: same_fds_def fun_eq_iff sock_fds_def conn_fd_def [abs_def] listen_fd_def)

lemma store_fds:
  assumes inv: "srv_inv w st" and ob: "objs w c = Some ob" and own: "own (load w ob) t"
  shows "same_fds w (store w c ob t)"
proof -
  have c: "chan (tcp ob) = c" "c \<noteq> acceptChannel" using srv_invD(3) [OF inv ob] by (simp_all add: live_ok_def)
  have "ch_fd (chans (poller t) d) = ch_fd (chans (pollers w (conn_loop ob)) d)" for d
    using own c(1) by (cases "d = c") (auto simp: own_def)
  then have "sock_fds (store w c ob t) d = sock_fds w d" for d
    using ob by (cases "objs w d") (auto simp: sock_fds_def conn_fd_def store_def)
  moreover have "listen_fd (store w c ob t) = listen_fd w" using own c by (auto simp: listen_fd_def store_def own_def)
  ultimately show ?thesis by (simp add: same_fds_def fun_eq_iff)
qed

lemma removeConnection_fds:
  assumes "TcpServer_removeConnection cur w c = Inr w'"
  shows "same_fds w w'"
  using assms
  by (intro fds_cong) (auto simp: TcpServer_removeConnection_def TcpServer_removeConnectionInLoop_def andthen_Inr_iff enqueue_def Let_def
      split: if_splits)

lemma same_fds_trans: "same_fds w w' \<Longrightarrow> same_fds w' w'' \<Longrightarrow> same_fds w w''"
  by (simp add: same_fds_def)

section \<open>Every step keeps the invariant\<close>

lemma functor_ok:
  assumes ctl: "epoll_ctl_spec ctl" and inv: "srv_inv w st" and q: "queue w l = f # fs"
  shows "\<exists>w' s. run_functor ctl (w\<lparr>queue := (queue w)(l := fs)\<rparr>) f = Inr w' \<and> srv_inv w' (st(target f := s)) \<and>
     (case f of Established_fn _ \<Rightarrow> s = Up \<and> objs w' (target f) \<noteq> None
      | Remove_fn _ \<Rightarrow> s = Destroying \<and> objs w' (target f) \<noteq> None
      | Destroyed_fn _ \<Rightarrow> s = Gone \<and> objs w' (target f) = None) \<and>
     sock_fds w' = (case f of Destroyed_fn c \<Rightarrow> (sock_fds w)(c := None) | _ \<Rightarrow> sock_fds w) \<and> listen_fd w' = listen_fd w"
proof -
  let ?w = "w\<lparr>queue := (queue w)(l := fs)\<rparr>" and ?c = "target f"
  obtain ob where ob: "objs w ?c = Some ob" "due_fn (base w) (conn_loop ob) (st ?c) ?c = Some (l, f)"
    using due_of_queued [OF inv, of f l] q by auto
  have live: "live_ok w ?c ob (st ?c)" by (rule srv_invD(3) [OF inv ob(1)])
  have b: "pbase (load w ob)" "chan (tcp ob) = ?c" by (rule load_pbase [OF inv ob(1)])+
  have l: "load ?w ob = load w ob" "conn_at ?w ?c = Inr ob" using ob(1) by (simp_all add: load_def conn_at_def)
  have once: "queued_once w ?c (Some (l, f))" using live ob(2) by (simp add: live_ok_def)
  note pop = queued_pop [OF once q]
  have map: "connections (server w) n = Some ?c \<longleftrightarrow> n = conn_name ob \<and> st ?c \<noteq> Destroying" for n
    using live by (simp add: live_ok_def)
  have stage: "stage_ok (st ?c) (state (tcp ob)) (chans (pollers w (conn_loop ob)) ?c)" using live by (simp add: live_ok_def)
  show ?thesis
  proof (cases f)
    case (Established_fn c)
    then have st: "st ?c = Connecting" using ob(2) by (auto simp: due_fn_def split: stage.splits)
    obtain t' where t': "TcpConnection_connectEstablished ctl (load w ob) = Inr t'" "own (load w ob) t'" "state t' = kConnected" "registered t'"
      using established_life [OF ctl b(1)] by blast
    let ?w' = "store ?w ?c ob t'"
    have "srv_inv ?w' (st(?c := Up))"
    proof (rule srv_inv_change [OF inv ob(1), where ob' = "ob\<lparr>tcp := t'\<rparr>" and p = "poller t'" and M = "connections (server w)"])
      show "stage_ok Up (state (tcp (ob\<lparr>tcp := t'\<rparr>))) (chans (poller t') ?c)"
        using t'(2-4) b(2) by (simp add: stage_ok_def registered_def own_def)
      show "queued_once ?w' ?c (due_fn (base w) (conn_loop ob) Up ?c)"
        using pop(1) queued_cong [of ?w' ?w] by (simp add: due_fn_def store_def)
    qed (use t'(2) b(2) map st pop(2) in \<open>auto simp: own_def store_def\<close>)
    moreover have "?w' = (store w ?c ob t')\<lparr>queue := (queue w)(l := fs)\<rparr>" by (simp add: store_def)
    then have "same_fds w ?w'" using store_fds [OF inv ob(1) t'(2)] by (simp add: same_fds_def)
    moreover have "run_functor ctl ?w f = Inr ?w'" "objs ?w' ?c \<noteq> None"
      using Established_fn l t'(1) by (simp_all add: run_established_def) (simp add: store_def)
    ultimately show ?thesis
      using Established_fn by (intro exI [of _ ?w'] exI [of _ Up]) (simp add: same_fds_def)
  next
    case (Remove_fn c)
    then have st: "st ?c = Removing" using ob(2) by (auto simp: due_fn_def split: stage.splits)
    let ?M = "(connections (server w))(conn_name ob := None)"
    let ?w1 = "?w\<lparr>server := (server w)\<lparr>connections := ?M\<rparr>\<rparr>"
    let ?w' = "enqueue ?w1 (conn_loop ob) (Destroyed_fn ?c)"
    have p1: "queued_once ?w1 (target (Destroyed_fn ?c)) None" using pop(1) queued_cong [of ?w1 ?w] by simp
    note push = queued_push [OF p1]
    have "srv_inv ?w' (st(?c := Destroying))"
    proof (rule srv_inv_change [OF inv ob(1), where ob' = ob and p = "pollers w (conn_loop ob)" and M = ?M])
      show "stage_ok Destroying (state (tcp ob)) (chans (pollers w (conn_loop ob)) ?c)"
        using stage st by (simp add: stage_ok_def)
      show "queued_once ?w' ?c (due_fn (base w) (conn_loop ob) Destroying ?c)" using push(1) by (simp add: due_fn_def)
      show "count_list (queue ?w' k) g = count_list (queue w k) g" if "target g \<noteq> ?c" for k g
        using push(2) [of g] pop(2) [of g] that by simp
      show "(?M n = Some d) = (connections (server w) n = Some d)" if "d \<noteq> ?c" for n d
        using that map [of "conn_name ob"] st by auto
    qed (use srv_invD(1) [OF inv] b(2) ob(1) map st in \<open>auto simp: enqueue_def\<close>)
    moreover have "objs ?w' ?c \<noteq> None" using ob(1) by (simp add: enqueue_def)
    moreover have "same_fds w ?w'" by (rule fds_cong) (simp_all add: enqueue_def)
    ultimately show ?thesis
      using Remove_fn l by (intro exI [of _ ?w'] exI [of _ Destroying]) (simp add: TcpServer_removeConnectionInLoop_def same_fds_def)
  next
    case (Destroyed_fn c)
    then have st: "st ?c = Destroying" using ob(2) by (auto simp: due_fn_def split: stage.splits)
    obtain t' where t': "TcpConnection_connectDestroyed ctl (load w ob) = Inr t'" "own (load w ob) t'" "index (channel t') = kNew"
      using destroyed_life [OF ctl b(1)] by blast
    let ?w' = "(store ?w ?c ob t')\<lparr>objs := (objs w)(?c := None)\<rparr>"
    have "srv_inv ?w' (st(?c := Gone))"
    proof (rule srv_inv_free [OF inv ob(1) st, where p = "poller t'"])
      show "queued_once ?w' ?c None" using pop(1) queued_cong [of ?w' ?w] by (simp add: store_def)
    qed (use t'(2,3) b(2) pop(2) in \<open>auto simp: own_def store_def\<close>)
    moreover have "run_functor ctl ?w f = Inr ?w'"
      using Destroyed_fn l t'(1) by (simp add: run_destroyed_def Let_def store_def)
    moreover have "sock_fds ?w' = (sock_fds w)(?c := None)" "listen_fd ?w' = listen_fd w"
    proof -
      have same: "same_fds w (store w ?c ob t')" by (rule store_fds [OF inv ob(1) t'(2)])
      moreover have "sock_fds ?w' = (sock_fds (store w ?c ob t'))(?c := None)"
        by (auto simp: fun_eq_iff sock_fds_def conn_fd_def [abs_def] store_def)
      ultimately show "sock_fds ?w' = (sock_fds w)(?c := None)" by (simp add: same_fds_def)
      show "listen_fd ?w' = listen_fd w" using same by (auto simp: same_fds_def listen_fd_def store_def split: if_splits)
    qed
    ultimately show ?thesis using Destroyed_fn by (intro exI [of _ ?w'] exI [of _ Gone]) simp
  qed
qed

lemma keep_ok:
  assumes inv: "srv_inv w st" and ob: "objs w c = Some ob" and own: "own (load w ob) t"
    and stage: "stage_ok (st c) (state t) (channel t)"
  shows "srv_inv (store w c ob t) st"
proof -
  have live: "live_ok w c ob (st c)" by (rule srv_invD(3) [OF inv ob])
  have c: "chan (tcp ob) = c" by (rule load_pbase(2) [OF inv ob])
  have "srv_inv (store w c ob t) (st(c := st c))"
  proof (rule srv_inv_change [OF inv ob, where ob' = "ob\<lparr>tcp := t\<rparr>" and p = "poller t" and M = "connections (server w)"])
    show "queued_once (store w c ob t) c (due_fn (base w) (conn_loop ob) (st c) c)"
      using live queued_cong [of "store w c ob t" w] by (simp add: live_ok_def store_def)
    show "stage_ok (st c) (state (tcp (ob\<lparr>tcp := t\<rparr>))) (chans (poller t) c)" using stage own c by (simp add: own_def)
  qed (use own c live in \<open>auto simp: own_def store_def live_ok_def\<close>)
  then show ?thesis by simp
qed

lemma closing_ok:
  assumes inv: "srv_inv w st" and ob: "objs w c = Some ob" and up: "st c = Up" and own: "own (load w ob) t" and cl: "closed t"
  shows "\<exists>w' s. TcpServer_removeConnection (conn_loop ob) (store w c ob t) c = Inr w' \<and> srv_inv w' (st(c := s)) \<and>
     s = (if conn_loop ob = base w then Destroying else Removing)"
proof -
  have live: "live_ok w c ob Up" using srv_invD(3) [OF inv ob] up by simp
  have c: "chan (tcp ob) = c" "chan t = c" using load_pbase(2) [OF inv ob] own by (simp_all add: own_def)
  let ?w = "store w c ob t" and ?ob = "ob\<lparr>tcp := t\<rparr>"
  have none: "queued_once ?w c None"
    using live queued_cong [of ?w w] by (simp add: live_ok_def due_fn_def store_def)
  have map: "connections (server w) n = Some c \<longleftrightarrow> n = conn_name ob" for n using live by (simp add: live_ok_def)
  have stages: "stage_ok Destroying (state (tcp ?ob)) (chans (poller t) c)" "stage_ok Removing (state (tcp ?ob)) (chans (poller t) c)"
    using cl c by (simp_all add: stage_ok_def closed_def)
  show ?thesis
  proof (cases "conn_loop ob = base w")
    case True
    let ?M = "(connections (server w))(conn_name ob := None)"
    let ?w1 = "?w\<lparr>server := (server w)\<lparr>connections := ?M\<rparr>\<rparr>"
    let ?w' = "enqueue ?w1 (conn_loop ob) (Destroyed_fn c)"
    have p1: "queued_once ?w1 (target (Destroyed_fn c)) None" using none queued_cong [of ?w1 ?w] by simp
    note push = queued_push [OF p1]
    have "srv_inv ?w' (st(c := Destroying))"
    proof (rule srv_inv_change [OF inv ob, where ob' = ?ob and p = "poller t" and M = ?M])
      show "stage_ok Destroying (state (tcp ?ob)) (chans (poller t) c)" by (rule stages(1))
      show "queued_once ?w' c (due_fn (base w) (conn_loop ob) Destroying c)" using push(1) by (simp add: due_fn_def)
      show "count_list (queue ?w' k) g = count_list (queue w k) g" if "target g \<noteq> c" for k g
        using push(2) [of g] that by (simp add: store_def)
      show "(?M n = Some d) = (connections (server w) n = Some d)" if "d \<noteq> c" for n d
        using that map [of "conn_name ob"] by auto
    qed (use own c map in \<open>auto simp: enqueue_def own_def store_def\<close>)
    moreover have "TcpServer_removeConnection (conn_loop ob) ?w c = Inr ?w'"
      using True by (simp add: TcpServer_removeConnection_def TcpServer_removeConnectionInLoop_def conn_at_def store_def)
    ultimately show ?thesis using True by (intro exI [of _ ?w'] exI [of _ Destroying]) simp
  next
    case False
    let ?w' = "enqueue ?w (base w) (Remove_fn c)"
    note push = queued_push [of ?w "Remove_fn c"]
    have "srv_inv ?w' (st(c := Removing))"
    proof (rule srv_inv_change [OF inv ob, where ob' = ?ob and p = "poller t" and M = "connections (server w)"])
      show "stage_ok Removing (state (tcp ?ob)) (chans (poller t) c)" by (rule stages(2))
      show "queued_once ?w' c (due_fn (base w) (conn_loop ob) Removing c)" using push(1) none by (simp add: due_fn_def)
      show "count_list (queue ?w' k) g = count_list (queue w k) g" if "target g \<noteq> c" for k g
        using push(2) that none by (simp add: store_def)
    qed (use own c map in \<open>auto simp: enqueue_def own_def store_def\<close>)
    moreover have "TcpServer_removeConnection (conn_loop ob) ?w c = Inr ?w'"
      using False by (simp add: TcpServer_removeConnection_def store_def)
    ultimately show ?thesis using False by auto
  qed
qed

lemma callback_ok:
  assumes ctl: "epoll_ctl_spec ctl" and msg: "message_ok onMessage" and inv: "srv_inv w st" and ob: "objs w c = Some ob"
    and st: "st c = Up \<or> ((st c = Removing \<or> st c = Destroying) \<and> (cb = Error_cb \<or> cb = Write_cb))"
    and run: "run_callback ctl k onMessage c w cb = Inr w'"
  shows "\<exists>s. srv_inv w' (st(c := s)) \<and> objs w' c \<noteq> None \<and> (s = Up \<or> s = Removing \<or> s = Destroying) \<and>
     (cb = Error_cb \<or> cb = Write_cb \<longrightarrow> s = st c) \<and> same_fds w w'"
proof -
  let ?t = "load w ob"
  have b: "pbase ?t" "chan (tcp ob) = c" by (rule load_pbase [OF inv ob])+
  have live: "live_ok w c ob (st c)" by (rule srv_invD(3) [OF inv ob])
  have stage: "stage_ok (st c) (state ?t) (channel ?t)" using live b(2) by (simp add: live_ok_def)
  have up: "st c = Up \<Longrightarrow> up ?t \<and> registered ?t" using stage by (simp add: stage_ok_def up_def registered_def)
  have down: "st c = Removing \<or> st c = Destroying \<Longrightarrow> closed ?t" using stage by (elim disjE) (simp_all add: stage_ok_def closed_def)
  obtain t1 t2 where t1: "(case cb of
            Close_cb \<Rightarrow> TcpConnection_handleClose ctl ?t
          | Error_cb \<Rightarrow> Inr (TcpConnection_handleError ?t)
          | Read_cb \<Rightarrow> TcpConnection_handleRead ctl (io_readv k) ?t
          | Write_cb \<Rightarrow> TcpConnection_handleWrite ctl (io_write k) ?t) = Inr t1"
    and t2: "(if MessageCallback \<in> news ?t t1 then onMessage t1 else Inr t1) = Inr t2"
    and w': "(if CloseCallback \<in> news ?t t1 then TcpServer_removeConnection (conn_loop ob) (store w c ob t2) c
      else Inr (store w c ob t2)) = Inr w'"
    using run unfolding run_callback_def conn_at_def ob option.case andthen_simps Let_def andthen_Inr_iff
    by (elim exE conjE) (rule that; assumption)
  have first: "own ?t t1 \<and> (if CloseCallback \<in> news ?t t1 then cb \<noteq> Error_cb \<and> cb \<noteq> Write_cb \<and> closed t1 \<and> MessageCallback \<notin> news ?t t1
      else (st c = Up \<longrightarrow> up t1 \<and> registered t1) \<and> (st c \<noteq> Up \<longrightarrow> closed t1) \<and>
        (MessageCallback \<in> news ?t t1 \<longrightarrow> pbase t1 \<and> cb = Read_cb))"
  proof (cases cb)
    case Close_cb
    then have "index (channel ?t) = kAdded" using st up by (auto simp: registered_def)
    from close_life [OF ctl b(1) this] show ?thesis using t1 Close_cb by (auto simp: news_def)
  next
    case Error_cb
    then have e: "t1 = emit LogError ?t" using t1 by (simp add: TcpConnection_handleError_def)
    have "own ?t t1" unfolding e using b(1) by (intro own_cong) (simp_all add: pbase_def)
    moreover have "news ?t t1 = {LogError}" by (simp add: e news_def)
    moreover have "up t1 = up ?t" "registered t1 = registered ?t" "closed t1 = closed ?t"
      by (simp_all add: e up_def registered_def closed_def)
    ultimately show ?thesis using st up down by auto
  next
    case Read_cb
    then have s: "st c = Up" using st by auto
    have r: "TcpConnection_handleRead ctl (io_readv k) ?t = Inr t1" using t1 Read_cb by simp
    show ?thesis using read_life [OF ctl b(1) _ r] up [OF s] s Read_cb by (auto simp: up_def split: if_splits)
  next
    case Write_cb
    have r: "TcpConnection_handleWrite ctl (io_write k) ?t = Inr t1" using t1 Write_cb by simp
    from write_life [OF ctl b(1) r] show ?thesis using st up down by (auto simp: up_def)
  qed
  show ?thesis
  proof (cases "CloseCallback \<in> news ?t t1")
    case True
    then have "t2 = t1" "closed t1" "own ?t t1" and s: "st c = Up" using first t2 st by auto
    from closing_ok [OF inv ob s this(3,2)] w' True \<open>t2 = t1\<close> obtain s where
        "srv_inv w' (st(c := s))" "s = (if conn_loop ob = base w then Destroying else Removing)" by auto
    moreover from this have "objs w' c \<noteq> None" using srv_invD(2) [of w' "st(c := s)" c] w' True
      by (auto simp: TcpServer_removeConnection_def TcpServer_removeConnectionInLoop_def conn_at_def store_def enqueue_def split: if_splits)
    moreover have "cb \<noteq> Error_cb" "cb \<noteq> Write_cb" using first True by auto
    moreover have "same_fds w w'"
      using store_fds [OF inv ob \<open>own ?t t1\<close>] removeConnection_fds [of "conn_loop ob" "store w c ob t2" c w'] w' True \<open>t2 = t1\<close>
        same_fds_trans by auto
    ultimately show ?thesis by (intro exI [of _ s]) auto
  next
    case False
    have st2: "own ?t t2" "st c = Up \<Longrightarrow> up t2 \<and> registered t2" "st c \<noteq> Up \<Longrightarrow> closed t2"
    proof -
      have m: "own t1 t2 \<and> up t2 \<and> registered t2" if "MessageCallback \<in> news ?t t1"
        using msg first t2 that False st unfolding message_ok_def by fastforce
      show "own ?t t2" using m first t2 own_trans [of ?t t1 t2] by (cases "MessageCallback \<in> news ?t t1") auto
      show "st c = Up \<Longrightarrow> up t2 \<and> registered t2" using m first t2 False by (cases "MessageCallback \<in> news ?t t1") auto
      show "st c \<noteq> Up \<Longrightarrow> closed t2" using first t2 False st by (cases "MessageCallback \<in> news ?t t1") auto
    qed
    have "chan t2 = c" using st2(1) b(2) by (simp add: own_def)
    have "stage_ok (st c) (state t2) (channel t2)"
    proof (cases "st c = Up")
      case True
      then show ?thesis using st2(2) by (simp add: stage_ok_def up_def registered_def)
    next
      case down: False
      then have "closed t2" by (rule st2(3))
      then show ?thesis using st down by (auto simp: stage_ok_def closed_def)
    qed
    from keep_ok [OF inv ob st2(1) this] have "srv_inv (store w c ob t2) (st(c := st c))" by simp
    moreover have "w' = store w c ob t2" using w' False by simp
    ultimately show ?thesis using st store_fds [OF inv ob st2(1)] by (intro exI [of _ "st c"]) (auto simp: store_def)
  qed
qed

lemma callbacks_ok:
  assumes ctl: "epoll_ctl_spec ctl" and msg: "message_ok onMessage"
  shows "srv_inv w st \<Longrightarrow> objs w c \<noteq> None \<Longrightarrow> st c = Up \<or> st c = Removing \<or> st c = Destroying \<Longrightarrow>
     length (filter (\<lambda>cb. cb = Close_cb \<or> cb = Read_cb) cbs) \<le> (if st c = Up then 1 else 0) \<Longrightarrow>
     run_callbacks ctl k onMessage c w cbs = Inr w' \<Longrightarrow>
     (\<exists>s. srv_inv w' (st(c := s)) \<and> (s = Up \<or> s = Removing \<or> s = Destroying)) \<and> same_fds w w'"
proof (induction cbs arbitrary: w st)
  case Nil
  then show ?case by (intro conjI exI [of _ "st c"]) (simp_all add: same_fds_def)
next
  case (Cons cb cbs)
  obtain w1 where w1: "run_callback ctl k onMessage c w cb = Inr w1" "run_callbacks ctl k onMessage c w1 cbs = Inr w'"
    using Cons.prems(5) by (auto simp: andthen_Inr_iff)
  obtain ob where ob: "objs w c = Some ob" using Cons.prems(2) by auto
  have st: "st c = Up \<or> ((st c = Removing \<or> st c = Destroying) \<and> (cb = Error_cb \<or> cb = Write_cb))"
    using Cons.prems(3,4) by (cases cb) (auto split: if_splits)
  obtain s where s: "srv_inv w1 (st(c := s))" "objs w1 c \<noteq> None" "s = Up \<or> s = Removing \<or> s = Destroying"
      "cb = Error_cb \<or> cb = Write_cb \<longrightarrow> s = st c" "same_fds w w1"
    using callback_ok [OF ctl msg Cons.prems(1) ob st w1(1)] by blast
  have st1: "(st(c := s)) c = Up \<or> (st(c := s)) c = Removing \<or> (st(c := s)) c = Destroying" using s(3) by simp
  have len: "length (filter (\<lambda>cb. cb = Close_cb \<or> cb = Read_cb) cbs) \<le> (if (st(c := s)) c = Up then 1 else 0)"
    using Cons.prems(4) s(4) by (cases cb) (auto split: if_splits)
  obtain s' where "srv_inv w' ((st(c := s))(c := s'))" "s' = Up \<or> s' = Removing \<or> s' = Destroying" "same_fds w1 w'"
    using Cons.IH [OF s(1,2) st1 len w1(2)] by blast
  then show ?case using same_fds_trans [OF s(5)] unfolding fun_upd_upd by blast
qed

lemma handleEvent_closing:
  assumes "hup_ok r"
  shows "length (filter (\<lambda>cb. cb = Close_cb \<or> cb = Read_cb) (Channel_handleEvent True (ch\<lparr>revents := r\<rparr>))) \<le> 1"
proof -
  have "\<not> (r AND EPOLLHUP \<noteq> 0 \<and> r AND EPOLLIN = 0 \<and> r AND (EPOLLIN OR EPOLLPRI) \<noteq> 0)"
    using assms by (auto simp: hup_ok_def bit.conj_disj_distrib)
  then show ?thesis by (auto simp: Channel_handleEvent_def Channel_handleEventWithGuard_def)
qed

lemma connName_inject:
  assumes "length (ipPort s) \<le> 21" and "m < 2 ^ 31" and "n < 2 ^ 31" and "connName s m = connName s n"
  shows "m = n"
proof -
  have "length (dec k) \<le> 10" if "k < 2 ^ 31" for k using length_dec [of k 10] that by simp
  then have "length (''-'' @ ipPort s @ ''#'' @ dec m) \<le> 63" "length (''-'' @ ipPort s @ ''#'' @ dec n) \<le> 63"
    using assms(1-3) by fastforce+
  then have "''-'' @ ipPort s @ ''#'' @ dec m = ''-'' @ ipPort s @ ''#'' @ dec n"
    using assms(4) by (simp add: connName_def)
  then show ?thesis by simp
qed

lemma new_name:
  assumes inv: "srv_inv w st" and n: "nextConnId (server w) < 2 ^ 31" and d: "objs w d = Some ob"
  shows "conn_name ob \<noteq> connName (server w) (nextConnId (server w))"
proof -
  obtain m where "m < nextConnId (server w)" "conn_name ob = connName (server w) m"
    using srv_invD(5) [OF inv] d unfolding names_ok_def by blast
  moreover have "length (ipPort (server w)) \<le> 21" using srv_invD(5) [OF inv] by (simp add: names_ok_def)
  ultimately show ?thesis using connName_inject [of "server w" m "nextConnId (server w)"] n by auto
qed

lemma new_name_unused:
  assumes inv: "srv_inv w st" and n: "nextConnId (server w) < 2 ^ 31"
  shows "connections (server w) (connName (server w) (nextConnId (server w))) = None"
proof (rule ccontr)
  assume "connections (server w) (connName (server w) (nextConnId (server w))) \<noteq> None"
  then obtain d where d: "connections (server w) (connName (server w) (nextConnId (server w))) = Some d" by auto
  show False
  proof (cases "objs w d")
    case None
    then show ?thesis using srv_invD(2) [OF inv None] d by (simp add: dead_ok_def)
  next
    case (Some ob)
    then show ?thesis using srv_invD(3) [OF inv Some] new_name [OF inv n Some] d by (auto simp: live_ok_def)
  qed
qed

text \<open>A new connection object, not yet established.\<close>

lemma new_object_ok:
  fixes w st f io t cb
  assumes inv: "srv_inv w st" and f: "fresh_fd w f" and n: "nextConnId (server w) < 2 ^ 31 - 1"
    and t: "TcpConnection_new (pollers w io) (next_obj w) f = Inr t"
  defines "c \<equiv> next_obj w" and "name \<equiv> connName (server w) (nextConnId (server w))"
  defines "w1 \<equiv> w\<lparr>next_obj := c + 1,
     server := (server w)\<lparr>nextConnId := nextConnId (server w) + 1, connections := (connections (server w))(name \<mapsto> c)\<rparr>, objs := (objs w)(c \<mapsto> \<lparr>conn_name = name, conn_loop = io, tcp = TcpConnection_setWriteCompleteCallback cb t\<rparr>),
     pollers := (pollers w)(io := poller t)\<rparr>"
  shows "srv_inv (enqueue w1 io (Established_fn c)) (st(c := Connecting))"
proof -
  let ?w = "enqueue w1 io (Established_fn c)"
  have dead: "dead_ok w c" "objs w c = None" "c \<noteq> acceptChannel"
    using inv srv_invD(2) [OF inv, of c] by (simp_all add: c_def srv_inv_def acceptChannel_def)
  have new: "index (chans (pollers w l) c) = kNew" for l using dead by (simp add: dead_ok_def)
  have t': "state t = kConnecting" "chan t = c"
      "poller t = set_chan (pollers w io) c ((Channel_new f)\<lparr>readCallback := True, writeCallback := True, closeCallback := True, errorCallback := True\<rparr>)"
    using t by (auto simp: TcpConnection_new_def andthen_Inr_iff c_def)
  have k: "- 1 = kNew" by (simp add: kNew_def)
  have p: "poller_inv (poller t)" "\<And>d. d \<noteq> c \<Longrightarrow> chans (poller t) d = chans (pollers w io) d"
      "index (chans (poller t) c) = kNew" "ch_fd (chans (poller t) c) = f"
    using srv_invD(1) [OF inv, of io] new [of io] unfolding t'(3) poller_inv_def set_chan_def Channel_new_def k by auto
  have names: "conn_name ob \<noteq> name" if "objs w d = Some ob" for d ob
    using new_name [OF inv _ that] n by (simp add: name_def)
  have nomap: "connections (server w) name \<noteq> Some d" for d
    using new_name_unused [OF inv] n by (simp add: name_def)
  have q1: "queued_once w1 (target (Established_fn c)) None" using dead(1) queued_cong [of w1 w] by (simp add: dead_ok_def w1_def)
  note push = queued_push [OF q1]
  have W: "objs ?w = (objs w)(c \<mapsto> \<lparr>conn_name = name, conn_loop = io, tcp = TcpConnection_setWriteCompleteCallback cb t\<rparr>)"
      "pollers ?w = (pollers w)(io := poller t)" "next_obj ?w = c + 1" "base ?w = base w"
      "connections (server ?w) = (connections (server w))(name \<mapsto> c)" "nextConnId (server ?w) = nextConnId (server w) + 1"
      "ipPort (server ?w) = ipPort (server w)" "\<And>k. connName (server ?w) k = connName (server w) k"
    by (simp_all add: enqueue_def w1_def connName_def)
  have count: "count_list (queue ?w l) g = count_list (queue w l) g" if "target g \<noteq> c" for l g
    using push(2) that by (simp add: w1_def)
  have "case objs ?w d of None \<Rightarrow> dead_ok ?w d | Some ob \<Rightarrow> live_ok ?w d ob ((st(c := Connecting)) d)" for d
  proof (cases "d = c")
    case True
    have "connections (server w) m \<noteq> Some c" for m using dead(1) by (simp add: dead_ok_def)
    then have "live_ok ?w c \<lparr>conn_name = name, conn_loop = io, tcp = TcpConnection_setWriteCompleteCallback cb t\<rparr> Connecting"
      using dead(3) t'(1,2) push(1) new p(3) W(2,5)
      by (auto simp: live_ok_def due_fn_def stage_ok_def TcpConnection_setWriteCompleteCallback_def)
    then show ?thesis using True W(1) by simp
  next
    case False
    have "case objs ?w d of None \<Rightarrow> dead_ok ?w d | Some ob \<Rightarrow> live_ok ?w d ob (st d)"
      using False W(1,2,4,5) p(2) nomap count by (intro others_ok [OF inv False]) auto
    then show ?thesis using False by (cases "objs ?w d") simp_all
  qed
  then have "conns_ok ?w (st(c := Connecting))" unfolding conns_ok_def by blast
  moreover have "poller_inv (pollers ?w l)" for l using W(2) p(1) srv_invD(1) [OF inv] by simp
  moreover have fd: "conn_fd ?w d ob = (if d = c then f else conn_fd w d ob)" if "objs ?w d = Some ob" for d ob
    using that W(1,2) p(2,4) by (auto simp: conn_fd_def split: if_splits)
  moreover have "fds_ok ?w"
  proof -
    have acc: "chans (pollers ?w (base ?w)) acceptChannel = chans (pollers w (base w)) acceptChannel"
      using W(2,4) p(2) dead(3) by auto
    have old: "objs w d = Some ob" if "objs ?w d = Some ob" "d \<noteq> c" for d ob using that W(1) by simp
    show ?thesis
      unfolding fds_ok_def acc
    proof (intro conjI allI impI)
      fix d ob assume d: "objs ?w d = Some ob"
      show "conn_fd ?w d ob \<noteq> ch_fd (chans (pollers w (base w)) acceptChannel)"
      proof (cases "d = c")
        case True
        then show ?thesis using fd [OF d] f by (simp add: fresh_fd_def)
      next
        case False
        then show ?thesis using fd [OF d] old [OF d] srv_invD(4) [OF inv] unfolding fds_ok_def by simp
      qed
    next
      fix d e ob ob' assume de: "objs ?w d = Some ob" "objs ?w e = Some ob'" "conn_fd ?w d ob = conn_fd ?w e ob'"
      have ne: "conn_fd w d ob \<noteq> f" if "objs w d = Some ob" for d ob using f that by (simp add: fresh_fd_def)
      have eq: "(if d = c then f else conn_fd w d ob) = (if e = c then f else conn_fd w e ob')"
        using de(3) fd [OF de(1)] fd [OF de(2)] by simp
      consider "d = c" "e = c" | "d \<noteq> c" "e = c" | "d = c" "e \<noteq> c" | "d \<noteq> c" "e \<noteq> c" by blast
      then show "d = e"
      proof cases
        case 4
        then show ?thesis using eq srv_invD(4) [OF inv] old [OF de(1)] old [OF de(2)] unfolding fds_ok_def by simp
      qed (use eq ne old [OF de(1)] old [OF de(2)] in auto)
    qed
  qed
  moreover have "names_ok ?w"
    unfolding names_ok_def W(7,8)
  proof (intro conjI allI impI)
    show "length (ipPort (server w)) \<le> 21" using srv_invD(5) [OF inv] by (simp add: names_ok_def)
    show "nextConnId (server ?w) < 2 ^ 31" using n W(6) by simp
  next
    fix d ob assume d: "objs ?w d = Some ob"
    show "\<exists>m < nextConnId (server ?w). conn_name ob = connName (server w) m"
    proof (cases "d = c")
      case True
      then show ?thesis using d W(1,6) by (intro exI [of _ "nextConnId (server w)"]) (auto simp: name_def)
    next
      case False
      then have "objs w d = Some ob" using d W(1) by simp
      then obtain m where "m < nextConnId (server w)" "conn_name ob = connName (server w) m"
        using srv_invD(5) [OF inv] unfolding names_ok_def by blast
      then show ?thesis using W(6) by (intro exI [of _ m]) simp
    qed
  next
    fix d e ob ob' assume de: "objs ?w d = Some ob" "objs ?w e = Some ob'" "conn_name ob = conn_name ob'"
    have new: "conn_name ob = name" if "objs ?w c = Some ob" for ob using that W(1) by auto
    have old: "objs w d = Some ob" if "objs ?w d = Some ob" "d \<noteq> c" for d ob using that W(1) by simp
    consider "d = c" "e = c" | "d \<noteq> c" "e = c" | "d = c" "e \<noteq> c" | "d \<noteq> c" "e \<noteq> c" by blast
    then show "d = e"
    proof cases
      case 2
      then show ?thesis using names [OF old [OF de(1)]] new de(2,3) by simp
    next
      case 3
      then show ?thesis using names [OF old [OF de(2)]] new de(1,3) by simp
    next
      case 4
      then show ?thesis using srv_invD(5) [OF inv] old [OF de(1)] old [OF de(2)] de(3) unfolding names_ok_def by blast
    qed simp
  qed
  ultimately show ?thesis using inv W(1,3) unfolding srv_inv_def by (simp add: c_def)
qed

lemma srv_inv_queue:
  assumes "srv_inv w st" and "\<And>l f. count_list (Q l) f = count_list (queue w l) f"
  shows "srv_inv (w\<lparr>queue := Q\<rparr>) st"
  using assms
  by (simp add: srv_inv_def conns_ok_def dead_ok_def live_ok_def queued_once_def fds_ok_def names_ok_def conn_fd_def
      cong: option.case_cong)

lemma newConnection_ok:
  assumes ctl: "epoll_ctl_spec ctl" and inv: "srv_inv w st" and f: "fresh_fd w f" and n: "nextConnId (server w) < 2 ^ 31 - 1"
    and io: "EventLoopThreadPool_getNextLoop (threadPool (server w)) (InetAddress_toIp peer) = Inr io"
    and t: "TcpConnection_new (pollers w io) (next_obj w) f = Inr t"
  shows "\<exists>w' s ob. TcpServer_newConnection ctl w f peer = Inr w' \<and> srv_inv w' (st(next_obj w := s)) \<and> objs w' (next_obj w) = Some ob \<and>
     s = (if io = base w then Up else Connecting) \<and> conn_loop ob = io \<and> conn_name ob = connName (server w) (nextConnId (server w)) \<and> conn_fd w' (next_obj w) ob = f \<and>
     connections (server w') (conn_name ob) = Some (next_obj w) \<and>
     sock_fds w' = (sock_fds w)(next_obj w \<mapsto> f) \<and> listen_fd w' = listen_fd w"
proof -
  let ?c = "next_obj w" and ?name = "connName (server w) (nextConnId (server w))"
  let ?w1 = "w\<lparr>next_obj := ?c + 1,
     server := (server w)\<lparr>nextConnId := nextConnId (server w) + 1, connections := (connections (server w))(?name \<mapsto> ?c)\<rparr>, objs := (objs w)(?c \<mapsto> \<lparr>conn_name = ?name, conn_loop = io,
       tcp = TcpConnection_setWriteCompleteCallback (srv_writeCompleteCallback (server w)) t\<rparr>),
     pollers := (pollers w)(io := poller t)\<rparr>"
  have inv1: "srv_inv (enqueue ?w1 io (Established_fn ?c)) (st(?c := Connecting))"
    by (rule new_object_ok [OF inv f n t])
  have run: "TcpServer_newConnection ctl w f peer =
      (if io = base w then run_established ctl ?w1 ?c else Inr (enqueue ?w1 io (Established_fn ?c)))"
    using io t by (simp add: TcpServer_newConnection_def Let_def store_def connName_def TcpConnection_setWriteCompleteCallback_def)
  let ?ob = "\<lparr>conn_name = ?name, conn_loop = io,
       tcp = TcpConnection_setWriteCompleteCallback (srv_writeCompleteCallback (server w)) t\<rparr>"
  have "ch_fd (channel t) = f" "chan t = ?c"
    using t by (auto simp: TcpConnection_new_def andthen_Inr_iff set_chan_def Channel_new_def)
  then have fd: "ch_fd (chans (poller t) ?c) = f" by simp
  have fds: "sock_fds ?w1 = (sock_fds w)(?c \<mapsto> f)" "listen_fd ?w1 = listen_fd w"
  proof -
    have "?c \<noteq> acceptChannel" using inv by (simp add: srv_inv_def acceptChannel_def)
    moreover have "chans (poller t) d = chans (pollers w io) d" if "d \<noteq> ?c" for d
      using t that by (auto simp: TcpConnection_new_def andthen_Inr_iff set_chan_def)
    ultimately show "sock_fds ?w1 = (sock_fds w)(?c \<mapsto> f)" "listen_fd ?w1 = listen_fd w"
      using fd by (auto simp: fun_eq_iff sock_fds_def conn_fd_def listen_fd_def option.map_comp intro!: option.map_cong)
  qed
  show ?thesis
  proof (cases "io = base w")
    case False
    then show ?thesis
      using run inv1 fd fds
      by (intro exI [of _ "enqueue ?w1 io (Established_fn ?c)"] exI [of _ Connecting] exI [of _ ?ob])
        (simp, simp add: enqueue_def conn_fd_def)
  next
    case True
    let ?w2 = "?w1\<lparr>queue := (queue w)(io := Established_fn ?c # queue w io)\<rparr>"
    have e: "?w2 = (enqueue ?w1 io (Established_fn ?c))\<lparr>queue := (queue w)(io := Established_fn ?c # queue w io)\<rparr>"
      by (simp add: enqueue_def)
    have inv2: "srv_inv ?w2 (st(?c := Connecting))"
      unfolding e by (rule srv_inv_queue [OF inv1]) (simp add: enqueue_def)
    have pop: "?w2\<lparr>queue := (queue ?w2)(io := queue w io)\<rparr> = ?w1" by simp
    from functor_ok [OF ctl inv2, of io "Established_fn ?c" "queue w io"] obtain w' s where
        w': "run_established ctl ?w1 ?c = Inr w'" "srv_inv w' ((st(?c := Connecting))(?c := s))" "s = Up"
        "sock_fds w' = sock_fds ?w2" "listen_fd w' = listen_fd ?w2"
      unfolding pop by auto
    have fds': "sock_fds w' = (sock_fds w)(?c \<mapsto> f)" "listen_fd w' = listen_fd w"
      using w'(4,5) fds by (simp_all only: enqueue_fds)
    have at: "objs ?w2 ?c = Some ?ob" by simp
    note b = load_pbase [OF inv2 at]
    have l: "load ?w2 ?ob = load ?w1 ?ob" by (simp add: load_def)
    obtain t' where t': "TcpConnection_connectEstablished ctl (load ?w1 ?ob) = Inr t'" "own (load ?w1 ?ob) t'"
      using established_life [OF ctl b(1)] unfolding l by blast
    have "w' = store ?w1 ?c ?ob t'" using w'(1) t'(1) by (simp add: run_established_def conn_at_def)
    moreover have "ch_fd (chans (poller t') ?c) = f" using t'(2) b(2) fd by (auto simp: own_def)
    ultimately have "objs w' ?c = Some (?ob\<lparr>tcp := t'\<rparr>)" "conn_fd w' ?c (?ob\<lparr>tcp := t'\<rparr>) = f"
        "connections (server w') ?name = Some ?c"
      by (simp_all add: store_def conn_fd_def)
    then show ?thesis
      using run True w'(1-3) fds' unfolding fun_upd_upd by (intro exI [of _ w'] exI [of _ s] exI [of _ "?ob\<lparr>tcp := t'\<rparr>"]) simp
  qed
qed

lemma event_ok:
  assumes ctl: "epoll_ctl_spec ctl" and msg: "message_ok onMessage" and inv: "srv_inv w st"
    and event: "objs w c = Some ob" "watched (pollers w (conn_loop ob)) c \<noteq> None" "hup_ok r"
      "run_callbacks ctl k onMessage c w (Channel_handleEvent True (chans (pollers w (conn_loop ob)) c\<lparr>revents := r\<rparr>)) = Inr w'"
  shows "(\<exists>s. srv_inv w' (st(c := s)) \<and> (s = Up \<or> s = Removing \<or> s = Destroying)) \<and> same_fds w w'"
proof -
  have live: "live_ok w c ob (st c)" by (rule srv_invD(3) [OF inv event(1)])
  have "index (chans (pollers w (conn_loop ob)) c) = kAdded"
    using event(2) watched_iff [OF srv_invD(1) [OF inv]] by (metis (no_types, lifting))
  then have up: "st c = Up" using live by (auto simp: live_ok_def stage_ok_def split: stage.splits)
  show ?thesis
    by (rule callbacks_ok [OF ctl msg inv _ _ _ event(4)]) (use event(1) up handleEvent_closing [OF event(3)] in auto)
qed

lemma server_step_inv:
  assumes "server_step ctl onMessage w w'" and ctl: "epoll_ctl_spec ctl" and msg: "message_ok onMessage" and inv: "srv_inv w st"
  shows "\<exists>st'. srv_inv w' st'"
  using assms(1)
proof cases
  case (accepted f peer)
  show ?thesis
  proof (cases "newConnectionCallback (acceptor (server w))")
    case True
    then have run: "TcpServer_newConnection ctl w f peer = Inr w'"
      using accepted by (simp add: Acceptor_handleRead_def Socket_accept_def fresh_fd_def)
    then obtain io t where "EventLoopThreadPool_getNextLoop (threadPool (server w)) (InetAddress_toIp peer) = Inr io"
        "TcpConnection_new (pollers w io) (next_obj w) f = Inr t"
      unfolding TcpServer_newConnection_def Let_def andthen_Inr_iff by auto
    from newConnection_ok [OF ctl inv accepted(1,2) this] show ?thesis using run by auto
  next
    case False
    then show ?thesis using accepted inv by (auto simp: Acceptor_handleRead_def Socket_accept_def fresh_fd_def)
  qed
next
  case (not_accepted err)
  then show ?thesis using inv by (auto simp: Acceptor_handleRead_def Socket_accept_def)
next
  case (called l f fs)
  then show ?thesis using functor_ok [OF ctl inv called(1)] by auto
next
  case (event c ob r k)
  show ?thesis using event_ok [OF ctl msg inv event] by blast
qed

section \<open>A running server\<close>

text \<open>The server as a program sets it up: constructed, given a number of threads, started; here every call of the set-up succeeds.\<close>

definition server_up :: "epoll_ctl_call \<Rightarrow> (string \<Rightarrow> size_t) \<Rightarrow> (nat \<Rightarrow> loop) \<Rightarrow> loop \<Rightarrow> int \<Rightarrow> InetAddress \<Rightarrow> string \<Rightarrow> int \<Rightarrow> world result" where
  "server_up ctl hashFunc new_loop l s addr name n =
     andthen (TcpServer_new hashFunc s True (Some l) addr name False) (\<lambda>w.
     TcpServer_start ctl (\<lambda>i. Inr (new_loop i)) False True (TcpServer_setThreadNum w n))"

lemma new_poller_inv: "poller_inv (EPollPoller_new (\<lambda>_. Channel_new f))"
  by (simp add: poller_inv_def EPollPoller_new_def Channel_new_def kNew_def kAdded_def)

lemma server_up_ok:
  assumes ctl: "epoll_ctl_spec ctl" and s: "0 \<le> s"
  shows "\<exists>w. server_up ctl hashFunc new_loop l s addr name n = Inr w \<and> srv_inv w (\<lambda>_. Gone) \<and>
     threadPool (server w) = started_pool hashFunc new_loop l name n \<and> newConnectionCallback (acceptor (server w)) \<and>
     base w = l \<and> nextConnId (server w) = 1 \<and> objs w = Map.empty \<and>
     ch_fd (chans (pollers w l) acceptChannel) = s \<and> watched (pollers w l) acceptChannel = Some kReadEvent"
proof -
  obtain ip where ip: "InetAddress_toIpPort addr = Inr ip" "length ip \<le> 21" using toIpPort_bound by blast
  let ?pnew = "EPollPoller_new (\<lambda>_. Channel_new (- 1))"
  let ?p = "set_chan ?pnew acceptChannel ((Channel_new s)\<lparr>readCallback := True\<rparr>)"
  have k: "- 1 = kNew" by (simp add: kNew_def)
  have p: "poller_inv ?p" "usable ?p acceptChannel" "events (chans ?p acceptChannel) = 0"
    using new_poller_inv [of "- 1"]
    by (auto simp: poller_inv_def usable_def set_chan_def EPollPoller_new_def Channel_new_def k)
  let ?q = "with_reg ?p acceptChannel kReadEvent kAdded"
  have en: "Channel_enableReading ctl ?p acceptChannel = Inr ?q"
    using set_events_eq [OF ctl p(1,2), of "0 OR kReadEvent"] p(3) by (simp add: Channel_enableReading_def mask_simps)
  have q: "poller_inv ?q" "watched ?q acceptChannel = Some kReadEvent" "ch_fd (chans ?q acceptChannel) = s"
      "\<And>c. c \<noteq> acceptChannel \<Longrightarrow> index (chans ?q c) = kNew"
    using with_reg_inv [OF p(1,2), of kAdded] with_reg_view(1) [OF p(1,2), of kAdded]
    by (simp_all add: set_chan_def Channel_new_def EPollPoller_new_def k)
  have "\<exists>w. server_up ctl hashFunc new_loop l s addr name n = Inr w \<and> objs w = Map.empty \<and> queue w = (\<lambda>_. []) \<and>
      pollers w = (\<lambda>_. ?pnew)(l := ?q) \<and> next_obj w = 1 \<and> base w = l \<and> ipPort (server w) = ip \<and> nextConnId (server w) = 1 \<and>
      connections (server w) = Map.empty \<and> newConnectionCallback (acceptor (server w)) \<and>
      threadPool (server w) = started_pool hashFunc new_loop l name n"
    using s ip(1) en
    by (simp add: server_up_def TcpServer_new_def Acceptor_new_def createNonblocking_def Socket_bindAddress_def
        TcpServer_start_def TcpServer_setThreadNum_def Acceptor_listen_def Socket_listen_def Let_def
        Acceptor_setNewConnectionCallback_def pool_start_eq [where new_loop = new_loop])
  then obtain w where w: "server_up ctl hashFunc new_loop l s addr name n = Inr w" "objs w = Map.empty" "queue w = (\<lambda>_. [])"
      "pollers w = (\<lambda>_. ?pnew)(l := ?q)" "next_obj w = 1" "base w = l" "ipPort (server w) = ip" "nextConnId (server w) = 1"
      "connections (server w) = Map.empty" "newConnectionCallback (acceptor (server w))"
      "threadPool (server w) = started_pool hashFunc new_loop l name n" by blast
  have "index (chans ?pnew c) = kNew" for c by (simp add: EPollPoller_new_def Channel_new_def k)
  then have "dead_ok w c" for c using w(3,4,6,9) q(4) by (auto simp: dead_ok_def queued_once_def)
  then have "srv_inv w (\<lambda>_. Gone)"
    using w(2,4,5,7,8) q(1) new_poller_inv ip(2) by (simp add: srv_inv_def conns_ok_def fds_ok_def names_ok_def)
  then show ?thesis using w q(2,3) by auto
qed

text \<open>The acceptor and the thread pool of a running server do not change.\<close>

definition same_pool :: "world \<Rightarrow> world \<Rightarrow> bool" where
  "same_pool w w' \<longleftrightarrow> threadPool (server w') = threadPool (server w) \<and> acceptor (server w') = acceptor (server w) \<and> base w' = base w"

lemma functor_same_pool: "run_functor ctl w f = Inr w' \<Longrightarrow> same_pool w w'"
  by (cases f) (auto simp: run_established_def run_destroyed_def TcpServer_removeConnectionInLoop_def andthen_Inr_iff
      same_pool_def store_def enqueue_def Let_def)

lemma callbacks_same_pool: "run_callbacks ctl k onMessage c w cbs = Inr w' \<Longrightarrow> same_pool w w'"
proof (induction cbs arbitrary: w)
  case (Cons cb cbs)
  then obtain w1 where w1: "run_callback ctl k onMessage c w cb = Inr w1" "same_pool w1 w'" by (auto simp: andthen_Inr_iff)
  have "same_pool w w1"
    using w1(1) by (auto simp: run_callback_def TcpServer_removeConnection_def TcpServer_removeConnectionInLoop_def
      andthen_Inr_iff same_pool_def store_def enqueue_def Let_def split: if_splits)
  then show ?case using w1(2) by (simp add: same_pool_def)
qed (simp add: same_pool_def)

lemma newConnection_same_pool: "TcpServer_newConnection ctl w f peer = Inr w' \<Longrightarrow> same_pool w w'"
  by (auto simp: TcpServer_newConnection_def run_established_def andthen_Inr_iff same_pool_def store_def enqueue_def Let_def
      split: if_splits)

lemma step_same_pool:
  assumes "server_step ctl onMessage w w'"
  shows "same_pool w w'"
  using assms
proof cases
  case (accepted f peer)
  then show ?thesis
    using newConnection_same_pool [of ctl w f peer w']
    by (auto simp: Acceptor_handleRead_def Socket_accept_def same_pool_def split: if_splits)
next
  case (not_accepted err)
  then show ?thesis by (auto simp: Acceptor_handleRead_def Socket_accept_def same_pool_def)
next
  case (called l f fs)
  then show ?thesis using functor_same_pool [OF called(2)] by (simp add: same_pool_def)
next
  case (event c ob r k)
  then show ?thesis using callbacks_same_pool [OF event(4)] by simp
qed

lemma reach_inv:
  assumes "server_reach ctl onMessage w0 w" and ctl: "epoll_ctl_spec ctl" and msg: "message_ok onMessage" and inv: "srv_inv w0 st0"
  shows "(\<exists>st. srv_inv w st) \<and> same_pool w0 w"
  using assms(1)
proof induction
  case start
  then show ?case using inv by (auto simp: same_pool_def)
next
  case (step w w')
  then show ?case using server_step_inv [OF step(2) ctl msg] step_same_pool [OF step(2)] by (auto simp: same_pool_def)
qed

lemma up_reach_inv:
  assumes "epoll_ctl_spec ctl" and "message_ok onMessage" and "server_up ctl hashFunc new_loop l s addr name n = Inr w0"
    and "0 \<le> s" and "server_reach ctl onMessage w0 w"
  obtains st where "srv_inv w st" and "threadPool (server w) = started_pool hashFunc new_loop l name n"
    and "newConnectionCallback (acceptor (server w))" and "base w = l"
  using server_up_ok [OF assms(1,4), of hashFunc new_loop l addr name n] assms(3) reach_inv [OF assms(5,1,2), of "\<lambda>_. Gone"]
  by (auto simp: same_pool_def)

section \<open>Properties\<close>

text \<open>
  C3. The life of a connection, in every state that a running server can reach. A connection that was accepted
  is in the server's map and waits for exactly one functor, in its own loop, to be established; while it is
  up it is in the map, its poller watches it for input, and no functor is queued for it; once it is
  closed its poller does not watch it, and exactly one functor is queued for it: either, with the connection still in the map, to
  remove it in the base loop, or, out of the map, to destroy it in its own loop. An object that is gone
  is in no map, in no queue and in no poller. So no object is used after its end, and none is leaked.
\<close>

theorem TcpServer_connection_life:
  assumes "epoll_ctl_spec ctl" and "message_ok onMessage" and "server_up ctl hashFunc new_loop l s addr name n = Inr w0"
    and "0 \<le> s" and "server_reach ctl onMessage w0 w"
  shows "case objs w c of
      None \<Rightarrow> (\<forall>m. connections (server w) m \<noteq> Some c) \<and> (\<forall>k f. f \<in> set (queue w k) \<longrightarrow> target f \<noteq> c) \<and>
        (c \<noteq> acceptChannel \<longrightarrow> (\<forall>k. \<not> Poller_hasChannel (pollers w k) c))
    | Some ob \<Rightarrow>
        (case state (tcp ob) of
          kConnecting \<Rightarrow> connections (server w) (conn_name ob) = Some c \<and>
            queued_once w c (Some (conn_loop ob, Established_fn c)) \<and> \<not> Poller_hasChannel (pollers w (conn_loop ob)) c
        | kDisconnected \<Rightarrow> watched (pollers w (conn_loop ob)) c = None \<and>
            (connections (server w) (conn_name ob) = Some c \<and> queued_once w c (Some (base w, Remove_fn c)) \<or>
             (\<forall>m. connections (server w) m \<noteq> Some c) \<and> queued_once w c (Some (conn_loop ob, Destroyed_fn c)))
        | _ \<Rightarrow> connections (server w) (conn_name ob) = Some c \<and> queued_once w c None \<and>
            (\<exists>ev. watched (pollers w (conn_loop ob)) c = Some ev \<and> ev AND kReadEvent \<noteq> 0))"
proof -
  obtain st where inv: "srv_inv w st" by (rule up_reach_inv [OF assms])
  note has = hasChannel_iff [OF srv_invD(1) [OF inv]] and wt = watched_iff [OF srv_invD(1) [OF inv]]
  show ?thesis
  proof (cases "objs w c")
    case None
    then have "dead_ok w c" by (rule srv_invD(2) [OF inv])
    then have d: "queued_once w c None" "\<forall>m. connections (server w) m \<noteq> Some c"
        "\<forall>k. c \<noteq> acceptChannel \<longrightarrow> index (chans (pollers w k) c) = kNew" by (simp_all add: dead_ok_def)
    have "target f \<noteq> c" if "f \<in> set (queue w k)" for f k
      using d(1) that by (auto simp: queued_once_def count_list_0_iff)
    then show ?thesis using None d(2,3) has by auto
  next
    case (Some ob)
    then have live: "live_ok w c ob (st c)" by (rule srv_invD(3) [OF inv])
    show ?thesis
      using live Some has wt
      by (cases "st c") (auto simp: live_ok_def stage_ok_def due_fn_def Channel_isReading_def)
  qed
qed

text \<open>
  Whatever functor a loop of a running server is about to call, the call returns, and it takes the
  connection to its next stage: established connections are watched for input, removed ones are out of the map with
  their destruction queued in their own loop, and destroyed ones are gone from every poller.
\<close>

theorem TcpServer_functors_advance:
  assumes "epoll_ctl_spec ctl" and "message_ok onMessage" and "server_up ctl hashFunc new_loop l s addr name n = Inr w0"
    and "0 \<le> s" and "server_reach ctl onMessage w0 w" and "queue w k = f # fs"
  shows "\<exists>w'. run_functor ctl (w\<lparr>queue := (queue w)(k := fs)\<rparr>) f = Inr w' \<and>
     (case f of
        Established_fn c \<Rightarrow> \<exists>ob ev. objs w' c = Some ob \<and> watched (pollers w' (conn_loop ob)) c = Some ev \<and> ev AND kReadEvent \<noteq> 0
      | Remove_fn c \<Rightarrow> (\<forall>m. connections (server w') m \<noteq> Some c) \<and>
          (\<exists>ob. objs w' c = Some ob \<and> Destroyed_fn c \<in> set (queue w' (conn_loop ob)))
      | Destroyed_fn c \<Rightarrow> objs w' c = None \<and> (\<forall>j. \<not> Poller_hasChannel (pollers w' j) c))"
proof -
  obtain st where inv: "srv_inv w st" by (rule up_reach_inv [OF assms(1-5)])
  obtain w' s where w': "run_functor ctl (w\<lparr>queue := (queue w)(k := fs)\<rparr>) f = Inr w'" "srv_inv w' (st(target f := s))"
      "case f of Established_fn _ \<Rightarrow> s = Up \<and> objs w' (target f) \<noteq> None
       | Remove_fn _ \<Rightarrow> s = Destroying \<and> objs w' (target f) \<noteq> None
       | Destroyed_fn _ \<Rightarrow> s = Gone \<and> objs w' (target f) = None"
    using functor_ok [OF assms(1) inv assms(6)] by blast
  note has = hasChannel_iff [OF srv_invD(1) [OF w'(2)]] and wt = watched_iff [OF srv_invD(1) [OF w'(2)]]
  obtain ob0 where "objs w (target f) = Some ob0" using due_of_queued [OF inv, of f k] assms(6) by auto
  then have tgt: "target f \<noteq> acceptChannel" using srv_invD(3) [OF inv] by (auto simp: live_ok_def)
  show ?thesis
  proof (cases f)
    case (Established_fn c)
    then obtain ob where "objs w' c = Some ob" "live_ok w' c ob Up" using w'(3) srv_invD(3) [OF w'(2), of c] by auto
    then show ?thesis using Established_fn w'(1) wt by (auto simp: live_ok_def stage_ok_def Channel_isReading_def)
  next
    case (Remove_fn c)
    then obtain ob where ob: "objs w' c = Some ob" "live_ok w' c ob Destroying" using w'(3) srv_invD(3) [OF w'(2), of c] by auto
    then have "count_list (queue w' (conn_loop ob)) (Destroyed_fn c) = 1" by (simp add: live_ok_def due_fn_def queued_once_def)
    then have "Destroyed_fn c \<in> set (queue w' (conn_loop ob))" by (metis count_notin zero_neq_one)
    then show ?thesis using Remove_fn w'(1) ob by (auto simp: live_ok_def)
  next
    case (Destroyed_fn c)
    then have "objs w' c = None" "dead_ok w' c" using w'(3) srv_invD(2) [OF w'(2), of c] by auto
    then show ?thesis using Destroyed_fn w'(1) has tgt by (auto simp: dead_ok_def)
  qed
qed

text \<open>
  C23. What happens to a connection that the kernel has accepted. A server with at least one thread creates
  a connection object for the descriptor, in the base loop or in the loop of one of its threads, and enters it in
  its map under a new name. A server that was given no threads, which is the default, throws instead.
\<close>

theorem TcpServer_accept_outcome:
  assumes "epoll_ctl_spec ctl" and "message_ok onMessage" and "server_up ctl hashFunc new_loop l s addr name n = Inr w0"
    and "0 \<le> s" and "server_reach ctl onMessage w0 w" and "fresh_fd w f" and "nextConnId (server w) < 2 ^ 31 - 1"
  shows "if 0 < n
     then \<exists>w' ob. Acceptor_handleRead ctl (Inr (f, peer)) w = Inr w' \<and> objs w' (next_obj w) = Some ob \<and>
       conn_loop ob \<in> set (l # map new_loop [0..<nat n]) \<and> conn_fd w' (next_obj w) ob = f \<and>
       connections (server w') (conn_name ob) = Some (next_obj w) \<and> connections (server w) (conn_name ob) = None
     else Acceptor_handleRead ctl (Inr (f, peer)) w = Inl (Runtime_error ''No nodes in consistent hash'')"
proof -
  obtain st where inv: "srv_inv w st" and pool: "threadPool (server w) = started_pool hashFunc new_loop l name n"
      and cb: "newConnectionCallback (acceptor (server w))"
    by (rule up_reach_inv [OF assms(1-5)])
  have run: "Acceptor_handleRead ctl (Inr (f, peer)) w = TcpServer_newConnection ctl w f peer"
    using cb assms(6) by (simp add: Acceptor_handleRead_def Socket_accept_def fresh_fd_def)
  show ?thesis
  proof (cases "0 < n")
    case True
    obtain io where io: "EventLoopThreadPool_getNextLoop (threadPool (server w)) (InetAddress_toIp peer) = Inr io"
        "io \<in> set (l # map new_loop [0..<nat n])"
      using started_nextLoop [OF True, of l new_loop hashFunc name "InetAddress_toIp peer"] unfolding pool by blast
    obtain b where "Buffer_new kInitialSize = Inr b" using Buffer_new_wf [OF kInitialSize_room] by blast
    then obtain t where t: "TcpConnection_new (pollers w io) (next_obj w) f = Inr t" by (simp add: TcpConnection_new_def)
    obtain w' ob where w': "TcpServer_newConnection ctl w f peer = Inr w'" "objs w' (next_obj w) = Some ob" "conn_loop ob = io"
        "conn_name ob = connName (server w) (nextConnId (server w))" "conn_fd w' (next_obj w) ob = f"
        "connections (server w') (conn_name ob) = Some (next_obj w)"
      using newConnection_ok [OF assms(1) inv assms(6,7) io(1) t] by blast
    have "connections (server w) (conn_name ob) = None"
      using new_name_unused [OF inv] assms(7) w'(4) by simp
    then show ?thesis using run w' io(2) True by auto
  next
    case False
    then have "EventLoopThreadPool_getNextLoop (threadPool (server w)) (InetAddress_toIp peer) =
        Inl (Runtime_error ''No nodes in consistent hash'')"
      unfolding pool by (intro empty_nextLoop) simp
    then show ?thesis using run False by (simp add: TcpServer_newConnection_def)
  qed
qed

section \<open>Witnesses\<close>

definition localhost :: InetAddress where
  "localhost = \<lparr>sin_family = AF_INET, sin_port = htons 8080, s_addr = 0x0100007F\<rparr>"

lemma message_ok_none: "message_ok Inr"
  by (simp add: message_ok_def own_def pbase_def)

text \<open>A server with one thread that has accepted one connection.\<close>

lemma example_server:
  assumes io: "EventLoopThreadPool_getNextLoop (started_pool h (\<lambda>i. 100 + i) 7 ''srv'' 1) (InetAddress_toIp localhost) = Inr io"
  shows "\<exists>w0 w ob. server_up kernel_ctl h (\<lambda>i. 100 + i) 7 3 localhost ''srv'' 1 = Inr w0 \<and>
     server_reach kernel_ctl Inr w0 w \<and> objs w 1 = Some ob \<and> next_obj w0 = 1 \<and> fresh_fd w0 9 \<and> nextConnId (server w0) = 1 \<and>
     live_ok w 1 ob (if io = 7 then Up else Connecting)"
proof -
  obtain w0 where w0: "server_up kernel_ctl h (\<lambda>i. 100 + i) 7 3 localhost ''srv'' 1 = Inr w0" "srv_inv w0 (\<lambda>_. Gone)"
      "threadPool (server w0) = started_pool h (\<lambda>i. 100 + i) 7 ''srv'' 1" "newConnectionCallback (acceptor (server w0))"
      "base w0 = 7" "nextConnId (server w0) = 1" "objs w0 = Map.empty" "ch_fd (chans (pollers w0 7) acceptChannel) = 3"
    using server_up_ok [OF kernel_ctl_spec, of 3 h "\<lambda>i. 100 + i" 7 localhost "''srv''" 1] by auto
  obtain ip where ip: "InetAddress_toIpPort localhost = Inr ip" using toIpPort_bound by blast
  then have next_obj: "next_obj w0 = 1" using w0(1)
    by (auto simp: server_up_def TcpServer_new_def TcpServer_start_def TcpServer_setThreadNum_def Let_def andthen_Inr_iff)
  have fresh: "fresh_fd w0 9" using w0(5,7,8) by (simp add: fresh_fd_def)
  obtain b where "Buffer_new kInitialSize = Inr b" using Buffer_new_wf [OF kInitialSize_room] by blast
  then obtain t where t: "TcpConnection_new (pollers w0 io) (next_obj w0) 9 = Inr t" by (simp add: TcpConnection_new_def)
  have n: "nextConnId (server w0) < 2 ^ 31 - 1" using w0(6) by simp
  from newConnection_ok [OF kernel_ctl_spec w0(2) fresh n io [folded w0(3)] t] next_obj w0(5) obtain w ob where
      w: "TcpServer_newConnection kernel_ctl w0 9 localhost = Inr w" "objs w 1 = Some ob"
      "srv_inv w ((\<lambda>_. Gone)(1 := (if io = 7 then Up else Connecting)))"
    by auto
  have live: "live_ok w 1 ob (if io = 7 then Up else Connecting)" using srv_invD(3) [OF w(3,2)] by simp
  have acc: "Acceptor_handleRead kernel_ctl (Inr (9, localhost)) w0 = Inr w"
    using w(1) w0(4) by (simp add: Acceptor_handleRead_def Socket_accept_def)
  from server_step.accepted [OF fresh n acc] have "server_step kernel_ctl Inr w0 w" .
  from server_reach.step [OF server_reach.start this] have "server_reach kernel_ctl Inr w0 w" .
  then show ?thesis
    using w0(1,6) w(2) live next_obj fresh by (intro exI [of _ w0] exI [of _ w] exI [of _ ob]) simp
qed

text \<open>With a hash whose values are small numbers the thread's loop takes the connection.\<close>

lemma zero_hash_loop:
  "EventLoopThreadPool_getNextLoop (started_pool (\<lambda>_. 0) new_loop l name 1) key = Inr (new_loop 0)"
proof -
  let ?p = "started_pool (\<lambda>_. 0) new_loop l name 1"
  have one: "[0..<nat 1] = [0]" by (simp add: upt_rec)
  have ring: "set (sortedHashes (hash_ring ?p)) = {0}" by (simp add: one started_pool_eq addNode_eq replicas_3)
  have "ConsistentHash_getNode (hash_ring ?p) key = Inr (successor {0} 0)"
    using started_getNode [of 1 "\<lambda>_. 0" new_loop l name key] unfolding ring by simp
  moreover have "successor {0} 0 \<in> {0 :: size_t}" by (intro successor_in) simp_all
  ultimately show ?thesis by (simp add: EventLoopThreadPool_getNextLoop_def started_pool_eq one)
qed

lemma example_server_0:
  "\<exists>w0 w ob. server_up kernel_ctl (\<lambda>_. 0) (\<lambda>i. 100 + i) 7 3 localhost ''srv'' 1 = Inr w0 \<and>
     server_reach kernel_ctl Inr w0 w \<and> objs w 1 = Some ob \<and> next_obj w0 = 1 \<and> fresh_fd w0 9 \<and> nextConnId (server w0) = 1 \<and>
     live_ok w 1 ob Connecting"
  using example_server [OF zero_hash_loop] by simp

theorem TcpServer_connection_life_witness:
  "\<exists>w0 w ob. server_up kernel_ctl (\<lambda>_. 0) (\<lambda>i. 100 + i) 7 3 localhost ''srv'' 1 = Inr w0 \<and>
     server_reach kernel_ctl Inr w0 w \<and> objs w 1 = Some ob \<and> connections (server w) (conn_name ob) = Some 1 \<and>
     queued_once w 1 (Some (conn_loop ob, Established_fn 1))"
proof -
  obtain w0 w ob where w: "server_up kernel_ctl (\<lambda>_. 0) (\<lambda>i. 100 + i) 7 3 localhost ''srv'' 1 = Inr w0"
      "server_reach kernel_ctl Inr w0 w" "objs w 1 = Some ob" "live_ok w 1 ob Connecting"
    using example_server_0 by blast
  have "state (tcp ob) = kConnecting" using w(4) by (simp add: live_ok_def stage_ok_def)
  then have "connections (server w) (conn_name ob) = Some 1 \<and> queued_once w 1 (Some (conn_loop ob, Established_fn 1))"
    using TcpServer_connection_life [OF kernel_ctl_spec message_ok_none w(1) _ w(2), of 1] w(3) by simp
  then show ?thesis using w(1-3) by blast
qed

theorem TcpServer_functors_advance_witness:
  "\<exists>w0 w k f fs w'. server_up kernel_ctl (\<lambda>_. 0) (\<lambda>i. 100 + i) 7 3 localhost ''srv'' 1 = Inr w0 \<and>
     server_reach kernel_ctl Inr w0 w \<and> queue w k = f # fs \<and> run_functor kernel_ctl (w\<lparr>queue := (queue w)(k := fs)\<rparr>) f = Inr w'"
proof -
  obtain w0 w ob where w: "server_up kernel_ctl (\<lambda>_. 0) (\<lambda>i. 100 + i) 7 3 localhost ''srv'' 1 = Inr w0"
      "server_reach kernel_ctl Inr w0 w" "live_ok w 1 ob Connecting"
    using example_server_0 by blast
  have "count_list (queue w (conn_loop ob)) (Established_fn 1) = 1" using w(3) by (simp add: live_ok_def due_fn_def queued_once_def)
  then obtain f fs where q: "queue w (conn_loop ob) = f # fs" by (cases "queue w (conn_loop ob)") auto
  have "\<exists>w'. run_functor kernel_ctl (w\<lparr>queue := (queue w)(conn_loop ob := fs)\<rparr>) f = Inr w'"
    using TcpServer_functors_advance [OF kernel_ctl_spec message_ok_none w(1) _ w(2) q] by auto
  then show ?thesis using w(1,2) q by blast
qed

theorem TcpServer_accept_outcome_witness:
  "\<exists>w0 w' ob. server_up kernel_ctl (\<lambda>_. 0) (\<lambda>i. 100 + i) 7 3 localhost ''srv'' 1 = Inr w0 \<and>
     Acceptor_handleRead kernel_ctl (Inr (9, localhost)) w0 = Inr w' \<and> objs w' 1 = Some ob \<and> conn_fd w' 1 ob = 9"
proof -
  obtain w0 where w: "server_up kernel_ctl (\<lambda>_. 0) (\<lambda>i. 100 + i) 7 3 localhost ''srv'' 1 = Inr w0" "next_obj w0 = 1"
      "fresh_fd w0 9" "nextConnId (server w0) = 1"
    using example_server_0 by blast
  have n: "nextConnId (server w0) < 2 ^ 31 - 1" using w(4) by simp
  from TcpServer_accept_outcome [OF kernel_ctl_spec message_ok_none w(1) _ server_reach.start w(3) n, of localhost] w(2)
  have "\<exists>w' ob. Acceptor_handleRead kernel_ctl (Inr (9, localhost)) w0 = Inr w' \<and> objs w' 1 = Some ob \<and> conn_fd w' 1 ob = 9"
    by auto
  then show ?thesis using w(1) by blast
qed

end
