(* ===== verification/Net_EchoServer.thy ===== *)
theory Net_EchoServer
  imports Net_TcpServer
begin

unbundle bit_operations_syntax

text \<open>
  The program itself (\<open>src/main.cc\<close>): the class \<open>EchoServer\<close>, which sets up a \<open>TcpServer\<close> with three threads and
  answers every message with its own bytes. The callbacks run in the thread of the connection's loop.
\<close>

definition EchoServer_new :: "(string \<Rightarrow> size_t) \<Rightarrow> int \<Rightarrow> bool \<Rightarrow> loop option \<Rightarrow> InetAddress \<Rightarrow> string \<Rightarrow> world result" where
  "EchoServer_new hashFunc s bind_ok lp addr name =
     andthen (TcpServer_new hashFunc s bind_ok lp addr name False) (\<lambda>w. Inr (TcpServer_setThreadNum w 3))"

definition EchoServer_start :: "epoll_ctl_call \<Rightarrow> (nat \<Rightarrow> loop result) \<Rightarrow> bool \<Rightarrow> world \<Rightarrow> world result" where
  "EchoServer_start ctl new_loop listen_ok w = TcpServer_start ctl new_loop False listen_ok w"

text \<open>The line that \<open>onConnection\<close> logs.\<close>

definition EchoServer_onConnection :: "TcpConnection \<Rightarrow> InetAddress \<Rightarrow> string result" where
  "EchoServer_onConnection t peer =
     andthen (InetAddress_toIpPort peer) (\<lambda>addr.
     Inr ((if state t = kConnected then ''Connection UP :'' else ''Connection DOWN :'') @ addr))"

definition EchoServer_onMessage :: "epoll_ctl_call \<Rightarrow> write_call \<Rightarrow> TcpConnection \<Rightarrow> TcpConnection result" where
  "EchoServer_onMessage ctl write t =
     andthen (Buffer_retrieveAllAsString (inputBuffer t)) (\<lambda>(msg, ib).
     TcpConnection_send ctl write True (t\<lparr>inputBuffer := ib\<rparr>) msg)"

text \<open>The callback is one that the server may be given.\<close>

lemma onMessage_ok:
  assumes ctl: "epoll_ctl_spec ctl"
  shows "message_ok (EchoServer_onMessage ctl write)"
  unfolding message_ok_def
proof (intro allI impI)
  fix t t' assume b: "pbase t" and up: "up t" and r: "registered t" and run: "EchoServer_onMessage ctl write t = Inr t'"
  obtain msg ib where s: "TcpConnection_send ctl write True (t\<lparr>inputBuffer := ib\<rparr>) msg = Inr t'"
    using run by (auto simp: EchoServer_onMessage_def andthen_Inr_iff)
  have "pbase (t\<lparr>inputBuffer := ib\<rparr>)" "registered (t\<lparr>inputBuffer := ib\<rparr>)" using b r by (simp_all add: pbase_def registered_def)
  from send_life [OF ctl this s] show "own t t' \<and> up t' \<and> registered t'" using up by (auto simp: own_def up_def)
qed

section \<open>The echo\<close>

text \<open>The vectors that \<open>readFd\<close> offers to \<open>readv\<close>.\<close>

definition read_lens :: "Buffer \<Rightarrow> size_t list" where
  "read_lens b = (if Buffer_writableBytes b < 65536 then [Buffer_writableBytes b, 65536] else [Buffer_writableBytes b])"

text \<open>
  A connection of the echo server together with all bytes that were received on it: it is established, receives
  bytes, may write, sees errors, and is closed.
\<close>

inductive echo_reach :: "epoll_ctl_call \<Rightarrow> TcpConnection \<Rightarrow> byte list \<Rightarrow> bool" for ctl where
  established: "poller_inv p \<Longrightarrow> index (chans p c) = kNew \<Longrightarrow> channels p fdn = None \<Longrightarrow>
    TcpConnection_new p c fdn = Inr t \<Longrightarrow> TcpConnection_connectEstablished ctl (TcpConnection_setWriteCompleteCallback False t) = Inr t' \<Longrightarrow>
    echo_reach ctl t' []"
| message: "echo_reach ctl t received \<Longrightarrow> state t = kConnected \<Longrightarrow> readv_spec readv \<Longrightarrow> write_spec write \<Longrightarrow> no_reset write \<Longrightarrow>
    readv (ch_fd (channel t)) (read_lens (inputBuffer t)) = Inr bytes \<Longrightarrow> bytes \<noteq> [] \<Longrightarrow>
    length (buffer (inputBuffer t)) + 65536 \<le> vec_max \<Longrightarrow> Buffer_room (outputBuffer t) (length bytes) \<Longrightarrow>
    TcpConnection_handleRead ctl readv t = Inr t1 \<Longrightarrow> EchoServer_onMessage ctl write t1 = Inr t2 \<Longrightarrow>
    echo_reach ctl t2 (received @ bytes)"
| writable: "echo_reach ctl t received \<Longrightarrow> write_spec write \<Longrightarrow>
    TcpConnection_handleWrite ctl write t = Inr t' \<Longrightarrow> echo_reach ctl t' received"
| failed: "echo_reach ctl t received \<Longrightarrow> echo_reach ctl (TcpConnection_handleError t) received"
| closed: "echo_reach ctl t received \<Longrightarrow> TcpConnection_handleClose ctl t = Inr t' \<Longrightarrow> echo_reach ctl t' received"

definition echo_inv :: "TcpConnection \<Rightarrow> byte list \<Rightarrow> bool" where
  "echo_inv t received \<longleftrightarrow> conn_inv t received \<and> Buffer_contents (inputBuffer t) = []"

lemma on_channel_input: "on_channel f t = Inr t' \<Longrightarrow> inputBuffer t' = inputBuffer t"
  by (auto simp: on_channel_def andthen_Inr_iff)

lemma handleWrite_input: "TcpConnection_handleWrite ctl write t = Inr t' \<Longrightarrow> inputBuffer t' = inputBuffer t"
  by (auto simp: TcpConnection_handleWrite_def Let_def andthen_Inr_iff TcpConnection_shutdownInLoop_def
      split: if_splits prod.splits dest!: on_channel_input)

lemma handleClose_input: "TcpConnection_handleClose ctl t = Inr t' \<Longrightarrow> inputBuffer t' = inputBuffer t"
  by (auto simp: TcpConnection_handleClose_def andthen_Inr_iff setState_def dest!: on_channel_input)

lemma send_rest_input: "send_rest ctl t bs = Inr t' \<Longrightarrow> inputBuffer t' = inputBuffer t"
  by (auto simp: send_rest_def Let_def andthen_Inr_iff split: if_splits dest!: on_channel_input)

lemma send_input: "TcpConnection_send ctl write True t bs = Inr t' \<Longrightarrow> inputBuffer t' = inputBuffer t"
  by (auto simp: TcpConnection_send_def TcpConnection_sendInLoop_def send_direct_def Let_def
      split: if_splits sum.splits dest!: send_rest_input)

lemma message_step:
  assumes ctl: "epoll_ctl_spec ctl" and inv: "echo_inv t received" and st: "state t = kConnected" and rv: "readv_spec readv"
    and w: "write_spec write" "no_reset write" and rd: "readv (ch_fd (channel t)) (read_lens (inputBuffer t)) = Inr bytes"
    and ne: "bytes \<noteq> []" and room: "length (buffer (inputBuffer t)) + 65536 \<le> vec_max" "Buffer_room (outputBuffer t) (length bytes)"
  shows "\<exists>t1 t2. TcpConnection_handleRead ctl readv t = Inr t1 \<and> EchoServer_onMessage ctl write t1 = Inr t2 \<and>
     echo_inv t2 (received @ bytes)"
proof -
  have ci: "conn_inv t received" and empty: "Buffer_contents (inputBuffer t) = []" and wf: "Buffer_wf (inputBuffer t)"
    using inv by (simp_all add: echo_inv_def conn_inv_def conn_base_def)
  obtain ib where ib: "Buffer_readFd readv (ch_fd (channel t)) (inputBuffer t) = Inr (int (length bytes), None, ib)"
      "Buffer_wf ib" "Buffer_contents ib = bytes"
    using readFd_spec [OF wf rv room(1), of "ch_fd (channel t)"] rd empty unfolding read_lens_def by auto
  let ?t1 = "emit MessageCallback (t\<lparr>inputBuffer := ib\<rparr>)"
  have t1: "TcpConnection_handleRead ctl readv t = Inr ?t1"
    using ib(1) ne by (simp add: TcpConnection_handleRead_def Let_def)
  obtain ib' where ib': "Buffer_retrieveAllAsString ib = Inr (bytes, ib')" "Buffer_wf ib'" "Buffer_contents ib' = []"
    using retrieveAllAsString_ok [OF ib(2)] ib(3) by auto
  let ?t2 = "?t1\<lparr>inputBuffer := ib'\<rparr>"
  have "conn_inv (t\<lparr>inputBuffer := ib'\<rparr>) received"
    using ci ib'(2) by (auto simp: conn_inv_def conn_base_def up_def)
  then have "conn_inv (emit MessageCallback (t\<lparr>inputBuffer := ib'\<rparr>)) received" by (simp add: conn_inv_emit)
  moreover have "emit MessageCallback (t\<lparr>inputBuffer := ib'\<rparr>) = ?t2" by (simp add: emit_def)
  ultimately have "conn_inv ?t2 received" by simp
  from send_ok [OF ctl this w(1), of bytes] room(2) st no_reset_kept [OF w(2)] obtain t2 where
      t2: "TcpConnection_send ctl write True ?t2 bytes = Inr t2" "conn_inv t2 (received @ bytes)"
    by auto
  have "EchoServer_onMessage ctl write ?t1 = Inr t2" using ib'(1) t2(1) by (simp add: EchoServer_onMessage_def)
  moreover have "echo_inv t2 (received @ bytes)" using t2 send_input [OF t2(1)] ib'(3) by (simp add: echo_inv_def)
  ultimately show ?thesis using t1 by blast
qed

lemma echo_reach_inv:
  assumes "echo_reach ctl t received" and ctl: "epoll_ctl_spec ctl"
  shows "echo_inv t received"
  using assms(1)
proof induction
  case (established p c f t t')
  obtain b where b: "Buffer_new kInitialSize = Inr b" "Buffer_contents b = []" by (rule Buffer_new_wf [OF kInitialSize_room])
  have "inputBuffer t = b" using established(4) b(1) by (auto simp: TcpConnection_new_def)
  then have "inputBuffer t' = b"
    using established(5) by (auto simp: TcpConnection_connectEstablished_def TcpConnection_setWriteCompleteCallback_def
      Let_def andthen_Inr_iff setState_def dest!: on_channel_input)
  moreover have "conn_inv t' []"
    using established established_ok [OF ctl, of "TcpConnection_setWriteCompleteCallback False t"] new_conn [of p c f t False] by auto
  ultimately show ?case using b(2) by (simp add: echo_inv_def)
next
  case (message t received rv wr bytes t1 t2)
  then show ?case using message_step [OF ctl message.IH message.hyps(2-9)] by auto
next
  case (writable t received wr t')
  then show ?case
    using handleWrite_ok [OF ctl _ writable.hyps(2), of t received] handleWrite_input [OF writable.hyps(3)] by (auto simp: echo_inv_def)
next
  case (failed t received)
  then show ?case by (simp add: echo_inv_def TcpConnection_handleError_def conn_inv_emit)
next
  case (closed t received t')
  then show ?case using handleClose_ok [OF ctl, of t received] handleClose_input [OF closed.hyps(2)] by (auto simp: echo_inv_def)
qed

text \<open>
  The server echoes: at any time the bytes it has put on the wire, followed by those that wait in the
  output buffer, are exactly the bytes received so far, in order; nothing is kept in the input buffer; and while bytes wait
  on an open connection the poller watches it for writability. When further bytes arrive, reading and answering
  them returns, and the answer continues the stream.
\<close>

theorem EchoServer_echoes:
  assumes ctl: "epoll_ctl_spec ctl" and reach: "echo_reach ctl t received" and st: "state t = kConnected"
    and io: "readv_spec readv" "write_spec write" "no_reset write"
    and rd: "readv (ch_fd (channel t)) (read_lens (inputBuffer t)) = Inr bytes" "bytes \<noteq> []"
    and room: "length (buffer (inputBuffer t)) + 65536 \<le> vec_max" "Buffer_room (outputBuffer t) (length bytes)"
  shows "wire t @ pending t = received \<and> Buffer_contents (inputBuffer t) = [] \<and>
     (pending t \<noteq> [] \<longrightarrow> (\<exists>ev. watched (poller t) (chan t) = Some ev \<and> ev AND kWriteEvent \<noteq> 0)) \<and>
     (\<exists>t1 t2. TcpConnection_handleRead ctl readv t = Inr t1 \<and> EchoServer_onMessage ctl write t1 = Inr t2 \<and>
        echo_reach ctl t2 (received @ bytes) \<and> wire t2 @ pending t2 = received @ bytes)"
proof -
  have inv: "echo_inv t received" by (rule echo_reach_inv [OF reach ctl])
  then have ci: "conn_inv t received" "poller_inv (poller t)" by (simp_all add: echo_inv_def conn_inv_def conn_base_def)
  obtain t1 t2 where t2: "TcpConnection_handleRead ctl readv t = Inr t1" "EchoServer_onMessage ctl write t1 = Inr t2"
      "echo_inv t2 (received @ bytes)"
    using message_step [OF ctl inv st io rd room] by blast
  moreover have "echo_reach ctl t2 (received @ bytes)"
    by (rule echo_reach.message [OF reach st io rd room t2(1,2)])
  ultimately show ?thesis
    using inv ci(1) st watched_iff [OF ci(2)] by (auto simp: echo_inv_def conn_inv_def up_def Channel_isWriting_def)
qed

section \<open>Witness\<close>

definition hello_socket :: readv_call where
  "hello_socket f lens = Inr (take (sum_list (map unat lens)) ''hello'')"

lemma hello_spec: "readv_spec hello_socket"
  by (auto simp: readv_spec_def hello_socket_def)

theorem EchoServer_echoes_witness:
  "\<exists>t t1 t2. echo_reach kernel_ctl t [] \<and> TcpConnection_handleRead kernel_ctl hello_socket t = Inr t1 \<and>
     EchoServer_onMessage kernel_ctl full_socket t1 = Inr t2 \<and> wire t2 @ pending t2 = ''hello''"
proof -
  let ?p = "EPollPoller_new (\<lambda>c. Channel_new (int c))"
  obtain b where b: "Buffer_new kInitialSize = Inr b" by (rule Buffer_new_wf [OF kInitialSize_room])
  then have size: "unat (writerIndex b) = 8" "length (buffer b) = 1032"
    by (auto simp: Buffer_new_def vec_resize_def kInitialSize_def kCheapPrepend_def vec_max_def)
  obtain t0 where t0: "TcpConnection_new ?p 5 5 = Inr t0" "inputBuffer t0 = b" "outputBuffer t0 = b"
    using b by (simp add: TcpConnection_new_def)
  let ?t = "TcpConnection_setWriteCompleteCallback False t0"
  note new = new_conn [OF new_poller(1) new_channels t0(1), of False]
  obtain t where t: "TcpConnection_connectEstablished kernel_ctl ?t = Inr t" "state t = kConnected"
    using established_ok [OF kernel_ctl_spec new(1-5)] by blast
  have reach: "echo_reach kernel_ctl t []" by (rule echo_reach.established [OF new_poller(1) new_channels t0(1) t(1)])
  have bufs: "inputBuffer t = b" "outputBuffer t = b"
    using t(1) t0(2,3) by (auto simp: TcpConnection_connectEstablished_def Let_def andthen_Inr_iff on_channel_def setState_def
        TcpConnection_setWriteCompleteCallback_def)
  have "sum_list (map unat (read_lens b)) \<ge> 5"
    by (auto simp: read_lens_def word_less_nat_alt)
  then have rd: "hello_socket (ch_fd (channel t)) (read_lens (inputBuffer t)) = Inr ''hello''"
    using bufs by (simp add: hello_socket_def)
  from EchoServer_echoes [OF kernel_ctl_spec reach t(2) hello_spec socket_specs(1,2) rd] show ?thesis
    using reach bufs size by (auto simp: Buffer_room_def vec_max_def)
qed

end
