(* ===== verification/Log_Lines.thy ===== *)
theory Log_Lines
  imports Log_Async
begin

text \<open>
  The logging statements of the program over the asynchronous logger: the output and flush functions
  that \<open>Logger\<close> calls (\<open>src/log/Logger.cc\<close>), the hook \<open>asyncLog\<close> that \<open>main\<close> installs (\<open>src/main.cc\<close>), and what a
  run of statements, interleaved with the back end, leaves in the log files. The lines are
  followed through all buffers and writes: they are never torn, neither by a full buffer nor by a roll.
\<close>

section \<open>Output functions\<close>

datatype output_fn = DefaultOutput | AsyncLog

text \<open>
  The globals \<open>g_output\<close> and \<open>g_asyncLog\<close>, and the standard output with the part of it that is flushed.
  \<open>g_flush\<close> is never set by the program, so that it is \<open>defaultFlush\<close>.
\<close>

record logging =
  g_output :: output_fn
  g_asyncLog :: "AsyncLogging option"
  std_out :: "byte list"
  std_flushed :: nat

definition logging_init :: logging where
  "logging_init = \<lparr>g_output = DefaultOutput, g_asyncLog = None, std_out = [], std_flushed = 0\<rparr>"

definition defaultOutput :: "logging \<Rightarrow> byte list \<Rightarrow> logging" where
  "defaultOutput d msg = d\<lparr>std_out := std_out d @ msg\<rparr>"

definition defaultFlush :: "logging \<Rightarrow> logging" where
  "defaultFlush d = d\<lparr>std_flushed := length (std_out d)\<rparr>"

definition Logger_setOutput :: "output_fn \<Rightarrow> logging \<Rightarrow> logging" where
  "Logger_setOutput out d = d\<lparr>g_output := out\<rparr>"

definition asyncLog :: "logging \<Rightarrow> byte list \<Rightarrow> logging option" where
  "asyncLog d msg =
     (case g_asyncLog d of
        None \<Rightarrow> Some d
      | Some log \<Rightarrow> do { log \<leftarrow> AsyncLogging_append log msg; Some (d\<lparr>g_asyncLog := Some log\<rparr>) })"

definition call_output :: "logging \<Rightarrow> byte list \<Rightarrow> logging option" where
  "call_output d msg = (case g_output d of DefaultOutput \<Rightarrow> Some (defaultOutput d msg) | AsyncLog \<Rightarrow> asyncLog d msg)"

text \<open>
  The environment of the statements: \<open>localtime\<close>, \<open>strerror_r\<close> and the conversion of floating-point numbers; a
  statement is its time, file, line, level and message.
\<close>

record 'd log_libc =
  libc_localtime :: "int \<Rightarrow> tm"
  libc_strerror :: "int \<Rightarrow> string"
  libc_double :: "'d \<Rightarrow> string"

record 'd statement =
  st_now :: nat
  st_file :: string
  st_line :: int
  st_level :: LogLevel
  st_msg :: "'d log_item list"

definition LOG_text :: "'d log_libc \<Rightarrow> 'd statement \<Rightarrow> (string \<times> bool) result" where
  "LOG_text L s = LOG (libc_localtime L) (libc_strerror L) (libc_double L) (st_now s) (st_file s) (st_line s) (st_level s) (st_msg s)"

text \<open>
  A statement up to the call of the output function, under which the asynchronous logger's mutex is taken and
  released again; the result says whether the thread goes on to abort the process. Between the two, other threads
  and the back end may run.
\<close>

definition LOG_statement :: "'d log_libc \<Rightarrow> 'd statement \<Rightarrow> logging \<Rightarrow> (logging \<times> bool) option" where
  "LOG_statement L s d = do {
     (text, fatal) \<leftarrow> ok (LOG_text L s);
     d \<leftarrow> call_output d text;
     Some (d, fatal)
   }"

text \<open>What is left behind when the thread has called \<open>g_flush\<close> and \<open>abort\<close>.\<close>

definition Logger_abort :: "logging \<Rightarrow> logging" where
  "Logger_abort d = defaultFlush d"

text \<open>The first part of \<open>main\<close>: the logger object, the hook, the back-end thread.\<close>

definition main_logging :: "logging \<Rightarrow> logging" where
  "main_logging d =
     (let d = d\<lparr>g_asyncLog := Some AsyncLogging_new\<rparr>;
          d = Logger_setOutput AsyncLog d in
      d\<lparr>g_asyncLog := map_option AsyncLogging_start (g_asyncLog d)\<rparr>)"

definition AsyncLogging_destroy :: "AsyncLogging \<Rightarrow> AsyncLogging" where
  "AsyncLogging_destroy a = (if running a then AsyncLogging_stop a else a)"

text \<open>
  Runs of the program's threads, with the lines that the statements have handed over, in order: any thread executes
  a statement, of any level, up to the end of its output function, the back end makes a step, \<open>main\<close> calls \<open>stop\<close>.
  A thread that has handed over a fatal line may abort the process at any later point of the run.
\<close>

definition stmt_ok :: "'d log_libc \<Rightarrow> 'd statement \<Rightarrow> bool" where
  "stmt_ok L s \<longleftrightarrow> tm_ok (libc_localtime L (int (st_now s div kMicroSecondsPerSecond))) \<and> list_all item_ok (st_msg s) \<and>
     0 \<le> st_line s \<and> st_line s < 2 ^ 31 \<and> length (st_file s) < 2 ^ 64"

inductive logging_reach :: "log_env \<Rightarrow> int \<Rightarrow> string \<Rightarrow> int \<Rightarrow> 'd log_libc \<Rightarrow> logging \<Rightarrow> byte list list \<Rightarrow> bool"
  for E garbage bname rollSize L where
  installed: "logging_reach E garbage bname rollSize L (main_logging logging_init) []"
| executed: "logging_reach E garbage bname rollSize L d ls \<Longrightarrow> stmt_ok L s \<Longrightarrow> LOG_statement L s d = Some (d', fatal) \<Longrightarrow>
    LOG_text L s = Inr (text, fatal) \<Longrightarrow> logging_reach E garbage bname rollSize L d' (ls @ [text])"
| backend: "logging_reach E garbage bname rollSize L d ls \<Longrightarrow> g_asyncLog d = Some a \<Longrightarrow>
    threadFunc_step E garbage bname rollSize a = Some a' \<Longrightarrow> logging_reach E garbage bname rollSize L (d\<lparr>g_asyncLog := Some a'\<rparr>) ls"
| stop: "logging_reach E garbage bname rollSize L d ls \<Longrightarrow> g_asyncLog d = Some a \<Longrightarrow>
    logging_reach E garbage bname rollSize L (d\<lparr>g_asyncLog := Some (AsyncLogging_stop a)\<rparr>) ls"

section \<open>Every statement returns\<close>

text \<open>However long the message is, a statement yields a text of at most 4000 bytes.\<close>

lemma puts_bounded:
  assumes "fb_inv b" and "length (data b) = kSmallBufferSize" and "\<forall>x \<in> set xs. item_ok x"
  obtains b' where "LogStream_puts fmt b xs = Inr b'" and "fb_inv b'" and "length (data b') = kSmallBufferSize"
  using puts_spec [OF assms(1,3), of fmt] assms(2) by auto

lemma LOG_total:
  assumes "stmt_ok L s"
  shows "\<exists>text. LOG_text L s = Inr (text, st_level s = FATAL) \<and> length text < kLargeBufferSize"
proof -
  let ?f = "\<lambda>_ :: unit. [] :: string"
  note ok = assms [unfolded stmt_ok_def list_all_iff]
  have "\<exists>b. Logger_formatTime (libc_localtime L) (st_now s) (FixedBuffer_new kSmallBufferSize) = Inr b \<and> fb_inv b \<and>
      length (FixedBuffer_toString b) = 24 \<and> fb_free b = 3976"
    using formatTime_spec [of "libc_localtime L" "st_now s"] ok by metis
  then obtain b0 where b0: "Logger_formatTime (libc_localtime L) (st_now s) (FixedBuffer_new kSmallBufferSize) = Inr b0"
      "fb_inv b0" "length (data b0) = kSmallBufferSize"
    using fb_free_text by (fastforce simp: kSmallBufferSize_def)
  have lev: "length (getLevelName (st_level s)) = 6" by (cases "st_level s") simp_all
  obtain b1 where b1: "LogStream_puts ?f b0 [LTemplate (getLevelName (st_level s))] = Inr b1" "fb_inv b1"
      "length (data b1) = kSmallBufferSize"
    by (rule puts_bounded [OF b0(2,3), of "[LTemplate (getLevelName (st_level s))]" ?f]) (use lev in simp_all)
  obtain b2 where b2: "LogStream_puts (libc_double L) b1 (st_msg s) = Inr b2" "fb_inv b2" "length (data b2) = kSmallBufferSize"
    by (rule puts_bounded [OF b1(2,3), of "st_msg s" "libc_double L"]) (use ok in simp_all)
  let ?tail = "[LCString '' - '', LTemplate (SourceFile (st_file s)), LChar (CHR '':''), LInteger (st_line s), LChar (CHR 0x0A)]"
  have short: "length (SourceFile (st_file s)) < 2 ^ 64" using length_SourceFile [of "st_file s"] ok by linarith
  obtain b3 where b3: "LogStream_puts ?f b2 ?tail = Inr b3" "fb_inv b3" "length (data b3) = kSmallBufferSize"
    by (rule puts_bounded [OF b2(2,3), of ?tail ?f]) (use ok short in simp_all)
  have "length (FixedBuffer_toString b3) \<le> kSmallBufferSize" using b3(2,3) by (simp add: FixedBuffer_toString_def)
  moreover have "LOG_text L s = Inr (FixedBuffer_toString b3, st_level s = FATAL)"
    using b0(1) b1(1) b2(1) b3(1) by (simp add: LOG_text_def LOG_def Logger_new_def Logger_Impl_def Logger_destroy_def Logger_finish_def)
  ultimately show ?thesis by (simp add: kSmallBufferSize_def kLargeBufferSize_def)
qed

text \<open>The program's logger is always one that front-end calls and back-end steps can lead to.\<close>

lemma logging_reach_async:
  assumes "logging_reach E garbage bname rollSize L d ls"
  shows "g_output d = AsyncLog \<and> (\<exists>a. g_asyncLog d = Some a \<and> async_reach E garbage bname rollSize a True (concat ls))"
  using assms
proof induction
  case installed
  have "async_reach E garbage bname rollSize (AsyncLogging_start AsyncLogging_new) True []"
    by (rule async_reach.start [OF async_reach.new])
  then show ?case by (simp add: main_logging_def Logger_setOutput_def)
next
  case (executed d ls s d' fatal out)
  then obtain a where a: "g_output d = AsyncLog" "g_asyncLog d = Some a" "async_reach E garbage bname rollSize a True (concat ls)" by blast
  have len: "length out < kLargeBufferSize" using LOG_total [OF executed.hyps(2)] executed.hyps(4) by auto
  obtain a' where a': "AsyncLogging_append a out = Some a'" "d' = d\<lparr>g_asyncLog := Some a'\<rparr>"
    using executed.hyps(3,4) a(1,2) by (auto simp: LOG_statement_def call_output_def asyncLog_def split: bind_splits)
  from async_reach.append [OF a(3) len a'(1)] show ?case using a(1) a'(2) by simp
next
  case (backend d ls a a')
  then show ?case using async_reach.backend by fastforce
next
  case (stop d ls a)
  then show ?case using async_reach.stop by fastforce
qed

section \<open>Lines are never torn\<close>

text \<open>The texts \<open>ps\<close> are made of the lines \<open>ls\<close>: each is the concatenation of whole lines, and together they are all of them, in order.\<close>

definition made_of :: "byte list list \<Rightarrow> byte list list \<Rightarrow> bool" where
  "made_of ps ls \<longleftrightarrow> (\<exists>lss. map concat lss = ps \<and> concat lss = ls)"

lemma concat_concat: "concat (concat xss) = concat (map concat xss)"
  by (induction xss) simp_all

lemma made_of_Nil [simp]: "made_of [] []"
  by (auto simp: made_of_def)

lemma made_of_append: "made_of ps ls \<Longrightarrow> made_of qs ms \<Longrightarrow> made_of (ps @ qs) (ls @ ms)"
  unfolding made_of_def by (metis concat_append map_append)

lemma made_of_split: "made_of (ps @ qs) ls \<Longrightarrow> \<exists>ms ns. ls = ms @ ns \<and> made_of ps ms \<and> made_of qs ns"
  unfolding made_of_def by (metis append_eq_map_conv concat_append)

lemma made_of_single: "made_of [x] [x]" "made_of [[]] []"
  unfolding made_of_def by (rule exI [of _ "[[x]]"], simp) (rule exI [of _ "[[]]"], simp)

lemma made_of_pair: "made_of [p, q] ls \<Longrightarrow> made_of [p @ q] ls"
  unfolding made_of_def by (elim exE conjE, intro exI [of _ "[ls]"]) (auto simp: map_eq_Cons_conv)

lemma made_of_merge:
  assumes "made_of (ps @ p # q # qs) ls" shows "made_of (ps @ (p @ q) # qs) ls"
proof -
  have "made_of (ps @ [p, q] @ qs) ls" using assms by simp
  then obtain ks ms ns where "ls = ks @ ms @ ns" "made_of ps ks" "made_of [p, q] ms" "made_of qs ns"
    by (metis made_of_split)
  then have "made_of (ps @ [p @ q] @ qs) ls" using made_of_append made_of_pair by metis
  then show ?thesis by simp
qed

text \<open>A line added at the end of the last text, or behind it.\<close>

lemma made_of_line:
  assumes "made_of (ps @ qs) ls" and "qs \<noteq> []" and "rs = butlast qs @ [last qs @ x] \<or> rs = qs @ [x]"
  shows "made_of (ps @ rs) (ls @ [x])"
proof -
  have whole: "made_of (ps @ qs @ [x]) (ls @ [x])" using made_of_append [OF assms(1) made_of_single(1)] by simp
  have "ps @ qs @ [x] = (ps @ butlast qs) @ last qs # x # []" using assms(2) by simp
  then have "made_of ((ps @ butlast qs) @ (last qs @ x) # []) (ls @ [x])" using whole made_of_merge by metis
  then show ?thesis using assms(3) whole by auto
qed

text \<open>
  A file holds, of the writes made to it, what \<open>fwrite\<close> accepted. The writes to all files, in order, the buffers being
  written and the buffers of the front end are made of whole lines.
\<close>

definition holds :: "log_env \<Rightarrow> FileUtil \<Rightarrow> byte list list \<Rightarrow> bool" where
  "holds E f ws \<longleftrightarrow> (\<exists>ss. list_all2 (stored E) ss ws \<and> contents f = concat ss)"

definition files_hold :: "log_env \<Rightarrow> LogFile option \<Rightarrow> byte list list list \<Rightarrow> bool" where
  "files_hold E out wss \<longleftrightarrow> (case out of None \<Rightarrow> wss = [] | Some lf \<Rightarrow> list_all2 (holds E) (all_files lf) wss)"

definition writing_texts :: "AsyncLogging \<Rightarrow> byte list list" where
  "writing_texts a = (if phase a = Writing then map FixedBuffer_toString (buffersToWrite a) else [])"

definition lines_inv :: "log_env \<Rightarrow> AsyncLogging \<Rightarrow> byte list list \<Rightarrow> bool" where
  "lines_inv E a ls \<longleftrightarrow> (\<exists>wss. files_hold E (output a) wss \<and> made_of (concat wss @ writing_texts a @ front_texts a) ls)"

lemma holds_append:
  assumes "holds E f ws" and "contents g = contents f @ accepted E f b"
  shows "holds E g (ws @ [b])"
proof -
  obtain ss where "list_all2 (stored E) ss ws" "contents f = concat ss" using assms(1) by (auto simp: holds_def)
  then show ?thesis unfolding holds_def using assms(2)
    by (intro exI [of _ "ss @ [accepted E f b]"]) (simp add: list_all2_appendI)
qed

lemma holds_cong: "contents g = contents f \<Longrightarrow> holds E g = holds E f"
  by (simp add: holds_def fun_eq_iff)

lemma holds_empty: "contents f = [] \<Longrightarrow> holds E f []"
  by (simp add: holds_def)

lemma holds_good: "good_env E \<Longrightarrow> holds E f ws \<Longrightarrow> contents f = concat ws"
  by (auto simp: holds_def dest: stored_all_good)

text \<open>Writing a buffer is one write to the open file, which may be rolled afterwards.\<close>

lemma append_writes:
  assumes "disk_env E" and "lf_inv lf" and "LogFile_append E lf b = Some lf'"
    and "list_all2 (holds E) (all_files lf) wss"
  shows "lf_inv lf' \<and> (\<exists>wss'. list_all2 (holds E) (all_files lf') wss' \<and> concat wss' = concat wss @ [b])"
proof -
  obtain f where f: "file lf = Some f" using assms(2) by (auto simp: lf_inv_def)
  have app: "appended E lf f b lf'" using append_appended [OF assms(1,2) f, of b] assms(3) by auto
  have "list_all2 (holds E) (closed lf @ [f]) wss" using assms(4) by (simp add: all_files_def f)
  then obtain wss0 ws where wss: "wss = wss0 @ [ws]" "list_all2 (holds E) (closed lf) wss0" "holds E f ws"
    by (auto simp: list_all2_append1 list_all2_Cons1)
  let ?new = "wss0 @ [ws @ [b]]"
  have grown: "list_all2 (holds E) (closed lf @ [g]) ?new" if "contents g = contents f @ accepted E f b" for g
    using wss(2) holds_append [OF wss(3) that] by (simp add: list_all2_appendI)
  have "list_all2 (holds E) ((closed lf @ [g]) @ [h]) (?new @ [[]])"
    if "contents g = contents f @ accepted E f b" "contents h = []" for g h
    by (rule list_all2_appendI [OF grown [OF that(1)]]) (simp add: holds_empty [OF that(2)])
  with grown have "list_all2 (holds E) (all_files lf') ?new \<or> list_all2 (holds E) (all_files lf') (?new @ [[]])"
    using app unfolding appended_def all_files_def by fastforce
  moreover have "concat ?new = concat wss @ [b]" "concat (?new @ [[]]) = concat wss @ [b]" using wss(1) by simp_all
  ultimately show ?thesis using app unfolding appended_def by metis
qed

lemma write_all_writes:
  assumes "disk_env E" and "lf_inv lf" and "write_all (LogFile_append E) lf bs = Some lf'"
    and "list_all2 (holds E) (all_files lf) wss"
  shows "\<exists>wss'. list_all2 (holds E) (all_files lf') wss' \<and> concat wss' = concat wss @ bs"
  using assms(2-4)
proof (induction bs arbitrary: lf wss)
  case (Cons b bs)
  then obtain lf1 where lf1: "LogFile_append E lf b = Some lf1" "write_all (LogFile_append E) lf1 bs = Some lf'"
    by (auto split: bind_splits)
  obtain wss1 where "lf_inv lf1" "list_all2 (holds E) (all_files lf1) wss1" "concat wss1 = concat wss @ [b]"
    using append_writes [OF assms(1) Cons.prems(1) lf1(1) Cons.prems(3)] by blast
  with Cons.IH [OF _ lf1(2)] show ?case by fastforce
qed auto

lemma flush_holds:
  assumes "LogFile_flush lf = Some lf'" and "list_all2 (holds E) (all_files lf) wss"
  shows "list_all2 (holds E) (all_files lf') wss"
proof -
  obtain f where f: "file lf = Some f" "lf' = lf\<lparr>file := Some (FileUtil_flush f)\<rparr>"
    using assms(1) by (auto simp: LogFile_flush_def split: bind_splits)
  then obtain wss0 ws where "wss = wss0 @ [ws]" "list_all2 (holds E) (closed lf) wss0" "holds E f ws"
    using assms(2) by (auto simp: all_files_def list_all2_append1 list_all2_Cons1)
  moreover have "holds E (FileUtil_flush f) = holds E f" by (rule holds_cong) (simp add: FileUtil_flush_def)
  ultimately show ?thesis using f(2) by (simp add: all_files_def list_all2_appendI)
qed

lemma lines_inv_flush:
  assumes "lines_inv E a ls" and "output a = Some lf" and "LogFile_flush lf = Some lf'"
    and "output a' = Some lf'" and "writing_texts a' = writing_texts a" and "front_texts a' = front_texts a"
  shows "lines_inv E a' ls"
  using assms flush_holds [OF assms(3)] by (auto simp: lines_inv_def files_hold_def)

lemma threadFunc_step_lines:
  assumes E: "disk_env E" "0 < clock E 0" and inv: "async_inv E a acc" and lines: "lines_inv E a ls"
    and run: "threadFunc_step E garbage bname rollSize a = Some a'"
  shows "lines_inv E a' ls"
proof (cases "phase a")
  case Unstarted
  then obtain lf where lf: "LogFile_new E garbage bname rollSize 3 1024 = Some lf"
      "a' = a\<lparr>output := Some lf, newbuffer1 := Some (FixedBuffer_bzero LargeBuffer),
        newbuffer2 := Some (FixedBuffer_bzero LargeBuffer), buffersToWrite := [], phase := Head\<rparr>"
    using run by (auto simp: threadFunc_step_def split: bind_splits)
  then have "list_all2 (holds E) (all_files lf) [[]]" using E
    by (auto simp: LogFile_new_def LogFile_rollFile_def LogFile_getLogFileName_def LogFile_time_def FileUtil_new_def disk_env_def
        all_files_def holds_empty)
  moreover have "made_of (front_texts a) ls"
    using lines Unstarted inv by (auto simp: lines_inv_def files_hold_def writing_texts_def async_inv_def back_inv_def)
  ultimately show ?thesis using lf(2)
    by (auto simp: lines_inv_def files_hold_def writing_texts_def front_texts_def intro!: exI [of _ "[[]]"])
next
  case Head
  show ?thesis
  proof (cases "running a")
    case True
    then have "a' = a\<lparr>phase := Swap\<rparr>" using run Head by (simp add: threadFunc_step_def)
    then show ?thesis using lines Head by (simp add: lines_inv_def writing_texts_def front_texts_def)
  next
    case False
    then obtain lf lf' where "output a = Some lf" "LogFile_flush lf = Some lf'" "a' = a\<lparr>output := Some lf', phase := Finished\<rparr>"
      using run Head by (auto simp: threadFunc_step_def split: bind_splits)
    with Head show ?thesis by (intro lines_inv_flush [OF lines]) (simp_all add: writing_texts_def front_texts_def)
  qed
next
  case Swap
  obtain b b1 where b: "currentBuffer a = Some b" "newbuffer1 a = Some b1" "FixedBuffer_toString b1 = []" "buffersToWrite a = []"
    using inv Swap by (auto simp: async_inv_def front_inv_def back_inv_def spare_def)
  have a': "output a' = output a" "writing_texts a' @ front_texts a' = (writing_texts a @ front_texts a) @ [[]]"
    using run Swap b by (auto simp: threadFunc_step_def writing_texts_def front_texts_def Let_def split: if_splits)
  then show ?thesis using lines made_of_append [OF _ made_of_single(2)] unfolding lines_inv_def
    by (metis append.assoc append_Nil2)
next
  case Writing
  then obtain lf where lf: "output a = Some lf" "lf_inv lf" using inv by (auto simp: async_inv_def back_inv_def elim: open_logE)
  then obtain lf' where lf': "write_all (LogFile_append E) lf (map FixedBuffer_toString (buffersToWrite a)) = Some lf'"
      "a' = a\<lparr>output := Some lf', phase := Recycle\<rparr>"
    using run Writing by (auto simp: threadFunc_step_def split: bind_splits)
  obtain wss where wss: "list_all2 (holds E) (all_files lf) wss" "made_of (concat wss @ writing_texts a @ front_texts a) ls"
    using lines lf(1) by (auto simp: lines_inv_def files_hold_def)
  obtain wss' where "list_all2 (holds E) (all_files lf') wss'" "concat wss' = concat wss @ writing_texts a"
    using write_all_writes [OF E(1) lf(2) lf'(1) wss(1)] Writing by (auto simp: writing_texts_def)
  then show ?thesis using wss(2) lf'(2)
    by (auto simp: lines_inv_def files_hold_def writing_texts_def front_texts_def intro!: exI [of _ wss'])
next
  case Recycle
  then obtain lf lf' n1 n2 bs where "output a = Some lf" "LogFile_flush lf = Some lf'"
      "a' = a\<lparr>newbuffer1 := n1, newbuffer2 := n2, buffersToWrite := [], output := Some lf', phase := Head\<rparr>"
    using run by (auto simp: threadFunc_step_def Let_def split: bind_splits)
  with Recycle show ?thesis by (intro lines_inv_flush [OF lines]) (simp_all add: writing_texts_def front_texts_def)
next
  case Finished
  then show ?thesis using run lines by (simp add: threadFunc_step_def)
qed

lemma logging_reach_lines:
  assumes "logging_reach E garbage bname rollSize L d ls" and E: "disk_env E" "0 < clock E 0"
  shows "\<exists>a. g_asyncLog d = Some a \<and> async_inv E a (concat ls) \<and> lines_inv E a ls"
proof -
  have inv: "\<exists>a. g_asyncLog d = Some a \<and> async_inv E a (concat ls)" if "logging_reach E garbage bname rollSize L d ls" for d ls
    using logging_reach_async [OF that] async_reach_inv [OF _ E] by blast
  show ?thesis using assms(1)
  proof induction
    case installed
    have "lines_inv E (AsyncLogging_start AsyncLogging_new) []"
      by (auto simp: lines_inv_def files_hold_def writing_texts_def front_texts_def AsyncLogging_start_def AsyncLogging_new_def
          bzero_new made_of_single)
    then show ?case using inv [OF logging_reach.installed] by (simp add: main_logging_def Logger_setOutput_def)
  next
    case (executed d ls s d' fatal out)
    then obtain a wss where a: "g_asyncLog d = Some a" "async_inv E a (concat ls)" "files_hold E (output a) wss"
        "made_of (concat wss @ writing_texts a @ front_texts a) ls" by (auto simp: lines_inv_def)
    have len: "length out < kLargeBufferSize" using LOG_total [OF executed.hyps(2)] executed.hyps(4) by auto
    obtain a' where a': "AsyncLogging_append a out = Some a'" "g_asyncLog d' = Some a'"
      using executed.hyps(3,4) logging_reach_async [OF executed.hyps(1)] a(1)
      by (auto simp: LOG_statement_def call_output_def asyncLog_def split: bind_splits)
    from append_inv [OF _ len, of a] a(2) a'(1) have front: "front_texts a' = butlast (front_texts a) @ [last (front_texts a) @ out] \<or>
        front_texts a' = front_texts a @ [out]" "\<exists>c n bs. a' = a\<lparr>currentBuffer := c, nextBuffer := n, buffers := bs\<rparr>"
      by (auto simp: async_inv_def)
    have "front_texts a \<noteq> []" by (simp add: front_texts_def)
    with made_of_line [of "concat wss @ writing_texts a" "front_texts a" ls "front_texts a'" out] a(4) front(1)
    have "made_of (concat wss @ writing_texts a @ front_texts a') (ls @ [out])" by auto
    moreover have "output a' = output a" "writing_texts a' = writing_texts a" using front(2) by (auto simp: writing_texts_def)
    ultimately have "lines_inv E a' (ls @ [out])" using a(3) by (auto simp: lines_inv_def)
    moreover have "async_inv E a' (concat (ls @ [out]))"
      using inv [OF logging_reach.executed [OF executed.hyps]] a'(2) by auto
    ultimately show ?case using a'(2) by blast
  next
    case (backend d ls a a')
    then show ?case using threadFunc_step_lines [OF E _ _ backend.hyps(3)] inv [OF logging_reach.backend [OF backend.hyps]] by auto
  next
    case (stop d ls a)
    then show ?case using inv [OF logging_reach.stop [OF stop.hyps]]
      by (auto simp: lines_inv_def writing_texts_def front_texts_def AsyncLogging_stop_def)
  qed
qed

section \<open>Properties\<close>

lemma statement_runs:
  assumes reach: "logging_reach E garbage bname rollSize L d ls" and E: "disk_env E" "0 < clock E 0" and s: "stmt_ok L s"
  shows "\<exists>d' out a a'. LOG_text L s = Inr (out, st_level s = FATAL) \<and> LOG_statement L s d = Some (d', st_level s = FATAL) \<and>
     g_asyncLog d = Some a \<and> g_asyncLog d' = Some a' \<and> output a' = output a \<and> front_bytes a' = front_bytes a @ out \<and>
     std_out d' = std_out d"
proof -
  obtain out where out: "LOG_text L s = Inr (out, st_level s = FATAL)" "length out < kLargeBufferSize" using LOG_total [OF s] by blast
  obtain a where a: "g_asyncLog d = Some a" "front_inv a" "g_output d = AsyncLog"
    using logging_reach_lines [OF reach E] logging_reach_async [OF reach] by (auto simp: async_inv_def)
  obtain a' where a': "AsyncLogging_append a out = Some a'" "front_bytes a' = front_bytes a @ out" "output a' = output a"
    using append_inv [OF a(2) out(2)] by auto
  have "call_output d out = Some (d\<lparr>g_asyncLog := Some a'\<rparr>)" using a(1,3) a'(1) by (simp add: call_output_def asyncLog_def)
  then show ?thesis using out(1) a(1) a' by (auto simp: LOG_statement_def)
qed

text \<open>When no write fails, the files are whole lines.\<close>

lemma files_of_lines:
  assumes good: "good_env E" and hold: "files_hold E (output a) wss" and lines: "made_of (concat wss @ rest) ls"
    and out: "output a = Some lf"
  shows "\<exists>lss later. ls = concat lss @ later \<and> map contents (all_files lf) = map concat lss"
proof -
  have "list_all2 (holds E) (all_files lf) wss" using hold out by (simp add: files_hold_def)
  then have files: "map contents (all_files lf) = map concat wss"
    by (induction rule: list_all2_induct) (auto simp: holds_good [OF good])
  have "\<exists>lss. map concat lss = map concat wss \<and> concat lss = ms" if "made_of (concat wss) ms" for ms
    using that
  proof (induction wss arbitrary: ms)
    case (Cons ws wss)
    then obtain ks ns where k: "ms = ks @ ns" "made_of ws ks" "made_of (concat wss) ns" by (auto dest: made_of_split)
    then obtain lss where "map concat lss = map concat wss" "concat lss = ns" using Cons.IH by blast
    moreover have "concat ks = concat ws" using k(2) by (auto simp: made_of_def concat_concat)
    ultimately show ?case using k(1) by (intro exI [of _ "ks # lss"]) simp
  qed (simp add: made_of_def)
  moreover obtain ms later where "ls = ms @ later" "made_of (concat wss) ms" using made_of_split [OF lines] by blast
  ultimately show ?thesis using files by metis
qed

lemma ends_with_newline:
  assumes "\<forall>l \<in> set ls. l \<noteq> [] \<and> last l = CHR 0x0A" and "ls = concat lss @ later"
    and "map contents fs = map concat lss" and "f \<in> set fs"
  shows "contents f = [] \<or> last (contents f) = CHR 0x0A"
proof -
  have "contents f \<in> set (map concat lss)" using assms(3,4) by (metis image_eqI list.set_map)
  then obtain ks where ks: "contents f = concat ks" "ks \<in> set lss" by auto
  then have "\<forall>l \<in> set ks. l \<noteq> [] \<and> last l = CHR 0x0A" using assms(1,2) by auto
  then show ?thesis using ks(1) by (cases ks rule: rev_cases) auto
qed

text \<open>
  C11. Log lines are never torn by the logger. Whatever threads log and however their statements interleave with the back end,
  as long as log files can be opened: every write to a log file, every buffer being written and every buffer of the front end is the
  concatenation of whole lines, and in this order they are all the lines handed over. Of each write a file holds what \<open>fwrite\<close>
  accepted, so that a line can be cut in a file only where a write failed. When no write fails, every log file, the closed
  ones and the open one, is the concatenation of whole lines and, if all lines end with a newline, so does every
  file that is not empty. Every further statement and every step of the back end returns.
\<close>

theorem LOG_lines_never_torn:
  assumes E: "disk_env E" "0 < clock E 0" and reach: "logging_reach E garbage bname rollSize L d ls"
  shows "\<exists>a wss. g_asyncLog d = Some a \<and> files_hold E (output a) wss \<and>
     made_of (concat wss @ writing_texts a @ front_texts a) ls \<and>
     (\<forall>lf. good_env E \<and> output a = Some lf \<longrightarrow>
        (\<exists>lss later. ls = concat lss @ later \<and> map contents (all_files lf) = map concat lss) \<and>
        ((\<forall>l \<in> set ls. l \<noteq> [] \<and> last l = CHR 0x0A) \<longrightarrow>
           (\<forall>f \<in> set (all_files lf). contents f = [] \<or> last (contents f) = CHR 0x0A))) \<and>
     threadFunc_step E garbage bname rollSize a \<noteq> None \<and>
     (\<forall>s. stmt_ok L s \<longrightarrow> (\<exists>d'. LOG_statement L s d = Some (d', st_level s = FATAL)))"
proof -
  obtain a where a: "g_asyncLog d = Some a" "async_inv E a (concat ls)" "lines_inv E a ls" using logging_reach_lines [OF reach E] by blast
  then obtain wss where wss: "files_hold E (output a) wss" "made_of (concat wss @ writing_texts a @ front_texts a) ls"
    by (auto simp: lines_inv_def)
  have files: "(\<exists>lss later. ls = concat lss @ later \<and> map contents (all_files lf) = map concat lss) \<and>
      ((\<forall>l \<in> set ls. l \<noteq> [] \<and> last l = CHR 0x0A) \<longrightarrow> (\<forall>f \<in> set (all_files lf). contents f = [] \<or> last (contents f) = CHR 0x0A))"
    if "good_env E \<and> output a = Some lf" for lf
    using files_of_lines [OF _ wss] that ends_with_newline [of ls] by (metis (no_types, lifting))
  have step: "threadFunc_step E garbage bname rollSize a \<noteq> None" using threadFunc_step_inv [OF E a(2), of garbage bname rollSize] by auto
  have stmt: "\<exists>d'. LOG_statement L s d = Some (d', st_level s = FATAL)" if "stmt_ok L s" for s
    using statement_runs [OF reach E that] by blast
  show ?thesis using a(1) wss files step stmt by (intro exI [of _ a] exI [of _ wss]) blast
qed

lemma nothing_on_stdout:
  "logging_reach E garbage bname rollSize L d ls \<Longrightarrow> std_out d = []"
proof (induction rule: logging_reach.induct)
  case (executed d ls s d' fatal out)
  then show ?case using logging_reach_async [OF executed.hyps(1)]
    by (auto simp: LOG_statement_def call_output_def asyncLog_def split: bind_splits)
qed (simp_all add: main_logging_def logging_init_def Logger_setOutput_def)

text \<open>
  C26. The line of a statement at level \<open>FATAL\<close> can be lost: the hook only puts it behind the front end's buffers and
  leaves the files as they are, and the flush function before \<open>abort\<close> flushes the standard output alone, on which
  nothing was ever written. When the process aborts at once, the line is in no file; the files hold it only if the back end
  happens to take and write it between the release of the mutex and the abort, to which nothing makes the
  thread wait: from any state of the run the abort leaves the files as they are.
\<close>

theorem LOG_FATAL_message_lost:
  assumes E: "disk_env E" "0 < clock E 0" and reach: "logging_reach E garbage bname rollSize L d ls"
    and s: "stmt_ok L s" "st_level s = FATAL"
  shows "\<exists>d' out a a'. LOG_text L s = Inr (out, True) \<and> LOG_statement L s d = Some (d', True) \<and> g_asyncLog d = Some a \<and>
     g_asyncLog (Logger_abort d') = Some a' \<and> output a' = output a \<and> front_bytes a' = front_bytes a @ out \<and>
     std_out (Logger_abort d') = [] \<and> logging_reach E garbage bname rollSize L d' (ls @ [out]) \<and>
     (\<forall>d2 ls2. logging_reach E garbage bname rollSize L d2 ls2 \<longrightarrow>
        g_asyncLog (Logger_abort d2) = g_asyncLog d2 \<and> std_out (Logger_abort d2) = [])"
proof -
  obtain d' out a a' where d': "LOG_text L s = Inr (out, True)" "LOG_statement L s d = Some (d', True)" "g_asyncLog d = Some a"
      "g_asyncLog d' = Some a'" "output a' = output a" "front_bytes a' = front_bytes a @ out"
    using statement_runs [OF reach E s(1)] s(2) by auto
  have abort: "g_asyncLog (Logger_abort d2) = g_asyncLog d2 \<and> std_out (Logger_abort d2) = []"
    if "logging_reach E garbage bname rollSize L d2 ls2" for d2 ls2
    using nothing_on_stdout [OF that] by (simp add: Logger_abort_def defaultFlush_def)
  have reach': "logging_reach E garbage bname rollSize L d' (ls @ [out])"
    by (rule logging_reach.executed [OF reach s(1) d'(2,1)])
  with d' abort [OF reach'] abort show ?thesis by (intro exI [of _ d'] exI [of _ out] exI [of _ a] exI [of _ a']) auto
qed

section \<open>Witnesses\<close>

definition new_year :: "unit log_libc" where
  "new_year = \<lparr>libc_localtime = (\<lambda>_. \<lparr>tm_year = 125, tm_mon = 0, tm_mday = 1, tm_hour = 0, tm_min = 0, tm_sec = 0\<rparr>),
     libc_strerror = (\<lambda>_. []), libc_double = (\<lambda>_. [])\<rparr>"

definition up_line :: "LogLevel \<Rightarrow> unit statement" where
  "up_line lev = \<lparr>st_now = 42, st_file = ''main.cc'', st_line = 38, st_level = lev, st_msg = [LCString ''Connection UP :'']\<rparr>"

lemma up_line_ok: "stmt_ok new_year (up_line lev)" "st_level (up_line lev) = lev"
  by (simp_all add: stmt_ok_def new_year_def up_line_def tm_ok_def)

theorem LOG_lines_never_torn_witness:
  "\<exists>d d' a out. logging_reach good_disk 0 ''log'' 100 new_year d [out] \<and> g_asyncLog d = Some a \<and>
     LOG_statement new_year (up_line INFO) d = Some (d', False)"
proof -
  have E: "0 < clock good_disk 0" by (simp add: good_disk_def)
  note start = logging_reach.installed [of good_disk 0 "''log''" 100 new_year]
  from LOG_lines_never_torn [OF good_disk_disk E start] have
      "\<forall>s. stmt_ok new_year s \<longrightarrow> (\<exists>d'. LOG_statement new_year s (main_logging logging_init) = Some (d', st_level s = FATAL))" by blast
  then obtain d where d: "LOG_statement new_year (up_line INFO) (main_logging logging_init) = Some (d, False)"
    using up_line_ok [of INFO] by fastforce
  obtain out where out: "LOG_text new_year (up_line INFO) = Inr (out, False)" using LOG_total [OF up_line_ok(1), of INFO] up_line_ok(2) [of INFO] by auto
  have "logging_reach good_disk 0 ''log'' 100 new_year d ([] @ [out])" by (rule logging_reach.executed [OF start up_line_ok(1) d out])
  then have reach: "logging_reach good_disk 0 ''log'' 100 new_year d [out]" by simp
  from LOG_lines_never_torn [OF good_disk_disk E reach] obtain a where "g_asyncLog d = Some a"
      "\<forall>s. stmt_ok new_year s \<longrightarrow> (\<exists>d'. LOG_statement new_year s d = Some (d', st_level s = FATAL))" by blast
  then show ?thesis using reach up_line_ok [of INFO] by fastforce
qed

theorem LOG_FATAL_message_lost_witness:
  "\<exists>d' out a'. LOG_statement new_year (up_line FATAL) (main_logging logging_init) = Some (d', True) \<and>
     LOG_text new_year (up_line FATAL) = Inr (out, True) \<and> g_asyncLog (Logger_abort d') = Some a' \<and> output a' = None \<and>
     front_bytes a' = out"
proof -
  have E: "0 < clock good_disk 0" by (simp add: good_disk_def)
  note start = logging_reach.installed [of good_disk 0 "''log''" 100 new_year]
  from LOG_FATAL_message_lost [OF good_disk_disk E start up_line_ok [of FATAL]] show ?thesis
    by (fastforce simp: main_logging_def Logger_setOutput_def AsyncLogging_start_def AsyncLogging_new_def front_bytes_def bzero_new)
qed

end
