(* ===== verification/Net_Reactor.thy ===== *)
theory Net_Reactor
  imports Net_EventLoop Net_Poller Util_Timer
begin

text \<open>
  The whole \<open>EventLoop\<close> object (\<open>include/net/EventLoop.h\<close>, \<open>src/net/EventLoop.cc\<close>): construction and
  destruction, the poller and the wake-up channel registered there, and \<open>loop()\<close> with the dispatch of the
  active channels. \<open>Net_EventLoop\<close> has the queue of functors and its interleavings and leaves open
  what \<open>poll\<close> reports; here the report comes from the poller of \<open>Net_Poller\<close>, and the wake-up
  descriptor is one of its channels. The handlers of the other channels and the functors are client code: they act on the loop
  through its interface, in any order.
\<close>

section \<open>The object\<close>

type_synonym loop_addr = nat

record 'f Reactor =
  evloop :: "'f EventLoop"
  loop_poller :: EPollPoller
  timerQueue :: "'f TimerQueue option"
  wakeupFd :: fd
  wakeupChannel :: chan
  threadId :: int
  pollReturnTime :: Timestamp
  activeChannels :: "chan list"
  visited :: nat                          \<comment> \<open>how many of \<open>activeChannels_\<close> the range-for has taken\<close>
  calls :: "(chan \<times> callback) list"       \<comment> \<open>the callbacks that the current \<open>handleEvent\<close> has still to make\<close>

definition unvisited :: "'f Reactor \<Rightarrow> chan list" where
  "unvisited r = drop (visited r) (activeChannels r)"

definition isInLoopThread :: "int \<Rightarrow> 'f Reactor \<Rightarrow> bool" where
  "isInLoopThread tid r \<longleftrightarrow> threadId r = tid"

text \<open>
  What the constructor gets from outside: the variable \<open>MUDUO_USE_POLL\<close> of the environment, the results of
  \<open>epoll_create1\<close> and \<open>eventfd\<close>, the number of the calling thread, the addresses of the new objects, and the
  memory from which the loop's channels will be made.
\<close>

record loop_env =
  MUDUO_USE_POLL :: bool
  epoll_create1 :: int
  eventfd_call :: int
  current_tid :: int
  this_loop :: loop_addr
  new_channel :: chan
  chan_memory :: "chan \<Rightarrow> Channel"

definition createEventfd :: "int \<Rightarrow> int result" where
  "createEventfd evtfd = (if evtfd < 0 then Inl Aborted else Inr evtfd)"

definition EventLoop_construct ::
  "epoll_ctl_call \<Rightarrow> loop_env \<Rightarrow> loop_addr option \<Rightarrow> ('f Reactor \<times> loop_addr option) result" where
  "EventLoop_construct ctl env t_loopInThisThread =
     andthen (Poller_newDefaultPoller (MUDUO_USE_POLL env) (epoll_create1 env) (chan_memory env)) (\<lambda>poller.
     andthen (createEventfd (eventfd_call env)) (\<lambda>evtfd.
       if t_loopInThisThread \<noteq> None then Inl Aborted
       else (case poller of None \<Rightarrow> Inl Null_deref
             | Some p \<Rightarrow>
                 (let c = new_channel env; p = set_chan p c ((Channel_new evtfd)\<lparr>readCallback := True\<rparr>) in
                  andthen (Channel_enableReading ctl p c) (\<lambda>p.
                    Inr (\<lparr>evloop = EventLoop_new, loop_poller = p, timerQueue = None, wakeupFd = evtfd,
                       wakeupChannel = c, threadId = current_tid env, pollReturnTime = Timestamp 0, activeChannels = [], visited = 0,
                       calls = []\<rparr>, Some (this_loop env)))))))"

text \<open>The destructor: the poller that remains, and the thread's pointer to its loop.\<close>

definition EventLoop_destroy :: "epoll_ctl_call \<Rightarrow> 'f Reactor \<Rightarrow> (EPollPoller \<times> loop_addr option) result" where
  "EventLoop_destroy ctl r =
     andthen (Channel_disableAll ctl (loop_poller r) (wakeupChannel r)) (\<lambda>p.
     andthen (Channel_remove ctl p (wakeupChannel r)) (\<lambda>p. Inr (p, None)))"

section \<open>Steps\<close>

text \<open>What client code may do to the loop from the loop's own thread.\<close>

inductive client_call :: "eventfd \<Rightarrow> epoll_ctl_call \<Rightarrow> 'f Reactor \<Rightarrow> 'f Reactor \<Rightarrow> bool" for K ctl where
  queue: "client_call K ctl r (r\<lparr>evloop := EventLoop_queueInLoop K True (evloop r) cb\<rparr>)"
| quit: "client_call K ctl r (r\<lparr>evloop := EventLoop_quit K True (evloop r)\<rparr>)"
| create: "c \<noteq> wakeupChannel r \<Longrightarrow> index (chans (loop_poller r) c) = kNew \<Longrightarrow>
    client_call K ctl r (r\<lparr>loop_poller := set_chan (loop_poller r) c (Channel_new f)\<rparr>)"
| configure: "c \<noteq> wakeupChannel r \<Longrightarrow> ch = chans (loop_poller r) c \<Longrightarrow>
    client_call K ctl r (r\<lparr>loop_poller := set_chan (loop_poller r) c
       (ch\<lparr>readCallback := a, writeCallback := b, closeCallback := d, errorCallback := e, tied := t\<rparr>)\<rparr>)"
| update: "c \<noteq> wakeupChannel r \<Longrightarrow> usable (loop_poller r) c \<Longrightarrow>
    Channel_set_events ctl (loop_poller r) c ev = Inr p \<Longrightarrow> client_call K ctl r (r\<lparr>loop_poller := p\<rparr>)"
| remove: "c \<noteq> wakeupChannel r \<Longrightarrow> usable (loop_poller r) c \<Longrightarrow>
    Channel_remove ctl (loop_poller r) c = Inr p \<Longrightarrow> client_call K ctl r (r\<lparr>loop_poller := p\<rparr>)"

text \<open>
  A possible result of \<open>epoll_wait\<close>: each entry of the interest list at most once and no more than the array
  holds; the \<open>eventfd\<close> only while its counter is positive, as readable.
\<close>

definition kernel_reports :: "'f Reactor \<Rightarrow> (event_mask \<times> chan) list \<Rightarrow> bool" where
  "kernel_reports r es \<longleftrightarrow> distinct (map snd es) \<and> length es \<le> events_size (loop_poller r) \<and>
     (\<forall>(e, c) \<in> set es. watched (loop_poller r) c \<noteq> None \<and>
        (c = wakeupChannel r \<longrightarrow> e = EPOLLIN \<and> 0 < wakeupCount (evloop r)))"

definition poll_returns :: "Timestamp \<Rightarrow> wait_result \<Rightarrow> 'f Reactor \<Rightarrow> 'f Reactor" where
  "poll_returns now w r =
     (let (p, active) = EPollPoller_poll (loop_poller r) w in
      r\<lparr>loop_poller := p, pollReturnTime := now, activeChannels := active, visited := 0, calls := [],
        evloop := (evloop r)\<lparr>pc := Handling (wakeupChannel r \<in> set active)\<rparr>\<rparr>)"

text \<open>The range-for takes the next channel and calls its \<open>handleEvent\<close>.\<close>

definition visit_next :: "bool \<Rightarrow> 'f Reactor \<Rightarrow> 'f Reactor" where
  "visit_next alive r =
     (let c = activeChannels r ! visited r in
      r\<lparr>visited := visited r + 1, calls := map (Pair c) (Channel_handleEvent alive (chans (loop_poller r) c))\<rparr>)"

definition on_loop :: "('f EventLoop \<Rightarrow> 'f EventLoop) \<Rightarrow> 'f Reactor \<Rightarrow> 'f Reactor" where
  [simp]: "on_loop f r = r\<lparr>evloop := f (evloop r)\<rparr>"

text \<open>The head of the loop, with the first line of its body.\<close>

definition loop_turn :: "'f Reactor \<Rightarrow> 'f Reactor" where
  "loop_turn r =
     (let r' = on_loop loop_test r in
      if quit (evloop r) then r' else r'\<lparr>activeChannels := [], visited := 0\<rparr>)"

inductive reactor_step :: "eventfd \<Rightarrow> epoll_ctl_call \<Rightarrow> 'f Reactor \<Rightarrow> 'f Reactor \<Rightarrow> bool" for K ctl where
  call: "pc (evloop r) = Before \<Longrightarrow> reactor_step K ctl r (on_loop loop_begin r)"
| test: "pc (evloop r) = Loop_head \<Longrightarrow> reactor_step K ctl r (loop_turn r)"
| poll: "pc (evloop r) = Polling \<Longrightarrow> kernel_reports r es \<Longrightarrow> reactor_step K ctl r (poll_returns now (Ready es) r)"
| poll_fails: "pc (evloop r) = Polling \<Longrightarrow> reactor_step K ctl r (poll_returns now (Wait_error errno) r)"
| visit: "pc (evloop r) = Handling w \<Longrightarrow> calls r = [] \<Longrightarrow> visited r < length (activeChannels r) \<Longrightarrow>
    reactor_step K ctl r (visit_next alive r)"
| wakeup_read: "pc (evloop r) = Handling w \<Longrightarrow> calls r = (wakeupChannel r, Read_cb) # cs \<Longrightarrow>
    reactor_step K ctl r ((on_loop (\<lambda>l. (EventLoop_handleWakeupRead K l)\<lparr>pc := Handling False\<rparr>) r)\<lparr>calls := cs\<rparr>)"
| handler_acts: "pc (evloop r) = Handling w \<Longrightarrow> calls r = (c, cb) # cs \<Longrightarrow> c \<noteq> wakeupChannel r \<Longrightarrow>
    client_call K ctl r r' \<Longrightarrow> reactor_step K ctl r r'"
| handler_returns: "pc (evloop r) = Handling w \<Longrightarrow> calls r = (c, cb) # cs \<Longrightarrow> c \<noteq> wakeupChannel r \<Longrightarrow>
    reactor_step K ctl r (r\<lparr>calls := cs\<rparr>)"
| enter: "pc (evloop r) = Handling w \<Longrightarrow> calls r = [] \<Longrightarrow> visited r = length (activeChannels r) \<Longrightarrow>
    reactor_step K ctl r (on_loop doPendingFunctors_enter r)"
| swap: "pc (evloop r) = Swapping \<Longrightarrow> reactor_step K ctl r (on_loop doPendingFunctors_swap r)"
| functor_call: "pc (evloop r) = Running (f # fs) \<Longrightarrow>
    reactor_step K ctl r (on_loop (\<lambda>l. l\<lparr>pc := Running fs, executed := executed l @ [f]\<rparr>) r)"
| functor_acts: "pc (evloop r) = Running fs \<Longrightarrow> client_call K ctl r r' \<Longrightarrow> reactor_step K ctl r r'"
| leave: "pc (evloop r) = Running [] \<Longrightarrow> reactor_step K ctl r (on_loop doPendingFunctors_leave r)"
| other_push: "reactor_step K ctl r (on_loop (\<lambda>l. (queueInLoop_push l cb)\<lparr>queuers := queuers l + 1\<rparr>) r)"
| other_notify: "0 < queuers (evloop r) \<Longrightarrow>
    reactor_step K ctl r (on_loop (\<lambda>l. (queueInLoop_notify K False l)\<lparr>queuers := queuers l - 1\<rparr>) r)"
| other_quit: "reactor_step K ctl r (on_loop (\<lambda>l. (quit_flag l)\<lparr>quitters := quitters l + 1\<rparr>) r)"
| other_quit_notify: "0 < quitters (evloop r) \<Longrightarrow>
    reactor_step K ctl r (on_loop (\<lambda>l. (EventLoop_wakeup K l)\<lparr>quitters := quitters l - 1\<rparr>) r)"

text \<open>The loops that a successful construction can lead to.\<close>

definition reactor_reach :: "eventfd \<Rightarrow> epoll_ctl_call \<Rightarrow> 'f Reactor \<Rightarrow> bool" where
  "reactor_reach K ctl r \<longleftrightarrow> (\<exists>env r0 t. (\<forall>c. index (chan_memory env c) = kNew) \<and>
     EventLoop_construct ctl env None = Inr (r0, t) \<and> (reactor_step K ctl)\<^sup>*\<^sup>* r0 r)"

text \<open>
  One turn of \<open>loop()\<close> by the loop's thread alone, with the handlers and the functors as functions: \<open>H c cb\<close>
  is the callback \<open>cb\<close> of channel \<open>c\<close>, \<open>F f\<close> is what the functor \<open>f\<close> does, and \<open>alive c\<close> says whether the object
  that the channel is tied to still exists.
\<close>

type_synonym 'f handlers = "chan \<Rightarrow> callback \<Rightarrow> 'f Reactor \<Rightarrow> 'f Reactor"

definition wakeup_call :: "eventfd \<Rightarrow> 'f Reactor \<Rightarrow> 'f Reactor" where
  [simp]: "wakeup_call K r = on_loop (\<lambda>l. (EventLoop_handleWakeupRead K l)\<lparr>pc := Handling False\<rparr>) r"

primrec make_calls :: "eventfd \<Rightarrow> 'f handlers \<Rightarrow> (chan \<times> callback) list \<Rightarrow> 'f Reactor \<Rightarrow> 'f Reactor" where
  "make_calls K H [] r = r"
| "make_calls K H (x # xs) r =
     make_calls K H xs ((if x = (wakeupChannel r, Read_cb) then wakeup_call K r else H (fst x) (snd x) r)\<lparr>calls := xs\<rparr>)"

primrec visit_all :: "eventfd \<Rightarrow> 'f handlers \<Rightarrow> (chan \<Rightarrow> bool) \<Rightarrow> chan list \<Rightarrow> 'f Reactor \<Rightarrow> 'f Reactor" where
  "visit_all K H alive [] r = r"
| "visit_all K H alive (c # cs) r =
     (let r = visit_next (alive c) r in visit_all K H alive cs (make_calls K H (calls r) r))"

primrec call_functors :: "('f \<Rightarrow> 'f Reactor \<Rightarrow> 'f Reactor) \<Rightarrow> 'f list \<Rightarrow> 'f Reactor \<Rightarrow> 'f Reactor" where
  "call_functors F [] r = r"
| "call_functors F (f # fs) r =
     call_functors F fs (F f (on_loop (\<lambda>l. l\<lparr>pc := Running fs, executed := executed l @ [f]\<rparr>) r))"

definition EventLoop_doPendingFunctors :: "('f \<Rightarrow> 'f Reactor \<Rightarrow> 'f Reactor) \<Rightarrow> 'f Reactor \<Rightarrow> 'f Reactor" where
  "EventLoop_doPendingFunctors F r =
     (let r = on_loop doPendingFunctors_swap (on_loop doPendingFunctors_enter r) in
      on_loop doPendingFunctors_leave (call_functors F (running_functors (evloop r)) r))"

definition EventLoop_turn ::
  "eventfd \<Rightarrow> 'f handlers \<Rightarrow> ('f \<Rightarrow> 'f Reactor \<Rightarrow> 'f Reactor) \<Rightarrow> (chan \<Rightarrow> bool) \<Rightarrow> Timestamp \<Rightarrow> wait_result \<Rightarrow> 'f Reactor \<Rightarrow> 'f Reactor" where
  "EventLoop_turn K H F alive now w r =
     (let r = poll_returns now w r in
      EventLoop_doPendingFunctors F (visit_all K H alive (activeChannels r) r))"

section \<open>The invariant\<close>

definition wakeup_registered :: "'f Reactor \<Rightarrow> bool" where
  "wakeup_registered r \<longleftrightarrow>
     (let ch = chans (loop_poller r) (wakeupChannel r) in
      ch_fd ch = wakeupFd r \<and> events ch = kReadEvent \<and> index ch = kAdded \<and> \<not> tied ch \<and>
      readCallback ch \<and> \<not> writeCallback ch \<and> \<not> closeCallback ch \<and> \<not> errorCallback ch)"

text \<open>
  The loop model's \<open>Handling w\<close> says that the wake-up channel is still to be handled: it is among the
  channels not yet visited, marked readable, or its read callback is the one call left.
\<close>

definition dispatch_ok :: "'f Reactor \<Rightarrow> bool" where
  "dispatch_ok r \<longleftrightarrow> visited r \<le> length (activeChannels r) \<and> distinct (activeChannels r) \<and>
     ((\<exists>w. pc (evloop r) = Handling w) \<or> unvisited r = [] \<and> calls r = []) \<and>
     (\<forall>w. pc (evloop r) = Handling w \<longrightarrow>
        (w \<longleftrightarrow> wakeupChannel r \<in> set (unvisited r) \<or> calls r = [(wakeupChannel r, Read_cb)])) \<and>
     (wakeupChannel r \<in> set (unvisited r) \<longrightarrow> revents (chans (loop_poller r) (wakeupChannel r)) = EPOLLIN) \<and>
     (wakeupChannel r \<in> fst ` set (calls r) \<longrightarrow>
        calls r = [(wakeupChannel r, Read_cb)] \<and> wakeupChannel r \<notin> set (unvisited r))"

definition reactor_inv :: "'f Reactor \<Rightarrow> bool" where
  "reactor_inv r \<longleftrightarrow> poller_inv (loop_poller r) \<and> wakeup_registered r \<and> dispatch_ok r \<and> timerQueue r = None \<and>
     0 < events_size (loop_poller r)"

lemma with_reg_size: "events_size (with_reg p c ev i) = events_size p"
  by (simp add: with_reg_def)

lemma client_call_keeps:
  assumes ctl: "epoll_ctl_spec ctl" and "client_call K ctl r r'" and inv: "poller_inv (loop_poller r)"
  shows "poller_inv (loop_poller r') \<and> events_size (loop_poller r') = events_size (loop_poller r) \<and>
     chans (loop_poller r') (wakeupChannel r) = chans (loop_poller r) (wakeupChannel r) \<and>
     r' = r\<lparr>loop_poller := loop_poller r', evloop := evloop r'\<rparr> \<and> pc (evloop r') = pc (evloop r)"
  using assms(2)
proof cases
  case (create c f)
  then show ?thesis using inv by (auto simp: poller_inv_def set_chan_def Channel_new_def kNew_def kAdded_def)
next
  case (configure c ch a b d e t)
  then show ?thesis using inv by (auto simp: poller_inv_def set_chan_def)
next
  case (update c ev p)
  define i where "i = (if index (chans (loop_poller r) c) = kAdded \<and> ev = 0 then kDeleted else kAdded)"
  have "p = with_reg (loop_poller r) c ev i" using set_events_eq [OF ctl inv update(3), of ev] update(4) by (simp add: i_def)
  moreover have "i = kNew \<or> i = kAdded \<or> i = kDeleted" by (simp add: i_def)
  ultimately show ?thesis using with_reg_inv [OF inv update(3)] update(1,2) by (simp add: with_reg_size)
next
  case (remove c p)
  then have "p = with_reg (loop_poller r) c (events (chans (loop_poller r) c)) kNew" using remove_eq [OF ctl inv] by simp
  then show ?thesis using with_reg_inv [OF inv remove(3)] remove(1,2) by (simp add: with_reg_size)
qed (use inv in \<open>simp_all add: loop_op_defs\<close>)

lemma poll_returns_ok:
  assumes inv: "reactor_inv r" and pc: "pc (evloop r) = Polling" and rep: "kernel_reports r es"
  shows "reactor_inv (poll_returns now (Ready es) r)" and "loop_step K (evloop r) (evloop (poll_returns now (Ready es) r))"
proof -
  let ?c = "wakeupChannel r"
  have dis: "distinct (map snd es)" using rep by (simp add: kernel_reports_def)
  obtain p where p: "EPollPoller_poll (loop_poller r) (Ready es) = (p, map snd es)"
      "\<exists>e. chans p ?c = chans (loop_poller r) ?c\<lparr>revents := e\<rparr>"
      "\<forall>x \<in> set es. revents (chans p (snd x)) = fst x" "poller_inv p" "0 < events_size p"
    using poll_Ready [OF dis, of "loop_poller r"] inv unfolding reactor_inv_def by (metis nat_0_less_mult_iff zero_less_numeral)
  have wake: "(e, ?c) \<in> set es \<Longrightarrow> e = EPOLLIN \<and> 0 < wakeupCount (evloop r)" for e using rep by (auto simp: kernel_reports_def)
  then have "?c \<in> snd ` set es \<Longrightarrow> revents (chans p ?c) = EPOLLIN" using p(3) by force
  moreover have "wakeup_registered (poll_returns now (Ready es) r)"
    using p(1,2) inv by (auto simp: reactor_inv_def wakeup_registered_def poll_returns_def Let_def)
  ultimately show "reactor_inv (poll_returns now (Ready es) r)"
    using p(1,4,5) inv dis by (simp add: reactor_inv_def dispatch_ok_def poll_returns_def unvisited_def)
  have "?c \<in> set (map snd es) \<longrightarrow> 0 < wakeupCount (evloop r)" using wake by force
  then show "loop_step K (evloop r) (evloop (poll_returns now (Ready es) r))"
    using loop_step.poll [OF pc, of "?c \<in> set (map snd es)"] p(1) by (simp add: poll_returns_def)
qed

lemma visit_next_ok:
  assumes inv: "reactor_inv r" and pc: "pc (evloop r) = Handling w" and "calls r = []" and "visited r < length (activeChannels r)"
  shows "reactor_inv (visit_next alive r)" and "evloop (visit_next alive r) = evloop r"
proof -
  let ?c = "wakeupChannel r" and ?d = "activeChannels r ! visited r" and ?us = "drop (Suc (visited r)) (activeChannels r)"
  have un: "unvisited r = ?d # ?us" using assms(4) by (simp add: unvisited_def Cons_nth_drop_Suc)
  have dis: "?d \<notin> set ?us" using inv un by (metis dispatch_ok_def distinct.simps(2) distinct_drop reactor_inv_def unvisited_def)
  have wake: "Channel_handleEvent alive (chans (loop_poller r) ?c) = [Read_cb]" if "?c \<in> set (unvisited r)"
    using inv that
    by (simp add: reactor_inv_def wakeup_registered_def dispatch_ok_def Channel_handleEvent_def Channel_handleEventWithGuard_def
        EPOLLIN_def EPOLLPRI_def EPOLLHUP_def EPOLLERR_def EPOLLOUT_def Let_def)
  show "reactor_inv (visit_next alive r)"
    using inv assms(2-4) un dis wake
    by (cases "?d = ?c") (auto simp: reactor_inv_def dispatch_ok_def wakeup_registered_def visit_next_def unvisited_def Let_def)
  show "evloop (visit_next alive r) = evloop r" by (simp add: visit_next_def Let_def)
qed

text \<open>Client code changes the queue and the poller only, never the dispatch under way.\<close>

lemma client_call_ok:
  assumes ctl: "epoll_ctl_spec ctl" and call: "client_call K ctl r r'" and inv: "reactor_inv r"
  shows "reactor_inv r'"
proof -
  have k: "poller_inv (loop_poller r')" "chans (loop_poller r') (wakeupChannel r) = chans (loop_poller r) (wakeupChannel r)"
      "r' = r\<lparr>loop_poller := loop_poller r', evloop := evloop r'\<rparr>" "pc (evloop r') = pc (evloop r)"
      "events_size (loop_poller r') = events_size (loop_poller r)"
    using client_call_keeps [OF ctl call] inv by (auto simp: reactor_inv_def)
  then have same: "wakeupChannel r' = wakeupChannel r" "wakeupFd r' = wakeupFd r" "activeChannels r' = activeChannels r"
      "visited r' = visited r" "calls r' = calls r" "timerQueue r' = timerQueue r"
    by (metis Reactor.ext_inject Reactor.surjective Reactor.update_convs(1,2))+
  show ?thesis using inv k(1,2,4,5) same by (simp add: reactor_inv_def wakeup_registered_def dispatch_ok_def unvisited_def)
qed

lemma client_call_loop:
  assumes "client_call K ctl r r'" and "(\<exists>w. pc (evloop r) = Handling w) \<or> (\<exists>fs. pc (evloop r) = Running fs)"
  shows "(loop_step K)\<^sup>*\<^sup>* (evloop r) (evloop r')"
  using assms by cases (auto intro: loop_step.intros)

lemma on_loop_inv:
  assumes "reactor_inv r" and "pc (f (evloop r)) = pc (evloop r) \<or>
     unvisited r = [] \<and> calls r = [] \<and> (\<forall>w. pc (f (evloop r)) \<noteq> Handling w)"
  shows "reactor_inv (on_loop f r)"
proof -
  have "poller_inv (loop_poller r)" "wakeup_registered r" "timerQueue r = None" "0 < events_size (loop_poller r)"
    using assms(1) by (simp_all add: reactor_inv_def)
  moreover have "dispatch_ok (on_loop f r)" using assms by (elim disjE) (simp_all add: reactor_inv_def dispatch_ok_def unvisited_def)
  ultimately show ?thesis by (simp add: reactor_inv_def wakeup_registered_def)
qed

lemma reactor_idle:
  assumes "reactor_inv r" and "\<And>w. pc (evloop r) \<noteq> Handling w"
  shows "unvisited r = []" and "calls r = []"
  using assms by (auto simp: reactor_inv_def dispatch_ok_def)

lemma reactor_step_ok:
  assumes ctl: "epoll_ctl_spec ctl" and inv: "reactor_inv r" and step: "reactor_step K ctl r r'"
  shows "reactor_inv r' \<and> (loop_step K)\<^sup>*\<^sup>* (evloop r) (evloop r')"
  using step
proof cases
  case call
  then show ?thesis
    using on_loop_inv [OF inv, of loop_begin] reactor_idle [OF inv] loop_step.call [of "evloop r" K] by (auto simp: loop_begin_def)
next
  case test
  note idle = reactor_idle [OF inv] test(2)
  have "loop_step K (evloop r) (loop_test (evloop r))" using test(2) by (rule loop_step.test)
  moreover have "reactor_inv (on_loop loop_test r)" using on_loop_inv [OF inv, of loop_test] idle by (simp add: loop_test_def)
  then have "reactor_inv (loop_turn r)"
    by (auto simp: loop_turn_def Let_def reactor_inv_def wakeup_registered_def dispatch_ok_def unvisited_def loop_test_def)
  ultimately show ?thesis using test(1) by (auto simp: loop_turn_def Let_def)
next
  case (poll es now)
  then show ?thesis using poll_returns_ok [OF inv poll(2,3)] by auto
next
  case (poll_fails now errno)
  have "reactor_inv r'" using inv poll_fails
    by (simp add: poll_returns_def EPollPoller_poll_def reactor_inv_def wakeup_registered_def dispatch_ok_def unvisited_def)
  then show ?thesis
    using poll_fails loop_step.poll [of "evloop r" False K] by (auto simp: poll_returns_def EPollPoller_poll_def)
next
  case (visit w alive)
  then show ?thesis using visit_next_ok [OF inv visit(2-4)] by auto
next
  case (wakeup_read w cs)
  have w: "w" "cs = []" "wakeupChannel r \<notin> set (unvisited r)" using inv wakeup_read(2,3) by (auto simp: reactor_inv_def dispatch_ok_def)
  then have "reactor_inv r'" using inv wakeup_read
    by (auto simp: reactor_inv_def wakeup_registered_def dispatch_ok_def unvisited_def EventLoop_handleWakeupRead_def)
  moreover have "loop_step K (evloop r) (evloop r')" using wakeup_read w loop_step.wakeup_read [of "evloop r" K] by simp
  ultimately show ?thesis by blast
next
  case (handler_acts w c cb cs)
  then show ?thesis using client_call_ok [OF ctl _ inv] client_call_loop by blast
next
  case (handler_returns w c cb cs)
  then have "reactor_inv r'" using inv
    by (auto simp: reactor_inv_def wakeup_registered_def dispatch_ok_def unvisited_def)
  then show ?thesis using handler_returns(1) by simp
next
  case (enter w)
  have un: "unvisited r = []" using enter by (simp add: unvisited_def)
  then have "\<not> w" using inv enter by (auto simp: reactor_inv_def dispatch_ok_def)
  then show ?thesis
    using on_loop_inv [OF inv, of doPendingFunctors_enter] un enter loop_step.enter [of "evloop r" K] by (auto simp: doPendingFunctors_enter_def)
next
  case swap
  then show ?thesis
    using on_loop_inv [OF inv, of doPendingFunctors_swap] reactor_idle [OF inv] loop_step.swap [of "evloop r" K]
    by (auto simp: doPendingFunctors_swap_def)
next
  case (functor_call f fs)
  then show ?thesis
    using on_loop_inv [OF inv, of "\<lambda>l. l\<lparr>pc := Running fs, executed := executed l @ [f]\<rparr>"] reactor_idle [OF inv]
      loop_step.functor_call [of "evloop r" f fs K] by auto
next
  case (functor_acts fs)
  then show ?thesis using client_call_ok [OF ctl _ inv] client_call_loop by blast
next
  case leave
  then show ?thesis
    using on_loop_inv [OF inv, of doPendingFunctors_leave] reactor_idle [OF inv] loop_step.leave [of "evloop r" K]
    by (auto simp: doPendingFunctors_leave_def)
next
  case (other_push cb)
  then show ?thesis
    using on_loop_inv [OF inv, of "\<lambda>l. (queueInLoop_push l cb)\<lparr>queuers := queuers l + 1\<rparr>"] loop_step.other_push [of K "evloop r" cb]
    by (auto simp: queueInLoop_push_def)
next
  case other_notify
  then show ?thesis
    using on_loop_inv [OF inv, of "\<lambda>l. (queueInLoop_notify K False l)\<lparr>queuers := queuers l - 1\<rparr>"] loop_step.other_notify [of "evloop r" K]
    by (auto simp: queueInLoop_notify_def EventLoop_wakeup_def)
next
  case other_quit
  then show ?thesis
    using on_loop_inv [OF inv, of "\<lambda>l. (quit_flag l)\<lparr>quitters := quitters l + 1\<rparr>"] loop_step.other_quit [of K "evloop r"]
    by (auto simp: quit_flag_def)
next
  case other_quit_notify
  then show ?thesis
    using on_loop_inv [OF inv, of "\<lambda>l. (EventLoop_wakeup K l)\<lparr>quitters := quitters l - 1\<rparr>"] loop_step.other_quit_notify [of "evloop r" K]
    by (auto simp: EventLoop_wakeup_def)
qed

interpretation reactor: simulation
  "\<lambda>r r'. epoll_ctl_spec ctl \<and> reactor_step K ctl r r'" reactor_inv "loop_step K" evloop for K ctl
  by unfold_locales (auto dest: reactor_step_ok)

section \<open>Construction and destruction\<close>

lemma EventLoop_construct_eq:
  assumes "epoll_ctl_spec ctl" and "\<forall>c. index (chan_memory env c) = kNew"
    and "\<not> MUDUO_USE_POLL env" and "0 \<le> epoll_create1 env" and "0 \<le> eventfd_call env"
  defines "p \<equiv> set_chan (EPollPoller_new (chan_memory env)) (new_channel env) ((Channel_new (eventfd_call env))\<lparr>readCallback := True\<rparr>)"
  shows "EventLoop_construct ctl env None =
      Inr (\<lparr>evloop = EventLoop_new, loop_poller = with_reg p (new_channel env) kReadEvent kAdded, timerQueue = None,
         wakeupFd = eventfd_call env, wakeupChannel = new_channel env, threadId = current_tid env, pollReturnTime = Timestamp 0,
         activeChannels = [], visited = 0, calls = []\<rparr>, Some (this_loop env))"
    and "poller_inv p" and "usable p (new_channel env)"
proof -
  show inv: "poller_inv p" and us: "usable p (new_channel env)"
    using assms(2) by (auto simp: p_def poller_inv_def usable_def set_chan_def EPollPoller_new_def Channel_new_def kNew_def kAdded_def)
  have "Channel_enableReading ctl p (new_channel env) = Inr (with_reg p (new_channel env) kReadEvent kAdded)"
    using set_events_eq [OF assms(1) inv us, of kReadEvent]
    by (simp add: Channel_enableReading_def p_def set_chan_def Channel_new_def kReadEvent_def EPOLLIN_def EPOLLPRI_def kNew_def kAdded_def)
  then show "EventLoop_construct ctl env None = Inr (\<lparr>evloop = EventLoop_new, loop_poller = with_reg p (new_channel env) kReadEvent kAdded,
      timerQueue = None, wakeupFd = eventfd_call env, wakeupChannel = new_channel env, threadId = current_tid env, pollReturnTime = Timestamp 0,
      activeChannels = [], visited = 0, calls = []\<rparr>, Some (this_loop env))"
    using assms(3-5)
    by (simp add: EventLoop_construct_def Poller_newDefaultPoller_def EPollPoller_construct_def createEventfd_def p_def Let_def)
qed

lemma EventLoop_construct_inv:
  assumes ctl: "epoll_ctl_spec ctl" and mem: "\<forall>c. index (chan_memory env c) = kNew"
    and run: "EventLoop_construct ctl env None = Inr (r, t)"
  shows "reactor_inv r \<and> evloop r = EventLoop_new"
proof -
  have ok: "\<not> MUDUO_USE_POLL env" "0 \<le> epoll_create1 env" "0 \<le> eventfd_call env"
    using run by (auto simp: EventLoop_construct_def Poller_newDefaultPoller_def EPollPoller_construct_def createEventfd_def
        andthen_Inr_iff split: if_splits)
  note e = EventLoop_construct_eq [OF ctl mem ok]
  have "reactor_inv r" using run with_reg_inv [OF e(2,3), of kAdded kReadEvent] unfolding e(1)
    by (auto simp: reactor_inv_def wakeup_registered_def dispatch_ok_def unvisited_def set_chan_def Channel_new_def EventLoop_new_def Let_def
        with_reg_size EPollPoller_new_def kInitEventListSize_def)
  then show ?thesis using run unfolding e(1) by auto
qed

lemma reactor_reach_ok:
  assumes ctl: "epoll_ctl_spec ctl" and reach: "reactor_reach K ctl r"
  shows "reactor_inv r" and "loop_reach K (evloop r)"
proof -
  obtain env r0 t where r0: "\<forall>c. index (chan_memory env c) = kNew" "EventLoop_construct ctl env None = Inr (r0, t)"
      and runs: "(reactor_step K ctl)\<^sup>*\<^sup>* r0 r" using reach by (auto simp: reactor_reach_def)
  have new: "reactor_inv r0" "evloop r0 = EventLoop_new" using EventLoop_construct_inv [OF ctl r0] by auto
  have runs': "(\<lambda>r r'. epoll_ctl_spec ctl \<and> reactor_step K ctl r r')\<^sup>*\<^sup>* r0 r" using runs ctl by simp
  show "reactor_inv r" using reactor.inv_runs [OF runs' new(1)] .
  show "loop_reach K (evloop r)"
    using loop_reach_runs [OF reactor.spec_runs [OF runs' new(1)]] new(2) by (simp add: loop_reach.new)
qed

section \<open>A whole turn\<close>

text \<open>What handlers and functors do is a sequence of calls of the loop's interface.\<close>

definition client :: "eventfd \<Rightarrow> epoll_ctl_call \<Rightarrow> ('f Reactor \<Rightarrow> 'f Reactor) \<Rightarrow> bool" where
  "client K ctl f \<longleftrightarrow> (\<forall>r. (client_call K ctl)\<^sup>*\<^sup>* r (f r))"

text \<open>\<open>later r r'\<close>: in the same dispatch, with nothing called and perhaps more queued.\<close>

definition later :: "'f Reactor \<Rightarrow> 'f Reactor \<Rightarrow> bool" where
  "later r r' \<longleftrightarrow> wakeupChannel r' = wakeupChannel r \<and> activeChannels r' = activeChannels r \<and> executed (evloop r') = executed (evloop r) \<and>
     (\<exists>qs. pendingFunctors (evloop r') = pendingFunctors (evloop r) @ qs)"

lemma later_refl [simp]: "later r r"
  by (simp add: later_def)

lemma later_trans: "later r r' \<Longrightarrow> later r' r'' \<Longrightarrow> later r r''"
  by (auto simp: later_def)

lemma client_call_same:
  assumes "client_call K ctl r r'"
  shows "later r r' \<and> visited r' = visited r \<and> calls r' = calls r \<and> pc (evloop r') = pc (evloop r)"
  using assms by cases (auto simp: later_def loop_op_defs)

text \<open>A handler or functor that runs to its end, seen as steps of the loop.\<close>

lemma client_runs:
  assumes "(client_call K ctl)\<^sup>*\<^sup>* r r'"
    and act: "\<And>s s'. pc (evloop s) = pc (evloop r) \<Longrightarrow> calls s = calls r \<Longrightarrow> wakeupChannel s = wakeupChannel r \<Longrightarrow>
      client_call K ctl s s' \<Longrightarrow> reactor_step K ctl s s'"
  shows "(reactor_step K ctl)\<^sup>*\<^sup>* r r' \<and> later r r' \<and> visited r' = visited r \<and> calls r' = calls r \<and> pc (evloop r') = pc (evloop r)"
  using assms(1)
proof (induction rule: rtranclp_induct)
  case (step s s')
  have "reactor_step K ctl s s'" using act step.IH step.hyps(2) by (auto simp: later_def)
  then show ?case using step.IH client_call_same [OF step.hyps(2)] later_trans
    by (metis rtranclp.rtrancl_into_rtrancl)
qed simp

lemma make_calls_run:
  assumes "\<forall>c cb. client K ctl (H c cb)" and "pc (evloop r) = Handling w" and "calls r = xs"
    and "\<forall>x \<in> set xs. fst x = wakeupChannel r \<longrightarrow> snd x = Read_cb"
  shows "(reactor_step K ctl)\<^sup>*\<^sup>* r (make_calls K H xs r) \<and> later r (make_calls K H xs r) \<and>
     visited (make_calls K H xs r) = visited r \<and> calls (make_calls K H xs r) = [] \<and>
     (\<exists>w. pc (evloop (make_calls K H xs r)) = Handling w)"
  using assms(2-4)
proof (induction xs arbitrary: r w)
  case (Cons x xs)
  let ?r = "(if x = (wakeupChannel r, Read_cb) then wakeup_call K r else H (fst x) (snd x) r)\<lparr>calls := xs\<rparr>"
  have "(reactor_step K ctl)\<^sup>*\<^sup>* r ?r \<and> later r ?r \<and> visited ?r = visited r \<and> (\<exists>w. pc (evloop ?r) = Handling w)"
  proof (cases "x = (wakeupChannel r, Read_cb)")
    case True
    then have "reactor_step K ctl r ?r" using reactor_step.wakeup_read [of r w xs K ctl] Cons.prems by simp
    then show ?thesis using True by (auto simp: later_def EventLoop_handleWakeupRead_def)
  next
    case False
    then have ne: "fst x \<noteq> wakeupChannel r" using Cons.prems(3) by (cases x) auto
    let ?h = "H (fst x) (snd x) r"
    have h: "(reactor_step K ctl)\<^sup>*\<^sup>* r ?h \<and> later r ?h \<and> visited ?h = visited r \<and> calls ?h = calls r \<and> pc (evloop ?h) = pc (evloop r)"
    proof (rule client_runs)
      show "(client_call K ctl)\<^sup>*\<^sup>* r ?h" using assms(1) by (simp add: client_def)
      show "reactor_step K ctl s s'" if "pc (evloop s) = pc (evloop r)" "calls s = calls r" "wakeupChannel s = wakeupChannel r"
          "client_call K ctl s s'" for s s'
        using that Cons.prems(1,2) ne by (intro reactor_step.handler_acts [of s w "fst x" "snd x" xs]) simp_all
    qed
    then have "reactor_step K ctl ?h (?h\<lparr>calls := xs\<rparr>)"
      using Cons.prems(1,2) ne by (intro reactor_step.handler_returns [of ?h w "fst x" "snd x"]) (simp_all add: later_def)
    then show ?thesis using False h Cons.prems(1) by (auto simp: later_def)
  qed
  then obtain w' where r: "(reactor_step K ctl)\<^sup>*\<^sup>* r ?r" "later r ?r" "visited ?r = visited r" "pc (evloop ?r) = Handling w'" by blast
  have "wakeupChannel ?r = wakeupChannel r" using r(2) by (simp add: later_def)
  then have "\<forall>x \<in> set xs. fst x = wakeupChannel ?r \<longrightarrow> snd x = Read_cb" using Cons.prems(3) by simp
  from Cons.IH [OF r(4) _ this] r show ?case using later_trans by (auto simp del: wakeup_call_def)
qed simp

lemma reactor_runs_inv:
  assumes "epoll_ctl_spec ctl" and "reactor_inv r" and "(reactor_step K ctl)\<^sup>*\<^sup>* r r'"
  shows "reactor_inv r'"
  using reactor.inv_runs [of ctl K r r'] assms by simp

lemma visit_all_run:
  assumes ctl: "epoll_ctl_spec ctl" and H: "\<forall>c cb. client K ctl (H c cb)" and "reactor_inv r" and "pc (evloop r) = Handling w"
    and "calls r = []" and "unvisited r = cs"
  shows "(reactor_step K ctl)\<^sup>*\<^sup>* r (visit_all K H alive cs r) \<and> later r (visit_all K H alive cs r) \<and>
     calls (visit_all K H alive cs r) = [] \<and> unvisited (visit_all K H alive cs r) = [] \<and>
     (\<exists>w. pc (evloop (visit_all K H alive cs r)) = Handling w)"
  using assms(3-)
proof (induction cs arbitrary: r w)
  case (Cons c cs)
  let ?v = "visit_next (alive c) r"
  let ?m = "make_calls K H (calls ?v) ?v"
  have lt: "visited r < length (activeChannels r)" using Cons.prems(4) by (metis drop_all leI list.distinct(1) unvisited_def)
  note v = visit_next_ok [OF Cons.prems(1-3) lt, of "alive c"]
  have step: "reactor_step K ctl r ?v" using Cons.prems(2,3) lt by (rule reactor_step.visit)
  have lv: "later r ?v" "visited ?v = Suc (visited r)" "activeChannels ?v = activeChannels r"
    by (simp_all add: later_def visit_next_def Let_def)
  have "\<forall>x \<in> set (calls ?v). fst x = wakeupChannel ?v \<longrightarrow> snd x = Read_cb"
    using v(1) by (force simp: reactor_inv_def dispatch_ok_def)
  from make_calls_run [OF H _ refl this, of w] obtain w'
    where m: "(reactor_step K ctl)\<^sup>*\<^sup>* ?v ?m" "later ?v ?m" "visited ?m = Suc (visited r)" "calls ?m = []" "pc (evloop ?m) = Handling w'"
    using v(2) Cons.prems(2) lv(2) by auto
  have "unvisited ?m = cs" using m(2,3) lv(3) Cons.prems(4) lt
    by (simp add: later_def unvisited_def) (metis Cons_nth_drop_Suc list.inject)
  from Cons.IH [OF reactor_runs_inv [OF ctl v(1) m(1)] m(5,4) this] show ?case
    using step m(1) later_trans [OF lv(1) m(2)] later_trans by (auto simp: Let_def intro: converse_rtranclp_into_rtranclp rtranclp_trans)
qed auto

lemma call_functors_run:
  assumes F: "\<forall>f. client K ctl (F f)" and "pc (evloop r) = Running fs"
  shows "(reactor_step K ctl)\<^sup>*\<^sup>* r (call_functors F fs r) \<and> pc (evloop (call_functors F fs r)) = Running [] \<and>
     executed (evloop (call_functors F fs r)) = executed (evloop r) @ fs"
  using assms(2)
proof (induction fs arbitrary: r)
  case (Cons f fs)
  let ?r = "on_loop (\<lambda>l. l\<lparr>pc := Running fs, executed := executed l @ [f]\<rparr>) r"
  have 1: "reactor_step K ctl r ?r" using Cons.prems by (rule reactor_step.functor_call)
  have "(client_call K ctl)\<^sup>*\<^sup>* ?r (F f ?r)" using F by (simp add: client_def)
  then have 2: "(reactor_step K ctl)\<^sup>*\<^sup>* ?r (F f ?r) \<and> later ?r (F f ?r) \<and> visited (F f ?r) = visited ?r \<and> calls (F f ?r) = calls ?r \<and>
      pc (evloop (F f ?r)) = pc (evloop ?r)"
    by (rule client_runs) (auto intro: reactor_step.functor_acts)
  then have "pc (evloop (F f ?r)) = Running fs" by simp
  from Cons.IH [OF this] 1 2 show ?case
    by (auto simp: later_def intro: converse_rtranclp_into_rtranclp rtranclp_trans simp del: on_loop_def) (simp_all add: later_def)
qed simp

lemma EventLoop_turn_run:
  fixes alive now
  assumes ctl: "epoll_ctl_spec ctl" and H: "\<forall>c cb. client K ctl (H c cb)" and F: "\<forall>f. client K ctl (F f)"
    and inv: "reactor_inv r" and pc: "pc (evloop r) = Polling" and rep: "kernel_reports r es"
  defines "r' \<equiv> EventLoop_turn K H F alive now (Ready es) r"
  shows "(reactor_step K ctl)\<^sup>*\<^sup>* r r' \<and> pc (evloop r') = Loop_head \<and> \<not> callingPendingFunctors (evloop r') \<and>
     (\<exists>qs. executed (evloop r') = executed (evloop r) @ pendingFunctors (evloop r) @ qs)"
proof -
  define p where "p = poll_returns now (Ready es) r"
  define v where "v = visit_all K H alive (activeChannels p) p"
  define s where "s = on_loop doPendingFunctors_swap (on_loop doPendingFunctors_enter v)"
  define c where "c = call_functors F (pendingFunctors (evloop v)) s"
  have 1: "reactor_step K ctl r p" unfolding p_def using pc rep by (rule reactor_step.poll)
  have p: "reactor_inv p" unfolding p_def by (rule poll_returns_ok(1) [OF inv pc rep])
  have p': "calls p = []" "unvisited p = activeChannels p" "executed (evloop p) = executed (evloop r)"
      "pendingFunctors (evloop p) = pendingFunctors (evloop r)" and "\<exists>w. pc (evloop p) = Handling w"
    by (simp_all add: p_def poll_returns_def unvisited_def split: prod.split)
  then obtain w where w: "pc (evloop p) = Handling w" by blast
  from visit_all_run [OF ctl H p w p'(1,2), where alive = alive] obtain w' qs
    where v: "(reactor_step K ctl)\<^sup>*\<^sup>* p v" "calls v = []" "unvisited v = []" "pc (evloop v) = Handling w'"
      "executed (evloop v) = executed (evloop r)" "pendingFunctors (evloop v) = pendingFunctors (evloop r) @ qs"
    using p'(3,4) by (auto simp: v_def later_def)
  have "visited v = length (activeChannels v)"
    using v(3) reactor_runs_inv [OF ctl p v(1)] by (simp add: unvisited_def reactor_inv_def dispatch_ok_def)
  then have 2: "reactor_step K ctl v (on_loop doPendingFunctors_enter v)" using v(2,4) by (intro reactor_step.enter)
  have 3: "reactor_step K ctl (on_loop doPendingFunctors_enter v) s"
    unfolding s_def by (rule reactor_step.swap) (simp add: doPendingFunctors_enter_def)
  have s: "running_functors (evloop s) = pendingFunctors (evloop v)" "pc (evloop s) = Running (pendingFunctors (evloop v))"
      "executed (evloop s) = executed (evloop v)"
    by (simp_all add: s_def running_functors_def doPendingFunctors_enter_def doPendingFunctors_swap_def)
  have c: "(reactor_step K ctl)\<^sup>*\<^sup>* s c" "pc (evloop c) = Running []" "executed (evloop c) = executed (evloop v) @ pendingFunctors (evloop v)"
    using call_functors_run [OF F s(2)] s(3) by (simp_all add: c_def)
  have 4: "reactor_step K ctl c (on_loop doPendingFunctors_leave c)" using c(2) by (rule reactor_step.leave)
  have r': "r' = on_loop doPendingFunctors_leave c"
    unfolding r'_def EventLoop_turn_def EventLoop_doPendingFunctors_def Let_def p_def [symmetric] v_def [symmetric] s_def [symmetric] s(1) c_def ..
  have "(reactor_step K ctl)\<^sup>*\<^sup>* r r'"
    using 1 v(1) 2 3 c(1) 4 unfolding r' by (meson converse_rtranclp_into_rtranclp rtranclp.rtrancl_into_rtrancl rtranclp_trans)
  then show ?thesis using c(3) v(5,6) by (auto simp: r' doPendingFunctors_leave_def)
qed

section \<open>Properties\<close>

text \<open>
  C5. The loop with its poller implements the model of the loop, so the wake-up reaches the kernel. In every interleaving of the loop's
  thread, of handlers and functors that use its interface in any way, and of other threads, the wake-up descriptor stays
  registered with epoll for reading. When the loop is blocked in \<open>poll\<close> while a functor is pending or \<open>quit\<close> was requested,
  the kernel can report the descriptor as readable at once, or the thread that queued or quit has still to write to it. And functors are
  called in the order in which they were queued, each once: the calls made, those under way and those pending are all that were queued.
\<close>

theorem EventLoop_wakeup_reaches_epoll:
  assumes "epoll_ctl_spec ctl" and "eventfd_spec K" and "reactor_reach K ctl r"
  shows "loop_reach K (evloop r) \<and> watched (loop_poller r) (wakeupChannel r) = Some kReadEvent \<and>
     submitted (evloop r) = executed (evloop r) @ running_functors (evloop r) @ pendingFunctors (evloop r) \<and>
     (pc (evloop r) = Polling \<and> pendingFunctors (evloop r) \<noteq> [] \<longrightarrow>
        kernel_reports r [(EPOLLIN, wakeupChannel r)] \<or> 0 < queuers (evloop r)) \<and>
     (pc (evloop r) = Polling \<and> quit (evloop r) \<longrightarrow>
        kernel_reports r [(EPOLLIN, wakeupChannel r)] \<or> 0 < quitters (evloop r))"
proof -
  note r = reactor_reach_ok [OF assms(1,3)]
  have "watched (loop_poller r) (wakeupChannel r) = Some kReadEvent"
    using r(1) watched_iff [of "loop_poller r"] by (simp add: reactor_inv_def wakeup_registered_def Let_def)
  moreover from this have "kernel_reports r [(EPOLLIN, wakeupChannel r)]" if "0 < wakeupCount (evloop r)"
    using that r(1) by (simp add: kernel_reports_def reactor_inv_def Suc_le_eq)
  ultimately show ?thesis using r(2) loop_reach_inv [OF r(2) assms(2)] by (auto simp: loop_inv_def will_swap_def)
qed

text \<open>
  C20. Once \<open>poll\<close> returns, whatever it reports, the loop's thread comes back to the head of the loop having called every functor
  that was pending, in order, followed only by functors that the handlers of this turn queued; functors queued meanwhile by the functors
  themselves stay pending, with the wake-up descriptor readable so that the next \<open>poll\<close> returns. This holds for any handlers and
  functors that use the interface of the loop.
\<close>

theorem EventLoop_turn_calls_pending:
  assumes "epoll_ctl_spec ctl" and "eventfd_spec K" and "\<forall>c cb. client K ctl (H c cb)" and "\<forall>f. client K ctl (F f)"
    and "reactor_reach K ctl r" and "pc (evloop r) = Polling" and "kernel_reports r es"
  shows "\<exists>r' qs. EventLoop_turn K H F alive now (Ready es) r = r' \<and> reactor_reach K ctl r' \<and>
     pc (evloop r') = Loop_head \<and> \<not> callingPendingFunctors (evloop r') \<and>
     executed (evloop r') = executed (evloop r) @ pendingFunctors (evloop r) @ qs \<and>
     (pendingFunctors (evloop r') \<noteq> [] \<longrightarrow> 0 < wakeupCount (evloop r') \<or> 0 < queuers (evloop r'))"
proof -
  let ?r = "EventLoop_turn K H F alive now (Ready es) r"
  note turn = EventLoop_turn_run [OF assms(1,3,4) reactor_reach_ok(1) [OF assms(1,5)] assms(6,7), where alive = alive and now = now]
  then have reach: "reactor_reach K ctl ?r" using assms(5) unfolding reactor_reach_def by (meson rtranclp_trans)
  have "loop_inv (evloop ?r)" using loop_reach_inv [OF reactor_reach_ok(2) [OF assms(1) reach] assms(2)] .
  then show ?thesis using turn reach by (auto simp: loop_inv_def will_swap_def)
qed

text \<open>
  C24. Construction succeeds exactly when epoll and eventfd descriptors were obtained, the environment does not ask for \<open>poll(2)\<close>, and
  the thread has no loop yet. A loop destroyed after any use leaves its poller without the wake-up channel and otherwise
  as it was, and the thread free to have another loop.
\<close>

theorem EventLoop_construct_destroy:
  assumes "epoll_ctl_spec ctl" and "\<forall>c. index (chan_memory env c) = kNew"
  shows "((\<exists>x. EventLoop_construct ctl env t = (Inr x :: ('f Reactor \<times> loop_addr option) result)) \<longleftrightarrow>
       \<not> MUDUO_USE_POLL env \<and> 0 \<le> epoll_create1 env \<and> 0 \<le> eventfd_call env \<and> t = None) \<and>
     (reactor_reach K ctl (r :: 'f Reactor) \<longrightarrow>
       (\<exists>p. EventLoop_destroy ctl r = Inr (p, None) \<and> poller_inv p \<and> \<not> Poller_hasChannel p (wakeupChannel r) \<and>
          watched p (wakeupChannel r) = None \<and>
          (\<forall>c. c \<noteq> wakeupChannel r \<longrightarrow> watched p c = watched (loop_poller r) c)))"
proof (intro conjI impI)
  show "(\<exists>x. EventLoop_construct ctl env t = (Inr x :: ('f Reactor \<times> loop_addr option) result)) \<longleftrightarrow>
       \<not> MUDUO_USE_POLL env \<and> 0 \<le> epoll_create1 env \<and> 0 \<le> eventfd_call env \<and> t = None" (is "?made \<longleftrightarrow> ?ok")
  proof (cases ?ok)
    case True
    then show ?thesis using EventLoop_construct_eq(1) [OF assms] by blast
  next
    case False
    then show ?thesis
      by (auto simp: EventLoop_construct_def Poller_newDefaultPoller_def EPollPoller_construct_def createEventfd_def andthen_def)
  qed
next
  assume "reactor_reach K ctl r"
  then have inv: "poller_inv (loop_poller r)" and i: "index (chans (loop_poller r) (wakeupChannel r)) = kAdded"
    using reactor_reach_ok(1) [OF assms(1)] by (auto simp: reactor_inv_def wakeup_registered_def Let_def)
  have "channels (loop_poller r) (ch_fd (chans (loop_poller r) (wakeupChannel r))) = Some (wakeupChannel r)"
    using poller_invD(2) [OF inv] i by simp
  then have us: "usable (loop_poller r) (wakeupChannel r)" by (simp add: usable_def)
  show "\<exists>p. EventLoop_destroy ctl r = Inr (p, None) \<and> poller_inv p \<and> \<not> Poller_hasChannel p (wakeupChannel r) \<and>
      watched p (wakeupChannel r) = None \<and> (\<forall>c. c \<noteq> wakeupChannel r \<longrightarrow> watched p c = watched (loop_poller r) c)"
  proof -
    let ?p1 = "with_reg (loop_poller r) (wakeupChannel r) 0 kDeleted"
    have k: "kDeleted = kNew \<or> kDeleted = kAdded \<or> kDeleted = kDeleted" by simp
    have "Channel_disableAll ctl (loop_poller r) (wakeupChannel r) = Inr ?p1"
      using set_events_eq [OF assms(1) inv us, of 0] i by (simp add: Channel_disableAll_def kNoneEvent_def)
    moreover obtain p where "Channel_remove ctl ?p1 (wakeupChannel r) = Inr p" "poller_inv p" "\<not> Poller_hasChannel p (wakeupChannel r)"
        "watched p (wakeupChannel r) = None" "\<forall>c. c \<noteq> wakeupChannel r \<longrightarrow> watched p c = watched ?p1 c"
      using ep.rem_ok [of ctl ?p1 "wakeupChannel r"] assms(1) with_reg_inv [OF inv us k] with_reg_view(4) [OF inv us k] by blast
    ultimately show ?thesis using with_reg_view(3) [OF inv us k, of _ 0] by (simp add: EventLoop_destroy_def)
  qed
qed

text \<open>
  C25. The object is well formed in every reachable state. Every channel is new, added or deleted; a registered channel is found under its own
  descriptor, and the kernel watches only registered channels, for their present events; the array for \<open>epoll_wait\<close> is never
  empty; the active channels are distinct and the dispatch stays within them, and there is a dispatch only between \<open>poll\<close> and the functors;
  \<open>callingPendingFunctors_\<close> is set exactly inside \<open>doPendingFunctors\<close>.
\<close>

theorem EventLoop_well_formed:
  assumes "epoll_ctl_spec ctl" and "eventfd_spec K" and "reactor_reach K ctl r"
  shows "(\<forall>c. index (chans (loop_poller r) c) \<in> {kNew, kAdded, kDeleted}) \<and>
     (\<forall>f c. channels (loop_poller r) f = Some c \<longrightarrow> ch_fd (chans (loop_poller r) c) = f) \<and>
     (\<forall>f e c. interest (loop_poller r) f = Some (e, c) \<longrightarrow>
        channels (loop_poller r) f = Some c \<and> e = events (chans (loop_poller r) c)) \<and>
     0 < events_size (loop_poller r) \<and> distinct (activeChannels r) \<and> visited r \<le> length (activeChannels r) \<and>
     (calls r \<noteq> [] \<or> visited r < length (activeChannels r) \<longrightarrow> (\<exists>w. pc (evloop r) = Handling w)) \<and>
     (callingPendingFunctors (evloop r) \<longleftrightarrow> pc (evloop r) = Swapping \<or> (\<exists>fs. pc (evloop r) = Running fs))"
proof -
  note r = reactor_reach_ok [OF assms(1,3)]
  have p: "poller_inv (loop_poller r)" "dispatch_ok r" "0 < events_size (loop_poller r)" using r(1) by (simp_all add: reactor_inv_def)
  have "loop_inv (evloop r)" using loop_reach_inv [OF r(2) assms(2)] .
  moreover have "interest (loop_poller r) f = Some (e, c) \<Longrightarrow> channels (loop_poller r) f = Some c \<and> e = events (chans (loop_poller r) c)" for f e c
    using poller_invD(2,3) [OF p(1)] by auto
  ultimately show ?thesis
    using p poller_invD(1,2) [OF p(1)] by (auto simp: dispatch_ok_def unvisited_def loop_inv_def)
qed

text \<open>
  No constructed loop can serve a timer: its pointer to the timer queue is null and nothing in the interface sets it, so
  \<open>runAt\<close>, \<open>runAfter\<close> and \<open>runEvery\<close> dereference a null pointer, whenever and from whatever thread they are called.
\<close>

theorem EventLoop_timers_null:
  assumes "epoll_ctl_spec ctl" and "reactor_reach K ctl r"
  shows "EventLoop_runAt malloc clock (isInLoopThread t r) (timerQueue r) when cb = Inl Null_deref \<and>
     EventLoop_runAfter malloc clock (isInLoopThread t r) (timerQueue r) when d cb = Inl Null_deref \<and>
     EventLoop_runEvery malloc clock (isInLoopThread t r) (timerQueue r) when d cb = Inl Null_deref"
  using reactor_reach_ok(1) [OF assms]
  by (simp add: reactor_inv_def EventLoop_runAt_def EventLoop_runAfter_def EventLoop_runEvery_def)

section \<open>Witnesses\<close>

definition example_env :: loop_env where
  "example_env = \<lparr>MUDUO_USE_POLL = False, epoll_create1 = 3, eventfd_call = 4, current_tid = 100, this_loop = 1, new_channel = 0,
     chan_memory = (\<lambda>c. Channel_new (int c))\<rparr>"

text \<open>A loop that blocks in \<open>poll\<close> while another thread queues the functor 7 and writes to the descriptor.\<close>

definition example_loop :: "nat Reactor" where
  "example_loop =
     (let r = fst (projr (EventLoop_construct kernel_ctl example_env None));
          r = loop_turn (on_loop loop_begin r);
          r = on_loop (\<lambda>l. (queueInLoop_push l 7)\<lparr>queuers := queuers l + 1\<rparr>) r in
      on_loop (\<lambda>l. (queueInLoop_notify linux_eventfd False l)\<lparr>queuers := queuers l - 1\<rparr>) r)"

lemma example_memory: "\<forall>c. index (chan_memory example_env c) = kNew"
  by (simp add: example_env_def Channel_new_def kNew_def)

lemma example_loop_ok:
  "reactor_reach linux_eventfd kernel_ctl example_loop" "pc (evloop example_loop) = Polling" "pendingFunctors (evloop example_loop) = [7]"
  "queuers (evloop example_loop) = 0" "executed (evloop example_loop) = []"
proof -
  let ?S = "reactor_step linux_eventfd kernel_ctl :: nat Reactor \<Rightarrow> _"
  obtain r :: "nat Reactor" and t where r: "EventLoop_construct kernel_ctl example_env None = Inr (r, t)"
    using EventLoop_construct_eq(1) [OF kernel_ctl_spec example_memory] by (simp add: example_env_def)
  have new: "evloop r = EventLoop_new" using EventLoop_construct_inv [OF kernel_ctl_spec example_memory r] ..
  define r1 where "r1 = loop_turn (on_loop loop_begin r)"
  define r2 where "r2 = on_loop (\<lambda>l. (queueInLoop_push l 7)\<lparr>queuers := queuers l + 1\<rparr>) r1"
  define r3 where "r3 = on_loop (\<lambda>l. (queueInLoop_notify linux_eventfd False l)\<lparr>queuers := queuers l - 1\<rparr>) r2"
  have e: "example_loop = r3" by (simp add: example_loop_def r Let_def r3_def r2_def r1_def del: on_loop_def)
  have "?S r (on_loop loop_begin r)" by (rule reactor_step.call) (simp add: new EventLoop_new_def)
  moreover have "?S (on_loop loop_begin r) r1" unfolding r1_def by (rule reactor_step.test) (simp add: loop_begin_def)
  moreover have "?S r1 r2" unfolding r2_def by (rule reactor_step.other_push)
  moreover have "?S r2 r3" unfolding r3_def by (rule reactor_step.other_notify) (simp add: r2_def)
  ultimately have "?S\<^sup>*\<^sup>* r r3" by (meson converse_rtranclp_into_rtranclp r_into_rtranclp)
  then show "reactor_reach linux_eventfd kernel_ctl example_loop" using r example_memory e by (auto simp: reactor_reach_def)
  show "pc (evloop example_loop) = Polling" "pendingFunctors (evloop example_loop) = [7]"
    "queuers (evloop example_loop) = 0" "executed (evloop example_loop) = []"
    by (simp_all add: e r3_def r2_def r1_def loop_turn_def new loop_op_defs EventLoop_new_def Let_def)
qed

theorem EventLoop_wakeup_reaches_epoll_witness:
  "reactor_reach linux_eventfd kernel_ctl example_loop \<and> pendingFunctors (evloop example_loop) = [7] \<and>
   kernel_reports example_loop [(EPOLLIN, wakeupChannel example_loop)]"
  using EventLoop_wakeup_reaches_epoll [OF kernel_ctl_spec linux_eventfd_spec example_loop_ok(1)] example_loop_ok by simp

theorem EventLoop_well_formed_witness:
  "reactor_reach linux_eventfd kernel_ctl example_loop \<and> 0 < events_size (loop_poller example_loop) \<and>
   \<not> callingPendingFunctors (evloop example_loop)"
  using EventLoop_well_formed [OF kernel_ctl_spec linux_eventfd_spec example_loop_ok(1)] example_loop_ok(1,2) by simp

text \<open>Handlers that do nothing, and functors that queue their successor once.\<close>

definition example_functor :: "nat \<Rightarrow> nat Reactor \<Rightarrow> nat Reactor" where
  "example_functor f r = (if f = 7 then r\<lparr>evloop := EventLoop_queueInLoop linux_eventfd True (evloop r) 8\<rparr> else r)"

theorem EventLoop_turn_calls_pending_witness:
  "\<exists>r' qs. EventLoop_turn linux_eventfd (\<lambda>c cb r. r) example_functor (\<lambda>c. True) (Timestamp 1) (Ready []) example_loop = r' \<and>
     reactor_reach linux_eventfd kernel_ctl r' \<and> executed (evloop r') = 7 # qs"
proof -
  have H: "\<forall>(c :: chan) (cb :: callback). client linux_eventfd kernel_ctl (\<lambda>r :: nat Reactor. r)" by (simp add: client_def)
  have F: "\<forall>f. client linux_eventfd kernel_ctl (example_functor f)"
    using client_call.queue [of linux_eventfd kernel_ctl _ 8] by (auto simp: client_def example_functor_def)
  have rep: "kernel_reports example_loop []" by (simp add: kernel_reports_def)
  from EventLoop_turn_calls_pending [OF kernel_ctl_spec linux_eventfd_spec H F example_loop_ok(1,2) rep, of "\<lambda>c. True" "Timestamp 1"]
  show ?thesis using example_loop_ok by auto
qed

theorem EventLoop_construct_destroy_witness:
  "(\<exists>x. EventLoop_construct kernel_ctl example_env None = (Inr x :: (nat Reactor \<times> loop_addr option) result)) \<and>
   (\<exists>p. EventLoop_destroy kernel_ctl example_loop = Inr (p, None))"
  using EventLoop_construct_destroy [OF kernel_ctl_spec example_memory, of None linux_eventfd example_loop] example_loop_ok(1)
  by (auto simp: example_env_def)

theorem EventLoop_timers_null_witness:
  "EventLoop_runAt (\<lambda>_. Some 1) (\<lambda>_. Timestamp 0) True (timerQueue example_loop) (Timestamp 5) 7 = Inl Null_deref"
  using EventLoop_timers_null [OF kernel_ctl_spec example_loop_ok(1), of "\<lambda>_. Some 1" "\<lambda>_. Timestamp 0" "threadId example_loop" "Timestamp 5" 7]
  by (simp add: isInLoopThread_def)

end
