(* ===== verification/Net_EchoWorld.thy ===== *)
theory Net_EchoWorld
  imports Net_EchoServer
begin

unbundle bit_operations_syntax

text \<open>
  The whole echo server: \<open>EchoServer\<close> of \<open>src/main.cc\<close> running on the server of \<open>src/net/TcpServer.cc\<close>, with any number of
  connections spread over the loops of its threads. The runs carry, for every connection, the bytes that
  arrived on it. They are compared with an abstract echo service, which knows of a connection only what it
  received and what it sent back.
\<close>

section \<open>Runs of the echo server\<close>

text \<open>What \<open>readv\<close> delivers when the channel of the connection becomes readable, and the room that this needs.\<close>

definition delivered :: "io \<Rightarrow> TcpConnection \<Rightarrow> byte list" where
  "delivered k t = (case io_readv k (ch_fd (channel t)) (read_lens (inputBuffer t)) of Inl _ \<Rightarrow> [] | Inr bytes \<Rightarrow> bytes)"

definition read_room :: "io \<Rightarrow> TcpConnection \<Rightarrow> bool" where
  "read_room k t \<longleftrightarrow> length (buffer (inputBuffer t)) + 65536 \<le> vec_max \<and> Buffer_room (outputBuffer t) (length (delivered k t))"

definition io_ok :: "io \<Rightarrow> bool" where
  "io_ok k \<longleftrightarrow> readv_spec (io_readv k) \<and> write_spec (io_write k) \<and> no_reset (io_write k)"

type_synonym received = "conn \<Rightarrow> byte list"

definition reported :: "world \<Rightarrow> conn \<Rightarrow> conn_obj \<Rightarrow> event_mask \<Rightarrow> callback list" where
  "reported w c ob r = Channel_handleEvent True (chans (pollers w (conn_loop ob)) c\<lparr>revents := r\<rparr>)"

definition echo_event :: "epoll_ctl_call \<Rightarrow> io \<Rightarrow> conn \<Rightarrow> world \<Rightarrow> callback list \<Rightarrow> world result" where
  "echo_event ctl k c w cbs = run_callbacks ctl k (EchoServer_onMessage ctl (io_write k)) c w cbs"

inductive echo_step :: "epoll_ctl_call \<Rightarrow> world \<Rightarrow> received \<Rightarrow> world \<Rightarrow> received \<Rightarrow> bool" for ctl where
  accepted: "fresh_fd w f \<Longrightarrow> nextConnId (server w) < 2 ^ 31 - 1 \<Longrightarrow>
     Acceptor_handleRead ctl (Inr (f, peer)) w = Inr w' \<Longrightarrow> echo_step ctl w rc w' rc"
| not_accepted: "Acceptor_handleRead ctl (Inl err) w = Inr w' \<Longrightarrow> echo_step ctl w rc w' rc"
| called: "queue w l = f # fs \<Longrightarrow> run_functor ctl (w\<lparr>queue := (queue w)(l := fs)\<rparr>) f = Inr w' \<Longrightarrow> echo_step ctl w rc w' rc"
| event: "objs w c = Some ob \<Longrightarrow> watched (pollers w (conn_loop ob)) c \<noteq> None \<Longrightarrow> hup_ok r \<Longrightarrow> io_ok k \<Longrightarrow>
     (Read_cb \<in> set (reported w c ob r) \<Longrightarrow> read_room k (load w ob)) \<Longrightarrow>
     echo_event ctl k c w (reported w c ob r) = Inr w' \<Longrightarrow>
     echo_step ctl w rc w' (if Read_cb \<in> set (reported w c ob r) then rc(c := rc c @ delivered k (load w ob)) else rc)"

inductive echo_runs :: "epoll_ctl_call \<Rightarrow> world \<Rightarrow> world \<Rightarrow> received \<Rightarrow> bool" for ctl w0 where
  start: "echo_runs ctl w0 w0 (\<lambda>_. [])"
| step: "echo_runs ctl w0 w rc \<Longrightarrow> echo_step ctl w rc w' rc' \<Longrightarrow> echo_runs ctl w0 w' rc'"

definition echo_up :: "epoll_ctl_call \<Rightarrow> (string \<Rightarrow> size_t) \<Rightarrow> (nat \<Rightarrow> loop) \<Rightarrow> loop \<Rightarrow> int \<Rightarrow> InetAddress \<Rightarrow> string \<Rightarrow> world result" where
  "echo_up ctl hashFunc new_loop l s addr name =
     andthen (EchoServer_new hashFunc s True (Some l) addr name) (EchoServer_start ctl (\<lambda>i. Inr (new_loop i)) True)"

section \<open>One connection\<close>

text \<open>
  What every connection of the echo server satisfies: it has echoed what it received, up to the bytes that are still
  pending, nobody has shut it down, and it has queued no functor of its own.
\<close>

definition quiet :: "TcpConnection \<Rightarrow> bool" where
  "quiet t \<longleftrightarrow> state t \<noteq> kDisconnecting \<and> \<not> writeCompleteCallback t \<and> \<not> highWaterMarkCallback t \<and> (\<forall>f. Queue f \<notin> set (effects t))"

text \<open>The four callbacks of the channel stay those that the constructor set.\<close>

definition hooked :: "TcpConnection \<Rightarrow> bool" where
  "hooked t \<longleftrightarrow> readCallback (channel t) \<and> writeCallback (channel t) \<and> closeCallback (channel t) \<and> errorCallback (channel t)"

definition echo_obj :: "TcpConnection \<Rightarrow> byte list \<Rightarrow> bool" where
  "echo_obj t rcv \<longleftrightarrow> echo_inv t rcv \<and> quiet t \<and> hooked t \<and>
     (state t = kConnecting \<longrightarrow> rcv = [] \<and> effects t = [] \<and> \<not> Channel_isWriting (channel t))"

definition grown :: "TcpConnection \<Rightarrow> TcpConnection \<Rightarrow> bool" where
  "grown t t' \<longleftrightarrow> (\<exists>bs. wire t' = wire t @ bs) \<and> writeCompleteCallback t' = writeCompleteCallback t \<and>
     highWaterMarkCallback t' = highWaterMarkCallback t \<and>
     (\<not> writeCompleteCallback t \<and> \<not> highWaterMarkCallback t \<longrightarrow> (\<forall>f. Queue f \<in> set (effects t') \<longrightarrow> Queue f \<in> set (effects t)))"

lemma grown_refl [simp]: "grown t t"
  by (simp add: grown_def)

lemma grown_trans: "grown t t1 \<Longrightarrow> grown t1 t2 \<Longrightarrow> grown t t2"
  by (auto simp: grown_def)

lemma grown_update [simp]:
  "(\<forall>f. e \<noteq> Queue f) \<Longrightarrow> grown t (emit e t)" "grown t (setState s t)" "grown t (t\<lparr>inputBuffer := ib\<rparr>)" "grown t (t\<lparr>outputBuffer := ib\<rparr>)"
  "grown t (t\<lparr>wire := wire t @ bs\<rparr>)" "writeCompleteCallback t \<Longrightarrow> grown t (emit (Queue WriteComplete_fn) t)"
  "highWaterMarkCallback t \<Longrightarrow> grown t (emit (Queue (HighWaterMark_fn n)) t)"
  by (auto simp: grown_def setState_def)

lemma close_grown: "TcpConnection_handleClose ctl t = Inr t' \<Longrightarrow> grown t t'"
  by (auto simp: TcpConnection_handleClose_def andthen_Inr_iff on_channel_def grown_def setState_def)

lemma established_grown: "TcpConnection_connectEstablished ctl t = Inr t' \<Longrightarrow> grown t t'"
  by (auto simp: TcpConnection_connectEstablished_def andthen_Inr_iff on_channel_def grown_def setState_def)

lemma handleWrite_grown: "TcpConnection_handleWrite ctl wr t = Inr t' \<Longrightarrow> grown t t'"
  by (auto simp: TcpConnection_handleWrite_def TcpConnection_shutdownInLoop_def Let_def andthen_Inr_iff on_channel_def grown_def
      split: if_splits prod.splits)

lemma send_grown: "TcpConnection_send ctl wr True t bs = Inr t' \<Longrightarrow> grown t t'"
  by (auto simp: TcpConnection_send_def TcpConnection_sendInLoop_def send_direct_def send_rest_def Let_def andthen_Inr_iff on_channel_def
      grown_def split: if_splits sum.splits)

lemma onMessage_grown: "EchoServer_onMessage ctl wr t = Inr t' \<Longrightarrow> grown t t'"
  unfolding EchoServer_onMessage_def andthen_Inr_iff by (auto intro: grown_trans [OF grown_update(3) send_grown])

lemma quiet_grown: "quiet t \<Longrightarrow> grown t t' \<Longrightarrow> state t' \<noteq> kDisconnecting \<Longrightarrow> quiet t'"
  by (auto simp: quiet_def grown_def)

lemma set_events_hooks:
  assumes "Channel_set_events ctl p c ev = Inr p'"
  shows "readCallback (chans p' d) = readCallback (chans p d)" "writeCallback (chans p' d) = writeCallback (chans p d)"
    "closeCallback (chans p' d) = closeCallback (chans p d)" "errorCallback (chans p' d) = errorCallback (chans p d)"
  using assms by (auto simp: Channel_set_events_def EPollPoller_updateChannel_def EPollPoller_update_def set_index_def set_chan_def Let_def
      split: if_splits option.splits sum.splits)

lemma on_channel_hooked:
  assumes "on_channel f t = Inr t'" and "\<And>p c p'. f p c = Inr p' \<Longrightarrow> \<exists>ev. Channel_set_events ctl p c ev = Inr p'"
  shows "hooked t' = hooked t"
  using assms set_events_hooks by (fastforce simp: on_channel_def andthen_Inr_iff hooked_def)

lemma channel_hooked:
  "on_channel (Channel_enableReading ctl) t = Inr t' \<Longrightarrow> hooked t' = hooked t"
  "on_channel (Channel_enableWriting ctl) t = Inr t' \<Longrightarrow> hooked t' = hooked t"
  "on_channel (Channel_disableWriting ctl) t = Inr t' \<Longrightarrow> hooked t' = hooked t"
  "on_channel (Channel_disableAll ctl) t = Inr t' \<Longrightarrow> hooked t' = hooked t"
  unfolding Channel_enableReading_def Channel_enableWriting_def Channel_disableWriting_def Channel_disableAll_def
  by (erule on_channel_hooked; blast)+

lemma hooked_simps [simp]:
  "hooked (emit e t) = hooked t" "hooked (setState s t) = hooked t" "hooked (t\<lparr>inputBuffer := ib\<rparr>) = hooked t"
  "hooked (t\<lparr>outputBuffer := ib\<rparr>) = hooked t" "hooked (t\<lparr>wire := bs\<rparr>) = hooked t"
  "hooked ((setState s t)\<lparr>poller := set_chan (poller t) (chan t) (Channel_tie (channel t))\<rparr>) = hooked t"
  by (simp_all add: hooked_def setState_def set_chan_def Channel_tie_def)

lemma close_hooked: "TcpConnection_handleClose ctl t = Inr t' \<Longrightarrow> hooked t' = hooked t"
  by (auto simp: TcpConnection_handleClose_def andthen_Inr_iff dest!: channel_hooked)

lemma established_hooked: "TcpConnection_connectEstablished ctl t = Inr t' \<Longrightarrow> hooked t' = hooked t"
  by (auto simp: TcpConnection_connectEstablished_def Let_def andthen_Inr_iff dest!: channel_hooked)

lemma handleWrite_hooked: "TcpConnection_handleWrite ctl wr t = Inr t' \<Longrightarrow> hooked t' = hooked t"
  by (auto simp: TcpConnection_handleWrite_def TcpConnection_shutdownInLoop_def Let_def andthen_Inr_iff
      split: if_splits prod.splits dest!: channel_hooked)

lemma send_hooked: "TcpConnection_send ctl wr True t bs = Inr t' \<Longrightarrow> hooked t' = hooked t"
  by (auto simp: TcpConnection_send_def TcpConnection_sendInLoop_def send_direct_def send_rest_def Let_def andthen_Inr_iff
      split: if_splits sum.splits dest!: channel_hooked)

lemma onMessage_hooked: "EchoServer_onMessage ctl wr t = Inr t' \<Longrightarrow> hooked t' = hooked t"
  by (auto simp: EchoServer_onMessage_def andthen_Inr_iff dest!: send_hooked)

text \<open>The invariant of a connection depends on the poller only through its own channel.\<close>

lemma echo_obj_poller:
  assumes "echo_obj t rcv" and "poller_inv p" and "usable p (chan t)" and "chans p (chan t) = channel t"
  shows "echo_obj (t\<lparr>poller := p\<rparr>) rcv"
proof -
  let ?t = "t\<lparr>poller := p\<rparr>"
  have ch: "channel ?t = channel t" using assms(4) by simp
  have same: "wire ?t = wire t" "outputBuffer ?t = outputBuffer t" "inputBuffer ?t = inputBuffer t" "state ?t = state t"
      "effects ?t = effects t" "writeCompleteCallback ?t = writeCompleteCallback t" "highWaterMarkCallback ?t = highWaterMarkCallback t"
    by simp_all
  have inv: "conn_inv t rcv" using assms(1) by (simp add: echo_obj_def echo_inv_def)
  then have base: "conn_base ?t" using assms(2,3) by (simp add: conn_inv_def conn_base_def)
  from inv have "conn_inv ?t rcv" unfolding conn_inv_def up_def ch same using base by blast
  then show ?thesis using assms(1) unfolding echo_obj_def echo_inv_def quiet_def hooked_def ch same by blast
qed

lemma new_echo_obj:
  assumes "poller_inv p" "index (chans p c) = kNew" "channels p f = None" and "TcpConnection_new p c f = Inr t"
  shows "echo_obj (TcpConnection_setWriteCompleteCallback False t) []"
proof -
  note new = new_conn [OF assms, of False]
  obtain b where b: "Buffer_new kInitialSize = Inr b" "Buffer_contents b = []" by (rule Buffer_new_wf [OF kInitialSize_room])
  have t: "inputBuffer t = b" "\<not> highWaterMarkCallback t" "hooked t"
    using assms(4) b(1) by (auto simp: TcpConnection_new_def hooked_def set_chan_def)
  have "conn_inv (TcpConnection_setWriteCompleteCallback False t) []" using new by (simp add: conn_inv_def up_def)
  then show ?thesis using new t b(2)
    by (simp add: echo_obj_def echo_inv_def quiet_def hooked_def TcpConnection_setWriteCompleteCallback_def)
qed

lemma established_echo_obj:
  assumes ctl: "epoll_ctl_spec ctl" and inv: "echo_obj t rcv" and st: "state t = kConnecting"
    and run: "TcpConnection_connectEstablished ctl t = Inr t'"
  shows "echo_obj t' rcv" and "state t' = kConnected"
proof -
  have new: "conn_base t" "wire t = []" "pending t = []" "effects t = []" "\<not> Channel_isWriting (channel t)" "rcv = []"
    using inv st by (auto simp: echo_obj_def echo_inv_def conn_inv_def)
  have t': "conn_inv t' []" "state t' = kConnected" using established_ok [OF ctl new(1-5)] run by auto
  have "inputBuffer t' = inputBuffer t"
    using run by (auto simp: TcpConnection_connectEstablished_def Let_def andthen_Inr_iff setState_def dest!: on_channel_input)
  then show "echo_obj t' rcv" "state t' = kConnected"
    using t' inv new(6) quiet_grown [OF _ established_grown [OF run]] established_hooked [OF run] by (auto simp: echo_obj_def echo_inv_def)
qed

text \<open>The part of a callback that concerns the connection alone, with the message callback behind it.\<close>

abbreviation conn_callback :: "epoll_ctl_call \<Rightarrow> io \<Rightarrow> callback \<Rightarrow> TcpConnection \<Rightarrow> TcpConnection result" where
  "conn_callback ctl k cb t \<equiv> (case cb of
            Close_cb \<Rightarrow> TcpConnection_handleClose ctl t
          | Error_cb \<Rightarrow> Inr (TcpConnection_handleError t)
          | Read_cb \<Rightarrow> TcpConnection_handleRead ctl (io_readv k) t
          | Write_cb \<Rightarrow> TcpConnection_handleWrite ctl (io_write k) t)"

abbreviation answer :: "epoll_ctl_call \<Rightarrow> io \<Rightarrow> TcpConnection \<Rightarrow> TcpConnection \<Rightarrow> TcpConnection result" where
  "answer ctl k t t1 \<equiv> (if MessageCallback \<in> news t t1 then EchoServer_onMessage ctl (io_write k) t1 else Inr t1)"

definition served :: "epoll_ctl_call \<Rightarrow> io \<Rightarrow> callback \<Rightarrow> TcpConnection \<Rightarrow> byte list \<Rightarrow> bool" where
  "served ctl k cb t rcv \<longleftrightarrow> (\<exists>t1 t2. conn_callback ctl k cb t = Inr t1 \<and> answer ctl k t t1 = Inr t2 \<and> own t t2 \<and> grown t t2 \<and>
     echo_obj t2 (rcv @ (if cb = Read_cb then delivered k t else [])) \<and>
     (cb \<noteq> Read_cb \<longrightarrow> inputBuffer t2 = inputBuffer t) \<and> (cb = Close_cb \<or> cb = Error_cb \<longrightarrow> outputBuffer t2 = outputBuffer t))"

lemma echo_objD:
  assumes "echo_obj t rcv"
  shows "conn_inv t rcv" "Buffer_contents (inputBuffer t) = []" "quiet t" "up t \<Longrightarrow> state t = kConnected" "up t \<Longrightarrow> registered t" "hooked t"
proof -
  have a: "echo_inv t rcv" "quiet t" using assms unfolding echo_obj_def by blast+
  then show c: "conn_inv t rcv" "Buffer_contents (inputBuffer t) = []" "quiet t" unfolding echo_inv_def by blast+
  show "up t \<Longrightarrow> state t = kConnected" using a(2) unfolding quiet_def up_def by blast
  show "up t \<Longrightarrow> registered t" using c(1) unfolding conn_inv_def registered_def by blast
  show "hooked t" using assms unfolding echo_obj_def by blast
qed

lemma conn_inv_input:
  assumes "conn_inv t acc" and "Buffer_wf ib"
  shows "conn_inv (t\<lparr>inputBuffer := ib\<rparr>) acc"
proof -
  have "conn_base (t\<lparr>inputBuffer := ib\<rparr>)" using assms by (simp add: conn_inv_def conn_base_def)
  then show ?thesis using assms(1) unfolding conn_inv_def up_def by simp
qed

lemma close_served:
  assumes ctl: "epoll_ctl_spec ctl" and inv: "echo_obj t rcv" and b: "pbase t" and up: "up t"
    and run: "TcpConnection_handleClose ctl t = Inr t1"
  shows "own t t1" "grown t t1" "echo_obj t1 rcv" "MessageCallback \<notin> news t t1" "inputBuffer t1 = inputBuffer t" "outputBuffer t1 = outputBuffer t"
proof -
  note d = echo_objD [OF inv]
  have r: "index (channel t) = kAdded" using d(5) [OF up] by (simp add: registered_def)
  show own: "own t t1" and "MessageCallback \<notin> news t t1" using close_life [OF ctl b r] run by (auto simp: news_def)
  show g: "grown t t1" by (rule close_grown [OF run])
  show ib: "inputBuffer t1 = inputBuffer t" by (rule handleClose_input [OF run])
  show "outputBuffer t1 = outputBuffer t"
    using run by (auto simp: TcpConnection_handleClose_def andthen_Inr_iff on_channel_def setState_def)
  have c: "conn_inv t1 rcv" "state t1 = kDisconnected" using handleClose_ok [OF ctl d(1)] run by auto
  then show "echo_obj t1 rcv" using d(2,6) ib quiet_grown [OF d(3) g] close_hooked [OF run] by (simp add: echo_obj_def echo_inv_def)
qed

lemma read_served:
  assumes ctl: "epoll_ctl_spec ctl" and k: "io_ok k" and inv: "echo_obj t rcv" and b: "pbase t" and up: "up t" and room: "read_room k t"
  shows "served ctl k Read_cb t rcv"
proof -
  note d = echo_objD [OF inv]
  have st: "state t = kConnected" and reg: "registered t" using d(4,5) up by auto
  have io: "readv_spec (io_readv k)" "write_spec (io_write k)" "no_reset (io_write k)" using k by (simp_all add: io_ok_def)
  have wf: "Buffer_wf (inputBuffer t)" using d(1) by (simp add: conn_inv_def conn_base_def)
  have rm: "length (buffer (inputBuffer t)) + 65536 \<le> vec_max" "Buffer_room (outputBuffer t) (length (delivered k t))"
    using room by (simp_all add: read_room_def)
  note rd = readFd_spec [OF wf io(1) rm(1), of "ch_fd (channel t)", folded read_lens_def]
  show ?thesis
  proof (cases "io_readv k (ch_fd (channel t)) (read_lens (inputBuffer t))")
    case (Inl err)
    let ?t1 = "emit LogError (emit LogError t)"
    have "TcpConnection_handleRead ctl (io_readv k) t = Inr ?t1"
      using rd Inl by (simp add: TcpConnection_handleRead_def TcpConnection_handleError_def Let_def)
    moreover have "MessageCallback \<notin> news t ?t1" by (simp add: news_def)
    moreover have "own t ?t1" using b by (intro own_cong) (simp_all add: pbase_def)
    moreover have "grown t ?t1" by (intro grown_trans [OF grown_update(1) grown_update(1)]) simp_all
    moreover have "echo_obj ?t1 rcv"
      using d(1-3,6) st by (simp add: echo_obj_def echo_inv_def conn_inv_emit quiet_def)
    ultimately show ?thesis using Inl by (simp add: served_def delivered_def)
  next
    case (Inr bytes)
    then have del: "delivered k t = bytes" by (simp add: delivered_def)
    show ?thesis
    proof (cases "bytes = []")
      case True
      obtain ib where ib: "Buffer_readFd (io_readv k) (ch_fd (channel t)) (inputBuffer t) = Inr (0, None, ib)" "Buffer_wf ib" "Buffer_contents ib = []"
        using rd Inr True d(2) by auto
      let ?t = "t\<lparr>inputBuffer := ib\<rparr>"
      have b': "pbase ?t" "up ?t" "own t ?t" using b up by (simp_all add: pbase_def up_def own_def)
      have "conn_inv ?t rcv" by (rule conn_inv_input [OF d(1) ib(2)])
      then have inv': "echo_obj ?t rcv" using d(3,6) ib(3) st by (simp add: echo_obj_def echo_inv_def quiet_def)
      obtain t1 where t1: "TcpConnection_handleClose ctl ?t = Inr t1" using handleClose_ok [OF ctl \<open>conn_inv ?t rcv\<close>] by blast
      note c = close_served [OF ctl inv' b'(1,2) t1]
      have "TcpConnection_handleRead ctl (io_readv k) t = Inr t1" using ib(1) t1 by (simp add: TcpConnection_handleRead_def Let_def)
      moreover have "MessageCallback \<notin> news t t1" using c(4) by (simp add: news_def)
      moreover have "own t t1" "grown t t1" using own_trans [OF b'(3) c(1)] grown_trans [OF grown_update(3) c(2)] by auto
      ultimately show ?thesis using c(3) True del by (simp add: served_def)
    next
      case False
      have ei: "echo_inv t rcv" using inv by (simp add: echo_obj_def)
      obtain t1 t2 where t12: "TcpConnection_handleRead ctl (io_readv k) t = Inr t1" "EchoServer_onMessage ctl (io_write k) t1 = Inr t2"
          "echo_inv t2 (rcv @ bytes)"
        using message_step [OF ctl ei st io Inr False rm(1)] rm(2) del by auto
      have "0 < length bytes" using False by simp
      then have t1: "\<exists>ib. t1 = emit MessageCallback (t\<lparr>inputBuffer := ib\<rparr>)"
        using rd Inr t12(1) by (auto simp: TcpConnection_handleRead_def Let_def)
      then have m: "MessageCallback \<in> news t t1" "CloseCallback \<notin> news t t1" by (auto simp: news_def)
      from read_life [OF ctl b reg t12(1)] m(2) have l: "own t t1" "state t1 = state t" "registered t1" "pbase t1" by auto
      have up1: "up t1" using up l(2) by (simp add: up_def)
      have "own t1 t2 \<and> up t2 \<and> registered t2"
        using onMessage_ok [OF ctl, of "io_write k", unfolded message_ok_def, rule_format, OF l(4) up1 l(3) t12(2)] .
      then have o2: "own t t2" "up t2" using own_trans [OF l(1)] by auto
      obtain ib where ib: "t1 = emit MessageCallback (t\<lparr>inputBuffer := ib\<rparr>)" using t1 by blast
      have g1: "grown t t1" unfolding ib by (rule grown_trans [OF grown_update(3) grown_update(1)]) simp
      have g: "grown t t2" by (rule grown_trans [OF g1 onMessage_grown [OF t12(2)]])
      have "state t2 = kConnected"
      proof -
        obtain msg ib where s: "TcpConnection_send ctl (io_write k) True (t1\<lparr>inputBuffer := ib\<rparr>) msg = Inr t2"
          using t12(2) by (auto simp: EchoServer_onMessage_def andthen_Inr_iff)
        have "pbase (t1\<lparr>inputBuffer := ib\<rparr>)" "registered (t1\<lparr>inputBuffer := ib\<rparr>)" using l by (simp_all add: pbase_def registered_def)
        from send_life [OF ctl this s] show ?thesis using l(2) st by simp
      qed
      moreover have "hooked t2" using onMessage_hooked [OF t12(2)] d(6) by (simp add: ib)
      ultimately have "echo_obj t2 (rcv @ bytes)" using t12(3) quiet_grown [OF d(3) g] by (simp add: echo_obj_def)
      then show ?thesis using t12(1,2) m(1) o2(1) g del by (auto simp: served_def)
    qed
  qed
qed

lemma callback_served:
  assumes ctl: "epoll_ctl_spec ctl" and k: "io_ok k" and inv: "echo_obj t rcv" and b: "pbase t"
    and up: "cb = Close_cb \<or> cb = Read_cb \<Longrightarrow> up t" and st: "state t \<noteq> kConnecting" and room: "cb = Read_cb \<Longrightarrow> read_room k t"
  shows "served ctl k cb t rcv"
proof (cases cb)
  case Close_cb
  then have up: "up t" using up by simp
  obtain t1 where t1: "TcpConnection_handleClose ctl t = Inr t1" using handleClose_ok [OF ctl echo_objD(1) [OF inv]] by blast
  from close_served [OF ctl inv b up t1] show ?thesis using Close_cb t1 by (simp add: served_def)
next
  case Error_cb
  have "own t (emit LogError t)" using b by (intro own_cong) (simp_all add: pbase_def)
  moreover have "grown t (emit LogError t)" by (rule grown_update(1)) simp
  moreover have "echo_obj (emit LogError t) rcv"
    using echo_objD(1-3,6) [OF inv] st by (simp add: echo_obj_def echo_inv_def conn_inv_emit quiet_def)
  ultimately show ?thesis using Error_cb by (simp add: served_def TcpConnection_handleError_def news_def)
next
  case Read_cb
  then show ?thesis using read_served [OF ctl k inv b] up room by simp
next
  case Write_cb
  have w: "write_spec (io_write k)" using k by (simp add: io_ok_def)
  obtain t1 where t1: "TcpConnection_handleWrite ctl (io_write k) t = Inr t1" "conn_inv t1 rcv"
    using handleWrite_ok [OF ctl echo_objD(1) [OF inv] w] by blast
  note l = write_life [OF ctl b t1(1)] and g = handleWrite_grown [OF t1(1)] and ib = handleWrite_input [OF t1(1)]
  have "quiet t1" using quiet_grown [OF echo_objD(3) [OF inv] g] l echo_objD(3) [OF inv] by (simp add: quiet_def)
  then have "echo_obj t1 rcv" using t1(2) echo_objD(2,6) [OF inv] handleWrite_hooked [OF t1(1)] ib l st by (simp add: echo_obj_def echo_inv_def)
  then show ?thesis using Write_cb t1(1) l g ib by (simp add: served_def)
qed

section \<open>All connections\<close>

definition echo_world :: "world \<Rightarrow> (conn \<Rightarrow> stage) \<Rightarrow> received \<Rightarrow> bool" where
  "echo_world w st rc \<longleftrightarrow> srv_inv w st \<and> \<not> srv_writeCompleteCallback (server w) \<and>
     (\<forall>c ob. objs w c = Some ob \<longrightarrow> echo_obj (load w ob) (rc c)) \<and> (\<forall>c. next_obj w \<le> c \<longrightarrow> rc c = [])"

lemma echo_worldD:
  assumes "echo_world w st rc"
  shows "srv_inv w st" "\<not> srv_writeCompleteCallback (server w)" "objs w c = Some ob \<Longrightarrow> echo_obj (load w ob) (rc c)"
    "next_obj w \<le> c \<Longrightarrow> rc c = []"
  using assms by (auto simp: echo_world_def)

text \<open>A step of one connection leaves the echo of the others alone, also of those in the same loop.\<close>

lemma echo_world_change:
  assumes e: "echo_world w st rc" and inv: "srv_inv w' st'" and cb: "srv_writeCompleteCallback (server w') = srv_writeCompleteCallback (server w)"
    and others: "\<And>d. d \<noteq> c \<Longrightarrow> objs w' d = objs w d" "\<And>d l. d \<noteq> c \<Longrightarrow> chans (pollers w' l) d = chans (pollers w l) d"
    and mine: "\<And>ob. objs w' c = Some ob \<Longrightarrow> echo_obj (load w' ob) r"
    and new: "next_obj w \<le> next_obj w'" "next_obj w' \<le> c \<Longrightarrow> r = []"
  shows "echo_world w' st' (rc(c := r))"
proof -
  have "echo_obj (load w' ob) ((rc(c := r)) d)" if ob: "objs w' d = Some ob" for d ob
  proof (cases "d = c")
    case True
    then show ?thesis using mine ob by simp
  next
    case False
    then have old: "objs w d = Some ob" using others(1) ob by simp
    have d: "chan (tcp ob) = d" by (rule load_pbase(2) [OF inv ob])
    have l: "load w' ob = (load w ob)\<lparr>poller := pollers w' (conn_loop ob)\<rparr>" by (simp add: load_def)
    have "echo_obj (load w' ob) (rc d)"
      unfolding l
    proof (rule echo_obj_poller [OF echo_worldD(3) [OF e old] srv_invD(1) [OF inv]])
      show "usable (pollers w' (conn_loop ob)) (chan (load w ob))" using conn_usable [OF inv ob] d by simp
      show "chans (pollers w' (conn_loop ob)) (chan (load w ob)) = channel (load w ob)" using others(2) [OF False] d by simp
    qed
    then show ?thesis using False by simp
  qed
  moreover have "(rc(c := r)) d = []" if "next_obj w' \<le> d" for d
    using that new echo_worldD(4) [OF e, of d] by (cases "d = c") auto
  ultimately show ?thesis using inv cb echo_worldD(2) [OF e] by (simp add: echo_world_def)
qed

lemma removeConnection_frame:
  assumes "objs w c = Some ob"
  shows "\<exists>w'. TcpServer_removeConnection cur w c = Inr w' \<and> objs w' = objs w \<and> pollers w' = pollers w \<and> next_obj w' = next_obj w \<and>
     srv_writeCompleteCallback (server w') = srv_writeCompleteCallback (server w)"
  using assms by (simp add: TcpServer_removeConnection_def TcpServer_removeConnectionInLoop_def conn_at_def enqueue_def)

text \<open>One callback of a channel: it returns, and the connection echoes what it delivered.\<close>

lemma echo_run_callback:
  assumes ctl: "epoll_ctl_spec ctl" and k: "io_ok k" and e: "echo_world w st rc" and ob: "objs w c = Some ob"
    and st: "st c = Up \<or> ((st c = Removing \<or> st c = Destroying) \<and> (cb = Error_cb \<or> cb = Write_cb))"
    and room: "cb = Read_cb \<Longrightarrow> read_room k (load w ob)"
  shows "\<exists>w' s ob' bs. run_callback ctl k (EchoServer_onMessage ctl (io_write k)) c w cb = Inr w' \<and>
     echo_world w' (st(c := s)) (rc(c := rc c @ (if cb = Read_cb then delivered k (load w ob) else []))) \<and> objs w' = (objs w)(c \<mapsto> ob') \<and>
     (s = Up \<or> s = Removing \<or> s = Destroying) \<and> (cb = Error_cb \<or> cb = Write_cb \<longrightarrow> s = st c) \<and>
     wire (tcp ob') = wire (tcp ob) @ bs \<and> conn_loop ob' = conn_loop ob \<and> ch_fd (channel (load w' ob')) = ch_fd (channel (load w ob)) \<and>
     (cb \<noteq> Read_cb \<longrightarrow> inputBuffer (tcp ob') = inputBuffer (tcp ob)) \<and>
     (cb = Close_cb \<or> cb = Error_cb \<longrightarrow> outputBuffer (tcp ob') = outputBuffer (tcp ob))"
proof -
  let ?t = "load w ob" and ?m = "EchoServer_onMessage ctl (io_write k)"
  note inv = echo_worldD(1) [OF e]
  have b: "pbase ?t" "chan (tcp ob) = c" by (rule load_pbase [OF inv ob])+
  have stage: "stage_ok (st c) (state ?t) (channel ?t)" using srv_invD(3) [OF inv ob] b(2) by (simp add: live_ok_def)
  have up: "cb = Close_cb \<or> cb = Read_cb \<Longrightarrow> up ?t" using st stage by (auto simp: stage_ok_def up_def)
  have nc: "state ?t \<noteq> kConnecting" using st stage by (auto simp: stage_ok_def)
  from callback_served [OF ctl k echo_worldD(3) [OF e ob] b(1) up nc room] obtain t1 t2 where
      t1: "conn_callback ctl k cb ?t = Inr t1" and t2: "answer ctl k ?t t1 = Inr t2" and s: "own ?t t2" "grown ?t t2"
      "echo_obj t2 (rc c @ (if cb = Read_cb then delivered k ?t else []))"
      "cb \<noteq> Read_cb \<longrightarrow> inputBuffer t2 = inputBuffer ?t" "cb = Close_cb \<or> cb = Error_cb \<longrightarrow> outputBuffer t2 = outputBuffer ?t"
    unfolding served_def by metis
  let ?w = "store w c ob t2" and ?ob = "ob\<lparr>tcp := t2\<rparr>"
  have w: "objs ?w = (objs w)(c \<mapsto> ?ob)" "pollers ?w = (pollers w)(conn_loop ob := poller t2)" "next_obj ?w = next_obj w"
      "server ?w = server w" by (simp_all add: store_def)
  obtain w' where w': "(if CloseCallback \<in> news ?t t1 then TcpServer_removeConnection (conn_loop ob) ?w c else Inr ?w) = Inr w'"
      "objs w' = objs ?w" "pollers w' = pollers ?w" "next_obj w' = next_obj ?w"
      "srv_writeCompleteCallback (server w') = srv_writeCompleteCallback (server ?w)"
    using removeConnection_frame [of ?w c ?ob "conn_loop ob"] w(1) by (cases "CloseCallback \<in> news ?t t1") auto
  have run: "run_callback ctl k ?m c w cb = Inr w'"
    using t1 t2 w'(1) ob by (simp add: run_callback_def conn_at_def Let_def)
  obtain s' where s': "srv_inv w' (st(c := s'))" "s' = Up \<or> s' = Removing \<or> s' = Destroying" "cb = Error_cb \<or> cb = Write_cb \<longrightarrow> s' = st c"
    using callback_ok [OF ctl onMessage_ok [OF ctl] inv ob st run] by blast
  have load: "load w' ?ob = t2" using w(2) w'(3) by (simp add: load_def)
  have "echo_world w' (st(c := s')) (rc(c := rc c @ (if cb = Read_cb then delivered k ?t else [])))"
  proof (rule echo_world_change [OF e s'(1)])
    show "srv_writeCompleteCallback (server w') = srv_writeCompleteCallback (server w)" using w'(5) w(4) by simp
    show "objs w' d = objs w d" if "d \<noteq> c" for d using that w(1) w'(2) by simp
    show "chans (pollers w' l) d = chans (pollers w l) d" if "d \<noteq> c" for d l
      using that w(2) w'(3) s(1) b(2) by (auto simp: own_def)
    show "echo_obj (load w' ob') (rc c @ (if cb = Read_cb then delivered k ?t else []))" if "objs w' c = Some ob'" for ob'
      using that w(1) w'(2) load s(3) by simp
    show "next_obj w \<le> next_obj w'" using w(3) w'(4) by simp
    show "next_obj w' \<le> c \<Longrightarrow> rc c @ (if cb = Read_cb then delivered k ?t else []) = []"
      using inv ob w(3) w'(4) by (auto simp: srv_inv_def)
  qed
  moreover obtain bs where "wire t2 = wire ?t @ bs" using s(2) by (auto simp: grown_def)
  ultimately show ?thesis
    using run s' w(1) w'(2) s(1,4,5) load by (intro exI [of _ w'] exI [of _ s'] exI [of _ ?ob] exI [of _ bs]) (auto simp: own_def load_def)
qed

text \<open>A readable channel is read before it is written to, so that the room is what it was when the event came.\<close>

definition read_first :: "callback list \<Rightarrow> bool" where
  "read_first cbs \<longleftrightarrow> Read_cb \<in> set cbs \<longrightarrow> Write_cb \<notin> set (takeWhile (\<lambda>cb. cb \<noteq> Read_cb) cbs)"

lemma read_first_handleEvent: "read_first (Channel_handleEvent True ch)"
  by (auto simp: read_first_def Channel_handleEvent_def Channel_handleEventWithGuard_def)

lemma echo_callbacks:
  assumes ctl: "epoll_ctl_spec ctl" and k: "io_ok k"
  shows "echo_world w st rc \<Longrightarrow> objs w c = Some ob \<Longrightarrow> st c = Up \<or> st c = Removing \<or> st c = Destroying \<Longrightarrow>
     length (filter (\<lambda>cb. cb = Close_cb \<or> cb = Read_cb) cbs) \<le> (if st c = Up then 1 else 0) \<Longrightarrow> read_first cbs \<Longrightarrow>
     (Read_cb \<in> set cbs \<Longrightarrow> read_room k (load w ob)) \<Longrightarrow>
     \<exists>w' st' ob' bs. echo_event ctl k c w cbs = Inr w' \<and>
       echo_world w' st' (if Read_cb \<in> set cbs then rc(c := rc c @ delivered k (load w ob)) else rc) \<and>
       objs w' = (objs w)(c \<mapsto> ob') \<and> wire (tcp ob') = wire (tcp ob) @ bs"
proof (induction cbs arbitrary: w st rc ob)
  case Nil
  then show ?case by (intro exI [of _ w] exI [of _ st] exI [of _ ob] exI [of _ "[]"]) (auto simp: echo_event_def)
next
  case (Cons cb cbs)
  have st: "st c = Up \<or> ((st c = Removing \<or> st c = Destroying) \<and> (cb = Error_cb \<or> cb = Write_cb))"
    using Cons.prems(3,4) by (cases cb) (auto split: if_splits)
  have room: "cb = Read_cb \<Longrightarrow> read_room k (load w ob)" using Cons.prems(6) by simp
  obtain w1 s ob1 bs1 where w1: "run_callback ctl k (EchoServer_onMessage ctl (io_write k)) c w cb = Inr w1"
      "echo_world w1 (st(c := s)) (rc(c := rc c @ (if cb = Read_cb then delivered k (load w ob) else [])))" "objs w1 = (objs w)(c \<mapsto> ob1)"
      "s = Up \<or> s = Removing \<or> s = Destroying" "cb = Error_cb \<or> cb = Write_cb \<longrightarrow> s = st c" "wire (tcp ob1) = wire (tcp ob) @ bs1"
      "conn_loop ob1 = conn_loop ob" "ch_fd (channel (load w1 ob1)) = ch_fd (channel (load w ob))"
      "cb \<noteq> Read_cb \<longrightarrow> inputBuffer (tcp ob1) = inputBuffer (tcp ob)" "cb = Close_cb \<or> cb = Error_cb \<longrightarrow> outputBuffer (tcp ob1) = outputBuffer (tcp ob)"
    using echo_run_callback [OF ctl k Cons.prems(1,2) st room] by blast
  let ?rc = "rc(c := rc c @ (if cb = Read_cb then delivered k (load w ob) else []))"
  have len: "length (filter (\<lambda>cb. cb = Close_cb \<or> cb = Read_cb) cbs) \<le> (if (st(c := s)) c = Up then 1 else 0)"
    using Cons.prems(4) w1(5) by (cases cb) (auto split: if_splits)
  have once: "cb = Read_cb \<Longrightarrow> Read_cb \<notin> set cbs"
  proof
    assume "cb = Read_cb" "Read_cb \<in> set cbs"
    then have "length (filter (\<lambda>cb. cb = Close_cb \<or> cb = Read_cb) (cb # cbs)) = Suc (length (filter (\<lambda>cb. cb = Close_cb \<or> cb = Read_cb) cbs))"
        "filter (\<lambda>cb. cb = Close_cb \<or> cb = Read_cb) cbs \<noteq> []" by (auto simp: filter_empty_conv)
    then show False using Cons.prems(4) by (auto split: if_splits)
  qed
  have first: "read_first cbs" using Cons.prems(5) once by (auto simp: read_first_def)
  have later: "delivered k (load w1 ob1) = delivered k (load w ob)" "read_room k (load w1 ob1)" if "Read_cb \<in> set cbs"
  proof -
    have "cb \<noteq> Read_cb" "cb \<noteq> Write_cb" using that once Cons.prems(5) by (auto simp: read_first_def)
    then have "cb = Close_cb \<or> cb = Error_cb" by (cases cb) auto
    then have same: "inputBuffer (load w1 ob1) = inputBuffer (load w ob)" "outputBuffer (load w1 ob1) = outputBuffer (load w ob)"
      using w1(9,10) by (auto simp: load_def)
    then show "delivered k (load w1 ob1) = delivered k (load w ob)" using w1(8) by (simp add: delivered_def)
    then show "read_room k (load w1 ob1)" using Cons.prems(6) that same by (simp add: read_room_def)
  qed
  have at: "objs w1 c = Some ob1" using w1(3) by simp
  have st1: "(st(c := s)) c = Up \<or> (st(c := s)) c = Removing \<or> (st(c := s)) c = Destroying" using w1(4) by simp
  obtain w' st' ob' bs where w': "echo_event ctl k c w1 cbs = Inr w'"
      "echo_world w' st' (if Read_cb \<in> set cbs then ?rc(c := ?rc c @ delivered k (load w1 ob1)) else ?rc)"
      "objs w' = (objs w1)(c \<mapsto> ob')" "wire (tcp ob') = wire (tcp ob1) @ bs"
    using Cons.IH [OF w1(2) at st1 len first later(2)] by blast
  have "(if Read_cb \<in> set cbs then ?rc(c := ?rc c @ delivered k (load w1 ob1)) else ?rc) =
      (if Read_cb \<in> set (cb # cbs) then rc(c := rc c @ delivered k (load w ob)) else rc)"
    using once later(1) by (cases "cb = Read_cb") auto
  moreover have "echo_event ctl k c w (cb # cbs) = Inr w'" using w1(1) w'(1) by (simp add: echo_event_def)
  ultimately show ?case using w'(2-4) w1(3,6)
    by (intro exI [of _ w'] exI [of _ st'] exI [of _ ob'] exI [of _ "bs1 @ bs"]) simp
qed

lemma echo_event_ok:
  assumes ctl: "epoll_ctl_spec ctl" and k: "io_ok k" and e: "echo_world w st rc" and ob: "objs w c = Some ob"
    and watched: "watched (pollers w (conn_loop ob)) c \<noteq> None" and r: "hup_ok r"
    and room: "Read_cb \<in> set (reported w c ob r) \<Longrightarrow> read_room k (load w ob)"
  shows "\<exists>w' st' ob' bs. echo_event ctl k c w (reported w c ob r) = Inr w' \<and>
     echo_world w' st' (if Read_cb \<in> set (reported w c ob r) then rc(c := rc c @ delivered k (load w ob)) else rc) \<and>
     objs w' = (objs w)(c \<mapsto> ob') \<and> wire (tcp ob') = wire (tcp ob) @ bs"
proof -
  note inv = echo_worldD(1) [OF e]
  have "index (chans (pollers w (conn_loop ob)) c) = kAdded"
    using watched watched_iff [OF srv_invD(1) [OF inv]] by (metis (no_types, lifting))
  then have up: "st c = Up" using srv_invD(3) [OF inv ob] by (auto simp: live_ok_def stage_ok_def split: stage.splits)
  show ?thesis
    using up handleEvent_closing [OF r] room
    by (intro echo_callbacks [OF ctl k e ob]) (simp_all add: reported_def read_first_handleEvent)
qed

lemma echo_functor_ok:
  assumes ctl: "epoll_ctl_spec ctl" and e: "echo_world w st rc" and q: "queue w l = f # fs"
    and run: "run_functor ctl (w\<lparr>queue := (queue w)(l := fs)\<rparr>) f = Inr w'"
  shows "\<exists>st'. echo_world w' st' rc" and "\<And>d. d \<noteq> target f \<Longrightarrow> objs w' d = objs w d"
    and "objs w' (target f) = None \<or> (\<exists>ob ob'. objs w (target f) = Some ob \<and> objs w' (target f) = Some ob' \<and> wire (tcp ob') = wire (tcp ob))"
proof -
  let ?w = "w\<lparr>queue := (queue w)(l := fs)\<rparr>" and ?c = "target f"
  note inv = echo_worldD(1) [OF e]
  obtain s where inv': "srv_inv w' (st(?c := s))" using functor_ok [OF ctl inv q] run by auto
  obtain ob where ob: "objs w ?c = Some ob" "due_fn (base w) (conn_loop ob) (st ?c) ?c = Some (l, f)"
    using due_of_queued [OF inv, of f l] q by auto
  have b: "pbase (load w ob)" "chan (tcp ob) = ?c" by (rule load_pbase [OF inv ob(1)])+
  have at: "conn_at ?w ?c = Inr ob" "load ?w ob = load w ob" using ob(1) by (simp_all add: conn_at_def load_def)
  have "(\<exists>st'. echo_world w' st' (rc(?c := rc ?c))) \<and> (\<forall>d. d \<noteq> ?c \<longrightarrow> objs w' d = objs w d) \<and>
      (objs w' ?c = None \<or> (\<exists>ob'. objs w' ?c = Some ob' \<and> wire (tcp ob') = wire (tcp ob)))"
  proof (cases f)
    case (Established_fn c)
    then have "st ?c = Connecting" using ob(2) by (auto simp: due_fn_def split: stage.splits)
    then have st: "state (load w ob) = kConnecting" using srv_invD(3) [OF inv ob(1)] by (simp add: live_ok_def stage_ok_def)
    obtain t' where t': "TcpConnection_connectEstablished ctl (load w ob) = Inr t'" "own (load w ob) t'"
      using established_life [OF ctl b(1)] by blast
    then have w': "w' = store ?w ?c ob t'" using run Established_fn at by (simp add: run_established_def)
    note e' = established_echo_obj [OF ctl echo_worldD(3) [OF e ob(1)] st t'(1)]
    have "echo_world w' (st(?c := s)) (rc(?c := rc ?c))"
    proof (rule echo_world_change [OF e inv'])
      show "chans (pollers w' l) d = chans (pollers w l) d" if "d \<noteq> ?c" for d l
        using that t'(2) b(2) by (auto simp: w' own_def store_def)
      show "echo_obj (load w' ob') (rc ?c)" if "objs w' ?c = Some ob'" for ob'
        using that e'(1) by (auto simp: w' store_def load_def)
      show "next_obj w' \<le> ?c \<Longrightarrow> rc ?c = []" using echo_worldD(4) [OF e] by (simp add: w' store_def)
    qed (simp_all add: w' store_def)
    moreover have "wire t' = wire (tcp ob)"
      using t'(1) by (auto simp: TcpConnection_connectEstablished_def Let_def andthen_Inr_iff on_channel_def setState_def load_def)
    ultimately show ?thesis by (auto simp: w' store_def)
  next
    case (Remove_fn c)
    then have w': "objs w' = objs w" "pollers w' = pollers w" "next_obj w' = next_obj w"
        "srv_writeCompleteCallback (server w') = srv_writeCompleteCallback (server w)"
      using run at(1) by (auto simp: TcpServer_removeConnectionInLoop_def enqueue_def Let_def)
    have "echo_world w' (st(?c := s)) (rc(?c := rc ?c))"
      by (rule echo_world_change [OF e inv']) (use w' echo_worldD(3,4) [OF e] in \<open>simp_all add: load_def\<close>)
    then show ?thesis using w'(1) ob(1) by auto
  next
    case (Destroyed_fn c)
    obtain t' where t': "TcpConnection_connectDestroyed ctl (load w ob) = Inr t'" "own (load w ob) t'"
      using destroyed_life [OF ctl b(1)] by blast
    then have w': "w' = (store ?w ?c ob t')\<lparr>objs := (objs w)(?c := None)\<rparr>"
      using run Destroyed_fn at by (auto simp: run_destroyed_def Let_def store_def)
    have "echo_world w' (st(?c := s)) (rc(?c := rc ?c))"
    proof (rule echo_world_change [OF e inv'])
      show "chans (pollers w' l) d = chans (pollers w l) d" if "d \<noteq> ?c" for d l
        using that t'(2) b(2) by (auto simp: w' own_def store_def)
      show "next_obj w' \<le> ?c \<Longrightarrow> rc ?c = []" using echo_worldD(4) [OF e] by (simp add: w' store_def)
    qed (simp_all add: w' store_def)
    then show ?thesis by (auto simp: w' store_def)
  qed
  then show "\<exists>st'. echo_world w' st' rc" "\<And>d. d \<noteq> ?c \<Longrightarrow> objs w' d = objs w d"
      "objs w' ?c = None \<or> (\<exists>ob ob'. objs w ?c = Some ob \<and> objs w' ?c = Some ob' \<and> wire (tcp ob') = wire (tcp ob))"
    using ob(1) by auto
qed

lemma fresh_fd_unused:
  assumes inv: "srv_inv w st" and f: "fresh_fd w f"
  shows "channels (pollers w l) f = None"
proof (rule ccontr)
  assume "channels (pollers w l) f \<noteq> None"
  then obtain d where d: "ch_fd (chans (pollers w l) d) = f" "index (chans (pollers w l) d) \<noteq> kNew"
    using poller_invD(2) [OF srv_invD(1) [OF inv]] by auto
  show False
  proof (cases "objs w d")
    case None
    then have "d = acceptChannel" "l = base w" using srv_invD(2) [OF inv None] d(2) by (auto simp: dead_ok_def)
    then show ?thesis using f d(1) by (auto simp: fresh_fd_def)
  next
    case (Some ob)
    then have "conn_loop ob = l" using srv_invD(3) [OF inv Some] d(2) by (auto simp: live_ok_def)
    then show ?thesis using f d(1) Some by (auto simp: fresh_fd_def conn_fd_def)
  qed
qed

lemma echo_world_queue:
  assumes "echo_world w st rc" and "\<And>l f. count_list (Q l) f = count_list (queue w l) f"
  shows "echo_world (w\<lparr>queue := Q\<rparr>) st rc"
  using assms(1) srv_inv_queue [OF echo_worldD(1) [OF assms(1)] assms(2)] by (simp add: echo_world_def load_def)

lemma echo_accept_ok:
  assumes ctl: "epoll_ctl_spec ctl" and e: "echo_world w st rc" and f: "fresh_fd w f" and n: "nextConnId (server w) < 2 ^ 31 - 1"
    and run: "TcpServer_newConnection ctl w f peer = Inr w'"
  shows "\<exists>st' ob. echo_world w' st' rc \<and> objs w' = (objs w)(next_obj w \<mapsto> ob) \<and> objs w (next_obj w) = None \<and> wire (tcp ob) = []"
proof -
  let ?c = "next_obj w" and ?name = "connName (server w) (nextConnId (server w))"
  note inv = echo_worldD(1) [OF e]
  obtain io t where io: "EventLoopThreadPool_getNextLoop (threadPool (server w)) (InetAddress_toIp peer) = Inr io"
      "TcpConnection_new (pollers w io) ?c f = Inr t"
    using run unfolding TcpServer_newConnection_def Let_def andthen_Inr_iff by auto
  have dead: "objs w ?c = None" "?c \<noteq> acceptChannel" using inv by (simp_all add: srv_inv_def acceptChannel_def)
  then have new: "index (chans (pollers w io) ?c) = kNew" using srv_invD(2) [OF inv dead(1)] by (simp add: dead_ok_def)
  let ?t = "TcpConnection_setWriteCompleteCallback False t"
  have obj: "echo_obj ?t []" by (rule new_echo_obj [OF srv_invD(1) [OF inv] new fresh_fd_unused [OF inv f] io(2)])
  have t: "poller ?t = poller t" "chans (poller t) d = chans (pollers w io) d" if "d \<noteq> ?c" for d
    using io(2) that by (auto simp: TcpConnection_new_def andthen_Inr_iff set_chan_def TcpConnection_setWriteCompleteCallback_def)
  have wt: "wire t = []" "poller (tcp (ob :: conn_obj)) = poller (tcp ob)" for ob
    using io(2) by (auto simp: TcpConnection_new_def andthen_Inr_iff)
  let ?ob = "\<lparr>conn_name = ?name, conn_loop = io, tcp = ?t\<rparr>"
  let ?w1 = "w\<lparr>next_obj := ?c + 1,
     server := (server w)\<lparr>nextConnId := nextConnId (server w) + 1, connections := (connections (server w))(?name \<mapsto> ?c)\<rparr>, objs := (objs w)(?c \<mapsto> ?ob),
     pollers := (pollers w)(io := poller t)\<rparr>"
  let ?w2 = "enqueue ?w1 io (Established_fn ?c)"
  have cb: "\<not> srv_writeCompleteCallback (server w)" by (rule echo_worldD(2) [OF e])
  have "TcpServer_newConnection ctl w f peer = (if io = base w then run_established ctl ?w1 ?c else Inr ?w2)"
    using io cb by (simp add: TcpServer_newConnection_def Let_def store_def connName_def TcpConnection_setWriteCompleteCallback_def)
  with run have run': "(if io = base w then run_established ctl ?w1 ?c else Inr ?w2) = Inr w'" by simp
  have "echo_world ?w2 (st(?c := Connecting)) (rc(?c := []))"
  proof (rule echo_world_change [OF e new_object_ok [OF inv f n io(2)]])
    show "chans (pollers ?w2 l) d = chans (pollers w l) d" if "d \<noteq> ?c" for d l using that t(2) by (simp add: enqueue_def)
    show "echo_obj (load ?w2 ob) []" if "objs ?w2 ?c = Some ob" for ob
      using that obj by (auto simp: enqueue_def load_def TcpConnection_setWriteCompleteCallback_def)
  qed (simp_all add: enqueue_def)
  moreover have "rc(?c := []) = rc" using echo_worldD(4) [OF e, of ?c] by auto
  ultimately have e2: "echo_world ?w2 (st(?c := Connecting)) rc" by simp
  have o2: "objs ?w2 = (objs w)(?c \<mapsto> ?ob)" "wire ?t = []"
    using wt by (simp_all add: enqueue_def TcpConnection_setWriteCompleteCallback_def)
  show ?thesis
  proof (cases "io = base w")
    case False
    then show ?thesis using run' e2 o2 dead(1) by auto
  next
    case True
    let ?Q = "(queue w)(io := Established_fn ?c # queue w io)"
    have w3: "?w1\<lparr>queue := ?Q\<rparr> = ?w2\<lparr>queue := ?Q\<rparr>" by (simp add: enqueue_def)
    have e3: "echo_world (?w1\<lparr>queue := ?Q\<rparr>) (st(?c := Connecting)) rc"
      unfolding w3 by (rule echo_world_queue [OF e2]) (simp add: enqueue_def)
    have q: "queue (?w1\<lparr>queue := ?Q\<rparr>) io = Established_fn ?c # queue w io" by simp
    have pop: "?w1\<lparr>queue := ?Q\<rparr>\<lparr>queue := (queue (?w1\<lparr>queue := ?Q\<rparr>))(io := queue w io)\<rparr> = ?w1" by simp
    have r: "run_functor ctl (?w1\<lparr>queue := ?Q\<rparr>\<lparr>queue := (queue (?w1\<lparr>queue := ?Q\<rparr>))(io := queue w io)\<rparr>) (Established_fn ?c) = Inr w'"
      unfolding pop using run' True by simp
    note fn = echo_functor_ok [OF ctl e3 q r]
    have "run_established ctl ?w1 ?c = Inr w'" using run' True by simp
    then have "objs w' ?c \<noteq> None" by (auto simp: run_established_def andthen_Inr_iff store_def)
    then obtain ob' where ob': "objs w' ?c = Some ob'" "wire (tcp ob') = []" using fn(3) o2(2) by auto
    have "objs w' = (objs w)(?c \<mapsto> ob')" using fn(2) ob'(1) by (intro ext) auto
    then show ?thesis using fn(1) ob'(2) dead(1) by blast
  qed
qed

section \<open>The abstract service\<close>

text \<open>
  An echo service as its clients see it: sessions are opened and ended, a session receives bytes, and it sends back what it received,
  in order and never more. The state of a session is what it got and what it sent.
\<close>

type_synonym sessions = "conn \<rightharpoonup> byte list \<times> byte list"

inductive echo_service :: "sessions \<Rightarrow> sessions \<Rightarrow> bool" where
  opened: "s c = None \<Longrightarrow> echo_service s (s(c \<mapsto> ([], [])))"
| receives: "s c = Some (got, sent) \<Longrightarrow> echo_service s (s(c \<mapsto> (got @ bs, sent)))"
| sends: "s c = Some (got, sent) \<Longrightarrow> got = sent @ bs @ rest \<Longrightarrow> echo_service s (s(c \<mapsto> (got, sent @ bs)))"
| ended: "echo_service s (s(c := None))"

definition sessions_of :: "world \<Rightarrow> received \<Rightarrow> sessions" where
  "sessions_of w rc c = map_option (\<lambda>ob. (rc c, wire (tcp ob))) (objs w c)"

lemma sessions_of_update:
  "objs w' = (objs w)(c \<mapsto> ob) \<Longrightarrow> sessions_of w' (rc(c := r)) = (sessions_of w rc)(c \<mapsto> (r, wire (tcp ob)))"
  by (auto simp: sessions_of_def)

text \<open>A connection that delivers bytes and transmits others is a session that receives and then sends.\<close>

lemma service_exchange:
  assumes "s c = Some (got, sent)" and "got @ bs = sent @ ts @ rest"
  shows "echo_service\<^sup>*\<^sup>* s (s(c \<mapsto> (got @ bs, sent @ ts)))"
proof -
  have "echo_service s (s(c \<mapsto> (got @ bs, sent)))" by (rule receives [of s c got sent bs, OF assms(1)])
  moreover have "echo_service (s(c \<mapsto> (got @ bs, sent))) ((s(c \<mapsto> (got @ bs, sent)))(c \<mapsto> (got @ bs, sent @ ts)))"
    by (rule sends [of _ c "got @ bs" sent ts rest, OF _ assms(2)]) simp
  ultimately show ?thesis by simp
qed

lemma event_simulated:
  assumes e': "echo_world w' st' (if b then rc(c := rc c @ bs) else rc)" and ob: "objs w c = Some ob"
    and w': "objs w' = (objs w)(c \<mapsto> ob')" "wire (tcp ob') = wire (tcp ob) @ ts"
  shows "echo_service\<^sup>*\<^sup>* (sessions_of w rc) (sessions_of w' (if b then rc(c := rc c @ bs) else rc))"
proof -
  let ?rc = "if b then rc(c := rc c @ bs) else rc"
  have rc: "?rc = rc(c := rc c @ (if b then bs else []))" by auto
  have "echo_obj (load w' ob') (?rc c)" by (rule echo_worldD(3) [OF e']) (simp add: w'(1))
  then have "conn_inv (load w' ob') (?rc c)" by (rule echo_objD(1))
  then have "wire (tcp ob') @ pending (load w' ob') = ?rc c" by (simp add: conn_inv_def load_def)
  then have "rc c @ (if b then bs else []) = wire (tcp ob) @ ts @ pending (load w' ob')" using w'(2) by auto
  moreover have "sessions_of w rc c = Some (rc c, wire (tcp ob))" using ob by (simp add: sessions_of_def)
  ultimately have "echo_service\<^sup>*\<^sup>* (sessions_of w rc) ((sessions_of w rc)(c \<mapsto> (rc c @ (if b then bs else []), wire (tcp ob) @ ts)))"
    by (rule service_exchange [rotated])
  then show ?thesis unfolding rc sessions_of_update [OF w'(1)] w'(2) .
qed

lemma echo_step_ok:
  assumes ctl: "epoll_ctl_spec ctl" and e: "echo_world w st rc" and step: "echo_step ctl w rc w' rc'"
  shows "(\<exists>st'. echo_world w' st' rc') \<and> echo_service\<^sup>*\<^sup>* (sessions_of w rc) (sessions_of w' rc')"
  using step
proof cases
  case (accepted f peer)
  show ?thesis
  proof (cases "newConnectionCallback (acceptor (server w))")
    case True
    then have run: "TcpServer_newConnection ctl w f peer = Inr w'"
      using accepted by (simp add: Acceptor_handleRead_def Socket_accept_def fresh_fd_def)
    obtain st' ob where w': "echo_world w' st' rc" "objs w' = (objs w)(next_obj w \<mapsto> ob)" "objs w (next_obj w) = None" "wire (tcp ob) = []"
      using echo_accept_ok [OF ctl e accepted(2,3) run] by blast
    have "rc(next_obj w := []) = rc" using echo_worldD(4) [OF e, of "next_obj w"] by auto
    then have "sessions_of w' rc = (sessions_of w rc)(next_obj w \<mapsto> ([], []))"
      using sessions_of_update [OF w'(2), of rc "[]"] w'(4) by simp
    moreover have "sessions_of w rc (next_obj w) = None" using w'(3) by (simp add: sessions_of_def)
    ultimately have "echo_service (sessions_of w rc) (sessions_of w' rc)" using opened by metis
    then show ?thesis using w'(1) accepted(1) by blast
  next
    case False
    then have "w' = w" using accepted by (auto simp: Acceptor_handleRead_def Socket_accept_def fresh_fd_def)
    then show ?thesis using e accepted(1) by blast
  qed
next
  case (not_accepted err)
  then have "w' = w" by (auto simp: Acceptor_handleRead_def Socket_accept_def)
  then show ?thesis using e not_accepted(1) by blast
next
  case (called l f fs)
  note fn = echo_functor_ok [OF ctl e called(2,3)]
  have "echo_service\<^sup>*\<^sup>* (sessions_of w rc) (sessions_of w' rc)"
  proof (cases "objs w' (target f)")
    case None
    then have "sessions_of w' rc = (sessions_of w rc)(target f := None)" using fn(2) by (intro ext) (auto simp: sessions_of_def)
    then show ?thesis using ended by (metis r_into_rtranclp)
  next
    case (Some ob')
    then obtain ob where "objs w (target f) = Some ob" "wire (tcp ob') = wire (tcp ob)" using fn(3) by auto
    then have "sessions_of w' rc d = sessions_of w rc d" for d using fn(2) Some by (cases "d = target f") (auto simp: sessions_of_def)
    then have "sessions_of w' rc = sessions_of w rc" by blast
    then show ?thesis by simp
  qed
  then show ?thesis using fn(1) called(1) by blast
next
  case (event c ob r k)
  obtain st' ob' bs where w': "echo_world w' st' rc'" "objs w' = (objs w)(c \<mapsto> ob')" "wire (tcp ob') = wire (tcp ob) @ bs"
    using echo_event_ok [OF ctl event(5) e event(2-4) event(6)] event(1,7) by auto
  show ?thesis using event_simulated [OF _ event(2) w'(2,3)] w'(1) unfolding event(1) by blast
qed

lemma echo_up_eq: "echo_up ctl hashFunc new_loop l s addr name = server_up ctl hashFunc new_loop l s addr name 3"
  unfolding echo_up_def server_up_def EchoServer_new_def EchoServer_start_def
  by (cases "TcpServer_new hashFunc s True (Some l) addr name False") simp_all

interpretation echo: simulation
  "\<lambda>x y. epoll_ctl_spec ctl \<and> echo_step ctl (fst x) (snd x) (fst y) (snd y)" "\<lambda>x. \<exists>st. echo_world (fst x) st (snd x)"
  echo_service "\<lambda>x. sessions_of (fst x) (snd x)" for ctl
  by unfold_locales (blast dest: echo_step_ok)+

lemma echo_runs_steps:
  assumes "echo_runs ctl w0 w rc"
  shows "(\<lambda>x y. echo_step ctl (fst x) (snd x) (fst y) (snd y))\<^sup>*\<^sup>* (w0, \<lambda>_. []) (w, rc)" and "same_pool w0 w"
proof -
  have "(\<lambda>x y. echo_step ctl (fst x) (snd x) (fst y) (snd y))\<^sup>*\<^sup>* (w0, \<lambda>_. []) (w, rc) \<and> same_pool w0 w"
    using assms
  proof induction
    case (step w rc w' rc')
    have "\<exists>m. server_step ctl m w w'"
      using step(2) by cases (blast intro: server_step.intros, blast intro: server_step.intros, blast intro: server_step.intros,
          auto simp: echo_event_def reported_def intro: server_step.event)
    then have "same_pool w w'" using step_same_pool by blast
    with step show ?case by (auto simp: same_pool_def intro: rtranclp.rtrancl_into_rtrancl)
  qed (simp add: same_pool_def)
  then show "(\<lambda>x y. echo_step ctl (fst x) (snd x) (fst y) (snd y))\<^sup>*\<^sup>* (w0, \<lambda>_. []) (w, rc)" "same_pool w0 w" by blast+
qed

lemma echo_runs_ok:
  assumes runs: "echo_runs ctl w0 w rc" and ctl: "epoll_ctl_spec ctl" and up: "echo_up ctl hashFunc new_loop l s addr name = Inr w0" and s: "0 \<le> s"
  shows "\<exists>st. echo_world w st rc" and "echo_service\<^sup>*\<^sup>* Map.empty (sessions_of w rc)" and "same_pool w0 w"
proof -
  have w0: "srv_inv w0 (\<lambda>_. Gone)" "objs w0 = Map.empty"
    using server_up_ok [OF ctl s, of hashFunc new_loop l addr name 3] up by (auto simp: echo_up_eq)
  have "\<not> srv_writeCompleteCallback (server w0)"
    using up by (auto simp: echo_up_eq server_up_def TcpServer_new_def TcpServer_start_def TcpServer_setThreadNum_def Let_def andthen_Inr_iff
        split: if_splits)
  then have e0: "\<exists>st. echo_world (fst (w0, \<lambda>_. [])) st (snd (w0, \<lambda>_. []))"
    using w0 by (intro exI [of _ "\<lambda>_. Gone"]) (simp add: echo_world_def)
  have none: "sessions_of w0 (\<lambda>_. []) = Map.empty" using w0(2) by (auto simp: sessions_of_def)
  note steps = echo_runs_steps(1) [OF runs]
  have steps': "(\<lambda>x y. epoll_ctl_spec ctl \<and> echo_step ctl (fst x) (snd x) (fst y) (snd y))\<^sup>*\<^sup>* (w0, \<lambda>_. []) (w, rc)"
    using steps ctl by simp
  show "\<exists>st. echo_world w st rc" using echo.inv_runs [OF steps' e0] by simp
  show "echo_service\<^sup>*\<^sup>* Map.empty (sessions_of w rc)" using echo.spec_runs [OF steps' e0] none by simp
  show "same_pool w0 w" by (rule echo_runs_steps(2) [OF runs])
qed

section \<open>Draining\<close>

text \<open>One writable event is enough for a socket that takes everything.\<close>

lemma handleWrite_drains:
  assumes ctl: "epoll_ctl_spec ctl" and inv: "conn_inv t acc" and up: "up t" and p: "pending t \<noteq> []"
    and w: "write_spec wr" "\<And>f bs. wr f bs = Inr (length bs)" and run: "TcpConnection_handleWrite ctl wr t = Inr t'"
  shows "pending t' = []"
proof -
  let ?b = "outputBuffer t" and ?n = "length (pending t)"
  have wf: "Buffer_wf ?b" and isw: "Channel_isWriting (channel t)" using inv up p by (simp_all add: conn_inv_def conn_base_def)
  have fd: "Buffer_writeFd wr (ch_fd (channel t)) ?b = (int ?n, None)"
    using w(2) peek_contents [OF wf] by (simp add: Buffer_writeFd_def)
  have n: "0 < int ?n" using p by simp
  have "take (nat (int ?n)) (Buffer_peek ?b) @ Buffer_contents (Buffer_retrieve ?b (of_int (int ?n))) = pending t"
    by (rule written_prefix [OF wf n]) simp
  moreover have "take ?n (Buffer_peek ?b) = pending t" using peek_contents [OF wf] length_contents [OF wf] by simp
  ultimately have e: "Buffer_contents (Buffer_retrieve ?b (of_int (int ?n))) = []" by simp
  have "outputBuffer t' = Buffer_retrieve ?b (of_int (int ?n))"
    using run isw fd n by (auto simp: TcpConnection_handleWrite_def TcpConnection_shutdownInLoop_def Let_def andthen_Inr_iff on_channel_def
        split: if_splits)
  then show ?thesis using e by simp
qed

lemma writable_reported:
  assumes "echo_obj (load w ob) rcv" and "chan (tcp ob) = c"
  shows "reported w c ob EPOLLOUT = [Write_cb]"
  using echo_objD(6) [OF assms(1)] assms(2)
  by (auto simp: reported_def hooked_def Channel_handleEvent_def Channel_handleEventWithGuard_def EPOLLIN_def EPOLLPRI_def EPOLLOUT_def EPOLLERR_def EPOLLHUP_def)

section \<open>Properties\<close>

text \<open>
  C1. The echo server, with all its threads and connections, refines the abstract echo service: whatever is accepted, read, written and closed in
  whatever order, the sessions that its connections implement have evolved as the service allows, from none. For
  every connection the bytes that arrived are those put on the wire followed by those still pending, in order, so that no byte is
  lost, invented or sent to another connection; nothing stays in the input buffer, and no connection has queued a functor of its own.
\<close>

theorem EchoServer_refines_service:
  assumes ctl: "epoll_ctl_spec ctl" and up: "echo_up ctl hashFunc new_loop l s addr name = Inr w0" "0 \<le> s" and runs: "echo_runs ctl w0 w rc"
  shows "echo_service\<^sup>*\<^sup>* Map.empty (sessions_of w rc) \<and>
     (\<forall>c ob. objs w c = Some ob \<longrightarrow> rc c = wire (tcp ob) @ pending (tcp ob) \<and> Buffer_contents (inputBuffer (tcp ob)) = [] \<and>
        (\<forall>f. Queue f \<notin> set (effects (tcp ob))))"
proof -
  note ok = echo_runs_ok [OF runs ctl up]
  obtain st where e: "echo_world w st rc" using ok(1) ..
  have "rc c = wire (tcp ob) @ pending (tcp ob) \<and> Buffer_contents (inputBuffer (tcp ob)) = [] \<and> (\<forall>f. Queue f \<notin> set (effects (tcp ob)))"
    if "objs w c = Some ob" for c ob
    using echo_objD(1-3) [OF echo_worldD(3) [OF e that]] by (simp add: conn_inv_def quiet_def load_def)
  then show ?thesis using ok(2) by blast
qed

text \<open>
  C18. The echo server is never stuck. In every state that it can reach, a functor that a loop is about to call returns; a connection
  that the kernel accepts gets its object; and an event that the poller reports on a connection is handled to the
  end, message callback and close included, whatever the socket does short of a reset, while the buffers have room.
\<close>

theorem EchoServer_never_stuck:
  assumes ctl: "epoll_ctl_spec ctl" and up: "echo_up ctl hashFunc new_loop l s addr name = Inr w0" "0 \<le> s" and runs: "echo_runs ctl w0 w rc"
  shows "(queue w j = f # fs \<longrightarrow> (\<exists>w'. run_functor ctl (w\<lparr>queue := (queue w)(j := fs)\<rparr>) f = Inr w')) \<and>
     (fresh_fd w d \<and> nextConnId (server w) < 2 ^ 31 - 1 \<longrightarrow> (\<exists>w'. Acceptor_handleRead ctl (Inr (d, peer)) w = Inr w')) \<and>
     (objs w c = Some ob \<and> watched (pollers w (conn_loop ob)) c \<noteq> None \<and> hup_ok r \<and> io_ok k \<and> read_room k (load w ob) \<longrightarrow>
       (\<exists>w'. echo_event ctl k c w (reported w c ob r) = Inr w'))"
proof (intro conjI impI)
  note ok = echo_runs_ok [OF runs ctl up]
  obtain st where e: "echo_world w st rc" using ok(1) ..
  note inv = echo_worldD(1) [OF e]
  show "\<exists>w'. run_functor ctl (w\<lparr>queue := (queue w)(j := fs)\<rparr>) f = Inr w'" if "queue w j = f # fs"
    using functor_ok [OF ctl inv that] by blast
  show "\<exists>w'. echo_event ctl k c w (reported w c ob r) = Inr w'"
    if "objs w c = Some ob \<and> watched (pollers w (conn_loop ob)) c \<noteq> None \<and> hup_ok r \<and> io_ok k \<and> read_room k (load w ob)"
    using echo_event_ok [OF ctl _ e, of k c ob r] that by blast
  assume d: "fresh_fd w d \<and> nextConnId (server w) < 2 ^ 31 - 1"
  have pool: "threadPool (server w) = started_pool hashFunc new_loop l name 3" "newConnectionCallback (acceptor (server w))"
    using ok(3) server_up_ok [OF ctl up(2), of hashFunc new_loop l addr name 3] up(1) by (auto simp: echo_up_eq same_pool_def)
  obtain io where io: "EventLoopThreadPool_getNextLoop (threadPool (server w)) (InetAddress_toIp peer) = Inr io"
    using started_nextLoop [of 3 l new_loop hashFunc name "InetAddress_toIp peer"] unfolding pool(1) by auto
  obtain b where "Buffer_new kInitialSize = Inr b" using Buffer_new_wf [OF kInitialSize_room] by blast
  then obtain t where t: "TcpConnection_new (pollers w io) (next_obj w) d = Inr t" by (simp add: TcpConnection_new_def)
  show "\<exists>w'. Acceptor_handleRead ctl (Inr (d, peer)) w = Inr w'"
    using newConnection_ok [OF ctl inv _ _ io t] d pool(2) by (auto simp: Acceptor_handleRead_def Socket_accept_def fresh_fd_def)
qed

text \<open>
  C17. What the server owes is sent. While bytes are pending on an open connection its poller watches it for writability, and when the
  poller reports it and the socket takes everything, that one event completes the echo: all bytes received are on the wire.
\<close>

theorem EchoServer_completes_echo:
  assumes ctl: "epoll_ctl_spec ctl" and up: "echo_up ctl hashFunc new_loop l s addr name = Inr w0" "0 \<le> s" and runs: "echo_runs ctl w0 w rc"
    and ob: "objs w c = Some ob" "state (tcp ob) = kConnected" "pending (tcp ob) \<noteq> []"
    and k: "io_ok k" "\<And>f bs. io_write k f bs = Inr (length bs)"
  shows "(\<exists>ev. watched (pollers w (conn_loop ob)) c = Some ev \<and> ev AND kWriteEvent \<noteq> 0) \<and>
     (\<exists>w' ob'. echo_event ctl k c w (reported w c ob EPOLLOUT) = Inr w' \<and> objs w' c = Some ob' \<and> wire (tcp ob') = rc c)"
proof -
  obtain st where e: "echo_world w st rc" using echo_runs_ok(1) [OF runs ctl up] ..
  note inv = echo_worldD(1) [OF e] and eo = echo_worldD(3) [OF e ob(1)]
  let ?t = "load w ob"
  have b: "pbase ?t" "chan (tcp ob) = c" by (rule load_pbase [OF inv ob(1)])+
  have t: "up ?t" "pending ?t \<noteq> []" "conn_inv ?t (rc c)" using ob(2,3) echo_objD(1) [OF eo] by (simp_all add: up_def load_def)
  then have reg: "index (channel ?t) = kAdded" "Channel_isWriting (channel ?t)" by (simp_all add: conn_inv_def)
  then have watch: "watched (pollers w (conn_loop ob)) c = Some (events (chans (pollers w (conn_loop ob)) c))"
      "events (chans (pollers w (conn_loop ob)) c) AND kWriteEvent \<noteq> 0"
    using watched_iff [OF srv_invD(1) [OF inv]] b(2) by (simp_all add: Channel_isWriting_def)
  have wr: "write_spec (io_write k)" using k(1) by (simp add: io_ok_def)
  obtain t1 where t1: "TcpConnection_handleWrite ctl (io_write k) ?t = Inr t1" "conn_inv t1 (rc c)"
    using handleWrite_ok [OF ctl t(3) wr] by blast
  have "pending t1 = []" by (rule handleWrite_drains [OF ctl t(3,1,2) wr k(2) t1(1)])
  then have "wire t1 = rc c" using t1(2) by (simp add: conn_inv_def)
  moreover have "run_callback ctl k (EchoServer_onMessage ctl (io_write k)) c w Write_cb = Inr (store w c ob t1)"
    using t1(1) write_life [OF ctl b(1) t1(1)] ob(1) by (simp add: run_callback_def conn_at_def)
  then have "echo_event ctl k c w (reported w c ob EPOLLOUT) = Inr (store w c ob t1)"
    using writable_reported [OF eo b(2)] by (simp add: echo_event_def)
  ultimately show ?thesis using watch by (auto simp: store_def)
qed

section \<open>Witnesses\<close>

text \<open>With ring values beyond the number of threads the base loop takes the connections.\<close>

lemma base_loop_hash:
  "EventLoopThreadPool_getNextLoop (started_pool (\<lambda>_. 100) new_loop l name 3) key = Inr l"
proof -
  let ?p = "started_pool (\<lambda>_. 100) new_loop l name 3"
  have three: "[0..<3] = [0, 1, 2 :: nat]" by (simp add: upt_rec)
  have ring: "set (sortedHashes (hash_ring ?p)) = {100}" by (simp add: three started_pool_eq addNode_eq replicas_3)
  have "ConsistentHash_getNode (hash_ring ?p) key = Inr (successor {100} 100)"
    using started_getNode [of 3 "\<lambda>_. 100" new_loop l name key] unfolding ring by simp
  moreover have "successor {100} 100 \<in> {100 :: size_t}" by (intro successor_in) simp_all
  ultimately show ?thesis by (simp add: EventLoopThreadPool_getNextLoop_def started_pool_eq)
qed

lemma accepted_in_base:
  assumes "EventLoopThreadPool_getNextLoop (threadPool (server w)) (InetAddress_toIp peer) = Inr (base w)" and "Buffer_new kInitialSize = Inr b"
    and "TcpServer_newConnection ctl w f peer = Inr w'"
  shows "\<exists>ob. objs w' (next_obj w) = Some ob \<and> state (tcp ob) = kConnected \<and> inputBuffer (tcp ob) = b \<and> outputBuffer (tcp ob) = b"
  using assms
  by (auto simp: TcpServer_newConnection_def TcpConnection_new_def run_established_def TcpConnection_connectEstablished_def
      TcpConnection_setWriteCompleteCallback_def on_channel_def conn_at_def store_def load_def setState_def andthen_Inr_iff Let_def)

definition hello_io :: "write_call \<Rightarrow> io" where
  "hello_io wr = \<lparr>io_readv = hello_socket, io_write = wr\<rparr>"

lemma readable_reported:
  assumes "echo_obj (load w ob) rcv" and "chan (tcp ob) = c"
  shows "reported w c ob EPOLLIN = [Read_cb]"
  using echo_objD(6) [OF assms(1)] assms(2)
  by (auto simp: reported_def hooked_def Channel_handleEvent_def Channel_handleEventWithGuard_def EPOLLIN_def EPOLLPRI_def EPOLLOUT_def EPOLLERR_def EPOLLHUP_def)

lemma hello_read: "hello_socket f (read_lens b) = Inr ''hello''"
proof -
  have "5 \<le> sum_list (map unat (read_lens b))" by (auto simp: read_lens_def word_less_nat_alt)
  then show ?thesis by (simp add: hello_socket_def)
qed

lemma hello_delivered: "delivered (hello_io wr) t = ''hello''"
  by (simp add: delivered_def hello_io_def hello_read)

lemma hello_io_ok: "write_spec wr \<Longrightarrow> no_reset wr \<Longrightarrow> io_ok (hello_io wr)"
  by (simp add: io_ok_def hello_io_def hello_spec)

text \<open>The echo server after it has accepted a connection in its base loop.\<close>

lemma example_echo:
  "\<exists>w0 w ob. echo_up kernel_ctl (\<lambda>_. 100) (\<lambda>i. 100 + i) 7 3 localhost ''EchoServer'' = Inr w0 \<and> echo_runs kernel_ctl w0 w (\<lambda>_. []) \<and>
     objs w 1 = Some ob \<and> state (tcp ob) = kConnected \<and> watched (pollers w (conn_loop ob)) 1 \<noteq> None \<and>
     reported w 1 ob EPOLLIN = [Read_cb] \<and> read_room (hello_io wr) (load w ob)"
proof -
  obtain w0 where w0: "echo_up kernel_ctl (\<lambda>_. 100) (\<lambda>i. 100 + i) 7 3 localhost ''EchoServer'' = Inr w0" "srv_inv w0 (\<lambda>_. Gone)"
      "threadPool (server w0) = started_pool (\<lambda>_. 100) (\<lambda>i. 100 + i) 7 ''EchoServer'' 3" "newConnectionCallback (acceptor (server w0))"
      "base w0 = 7" "nextConnId (server w0) = 1" "objs w0 = Map.empty" "ch_fd (chans (pollers w0 7) acceptChannel) = 3"
    using server_up_ok [OF kernel_ctl_spec, of 3 "\<lambda>_. 100" "\<lambda>i. 100 + i" 7 localhost "''EchoServer''" 3] unfolding echo_up_eq by auto
  obtain ip where ip: "InetAddress_toIpPort localhost = Inr ip" using toIpPort_bound by blast
  then have one: "next_obj w0 = 1" using w0(1)
    by (auto simp: echo_up_eq server_up_def TcpServer_new_def TcpServer_start_def TcpServer_setThreadNum_def Let_def andthen_Inr_iff)
  have fresh: "fresh_fd w0 9" and n: "nextConnId (server w0) < 2 ^ 31 - 1" using w0(5-8) by (simp_all add: fresh_fd_def)
  note start = echo_runs.start [of kernel_ctl w0]
  from EchoServer_never_stuck [OF kernel_ctl_spec w0(1) _ start] fresh n obtain w where
    acc: "Acceptor_handleRead kernel_ctl (Inr (9, localhost)) w0 = Inr w" by fastforce
  have runs: "echo_runs kernel_ctl w0 w (\<lambda>_. [])" by (rule echo_runs.step [OF start echo_step.accepted [OF fresh n acc]])
  have run: "TcpServer_newConnection kernel_ctl w0 9 localhost = Inr w" using acc w0(4) by (simp add: Acceptor_handleRead_def Socket_accept_def)
  obtain b where b: "Buffer_new kInitialSize = Inr b" by (rule Buffer_new_wf [OF kInitialSize_room])
  then have size: "unat (writerIndex b) = 8" "length (buffer b) = 1032"
    by (auto simp: Buffer_new_def vec_resize_def kInitialSize_def kCheapPrepend_def vec_max_def)
  have io: "EventLoopThreadPool_getNextLoop (threadPool (server w0)) (InetAddress_toIp localhost) = Inr (base w0)"
    unfolding w0(3,5) by (rule base_loop_hash)
  obtain ob where ob: "objs w 1 = Some ob" "state (tcp ob) = kConnected" "inputBuffer (tcp ob) = b" "outputBuffer (tcp ob) = b"
    using accepted_in_base [OF io b run] one by auto
  have s3: "(0 :: int) \<le> 3" by simp
  obtain st where e: "echo_world w st (\<lambda>_. [])" using echo_runs_ok(1) [OF runs kernel_ctl_spec w0(1) s3] ..
  have eo: "echo_obj (load w ob) []" "chan (tcp ob) = 1" using echo_worldD(3) [OF e ob(1)] load_pbase(2) [OF echo_worldD(1) [OF e] ob(1)] by simp_all
  have "up (load w ob)" using ob(2) by (simp add: up_def)
  then have "watched (pollers w (conn_loop ob)) 1 \<noteq> None"
    using echo_objD(5) [OF eo(1)] eo(2) watched_iff [OF srv_invD(1) [OF echo_worldD(1) [OF e]]] by (simp add: registered_def)
  moreover have "read_room (hello_io wr) (load w ob)"
    using ob(3,4) size by (simp add: read_room_def hello_delivered load_def Buffer_room_def vec_max_def)
  ultimately show ?thesis using w0(1) runs ob(1,2) readable_reported [OF eo] by blast
qed

lemma full_send_wire: "TcpConnection_send ctl full_socket True t bs = Inr t' \<Longrightarrow> wire t' = wire t \<and> state t' = state t"
  by (auto simp: TcpConnection_send_def TcpConnection_sendInLoop_def send_direct_def send_rest_def full_socket_def on_channel_def Let_def
      andthen_Inr_iff split: if_splits)

text \<open>It then receives a message that the socket does not yet take back.\<close>

lemma example_hello:
  "\<exists>w0 w ob. echo_up kernel_ctl (\<lambda>_. 100) (\<lambda>i. 100 + i) 7 3 localhost ''EchoServer'' = Inr w0 \<and> echo_runs kernel_ctl w0 w ((\<lambda>_. [])(1 := ''hello'')) \<and>
     objs w 1 = Some ob \<and> state (tcp ob) = kConnected \<and> wire (tcp ob) = []"
proof -
  let ?k = "hello_io full_socket"
  obtain w0 w ob where w: "echo_up kernel_ctl (\<lambda>_. 100) (\<lambda>i. 100 + i) 7 3 localhost ''EchoServer'' = Inr w0" "echo_runs kernel_ctl w0 w (\<lambda>_. [])"
      "objs w 1 = Some ob" "state (tcp ob) = kConnected" "watched (pollers w (conn_loop ob)) 1 \<noteq> None"
      "reported w 1 ob EPOLLIN = [Read_cb]" "read_room ?k (load w ob)" using example_echo by blast
  have hup: "hup_ok EPOLLIN" by (simp add: hup_ok_def EPOLLIN_def EPOLLHUP_def)
  have io: "io_ok ?k" by (rule hello_io_ok [OF socket_specs(1,2)])
  have s3: "(0 :: int) \<le> 3" by simp
  obtain st where e: "echo_world w st (\<lambda>_. [])" using echo_runs_ok(1) [OF w(2) kernel_ctl_spec w(1) s3] ..
  obtain w' where w': "echo_event kernel_ctl ?k 1 w [Read_cb] = Inr w'"
    using EchoServer_never_stuck [OF kernel_ctl_spec w(1) s3 w(2)] w(3,5,7) hup io unfolding w(6) [symmetric] by blast
  have runs: "echo_runs kernel_ctl w0 w' ((\<lambda>_. [])(1 := ''hello''))"
    using echo_runs.step [OF w(2) echo_step.event [OF w(3,5) hup io w(7) w' [folded w(6)]]] unfolding w(6) hello_delivered by simp
  have eo: "echo_obj (load w ob) []" using echo_worldD(3) [OF e w(3)] by simp
  then have "wire (load w ob) = []" using echo_objD(1) [OF eo] by (simp add: conn_inv_def)
  moreover obtain ib where "TcpConnection_handleRead kernel_ctl hello_socket (load w ob) = Inr (emit MessageCallback ((load w ob)\<lparr>inputBuffer := ib\<rparr>))"
  proof -
    have wf: "Buffer_wf (inputBuffer (load w ob))" "length (buffer (inputBuffer (load w ob))) + 65536 \<le> vec_max"
      using echo_objD(1) [OF eo] w(7) by (simp_all add: conn_inv_def conn_base_def read_room_def)
    show thesis
      using that hello_read readFd_spec [OF wf(1) hello_spec wf(2), of "ch_fd (channel (load w ob))", folded read_lens_def]
      by (auto simp: TcpConnection_handleRead_def)
  qed
  ultimately have "\<exists>ob'. objs w' 1 = Some ob' \<and> state (tcp ob') = kConnected \<and> wire (tcp ob') = []"
    using w' w(3,4)
    by (auto simp: echo_event_def run_callback_def conn_at_def hello_io_def news_def EchoServer_onMessage_def andthen_Inr_iff store_def
        dest!: full_send_wire)
  then show ?thesis using w(1) runs by blast
qed

theorem EchoServer_refines_service_witness:
  "\<exists>w0 w ob. echo_up kernel_ctl (\<lambda>_. 100) (\<lambda>i. 100 + i) 7 3 localhost ''EchoServer'' = Inr w0 \<and> echo_runs kernel_ctl w0 w ((\<lambda>_. [])(1 := ''hello'')) \<and>
     objs w 1 = Some ob \<and> wire (tcp ob) @ pending (tcp ob) = ''hello''"
proof -
  obtain w0 w ob where w: "echo_up kernel_ctl (\<lambda>_. 100) (\<lambda>i. 100 + i) 7 3 localhost ''EchoServer'' = Inr w0"
      "echo_runs kernel_ctl w0 w ((\<lambda>_. [])(1 := ''hello''))" "objs w 1 = Some ob" using example_hello by blast
  then show ?thesis using EchoServer_refines_service [OF kernel_ctl_spec w(1) _ w(2)] by fastforce
qed

theorem EchoServer_never_stuck_witness:
  "\<exists>w0 w ob w'. echo_up kernel_ctl (\<lambda>_. 100) (\<lambda>i. 100 + i) 7 3 localhost ''EchoServer'' = Inr w0 \<and> echo_runs kernel_ctl w0 w (\<lambda>_. []) \<and>
     objs w 1 = Some ob \<and> echo_event kernel_ctl (hello_io full_socket) 1 w (reported w 1 ob EPOLLIN) = Inr w'"
proof -
  obtain w0 w ob where w: "echo_up kernel_ctl (\<lambda>_. 100) (\<lambda>i. 100 + i) 7 3 localhost ''EchoServer'' = Inr w0" "echo_runs kernel_ctl w0 w (\<lambda>_. [])"
      "objs w 1 = Some ob" "watched (pollers w (conn_loop ob)) 1 \<noteq> None" "read_room (hello_io full_socket) (load w ob)"
    using example_echo by blast
  have "hup_ok EPOLLIN" by (simp add: hup_ok_def EPOLLIN_def EPOLLHUP_def)
  then show ?thesis
    using EchoServer_never_stuck [OF kernel_ctl_spec w(1) _ w(2)] w hello_io_ok [OF socket_specs(1,2)] by fastforce
qed

theorem EchoServer_completes_echo_witness:
  "\<exists>w0 w ob w' ob'. echo_up kernel_ctl (\<lambda>_. 100) (\<lambda>i. 100 + i) 7 3 localhost ''EchoServer'' = Inr w0 \<and>
     echo_runs kernel_ctl w0 w ((\<lambda>_. [])(1 := ''hello'')) \<and> objs w 1 = Some ob \<and>
     echo_event kernel_ctl (hello_io free_socket) 1 w (reported w 1 ob EPOLLOUT) = Inr w' \<and> objs w' 1 = Some ob' \<and> wire (tcp ob') = ''hello''"
proof -
  obtain w0 w ob where w: "echo_up kernel_ctl (\<lambda>_. 100) (\<lambda>i. 100 + i) 7 3 localhost ''EchoServer'' = Inr w0"
      "echo_runs kernel_ctl w0 w ((\<lambda>_. [])(1 := ''hello''))" "objs w 1 = Some ob" "state (tcp ob) = kConnected" "wire (tcp ob) = []"
    using example_hello by blast
  have s3: "(0 :: int) \<le> 3" by simp
  obtain st where e: "echo_world w st ((\<lambda>_. [])(1 := ''hello''))" using echo_runs_ok(1) [OF w(2) kernel_ctl_spec w(1) s3] ..
  have "conn_inv (load w ob) ''hello''" using echo_objD(1) [OF echo_worldD(3) [OF e w(3)]] by simp
  then have "pending (tcp ob) \<noteq> []" using w(5) by (auto simp: conn_inv_def load_def)
  moreover have "io_write (hello_io free_socket) f bs = Inr (length bs)" for f bs by (simp add: hello_io_def free_socket_def)
  ultimately show ?thesis
    using EchoServer_completes_echo [OF kernel_ctl_spec w(1) s3 w(2-4) _ hello_io_ok [OF socket_specs(3,4)]] w(1-3) by fastforce
qed

end
