(* ===== verification/Net_Descriptors.thy ===== *)
theory Net_Descriptors
  imports Net_TcpServer
begin

text \<open>
  The descriptors of the process while a server runs. \<open>Net_TcpServer\<close> takes it as given that \<open>accept\<close> returns a descriptor
  that no socket of the server has. Here the kernel's table of open descriptors is part of the state: \<open>accept\<close> takes
  any free entry, the destructor of \<open>Socket\<close> (\<open>src/net/Socket.cc\<close>) frees the entry when a connection object dies, and the rest of the
  process opens and closes descriptors of its own at any time.
\<close>

datatype holder = Free | Server | Other

type_synonym fd_table = "fd \<Rightarrow> holder"

definition Socket_destroy :: "fd \<Rightarrow> fd_table \<Rightarrow> fd_table" where
  "Socket_destroy f T = T(f := Free)"

inductive fd_step ::
  "epoll_ctl_call \<Rightarrow> (TcpConnection \<Rightarrow> TcpConnection result) \<Rightarrow> world \<times> fd_table \<Rightarrow> world \<times> fd_table \<Rightarrow> bool" for ctl onMessage where
  accepted: "T f = Free \<Longrightarrow> 0 \<le> f \<Longrightarrow> nextConnId (server w) < 2 ^ 31 - 1 \<Longrightarrow>
     Acceptor_handleRead ctl (Inr (f, peer)) w = Inr w' \<Longrightarrow> fd_step ctl onMessage (w, T) (w', T(f := Server))"
| not_accepted: "Acceptor_handleRead ctl (Inl err) w = Inr w' \<Longrightarrow> fd_step ctl onMessage (w, T) (w', T)"
| called: "queue w l = f # fs \<Longrightarrow> (\<And>c. f \<noteq> Destroyed_fn c) \<Longrightarrow>
     run_functor ctl (w\<lparr>queue := (queue w)(l := fs)\<rparr>) f = Inr w' \<Longrightarrow> fd_step ctl onMessage (w, T) (w', T)"
| destroyed: "queue w l = Destroyed_fn c # fs \<Longrightarrow> run_functor ctl (w\<lparr>queue := (queue w)(l := fs)\<rparr>) (Destroyed_fn c) = Inr w' \<Longrightarrow>
     objs w c = Some ob \<Longrightarrow> fd_step ctl onMessage (w, T) (w', Socket_destroy (conn_fd w c ob) T)"
| event: "objs w c = Some ob \<Longrightarrow> watched (pollers w (conn_loop ob)) c \<noteq> None \<Longrightarrow> hup_ok r \<Longrightarrow>
     run_callbacks ctl k onMessage c w
       (Channel_handleEvent True (chans (pollers w (conn_loop ob)) c\<lparr>revents := r\<rparr>)) = Inr w' \<Longrightarrow>
     fd_step ctl onMessage (w, T) (w', T)"
| other_open: "T f = Free \<Longrightarrow> fd_step ctl onMessage (w, T) (w, T(f := Other))"
| other_close: "T f = Other \<Longrightarrow> fd_step ctl onMessage (w, T) (w, T(f := Free))"

section \<open>The invariant\<close>

text \<open>The server's entries of the table are the listening socket and the sockets of the live connections.\<close>

definition fds_exact :: "fd \<Rightarrow> world \<Rightarrow> fd_table \<Rightarrow> bool" where
  "fds_exact s w T \<longleftrightarrow> listen_fd w = s \<and> (\<forall>f. T f = Server \<longleftrightarrow> f = s \<or> f \<in> ran (sock_fds w))"

definition fd_inv :: "fd \<Rightarrow> world \<times> fd_table \<Rightarrow> bool" where
  "fd_inv s x \<longleftrightarrow> (\<exists>st. srv_inv (fst x) st) \<and> fds_exact s (fst x) (snd x) \<and> newConnectionCallback (acceptor (server (fst x)))"

lemma sock_fds_iff: "f \<in> ran (sock_fds w) \<longleftrightarrow> (\<exists>c ob. objs w c = Some ob \<and> conn_fd w c ob = f)"
  by (auto simp: ran_def sock_fds_def)

lemma listen_fd_apart: "srv_inv w st \<Longrightarrow> listen_fd w \<notin> ran (sock_fds w)"
  using srv_invD(4) unfolding sock_fds_iff fds_ok_def listen_fd_def by blast

lemma ran_remove:
  assumes "srv_inv w st" and "objs w c = Some ob"
  shows "ran ((sock_fds w)(c := None)) = ran (sock_fds w) - {conn_fd w c ob}"
proof -
  have c: "sock_fds w c = Some (conn_fd w c ob)" using assms(2) by (simp add: sock_fds_def)
  moreover have "d = c" if "sock_fds w d = Some (conn_fd w c ob)" for d
    using srv_invD(4) [OF assms(1)] that assms(2) by (auto simp: fds_ok_def sock_fds_def)
  ultimately show ?thesis by (auto simp: ran_def) (metis option.inject)
qed

lemma fds_exact_other: "fds_exact s w T \<Longrightarrow> T f \<noteq> Server \<Longrightarrow> h \<noteq> Server \<Longrightarrow> fds_exact s w (T(f := h))"
  unfolding fds_exact_def by (metis fun_upd_apply)

text \<open>A free entry of the table is a descriptor that the server does not have.\<close>

lemma free_fresh: "fds_exact s w T \<Longrightarrow> T f = Free \<Longrightarrow> 0 \<le> f \<Longrightarrow> fresh_fd w f"
  unfolding fds_exact_def sock_fds_iff fresh_fd_def listen_fd_def by (metis holder.distinct(1))

lemma fd_step_ok:
  assumes ctl: "epoll_ctl_spec ctl" and msg: "message_ok onMessage" and inv: "fd_inv s x" and step: "fd_step ctl onMessage x y"
  shows "fd_inv s y \<and> (server_step ctl onMessage)\<^sup>*\<^sup>* (fst x) (fst y)"
proof -
  obtain st where srv: "srv_inv (fst x) st" and exact: "fds_exact s (fst x) (snd x)" and cb: "newConnectionCallback (acceptor (server (fst x)))"
    using inv by (auto simp: fd_inv_def)
  have main: "fd_inv s y \<and> (server_step ctl onMessage)\<^sup>*\<^sup>* (fst x) (fst y)"
    if step: "server_step ctl onMessage (fst x) (fst y)" and "fds_exact s (fst y) (snd y)"
  proof -
    obtain st' where "srv_inv (fst y) st'" using server_step_inv [OF step ctl msg srv] by blast
    then show ?thesis using that cb step_same_pool [OF step] by (auto simp: fd_inv_def same_pool_def)
  qed
  from step show ?thesis
  proof cases
    case (accepted T f w peer w')
    have fresh: "fresh_fd w f" using free_fresh exact accepted(1,3,4) by simp
    have run: "TcpServer_newConnection ctl w f peer = Inr w'"
      using accepted(1,4,6) cb by (simp add: Acceptor_handleRead_def Socket_accept_def)
    then obtain io t where io: "EventLoopThreadPool_getNextLoop (threadPool (server w)) (InetAddress_toIp peer) = Inr io"
        "TcpConnection_new (pollers w io) (next_obj w) f = Inr t"
      unfolding TcpServer_newConnection_def Let_def andthen_Inr_iff by auto
    have inv_w: "srv_inv w st" using srv accepted(1) by simp
    have new: "sock_fds w' = (sock_fds w)(next_obj w \<mapsto> f)" "listen_fd w' = listen_fd w"
      using newConnection_ok [OF ctl inv_w fresh accepted(5) io] run by auto
    have "sock_fds w (next_obj w) = None" using inv_w by (simp add: srv_inv_def sock_fds_def)
    then have "ran (sock_fds w') = insert f (ran (sock_fds w))" using new(1) by simp
    then have "fds_exact s w' (T(f := Server))" using exact new(2) accepted(1) by (auto simp: fds_exact_def)
    moreover have "server_step ctl onMessage w w'" using fresh accepted(5,6) by (rule server_step.accepted)
    ultimately show ?thesis using main accepted(1,2) by simp
  next
    case (not_accepted err w w' T)
    moreover from this have "w' = w" by (simp add: Acceptor_handleRead_def Socket_accept_def)
    ultimately show ?thesis using main exact server_step.not_accepted [of ctl err w w'] by simp
  next
    case (called w l f fs w' T)
    have inv_w: "srv_inv w st" using srv called(1) by simp
    have "sock_fds w' = sock_fds w" "listen_fd w' = listen_fd w"
      using functor_ok [OF ctl inv_w called(3)] called(4,5) by (auto split: server_fn.splits)
    then have "fds_exact s w' T" using exact called(1) by (simp add: fds_exact_def)
    moreover have "server_step ctl onMessage w w'" using called(3,5) by (rule server_step.called)
    ultimately show ?thesis using main called(1,2) by simp
  next
    case (destroyed w l c fs w' ob T)
    have inv_w: "srv_inv w st" using srv destroyed(1) by simp
    have "sock_fds w' = (sock_fds w)(c := None)" "listen_fd w' = listen_fd w"
      using functor_ok [OF ctl inv_w destroyed(3)] destroyed(4) by auto
    then have "fds_exact s w' (Socket_destroy (conn_fd w c ob) T)"
      using exact destroyed(1) ran_remove [OF inv_w destroyed(5)] listen_fd_apart [OF inv_w] destroyed(5)
      by (auto simp: fds_exact_def Socket_destroy_def sock_fds_iff)
    moreover have "server_step ctl onMessage w w'" using destroyed(3,4) by (rule server_step.called)
    ultimately show ?thesis using main destroyed(1,2) by simp
  next
    case (event w c ob r k w' T)
    have step: "server_step ctl onMessage w w'" using event(3-6) by (rule server_step.event)
    have "same_fds w w'" using event_ok [OF ctl msg _ event(3-6)] srv event(1) by simp
    then have "fds_exact s w' T" using exact event(1) by (simp add: fds_exact_def same_fds_def)
    then show ?thesis using main step event(1,2) by simp
  next
    case (other_open T f w)
    then show ?thesis using inv fds_exact_other [of s w T f Other] by (auto simp: fd_inv_def)
  next
    case (other_close T f w)
    then show ?thesis using inv fds_exact_other [of s w T f Free] by (auto simp: fd_inv_def)
  qed
qed

interpretation fds: simulation
  "\<lambda>x y. epoll_ctl_spec ctl \<and> message_ok onMessage \<and> fd_step ctl onMessage x y" "fd_inv s" "server_step ctl onMessage" fst for ctl onMessage s
  by unfold_locales (blast dest: fd_step_ok)+

section \<open>Properties\<close>

text \<open>
  C6. Descriptors are neither leaked nor closed twice. While a server runs, whatever the rest of the process opens and closes, the
  descriptors that the server holds are exactly its listening socket and one for each live connection, so that a connection
  whose object is gone has given its descriptor back; no two connections share one; the descriptor that a dying connection closes is its own
  and still open; and a descriptor that the kernel can return from \<open>accept\<close> is fresh.
\<close>

theorem TcpServer_descriptors_exact:
  assumes "epoll_ctl_spec ctl" and "message_ok onMessage" and "server_up ctl hashFunc new_loop l s addr name n = Inr w0" and "0 \<le> s"
    and "\<forall>f. T0 f = Server \<longleftrightarrow> f = s" and "(fd_step ctl onMessage)\<^sup>*\<^sup>* (w0, T0) (w, T)"
  shows "server_reach ctl onMessage w0 w \<and>
     (\<forall>f. T f = Server \<longleftrightarrow> f = s \<or> (\<exists>c ob. objs w c = Some ob \<and> conn_fd w c ob = f)) \<and>
     (\<forall>c d ob ob'. objs w c = Some ob \<and> objs w d = Some ob' \<and> conn_fd w c ob = conn_fd w d ob' \<longrightarrow> c = d) \<and>
     (\<forall>k c fs. queue w k = Destroyed_fn c # fs \<longrightarrow> (\<exists>ob. objs w c = Some ob \<and> T (conn_fd w c ob) = Server)) \<and>
     (\<forall>f. T f = Free \<and> 0 \<le> f \<longrightarrow> fresh_fd w f)"
proof -
  obtain w1 where "server_up ctl hashFunc new_loop l s addr name n = Inr w1" "srv_inv w1 (\<lambda>_. Gone)"
      "newConnectionCallback (acceptor (server w1))" "objs w1 = Map.empty" "listen_fd w1 = s"
    using server_up_ok [OF assms(1,4), of hashFunc new_loop l addr name n] unfolding listen_fd_def by metis
  then have inv0: "fd_inv s (w0, T0)" using assms(3,5) by (auto simp: fd_inv_def fds_exact_def sock_fds_iff)
  have runs: "(\<lambda>x y. epoll_ctl_spec ctl \<and> message_ok onMessage \<and> fd_step ctl onMessage x y)\<^sup>*\<^sup>* (w0, T0) (w, T)"
    using assms(1,2,6) by simp
  obtain st where inv: "srv_inv w st" and exact: "fds_exact s w T" using fds.inv_runs [OF runs inv0] by (auto simp: fd_inv_def)
  have T: "T f = Server \<longleftrightarrow> f = s \<or> (\<exists>c ob. objs w c = Some ob \<and> conn_fd w c ob = f)" for f
    using exact by (simp add: fds_exact_def sock_fds_iff)
  have "\<exists>ob. objs w c = Some ob \<and> T (conn_fd w c ob) = Server" if "queue w k = Destroyed_fn c # fs" for k c fs
    using due_of_queued [OF inv, of "Destroyed_fn c" k] that T by auto
  moreover have "server_reach ctl onMessage w0 w" using server_reach_runs fds.spec_runs [OF runs inv0] by simp
  moreover have "objs w c = Some ob \<and> objs w d = Some ob' \<and> conn_fd w c ob = conn_fd w d ob' \<longrightarrow> c = d" for c d ob ob'
    using srv_invD(4) [OF inv] unfolding fds_ok_def by blast
  ultimately show ?thesis using T free_fresh [OF exact] by blast
qed

section \<open>Witnesses\<close>

theorem TcpServer_descriptors_exact_witness:
  "\<exists>w0 w T. server_up kernel_ctl (\<lambda>_. 0) (\<lambda>i. 100 + i) 7 3 localhost ''srv'' 1 = Inr w0 \<and>
     (fd_step kernel_ctl Inr)\<^sup>*\<^sup>* (w0, (\<lambda>_. Free)(3 := Server)) (w, T) \<and> T 9 = Server \<and> fresh_fd w 5"
proof -
  obtain w0 where w0: "server_up kernel_ctl (\<lambda>_. 0) (\<lambda>i. 100 + i) 7 3 localhost ''srv'' 1 = Inr w0" "nextConnId (server w0) = 1"
      "fresh_fd w0 9" and inv: "srv_inv w0 (\<lambda>_. Gone)" "threadPool (server w0) = started_pool (\<lambda>_. 0) (\<lambda>i. 100 + i) 7 ''srv'' 1"
      "newConnectionCallback (acceptor (server w0))"
    using example_server_0 server_up_ok [OF kernel_ctl_spec, of 3 "\<lambda>_. 0" "\<lambda>i. 100 + i" 7 localhost "''srv''" 1] by fastforce
  let ?T = "(\<lambda>_. Free)(3 := Server)"
  obtain b where "Buffer_new kInitialSize = Inr b" using Buffer_new_wf [OF kInitialSize_room] by blast
  then obtain t where t: "TcpConnection_new (pollers w0 (100 + 0)) (next_obj w0) 9 = Inr t" by (simp add: TcpConnection_new_def)
  have n: "nextConnId (server w0) < 2 ^ 31 - 1" using w0(2) by simp
  have io: "EventLoopThreadPool_getNextLoop (threadPool (server w0)) (InetAddress_toIp localhost) = Inr (100 + 0)"
    using zero_hash_loop unfolding inv(2) by blast
  obtain w where "TcpServer_newConnection kernel_ctl w0 9 localhost = Inr w"
    using newConnection_ok [OF kernel_ctl_spec inv(1) w0(3) n io t] by blast
  then have "Acceptor_handleRead kernel_ctl (Inr (9, localhost)) w0 = Inr w" using inv(3) by (simp add: Acceptor_handleRead_def Socket_accept_def)
  then have run: "(fd_step kernel_ctl Inr)\<^sup>*\<^sup>* (w0, ?T) (w, ?T(9 := Server))"
    using n by (intro r_into_rtranclp fd_step.accepted) simp_all
  have s3: "0 \<le> (3 :: int)" by simp
  have T0: "\<forall>f. ?T f = Server \<longleftrightarrow> f = 3" by simp
  have "\<forall>f. (?T(9 := Server)) f = Free \<and> 0 \<le> f \<longrightarrow> fresh_fd w f"
    using TcpServer_descriptors_exact [OF kernel_ctl_spec message_ok_none w0(1) s3 T0 run] by (elim conjE) assumption
  from this [rule_format, of 5] have "fresh_fd w 5" by simp
  then show ?thesis using w0(1) run by (intro exI [of _ w0] exI [of _ w] exI [of _ "?T(9 := Server)"]) simp
qed

end
