(* ===== verification/Net_ServerEnd.thy ===== *)
theory Net_ServerEnd
  imports Net_TcpServer
begin

text \<open>
  The end of a server: the destructor of \<open>TcpServer\<close> (\<open>src/net/TcpServer.cc\<close>, \<open>include/net/TcpServer.h\<close>) in any state that a running server
  can be in, with connections that wait to be established, are up, or are on their way out. It ends the connections of the base loop itself and
  hands the destruction of the others to their loops; then its members go, in the reverse order of their declaration: the map of connections, the pool of
  threads, whose destructor makes every loop quit and joins its thread (\<open>src/net/EventLoopThread.cc\<close>), and the acceptor.

  A loop that is told to quit still calls some of the functors in its queue, depending on where it is in its turn, and drops the others when its
  \<open>EventLoop\<close> is destroyed: how many it calls is an argument. That it leaves \<open>loop()\<close>, so that \<open>join\<close> returns, is the subject of
  \<open>Net_EventLoopThread\<close>. Events that a loop may still handle in its last turn are left out.
\<close>

section \<open>The destructors\<close>





section \<open>What survives\<close>














section \<open>The connections\<close>



section \<open>The loops\<close>



















section \<open>Properties\<close>


section \<open>Witnesses\<close>



end
