(* ===== verification/Net_Threads.thy ===== *)
theory Net_Threads
  imports Net_EventLoop Net_TcpServer "HOL-Library.Sublist"
begin

text \<open>
  The server on its threads. \<open>Net_TcpServer\<close> has for each loop a queue of functors from which the next one may be called at
  any time; \<open>Net_EventLoop\<close> has one loop, with its flags, its wake-up counter and its phases, and functors without meaning. Here every loop of the
  server is a loop of \<open>Net_EventLoop\<close>: a functor of the server is called only in the batch that \<open>doPendingFunctors\<close>
  took, a handler only between \<open>poll\<close> and that batch, and what either queues for a loop goes through \<open>queueInLoop\<close> (\<open>src/net/EventLoop.cc\<close>) with
  its wake-up. Both models are projections of this one.
\<close>

section \<open>Steps\<close>

type_synonym loops_state = "loop \<Rightarrow> server_fn EventLoop"

text \<open>
  \<open>deliver\<close> hands the functors that an operation has appended to the queues to the loops. The thread of the loop \<open>cur\<close> calls \<open>queueInLoop\<close>: for
  its own loop that is one step; for another loop the functor is pushed, and the notification is still to come.
\<close>

definition deliver ::
  "eventfd \<Rightarrow> loop \<Rightarrow> (loop \<Rightarrow> server_fn list) \<Rightarrow> (loop \<Rightarrow> server_fn list) \<Rightarrow> loops_state \<Rightarrow> loops_state" where
  "deliver K cur q q' E l =
     foldl (\<lambda>e f. if l = cur then EventLoop_queueInLoop K True e f else (queueInLoop_push e f)\<lparr>queuers := queuers e + 1\<rparr>)
       (E l) (drop (length (q l)) (q' l))"

text \<open>
  Steps of a loop that call and queue no functor of the server: the loop thread moves on, \<open>poll\<close> returns, the wake-up descriptor is read, a
  pending notification is made, somebody calls \<open>quit\<close>. An \<open>accept\<close> that fails changes nothing and has no step of its own.
\<close>

definition inner_step :: "eventfd \<Rightarrow> server_fn EventLoop \<Rightarrow> server_fn EventLoop \<Rightarrow> bool" where
  "inner_step K e e' \<longleftrightarrow> loop_step K e e' \<and> submitted e' = submitted e \<and> executed e' = executed e"

inductive threads_step ::
  "eventfd \<Rightarrow> epoll_ctl_call \<Rightarrow> (TcpConnection \<Rightarrow> TcpConnection result) \<Rightarrow> world \<times> loops_state \<Rightarrow> world \<times> loops_state \<Rightarrow> bool"
  for K ctl onMessage where
  inner: "inner_step K (E l) e \<Longrightarrow> threads_step K ctl onMessage (w, E) (w, E(l := e))"
| called: "pc (E l) = Running (f # fs) \<Longrightarrow> v = w\<lparr>queue := (queue w)(l := tl (queue w l))\<rparr> \<Longrightarrow> run_functor ctl v f = Inr w' \<Longrightarrow>
    threads_step K ctl onMessage (w, E)
      (w', deliver K l (queue v) (queue w') (E(l := (E l)\<lparr>pc := Running fs, executed := executed (E l) @ [f]\<rparr>)))"
| event: "objs w c = Some ob \<Longrightarrow> pc (E (conn_loop ob)) = Handling b \<Longrightarrow> watched (pollers w (conn_loop ob)) c \<noteq> None \<Longrightarrow> hup_ok r \<Longrightarrow>
    run_callbacks ctl k onMessage c w
      (Channel_handleEvent True (chans (pollers w (conn_loop ob)) c\<lparr>revents := r\<rparr>)) = Inr w' \<Longrightarrow>
    threads_step K ctl onMessage (w, E) (w', deliver K (conn_loop ob) (queue w) (queue w') E)"
| accepted: "pc (E (base w)) = Handling b \<Longrightarrow> fresh_fd w f \<Longrightarrow> nextConnId (server w) < 2 ^ 31 - 1 \<Longrightarrow>
    Acceptor_handleRead ctl (Inr (f, peer)) w = Inr w' \<Longrightarrow>
    threads_step K ctl onMessage (w, E) (w', deliver K (base w) (queue w) (queue w') E)"

section \<open>Operations only append\<close>

definition appends :: "world \<Rightarrow> world \<Rightarrow> bool" where
  "appends w w' \<longleftrightarrow> (\<forall>l. \<exists>new. queue w' l = queue w l @ new)"

lemma appends_refl [simp]: "appends w w"
  by (simp add: appends_def)

lemma appends_trans: "appends w w' \<Longrightarrow> appends w' w'' \<Longrightarrow> appends w w''"
  unfolding appends_def by (metis append.assoc)

lemma appends_enqueue [simp]: "appends w (enqueue w l f)"
  by (simp add: appends_def enqueue_def)

lemma appends_cong: "queue w' = queue w \<Longrightarrow> appends w w'"
  by (simp add: appends_def)

lemma run_functor_appends: "run_functor ctl w f = Inr w' \<Longrightarrow> appends w w'"
  by (cases f) (auto simp: run_established_def run_destroyed_def TcpServer_removeConnectionInLoop_def andthen_Inr_iff
      appends_def store_def enqueue_def Let_def)

lemma run_callbacks_appends: "run_callbacks ctl k onMessage c w cbs = Inr w' \<Longrightarrow> appends w w'"
proof (induction cbs arbitrary: w)
  case (Cons cb cbs)
  then obtain w1 where w1: "run_callback ctl k onMessage c w cb = Inr w1" "appends w1 w'" by (auto simp: andthen_Inr_iff)
  have "appends w w1"
    using w1(1) by (auto simp: run_callback_def TcpServer_removeConnection_def TcpServer_removeConnectionInLoop_def
      andthen_Inr_iff appends_def store_def enqueue_def Let_def split: if_splits)
  then show ?case using w1(2) appends_trans by blast
qed simp

lemma handleRead_appends: "Acceptor_handleRead ctl r w = Inr w' \<Longrightarrow> appends w w'"
  by (auto simp: Acceptor_handleRead_def TcpServer_newConnection_def run_established_def andthen_Inr_iff appends_def store_def enqueue_def
      Let_def split: if_splits prod.splits)

text \<open>They change the object of one connection, and never move a connection to another loop.\<close>

lemma run_functor_objs: "run_functor ctl w f = Inr w' \<Longrightarrow> d \<noteq> target f \<Longrightarrow> objs w' d = objs w d"
  by (cases f) (auto simp: run_established_def run_destroyed_def TcpServer_removeConnectionInLoop_def andthen_Inr_iff
      store_def enqueue_def Let_def)

lemma run_callbacks_objs: "run_callbacks ctl k onMessage c w cbs = Inr w' \<Longrightarrow> d \<noteq> c \<Longrightarrow> objs w' d = objs w d"
proof (induction cbs arbitrary: w)
  case (Cons cb cbs)
  then obtain w1 where w1: "run_callback ctl k onMessage c w cb = Inr w1" "run_callbacks ctl k onMessage c w1 cbs = Inr w'"
    by (auto simp: andthen_Inr_iff)
  have "objs w1 d = objs w d"
    using w1(1) Cons.prems(2) by (auto simp: run_callback_def TcpServer_removeConnection_def TcpServer_removeConnectionInLoop_def
      andthen_Inr_iff store_def enqueue_def Let_def split: if_splits)
  then show ?case using Cons.IH [OF w1(2) Cons.prems(2)] by simp
qed simp

lemma newConnection_objs: "TcpServer_newConnection ctl w f peer = Inr w' \<Longrightarrow> d \<noteq> next_obj w \<Longrightarrow> objs w' d = objs w d"
  by (auto simp: TcpServer_newConnection_def run_established_def andthen_Inr_iff store_def enqueue_def Let_def split: if_splits)

lemma run_functor_loop: "run_functor ctl w f = Inr w' \<Longrightarrow> objs w' d = Some ob' \<Longrightarrow> \<exists>ob. objs w d = Some ob \<and> conn_loop ob' = conn_loop ob"
  by (cases f) (auto simp: run_established_def run_destroyed_def TcpServer_removeConnectionInLoop_def andthen_Inr_iff conn_at_def
      store_def enqueue_def Let_def split: if_splits option.splits)

lemma run_callbacks_loop:
  "run_callbacks ctl k onMessage c w cbs = Inr w' \<Longrightarrow> objs w d = Some ob \<Longrightarrow> \<exists>ob'. objs w' d = Some ob' \<and> conn_loop ob' = conn_loop ob"
proof (induction cbs arbitrary: w ob)
  case (Cons cb cbs)
  then obtain w1 where w1: "run_callback ctl k onMessage c w cb = Inr w1" "run_callbacks ctl k onMessage c w1 cbs = Inr w'"
    by (auto simp: andthen_Inr_iff)
  have "\<exists>ob1. objs w1 d = Some ob1 \<and> conn_loop ob1 = conn_loop ob"
    using w1(1) Cons.prems(2) by (auto simp: run_callback_def TcpServer_removeConnection_def TcpServer_removeConnectionInLoop_def
      andthen_Inr_iff conn_at_def store_def enqueue_def Let_def split: if_splits option.splits)
  then show ?case using Cons.IH [OF w1(2)] by fastforce
qed simp

section \<open>Projections\<close>

text \<open>The queue of the server's model is the batch under way followed by what is pending.\<close>

definition in_step :: "world \<times> loops_state \<Rightarrow> bool" where
  "in_step x \<longleftrightarrow> (\<forall>l. queue (fst x) l = running_functors (snd x l) @ pendingFunctors (snd x l))"

lemma deliver_steps:
  assumes app: "queue v = q" "appends v w'" and cur: "l = cur \<Longrightarrow> (\<exists>b. pc (E l) = Handling b) \<or> (\<exists>fs. pc (E l) = Running fs)"
    and q: "q l = running_functors (E l) @ pendingFunctors (E l)"
  shows "(loop_step K)\<^sup>*\<^sup>* (E l) (deliver K cur q (queue w') E l) \<and>
     queue w' l = running_functors (deliver K cur q (queue w') E l) @ pendingFunctors (deliver K cur q (queue w') E l)"
proof -
  obtain new where new: "queue w' l = q l @ new" using app unfolding appends_def by blast
  let ?g = "\<lambda>e f. if l = cur then EventLoop_queueInLoop K True e f else (queueInLoop_push e f)\<lparr>queuers := queuers e + 1\<rparr>"
  have "(loop_step K)\<^sup>*\<^sup>* e (foldl ?g e fs) \<and> running_functors (foldl ?g e fs) = running_functors e \<and>
      pendingFunctors (foldl ?g e fs) = pendingFunctors e @ fs"
    if "l = cur \<Longrightarrow> (\<exists>b. pc e = Handling b) \<or> (\<exists>gs. pc e = Running gs)" for e fs
    using that
  proof (induction fs arbitrary: e)
    case (Cons f fs)
    have pc: "pc (?g e f) = pc e" by (simp add: loop_op_defs)
    have step: "loop_step K e (?g e f)"
    proof (cases "l = cur")
      case True
      then show ?thesis using Cons.prems by (auto intro: handler_queue functor_queue)
    qed (use other_push [of K e f] in simp)
    have "running_functors (?g e f) = running_functors e" using pc by (simp add: running_functors_def)
    moreover have "pendingFunctors (?g e f) = pendingFunctors e @ [f]" by (simp add: loop_op_defs)
    ultimately show ?case using Cons.IH [of "?g e f"] Cons.prems pc step by (auto intro: converse_rtranclp_into_rtranclp)
  qed simp
  from this [of "E l" new] cur show ?thesis using new q by (simp add: deliver_def)
qed

lemma deliver_keeps [simp]:
  "pc (deliver K cur q q' E l) = pc (E l)" "executed (deliver K cur q q' E l) = executed (E l)"
proof -
  let ?g = "\<lambda>e f. if l = cur then EventLoop_queueInLoop K True e f else (queueInLoop_push e f)\<lparr>queuers := queuers e + 1\<rparr>"
  have "pc (foldl ?g e fs) = pc e \<and> executed (foldl ?g e fs) = executed e" for e fs
    by (induction fs arbitrary: e) (simp_all add: loop_op_defs)
  from this [of "E l" "drop (length (q l)) (q' l)"]
  show "pc (deliver K cur q q' E l) = pc (E l)" "executed (deliver K cur q q' E l) = executed (E l)" by (simp_all add: deliver_def)
qed

lemma deliver_none [simp]: "deliver K cur q q E = E"
  by (simp add: deliver_def fun_eq_iff)

definition threads_inv :: "world \<times> loops_state \<Rightarrow> bool" where
  "threads_inv x \<longleftrightarrow> in_step x \<and> (\<forall>l. loop_inv (snd x l))"

lemma loop_inv_runs: "(loop_step K)\<^sup>*\<^sup>* e e' \<Longrightarrow> eventfd_spec K \<Longrightarrow> loop_inv e \<Longrightarrow> loop_inv e'"
  by (induction rule: rtranclp_induct) (auto intro: loop_inv_step)

text \<open>What an operation of the server does in the thread of the loop \<open>cur\<close>.\<close>

lemma operation_ok:
  assumes K: "eventfd_spec K" and inv: "threads_inv (v, E)" and app: "appends v w'"
    and cur: "(\<exists>b. pc (E cur) = Handling b) \<or> (\<exists>fs. pc (E cur) = Running fs)"
  defines "E' \<equiv> deliver K cur (queue v) (queue w') E"
  shows "threads_inv (w', E')" and "(loop_step K)\<^sup>*\<^sup>* (E l) (E' l)"
proof -
  have "queue v l = running_functors (E l) @ pendingFunctors (E l)" for l using inv by (simp add: threads_inv_def in_step_def)
  then have d: "(loop_step K)\<^sup>*\<^sup>* (E l) (E' l) \<and> queue w' l = running_functors (E' l) @ pendingFunctors (E' l)" for l
    unfolding E'_def using cur by (intro deliver_steps [OF refl app]) auto
  then show "(loop_step K)\<^sup>*\<^sup>* (E l) (E' l)" by blast
  have "loop_inv (E' l)" for l using d loop_inv_runs [OF _ K] inv by (auto simp: threads_inv_def)
  then show "threads_inv (w', E')" using d by (simp add: threads_inv_def in_step_def)
qed

lemma inner_ok:
  assumes K: "eventfd_spec K" and inv: "threads_inv (w, E)" and step: "inner_step K (E l) e"
  shows "threads_inv (w, E(l := e))"
proof -
  have i: "loop_inv (E l)" "loop_inv e" using inv step loop_inv_step [OF K] by (auto simp: threads_inv_def inner_step_def)
  then have "running_functors e @ pendingFunctors e = running_functors (E l) @ pendingFunctors (E l)"
    using step unfolding loop_inv_def inner_step_def by (metis same_append_eq)
  then show ?thesis using inv i(2) by (simp add: threads_inv_def in_step_def)
qed

text \<open>Taking the next functor of the batch.\<close>

lemma pop_ok:
  assumes K: "eventfd_spec K" and inv: "threads_inv (w, E)" and pc: "pc (E l) = Running (f # fs)"
  defines "e \<equiv> (E l)\<lparr>pc := Running fs, executed := executed (E l) @ [f]\<rparr>"
  shows "queue w l = f # tl (queue w l)" and "threads_inv (w\<lparr>queue := (queue w)(l := tl (queue w l))\<rparr>, E(l := e))" and "loop_step K (E l) e"
proof -
  have q: "queue w j = running_functors (E j) @ pendingFunctors (E j)" for j using inv by (simp add: threads_inv_def in_step_def)
  then show "queue w l = f # tl (queue w l)" using pc by (simp add: running_functors_def)
  show step: "loop_step K (E l) e" unfolding e_def using pc by (rule functor_call)
  have "loop_inv e" using loop_inv_step [OF K _ step] inv by (simp add: threads_inv_def)
  moreover have "tl (queue w l) = running_functors e @ pendingFunctors e" using q [of l] pc by (simp add: running_functors_def e_def)
  ultimately show "threads_inv (w\<lparr>queue := (queue w)(l := tl (queue w l))\<rparr>, E(l := e))"
    using inv by (simp add: threads_inv_def in_step_def)
qed

lemma threads_step_ok:
  assumes K: "eventfd_spec K" and inv: "threads_inv x" and step: "threads_step K ctl onMessage x y"
  shows "threads_inv y \<and> (server_step ctl onMessage)\<^sup>*\<^sup>* (fst x) (fst y) \<and> (loop_step K)\<^sup>*\<^sup>* (snd x j) (snd y j)"
  using step
proof cases
  case (inner E l e w)
  then show ?thesis using inner_ok [OF K, of w E l e] inv by (auto simp: inner_step_def)
next
  case (called E l f fs v w w')
  define E1 where "E1 = E(l := (E l)\<lparr>pc := Running fs, executed := executed (E l) @ [f]\<rparr>)"
  have i: "threads_inv (w, E)" using inv called(1) by simp
  note pop = pop_ok [OF K i called(3)]
  have v: "threads_inv (v, E1)" using pop(2) called(4) by (simp add: E1_def)
  have cur: "(\<exists>b. pc (E1 l) = Handling b) \<or> (\<exists>gs. pc (E1 l) = Running gs)" by (simp add: E1_def)
  note op = operation_ok [OF K v run_functor_appends [OF called(5)] cur]
  have "server_step ctl onMessage w w'" using pop(1) called(4,5) by (intro server_step.called [of w l f "tl (queue w l)"]) simp_all
  moreover have "(loop_step K)\<^sup>*\<^sup>* (E j) (E1 j)" using pop(3) by (auto simp: E1_def intro: r_into_rtranclp)
  then have "(loop_step K)\<^sup>*\<^sup>* (E j) (deliver K l (queue v) (queue w') E1 j)" using op(2) [of j] by (rule rtranclp_trans)
  ultimately show ?thesis using op(1) called(1) called(2) [folded E1_def] by simp
next
  case (event w c ob E b r k w')
  have i: "threads_inv (w, E)" using inv event(1) by simp
  note op = operation_ok [OF K i run_callbacks_appends [OF event(7)], of "conn_loop ob"]
  have "server_step ctl onMessage w w'" using event(3,5-7) by (rule server_step.event)
  then show ?thesis using op event(1,2,4) by auto
next
  case (accepted E w b f peer w')
  have i: "threads_inv (w, E)" using inv accepted(1) by simp
  note op = operation_ok [OF K i handleRead_appends [OF accepted(6)], of "base w"]
  have "server_step ctl onMessage w w'" using accepted(4-6) by (rule server_step.accepted)
  then show ?thesis using op accepted(1-3) by auto
qed

interpretation threads_server: simulation
  "\<lambda>x y. eventfd_spec K \<and> threads_step K ctl onMessage x y" threads_inv "server_step ctl onMessage" fst for K ctl onMessage
  by unfold_locales (blast dest: threads_step_ok)+

interpretation threads_loop: simulation
  "\<lambda>x y. eventfd_spec K \<and> threads_step K ctl onMessage x y" threads_inv "loop_step K" "\<lambda>x. snd x l" for K ctl onMessage l
  by unfold_locales (blast dest: threads_step_ok)+

section \<open>A turn of one loop\<close>

text \<open>While a loop runs its batch, every functor of it returns.\<close>

lemma batch_runs:
  assumes K: "eventfd_spec K" and ctl: "epoll_ctl_spec ctl"
  shows "threads_inv (w, E) \<Longrightarrow> srv_inv w st \<Longrightarrow> pc (E l) = Running fs \<Longrightarrow>
     \<exists>w' E' st'. (threads_step K ctl onMessage)\<^sup>*\<^sup>* (w, E) (w', E') \<and> threads_inv (w', E') \<and> srv_inv w' st' \<and>
       pc (E' l) = Running [] \<and> executed (E' l) = executed (E l) @ fs"
proof (induction fs arbitrary: w E st)
  case Nil
  then show ?case by auto
next
  case (Cons f fs)
  let ?v = "w\<lparr>queue := (queue w)(l := tl (queue w l))\<rparr>"
  define E1 where "E1 = E(l := (E l)\<lparr>pc := Running fs, executed := executed (E l) @ [f]\<rparr>)"
  note pop = pop_ok [OF K Cons.prems(1,3)]
  obtain w1 s where w1: "run_functor ctl ?v f = Inr w1" "srv_inv w1 (st(target f := s))"
    using functor_ok [OF ctl Cons.prems(2) pop(1)] by blast
  let ?E = "deliver K l (queue ?v) (queue w1) E1"
  have step: "threads_step K ctl onMessage (w, E) (w1, ?E)"
    unfolding E1_def using Cons.prems(3) refl w1(1) by (rule threads_step.called)
  have inv: "threads_inv (w1, ?E)" using threads_step_ok [OF K Cons.prems(1) step] by blast
  have same: "pc (?E l) = pc (E1 l) \<and> executed (?E l) = executed (E1 l)" by simp
  then have "pc (?E l) = Running fs" by (simp add: E1_def)
  from Cons.IH [OF inv w1(2) this] obtain w' E' st' where "(threads_step K ctl onMessage)\<^sup>*\<^sup>* (w1, ?E) (w', E')" "threads_inv (w', E')" "srv_inv w' st'"
      "pc (E' l) = Running []" "executed (E' l) = executed (?E l) @ fs" by blast
  with step same show ?case by (auto simp: E1_def intro: converse_rtranclp_into_rtranclp)
qed

lemma inner_intro:
  "loop_step K (E l) e \<Longrightarrow> submitted e = submitted (E l) \<Longrightarrow> executed e = executed (E l) \<Longrightarrow>
   threads_step K ctl onMessage (w, E) (w, E(l := e))"
  by (rule threads_step.inner) (simp add: inner_step_def)

text \<open>A state from which the loop's thread can come to the end of its turn.\<close>

definition finishes ::
  "eventfd \<Rightarrow> epoll_ctl_call \<Rightarrow> (TcpConnection \<Rightarrow> TcpConnection result) \<Rightarrow> loop \<Rightarrow> world \<times> loops_state \<Rightarrow> bool" where
  "finishes K ctl onMessage l x \<longleftrightarrow> (\<exists>y. (threads_step K ctl onMessage)\<^sup>*\<^sup>* x y \<and> pc (snd y l) = Loop_head)"

lemma finishes_inner:
  assumes "loop_step K (E l) e" and "submitted e = submitted (E l)" and "executed e = executed (E l)"
    and "finishes K ctl onMessage l (w, E(l := e))"
  shows "finishes K ctl onMessage l (w, E)"
proof -
  have "threads_step K ctl onMessage (w, E) (w, E(l := e))" using assms(1-3) by (rule inner_intro)
  then show ?thesis using assms(4) unfolding finishes_def by (blast intro: converse_rtranclp_into_rtranclp)
qed

lemma inner_keeps:
  assumes "eventfd_spec K" and "threads_inv (w, E)" and "loop_step K (E l) e" and "submitted e = submitted (E l)" and "executed e = executed (E l)"
  shows "threads_inv (w, E(l := e))"
  using inner_ok [OF assms(1,2)] assms(3-5) by (simp add: inner_step_def)

lemma running_finishes:
  assumes K: "eventfd_spec K" and ctl: "epoll_ctl_spec ctl" and srv: "srv_inv w st"
    and inv: "threads_inv (w, E)" and pc: "pc (E l) = Running fs"
  shows "finishes K ctl onMessage l (w, E)"
proof -
  obtain w' E' where run: "(threads_step K ctl onMessage)\<^sup>*\<^sup>* (w, E) (w', E')" "pc (E' l) = Running []"
    using batch_runs [OF K ctl inv srv pc] by metis
  have "loop_step K (E' l) (doPendingFunctors_leave (E' l))" using run(2) by (rule leave)
  then have "threads_step K ctl onMessage (w', E') (w', E'(l := doPendingFunctors_leave (E' l)))"
    by (rule inner_intro) (simp_all add: doPendingFunctors_leave_def)
  then show ?thesis unfolding finishes_def using run(1)
    by (intro exI [of _ "(w', E'(l := doPendingFunctors_leave (E' l)))"]) (simp add: doPendingFunctors_leave_def)
qed

lemma swapping_finishes:
  assumes K: "eventfd_spec K" and ctl: "epoll_ctl_spec ctl" and srv: "srv_inv w st"
    and inv: "threads_inv (w, E)" and pc: "pc (E l) = Swapping"
  shows "finishes K ctl onMessage l (w, E)"
proof -
  let ?e = "doPendingFunctors_swap (E l)"
  have step: "loop_step K (E l) ?e" using pc by (rule swap)
  have same: "submitted ?e = submitted (E l)" "executed ?e = executed (E l)" by (simp_all add: doPendingFunctors_swap_def)
  have "finishes K ctl onMessage l (w, E(l := ?e))"
    by (rule running_finishes [OF K ctl srv inner_keeps [OF K inv step same]]) (simp add: doPendingFunctors_swap_def)
  with step same show ?thesis by (rule finishes_inner)
qed

lemma handling_finishes:
  assumes K: "eventfd_spec K" and ctl: "epoll_ctl_spec ctl" and srv: "srv_inv w st"
    and inv: "threads_inv (w, E)" and pc: "pc (E l) = Handling b"
  shows "finishes K ctl onMessage l (w, E)"
proof -
  have idle: "finishes K ctl onMessage l (w, E)" if inv: "threads_inv (w, E)" and pc: "pc (E l) = Handling False" for E
  proof -
    let ?e = "doPendingFunctors_enter (E l)"
    have step: "loop_step K (E l) ?e" using pc by (rule enter)
    have same: "submitted ?e = submitted (E l)" "executed ?e = executed (E l)" by (simp_all add: doPendingFunctors_enter_def)
    have "finishes K ctl onMessage l (w, E(l := ?e))"
      by (rule swapping_finishes [OF K ctl srv inner_keeps [OF K inv step same]]) (simp add: doPendingFunctors_enter_def)
    with step same show ?thesis by (rule finishes_inner)
  qed
  show ?thesis
  proof (cases b)
    case True
    let ?e = "(EventLoop_handleWakeupRead K (E l))\<lparr>pc := Handling False\<rparr>"
    have step: "loop_step K (E l) ?e" using pc True by (intro wakeup_read) simp
    have same: "submitted ?e = submitted (E l)" "executed ?e = executed (E l)" by (simp_all add: EventLoop_handleWakeupRead_def)
    have "finishes K ctl onMessage l (w, E(l := ?e))" by (rule idle [OF inner_keeps [OF K inv step same]]) simp
    with step same show ?thesis by (rule finishes_inner)
  qed (use idle [OF inv] pc in simp)
qed

lemma polling_finishes:
  assumes K: "eventfd_spec K" and ctl: "epoll_ctl_spec ctl" and srv: "srv_inv w st"
    and inv: "threads_inv (w, E)" and pc: "pc (E l) = Polling"
  shows "finishes K ctl onMessage l (w, E)"
proof -
  let ?e = "(E l)\<lparr>pc := Handling False\<rparr>"
  have step: "loop_step K (E l) ?e" using pc by (rule poll) simp
  have same: "submitted ?e = submitted (E l)" "executed ?e = executed (E l)" by simp_all
  have "finishes K ctl onMessage l (w, E(l := ?e))" by (rule handling_finishes [OF K ctl srv inner_keeps [OF K inv step same], where b = False]) simp
  with step same show ?thesis by (rule finishes_inner)
qed

text \<open>
  What a loop has taken in by the time it is in \<open>poll\<close> stays ahead of everything else: whenever it is back at its
  head, or has returned, it has called all of that, in order.
\<close>

definition turn_inv :: "'f list \<Rightarrow> 'f EventLoop \<Rightarrow> bool" where
  "turn_inv p e \<longleftrightarrow> pc e \<noteq> Before \<and> prefix p (executed e @ running_functors e @ pendingFunctors e) \<and>
     (pc e = Loop_head \<or> pc e = Stopped \<longrightarrow> prefix p (executed e)) \<and>
     (\<forall>fs. pc e = Running fs \<longrightarrow> prefix p (executed e @ fs))"

lemma turn_inv_step:
  assumes "loop_step K e e'" and "turn_inv p e"
  shows "turn_inv p e'"
proof -
  have grow: "prefix p (xs @ ys @ zs @ us)" if "prefix p (xs @ ys @ zs)" for xs ys zs us :: "'a list"
    using prefix_prefix [OF that, of us] by simp
  have grow2: "prefix p (xs @ zs @ us)" if "prefix p (xs @ zs)" for xs zs us :: "'a list"
    using prefix_prefix [OF that, of us] by simp
  show ?thesis using assms
    by (cases rule: loop_step.cases)
      (auto simp: turn_inv_def loop_op_defs running_functors_def intro: grow grow2 split: loop_pc.splits)
qed

lemma turn_inv_runs: "(loop_step K)\<^sup>*\<^sup>* e e' \<Longrightarrow> turn_inv p e \<Longrightarrow> turn_inv p e'"
  by (induction rule: rtranclp_induct) (auto intro: turn_inv_step)

section \<open>Reachable states\<close>

lemma no_objects_no_functors:
  assumes inv: "srv_inv w st" and none: "objs w = Map.empty"
  shows "queue w l = []"
proof (rule ccontr)
  assume "queue w l \<noteq> []"
  then obtain f where "f \<in> set (queue w l)" using list.set_sel(1) by blast
  from due_of_queued [OF inv this] none show False by auto
qed

text \<open>A server that has come up, every loop just constructed.\<close>

lemma threads_runs:
  assumes ctl: "epoll_ctl_spec ctl" and msg: "message_ok onMessage" and K: "eventfd_spec K"
    and up: "server_up ctl hashFunc new_loop b s addr name n = Inr w0" and s: "0 \<le> s"
    and run: "(threads_step K ctl onMessage)\<^sup>*\<^sup>* (w0, \<lambda>_. EventLoop_new) (w, E)"
  obtains st where "server_reach ctl onMessage w0 w" and "srv_inv w st" and "threads_inv (w, E)" and "\<forall>l. loop_reach K (E l)"
proof -
  have w0: "srv_inv w0 (\<lambda>_. Gone)" "objs w0 = Map.empty" using server_up_ok [OF ctl s, of hashFunc new_loop b addr name n] up by auto
  have "queue w0 l = []" for l using w0 by (rule no_objects_no_functors)
  moreover have "loop_inv (EventLoop_new :: server_fn EventLoop)" using loop_reach_inv [OF loop_reach.new K] .
  ultimately have inv0: "threads_inv (w0, \<lambda>_. EventLoop_new)"
    by (simp add: threads_inv_def in_step_def running_functors_def EventLoop_new_def)
  have runs: "(\<lambda>x y. eventfd_spec K \<and> threads_step K ctl onMessage x y)\<^sup>*\<^sup>* (w0, \<lambda>_. EventLoop_new) (w, E)" using K run by simp
  have reach: "server_reach ctl onMessage w0 w" using server_reach_runs threads_server.spec_runs [OF runs inv0] by simp
  moreover obtain st where "srv_inv w st" by (rule up_reach_inv [OF ctl msg up s reach])
  moreover have "loop_reach K (E l)" for l
    using loop_reach_runs [OF threads_loop.spec_runs [OF runs inv0, of l]] by (simp add: loop_reach.new)
  ultimately show thesis using that threads_server.inv_runs [OF runs inv0] by blast
qed

text \<open>A connection on its way up or down has a functor in some queue.\<close>

lemma stage_queued:
  assumes inv: "srv_inv w st" and ob: "objs w c = Some ob" and st: "state (tcp ob) \<in> {kConnecting, kDisconnected}"
  shows "\<exists>l f. target f = c \<and> f \<in> set (queue w l)"
proof -
  have live: "live_ok w c ob (st c)" by (rule srv_invD(3) [OF inv ob])
  then obtain l f where d: "due_fn (base w) (conn_loop ob) (st c) c = Some (l, f)" "target f = c"
    using st by (cases "st c") (auto simp: live_ok_def stage_ok_def due_fn_def)
  then have "count_list (queue w l) f = 1" using live by (simp add: live_ok_def queued_once_def)
  then have "f \<in> set (queue w l)" using count_notin by force
  then show ?thesis using d(2) by blast
qed

section \<open>Properties\<close>

text \<open>
  C13. No connection is stranded between its threads. When a server runs on the loops of its threads, in any interleaving, its state is one of the
  server's model and each loop's state one of the loop's model; the batch under way and the pending functors of a loop are what
  the server's model has in its queue; and for each connection that waits to be established, or has been closed and waits to be removed or
  destroyed, there is a functor in a loop which calls it in a turn under way, or which has been woken, or which a
  thread is about to wake.
\<close>

theorem TcpServer_no_functor_stranded:
  assumes "epoll_ctl_spec ctl" and "message_ok onMessage" and "eventfd_spec K"
    and "server_up ctl hashFunc new_loop b s addr name n = Inr w0" and "0 \<le> s"
    and "(threads_step K ctl onMessage)\<^sup>*\<^sup>* (w0, \<lambda>_. EventLoop_new) (w, E)"
  shows "server_reach ctl onMessage w0 w \<and>
     (\<forall>l. loop_reach K (E l) \<and> queue w l = running_functors (E l) @ pendingFunctors (E l)) \<and>
     (\<forall>c ob. objs w c = Some ob \<and> state (tcp ob) \<in> {kConnecting, kDisconnected} \<longrightarrow>
        (\<exists>l f. target f = c \<and> f \<in> set (queue w l) \<and> (pc (E l) = Polling \<longrightarrow> 0 < wakeupCount (E l) \<or> 0 < queuers (E l))))"
proof -
  obtain st where r: "server_reach ctl onMessage w0 w" "srv_inv w st" "threads_inv (w, E)" "\<forall>l. loop_reach K (E l)"
    by (rule threads_runs [OF assms])
  have q: "queue w l = running_functors (E l) @ pendingFunctors (E l)" and i: "loop_inv (E l)" for l
    using r(3) by (simp_all add: threads_inv_def in_step_def)
  have "0 < wakeupCount (E l) \<or> 0 < queuers (E l)" if "f \<in> set (queue w l)" "pc (E l) = Polling" for f l
    using i [of l] that q [of l] by (auto simp: loop_inv_def will_swap_def running_functors_def)
  then show ?thesis using r(1,4) q stage_queued [OF r(2)] by blast
qed

text \<open>
  C14. A loop catches up. Take any such state in which a loop is in \<open>poll\<close>, with functors of the server queued for it. In every run
  from there, whatever the other threads do, the loop is back at its head, or has returned from \<open>loop()\<close>, only after it has called all of them, in
  order; and from every state of every such run there is a way on, a functor never blocking its loop, to a state in which it has. That the thread is
  scheduled and \<open>poll\<close> returns, for which it has been woken, is left to the system.
\<close>

theorem TcpServer_loop_catches_up:
  assumes "epoll_ctl_spec ctl" and "message_ok onMessage" and "eventfd_spec K"
    and "server_up ctl hashFunc new_loop b s addr name n = Inr w0" and "0 \<le> s"
    and "(threads_step K ctl onMessage)\<^sup>*\<^sup>* (w0, \<lambda>_. EventLoop_new) (w, E)" and "pc (E l) = Polling"
    and "(threads_step K ctl onMessage)\<^sup>*\<^sup>* (w, E) (w', E')"
  shows "(pc (E' l) = Loop_head \<or> pc (E' l) = Stopped \<longrightarrow> prefix (executed (E l) @ queue w l) (executed (E' l))) \<and>
     (\<exists>w'' E''. (threads_step K ctl onMessage)\<^sup>*\<^sup>* (w', E') (w'', E'') \<and> prefix (executed (E l) @ queue w l) (executed (E'' l)))"
proof -
  let ?p = "executed (E l) @ queue w l" and ?S = "threads_step K ctl onMessage"
  have inv: "threads_inv (w, E)" by (rule threads_runs [OF assms(1-6)])
  have q: "turn_inv ?p (E l)" using inv assms(7) by (simp add: threads_inv_def in_step_def turn_inv_def running_functors_def)
  have ahead: "turn_inv ?p (F l)" if "?S\<^sup>*\<^sup>* (w, E) (v, F)" for v F
  proof -
    have "(\<lambda>x y. eventfd_spec K \<and> ?S x y)\<^sup>*\<^sup>* (w, E) (v, F)" using assms(3) that by simp
    from threads_loop.spec_runs [OF this inv, of l] q show ?thesis by (auto intro: turn_inv_runs)
  qed
  obtain st where r: "srv_inv w' st" "threads_inv (w', E')" by (rule threads_runs [OF assms(1-5) rtranclp_trans [OF assms(6,8)]])
  note fin = running_finishes [OF assms(3,1) r] swapping_finishes [OF assms(3,1) r] handling_finishes [OF assms(3,1) r]
    polling_finishes [OF assms(3,1) r]
  have "pc (E' l) = Loop_head \<or> pc (E' l) = Stopped \<or> finishes K ctl onMessage l (w', E')"
    using fin [of l] ahead [OF assms(8)] by (cases "pc (E' l)") (auto simp: turn_inv_def)
  then obtain w'' E'' where run: "?S\<^sup>*\<^sup>* (w', E') (w'', E'')" "pc (E'' l) = Loop_head \<or> pc (E'' l) = Stopped"
    unfolding finishes_def by (metis prod.collapse rtranclp.rtrancl_refl)
  have "prefix ?p (executed (E'' l))" using ahead [OF rtranclp_trans [OF assms(8) run(1)]] run(2) by (simp add: turn_inv_def)
  moreover have "pc (E' l) = Loop_head \<or> pc (E' l) = Stopped \<longrightarrow> prefix ?p (executed (E' l))"
    using ahead [OF assms(8)] by (simp add: turn_inv_def)
  ultimately show ?thesis using run(1) by blast
qed

section \<open>Witnesses\<close>

text \<open>Both loops of a server with one thread have entered \<open>poll\<close>, the base loop returns with a connection, and the thread's loop has been given it.\<close>

lemma loop_entered:
  assumes "E l = EventLoop_new"
  shows "(threads_step K ctl onMessage)\<^sup>*\<^sup>* (w, E) (w, E(l := EventLoop_new\<lparr>looping := True, pc := Polling\<rparr>))"
proof -
  let ?e1 = "loop_begin EventLoop_new" and ?e2 = "EventLoop_new\<lparr>looping := True, pc := Polling\<rparr> :: server_fn EventLoop"
  have "loop_step K (E l) ?e1" using loop_step.call [of "E l" K] assms by (simp add: EventLoop_new_def)
  then have 1: "threads_step K ctl onMessage (w, E) (w, E(l := ?e1))"
    by (rule inner_intro) (simp_all add: assms loop_begin_def EventLoop_new_def)
  have "loop_step K ?e1 ?e2" using loop_step.test [of ?e1 K] by (simp add: loop_begin_def loop_test_def EventLoop_new_def)
  then have "threads_step K ctl onMessage (w, E(l := ?e1)) (w, (E(l := ?e1))(l := ?e2))"
    by (intro inner_intro) (simp_all add: loop_begin_def EventLoop_new_def)
  then show ?thesis using 1 by (simp add: converse_rtranclp_into_rtranclp)
qed

lemma threads_example:
  "\<exists>w0 w E ob. server_up kernel_ctl (\<lambda>_. 0) (\<lambda>i. 100 + i) 7 3 localhost ''srv'' 1 = Inr w0 \<and>
     (threads_step linux_eventfd kernel_ctl Inr)\<^sup>*\<^sup>* (w0, \<lambda>_. EventLoop_new) (w, E) \<and> pc (E 100) = Polling \<and>
     executed (E 100) = [] \<and> objs w 1 = Some ob \<and> state (tcp ob) = kConnecting \<and> queue w 100 = [Established_fn 1]"
proof -
  let ?S = "threads_step linux_eventfd kernel_ctl Inr"
  let ?P = "EventLoop_new\<lparr>looping := True, pc := Polling\<rparr> :: server_fn EventLoop"
  let ?E1 = "(\<lambda>_. EventLoop_new)(100 := ?P) :: loops_state" and ?E3 = "(\<lambda>_. EventLoop_new)(100 := ?P, 7 := ?P\<lparr>pc := Handling False\<rparr>) :: loops_state"
  obtain w0 where w0: "server_up kernel_ctl (\<lambda>_. 0) (\<lambda>i. 100 + i) 7 3 localhost ''srv'' 1 = Inr w0" "nextConnId (server w0) = 1"
      "fresh_fd w0 9" "next_obj w0 = 1" and inv: "srv_inv w0 (\<lambda>_. Gone)" "threadPool (server w0) = started_pool (\<lambda>_. 0) (\<lambda>i. 100 + i) 7 ''srv'' 1"
      "newConnectionCallback (acceptor (server w0))" "base w0 = 7" "objs w0 = Map.empty"
    using example_server_0 server_up_ok [OF kernel_ctl_spec, of 3 "\<lambda>_. 0" "\<lambda>i. 100 + i" 7 localhost "''srv''" 1] by fastforce
  have 1: "?S\<^sup>*\<^sup>* (w0, \<lambda>_. EventLoop_new) (w0, ?E1)" by (rule loop_entered) simp
  have 2: "?S\<^sup>*\<^sup>* (w0, ?E1) (w0, ?E1(7 := ?P))" by (rule loop_entered) simp
  have "?S (w0, ?E1(7 := ?P)) (w0, (?E1(7 := ?P))(7 := ?P\<lparr>pc := Handling False\<rparr>))"
    using loop_step.poll [of ?P False linux_eventfd] by (intro inner_intro) simp_all
  then have "?S (w0, ?E1(7 := ?P)) (w0, ?E3)" by (simp only: fun_upd_upd)
  with rtranclp_trans [OF 1 2] have run: "?S\<^sup>*\<^sup>* (w0, \<lambda>_. EventLoop_new) (w0, ?E3)" by (rule rtranclp.rtrancl_into_rtrancl)
  obtain b where "Buffer_new kInitialSize = Inr b" using Buffer_new_wf [OF kInitialSize_room] by blast
  then obtain t where t: "TcpConnection_new (pollers w0 (100 + 0)) (next_obj w0) 9 = Inr t" by (simp add: TcpConnection_new_def)
  have n: "nextConnId (server w0) < 2 ^ 31 - 1" using w0(2) by simp
  have io: "EventLoopThreadPool_getNextLoop (threadPool (server w0)) (InetAddress_toIp localhost) = Inr (100 + 0)"
    using zero_hash_loop unfolding inv(2) by blast
  obtain w ob where w: "TcpServer_newConnection kernel_ctl w0 9 localhost = Inr w" "objs w 1 = Some ob" "conn_loop ob = 100"
      "srv_inv w ((\<lambda>_. Gone)(1 := Connecting))"
    using newConnection_ok [OF kernel_ctl_spec inv(1) w0(3) n io t] w0(4) inv(4) by auto
  then have "Acceptor_handleRead kernel_ctl (Inr (9, localhost)) w0 = Inr w" using inv(3) by (simp add: Acceptor_handleRead_def Socket_accept_def)
  then have "?S (w0, ?E3) (w, deliver linux_eventfd 7 (queue w0) (queue w) ?E3)"
    using threads_step.accepted [of ?E3 w0 False 9] n w0(3) inv(4) by simp
  with run have run': "?S\<^sup>*\<^sup>* (w0, \<lambda>_. EventLoop_new) (w, deliver linux_eventfd 7 (queue w0) (queue w) ?E3)" by (rule rtranclp.rtrancl_into_rtrancl)
  have live: "live_ok w 1 ob Connecting" using srv_invD(3) [OF w(4,2)] by simp
  then have st: "state (tcp ob) = kConnecting" by (simp add: live_ok_def stage_ok_def)
  have q: "queue w0 100 = []" by (rule no_objects_no_functors [OF inv(1,5)])
  have "queue w 100 = queue w0 100 @ [Established_fn 1]"
    using w(1) io t w0(4) inv(4) by (auto simp: TcpServer_newConnection_def store_def enqueue_def Let_def andthen_Inr_iff)
  note q = q this [unfolded q]
  have "pc (?E3 100) = Polling" "executed (?E3 100) = []" by (simp_all add: EventLoop_new_def)
  then show ?thesis
    using w0(1) run' w(2) st q
    by (intro exI [of _ w0] exI [of _ w] exI [of _ "deliver linux_eventfd 7 (queue w0) (queue w) ?E3"] exI [of _ ob]) simp
qed

theorem TcpServer_no_functor_stranded_witness:
  "\<exists>w0 w E l f. server_up kernel_ctl (\<lambda>_. 0) (\<lambda>i. 100 + i) 7 3 localhost ''srv'' 1 = Inr w0 \<and>
     (threads_step linux_eventfd kernel_ctl Inr)\<^sup>*\<^sup>* (w0, \<lambda>_. EventLoop_new) (w, E) \<and> f \<in> set (queue w l) \<and> target f = 1"
proof -
  obtain w0 w E ob where w: "server_up kernel_ctl (\<lambda>_. 0) (\<lambda>i. 100 + i) 7 3 localhost ''srv'' 1 = Inr w0"
      "(threads_step linux_eventfd kernel_ctl Inr)\<^sup>*\<^sup>* (w0, \<lambda>_. EventLoop_new) (w, E)" "objs w 1 = Some ob" "state (tcp ob) = kConnecting"
    using threads_example by blast
  have s3: "0 \<le> (3 :: int)" by simp
  show ?thesis using TcpServer_no_functor_stranded [OF kernel_ctl_spec message_ok_none linux_eventfd_spec w(1) s3 w(2)] w by blast
qed

theorem TcpServer_loop_catches_up_witness:
  "\<exists>w0 w E. server_up kernel_ctl (\<lambda>_. 0) (\<lambda>i. 100 + i) 7 3 localhost ''srv'' 1 = Inr w0 \<and>
     (threads_step linux_eventfd kernel_ctl Inr)\<^sup>*\<^sup>* (w0, \<lambda>_. EventLoop_new) (w, E) \<and> prefix [Established_fn 1] (executed (E 100))"
proof -
  obtain w0 w E where w: "server_up kernel_ctl (\<lambda>_. 0) (\<lambda>i. 100 + i) 7 3 localhost ''srv'' 1 = Inr w0"
      "(threads_step linux_eventfd kernel_ctl Inr)\<^sup>*\<^sup>* (w0, \<lambda>_. EventLoop_new) (w, E)" "pc (E 100) = Polling"
      "executed (E 100) = []" "queue w 100 = [Established_fn 1]"
    using threads_example by blast
  have s3: "0 \<le> (3 :: int)" by simp
  from TcpServer_loop_catches_up [OF kernel_ctl_spec message_ok_none linux_eventfd_spec w(1) s3 w(2,3) rtranclp.rtrancl_refl] w(4,5) obtain w' E' where
      "(threads_step linux_eventfd kernel_ctl Inr)\<^sup>*\<^sup>* (w, E) (w', E')" "prefix [Established_fn 1] (executed (E' 100))" by auto
  then show ?thesis using w(1,2) rtranclp_trans [of _ "(w0, \<lambda>_. EventLoop_new)" "(w, E)" "(w', E')"] by blast
qed

end
