(* ===== verification/Net_Dispatch.thy ===== *)
theory Net_Dispatch
  imports Net_Threads
begin

text \<open>
  The server on its threads, down to the vector \<open>activeChannels_\<close> of each loop (\<open>EventLoop::loop\<close> in \<open>src/net/EventLoop.cc\<close>). \<open>poll\<close> fills the vector
  with pointers to the channels that the kernel reported; the loop then calls one after the other, while other threads go on and while each handler may
  close its connection or accept new ones. The vector holds raw pointers, and a channel is a part of its connection's object, so that the
  code depends on no connection being destroyed between the report and the visit. That is what is shown here.
\<close>

section \<open>Steps\<close>

text \<open>The rest of the range-for of each loop: the channels still to be visited, with the events that \<open>poll\<close> stored in them.\<close>

type_synonym active = "loop \<Rightarrow> (event_mask \<times> chan) list"

definition activeChannels_of :: "EPollPoller \<Rightarrow> wait_result \<Rightarrow> (event_mask \<times> chan) list" where
  "activeChannels_of p r = (let (p', active) = EPollPoller_poll p r in map (\<lambda>c. (revents (chans p' c), c)) active)"

text \<open>
  The kernel reports every descriptor of the interest list at most once, and a hang-up as \<open>Net_TcpServer\<close> has it.
\<close>

definition kernel_report :: "EPollPoller \<Rightarrow> (event_mask \<times> chan) list \<Rightarrow> bool" where
  "kernel_report p es \<longleftrightarrow> distinct (map snd es) \<and> (\<forall>(r, c) \<in> set es. watched p c \<noteq> None \<and> hup_ok r)"

text \<open>
  The visit of a channel. The acceptor's channel is not tied and has a read callback only; that of a connection is a part of the
  connection, so that a visit behind its destruction is an access to freed memory.
\<close>

definition visit ::
  "epoll_ctl_call \<Rightarrow> io \<Rightarrow> accept_result \<Rightarrow> (TcpConnection \<Rightarrow> TcpConnection result) \<Rightarrow> world \<Rightarrow> loop \<Rightarrow> event_mask \<times> chan \<Rightarrow> world result" where
  "visit ctl k a onMessage w l x =
     (let c = snd x; cbs = Channel_handleEvent True (chans (pollers w l) c\<lparr>revents := fst x\<rparr>) in
      if c = acceptChannel then if Read_cb \<in> set cbs then Acceptor_handleRead ctl a w else Inr w
      else andthen (conn_at w c) (\<lambda>ob. run_callbacks ctl k onMessage c w cbs))"

text \<open>What \<open>accept\<close> returns, as in \<open>Net_TcpServer\<close>.\<close>

definition accept_ok :: "world \<Rightarrow> accept_result \<Rightarrow> bool" where
  "accept_ok w a \<longleftrightarrow> (\<forall>f peer. a = Inr (f, peer) \<longrightarrow> fresh_fd w f \<and> nextConnId (server w) < 2 ^ 31 - 1)"

type_synonym dispatch_state = "world \<times> loops_state \<times> active"

inductive dispatch_step ::
  "eventfd \<Rightarrow> epoll_ctl_call \<Rightarrow> (TcpConnection \<Rightarrow> TcpConnection result) \<Rightarrow> dispatch_state \<Rightarrow> dispatch_state \<Rightarrow> bool"
  for K ctl onMessage where
  inner: "inner_step K (E l) e \<Longrightarrow> (pc (E l) = Polling \<Longrightarrow> pc e = Polling) \<Longrightarrow> (pc e = Swapping \<Longrightarrow> A l = []) \<Longrightarrow>
    dispatch_step K ctl onMessage (w, E, A) (w, E(l := e), A)"
| poll: "pc (E l) = Polling \<Longrightarrow> (b \<Longrightarrow> 0 < wakeupCount (E l)) \<Longrightarrow> kernel_report (pollers w l) es \<Longrightarrow>
    dispatch_step K ctl onMessage (w, E, A)
      (w, E(l := (E l)\<lparr>pc := Handling b\<rparr>), A(l := activeChannels_of (pollers w l) (Ready es)))"
| visit: "pc (E l) = Handling b \<Longrightarrow> A l = x # xs \<Longrightarrow> accept_ok w a \<Longrightarrow> visit ctl k a onMessage w l x = Inr w' \<Longrightarrow>
    dispatch_step K ctl onMessage (w, E, A) (w', deliver K l (queue w) (queue w') E, A(l := xs))"
| called: "pc (E l) = Running (f # fs) \<Longrightarrow> v = w\<lparr>queue := (queue w)(l := tl (queue w l))\<rparr> \<Longrightarrow> run_functor ctl v f = Inr w' \<Longrightarrow>
    dispatch_step K ctl onMessage (w, E, A)
      (w', deliver K l (queue v) (queue w') (E(l := (E l)\<lparr>pc := Running fs, executed := executed (E l) @ [f]\<rparr>)), A)"

section \<open>What a step leaves alone\<close>

text \<open>A step of the loop that leaves the handlers goes to \<open>doPendingFunctors\<close>.\<close>

lemma leaves_handlers: "loop_step K e e' \<Longrightarrow> pc e = Handling b \<Longrightarrow> pc e' = Swapping \<or> (\<exists>b. pc e' = Handling b)"
  by (erule loop_stepE) (auto simp: loop_op_defs)

lemma activeChannels_Ready: "distinct (map snd es) \<Longrightarrow> activeChannels_of p (Ready es) = es"
  using poll_Ready [of es p] by (force simp: activeChannels_of_def intro!: map_idI)

section \<open>The invariant\<close>

text \<open>A channel still to be visited is the acceptor's, in the base loop, or that of a connection of the loop that is up.\<close>

definition pointee_ok :: "world \<Rightarrow> (conn \<Rightarrow> stage) \<Rightarrow> loop \<Rightarrow> chan \<Rightarrow> bool" where
  "pointee_ok w st l c \<longleftrightarrow> (if c = acceptChannel then l = base w else \<exists>ob. objs w c = Some ob \<and> conn_loop ob = l \<and> st c = Up)"

definition visits_ok :: "world \<Rightarrow> (conn \<Rightarrow> stage) \<Rightarrow> loops_state \<Rightarrow> active \<Rightarrow> bool" where
  "visits_ok w st E A \<longleftrightarrow> (\<forall>l. distinct (map snd (A l)) \<and> (A l \<noteq> [] \<longrightarrow> (\<exists>b. pc (E l) = Handling b)) \<and>
     (\<forall>(r, c) \<in> set (A l). hup_ok r \<and> pointee_ok w st l c))"

definition dispatch_inv :: "dispatch_state \<Rightarrow> bool" where
  "dispatch_inv x \<longleftrightarrow> (case x of (w, E, A) \<Rightarrow> threads_inv (w, E) \<and> (\<exists>st. srv_inv w st \<and> visits_ok w st E A))"

lemma watched_up:
  assumes inv: "srv_inv w st" and ob: "objs w c = Some ob"
  shows "watched (pollers w (conn_loop ob)) c \<noteq> None \<longleftrightarrow> st c = Up"
  using srv_invD(3) [OF inv ob] watched_iff [OF srv_invD(1) [OF inv]]
  by (auto simp: live_ok_def stage_ok_def split: stage.splits)

text \<open>What the kernel can report: the pollers of the loops watch nothing else.\<close>

lemma reported_pointee:
  assumes inv: "srv_inv w st" and w: "watched (pollers w l) c \<noteq> None"
  shows "pointee_ok w st l c"
proof -
  have i: "index (chans (pollers w l) c) = kAdded" using w watched_iff [OF srv_invD(1) [OF inv]] by (metis (no_types, lifting))
  show ?thesis
  proof (cases "objs w c")
    case None
    then have "\<not> (c \<noteq> acceptChannel \<or> l \<noteq> base w)" using srv_invD(2) [OF inv None] i unfolding dead_ok_def by (metis kinds(1))
    then show ?thesis by (simp add: pointee_ok_def)
  next
    case (Some ob)
    have live: "live_ok w c ob (st c)" by (rule srv_invD(3) [OF inv Some])
    then have l: "conn_loop ob = l" using i by (auto simp: live_ok_def)
    then have "st c = Up" using watched_up [OF inv Some] w by simp
    then show ?thesis using live l Some by (simp add: pointee_ok_def live_ok_def)
  qed
qed

text \<open>A step that changes the stage of one connection only, and leaves the others' objects where they are.\<close>

lemma visits_frame:
  assumes v: "visits_ok w st E A" and base: "base w' = base w" and objs: "\<And>d. d \<noteq> c \<Longrightarrow> objs w' d = objs w d"
    and A: "\<And>l. \<exists>n. A' l = drop n (A l)" "\<And>l. c \<notin> snd ` set (A' l)"
    and pc: "\<And>l. A' l \<noteq> [] \<Longrightarrow> pc (E' l) = pc (E l)"
  shows "visits_ok w' (st(c := s)) E' A'"
  unfolding visits_ok_def
proof
  fix l
  obtain n where n: "A' l = drop n (A l)" using A(1) by blast
  then have sub: "set (A' l) \<subseteq> set (A l)" by (simp add: set_drop_subset)
  have old: "distinct (map snd (A l))" "A l \<noteq> [] \<longrightarrow> (\<exists>b. pc (E l) = Handling b)" "\<forall>(r, c) \<in> set (A l). hup_ok r \<and> pointee_ok w st l c"
    using v by (simp_all add: visits_ok_def)
  have "distinct (map snd (A' l))" unfolding n drop_map [symmetric] using old(1) by (rule distinct_drop)
  moreover have "A' l \<noteq> [] \<longrightarrow> (\<exists>b. pc (E' l) = Handling b)" using old(2) pc [of l] n by fastforce
  moreover have "hup_ok r \<and> pointee_ok w' (st(c := s)) l d" if "(r, d) \<in> set (A' l)" for r d
  proof -
    have "d \<noteq> c" using A(2) [of l] that by force
    then show ?thesis using old(3) sub that base objs by (fastforce simp: pointee_ok_def)
  qed
  ultimately show "distinct (map snd (A' l)) \<and> (A' l \<noteq> [] \<longrightarrow> (\<exists>b. pc (E' l) = Handling b)) \<and>
      (\<forall>(r, d) \<in> set (A' l). hup_ok r \<and> pointee_ok w' (st(c := s)) l d)" by blast
qed

text \<open>The steps one by one.\<close>

lemma visits_inner:
  assumes v: "visits_ok w st E A" and step: "inner_step K (E l) e" and sw: "pc e = Swapping \<Longrightarrow> A l = []"
  shows "visits_ok w st (E(l := e)) A"
proof -
  have "\<exists>b. pc e = Handling b" if ne: "A l \<noteq> []"
  proof -
    obtain b where "pc (E l) = Handling b" using v ne unfolding visits_ok_def by blast
    then show ?thesis using leaves_handlers [of K "E l" e b] step sw ne by (auto simp: inner_step_def)
  qed
  then show ?thesis using v by (simp add: visits_ok_def)
qed

lemma visits_poll:
  assumes inv: "srv_inv w st" and v: "visits_ok w st E A" and rep: "kernel_report (pollers w l) es"
  shows "visits_ok w st (E(l := (E l)\<lparr>pc := Handling b\<rparr>)) (A(l := es))"
  using v rep reported_pointee [OF inv, of l] by (fastforce simp: visits_ok_def kernel_report_def)

lemma visits_called:
  assumes ctl: "epoll_ctl_spec ctl" and inv: "srv_inv w st" and v: "visits_ok w st E A" and q: "queue w l = f # fs"
    and pc: "pc (E l) = Running gs" "\<And>k. k \<noteq> l \<Longrightarrow> pc (E' k) = pc (E k)"
    and run: "run_functor ctl (w\<lparr>queue := (queue w)(l := fs)\<rparr>) f = Inr w'"
  shows "\<exists>st'. srv_inv w' st' \<and> visits_ok w' st' E' A"
proof -
  obtain s where s: "srv_inv w' (st(target f := s))" using functor_ok [OF ctl inv q] run by auto
  have "st (target f) \<noteq> Up" using due_of_queued [OF inv, of f l] q by (auto simp: due_fn_def)
  moreover have "objs w (target f) \<noteq> None" using due_of_queued [OF inv, of f l] q by auto
  then have "target f \<noteq> acceptChannel" using srv_invD(3) [OF inv] by (auto simp: live_ok_def)
  ultimately have t: "target f \<notin> snd ` set (A k)" for k using v by (force simp: visits_ok_def pointee_ok_def)
  have none: "A l = []" using v pc(1) by (fastforce simp: visits_ok_def)
  have "A k \<noteq> [] \<Longrightarrow> pc (E' k) = pc (E k)" for k using pc(2) none by (cases "k = l") auto
  then have "visits_ok w' (st(target f := s)) E' A"
    using functor_same_pool [OF run] run_functor_objs [OF run] t
    by (intro visits_frame [OF v]) (auto simp: same_pool_def intro: exI [of _ 0])
  then show ?thesis using s by blast
qed

lemma visits_tail:
  assumes v: "visits_ok w st E A" and A: "A l = x # xs"
  shows "visits_ok w st E (A(l := xs))"
  unfolding visits_ok_def
proof
  fix k
  have old: "distinct (map snd (A k)) \<and> (A k \<noteq> [] \<longrightarrow> (\<exists>b. pc (E k) = Handling b)) \<and> (\<forall>(r, c) \<in> set (A k). hup_ok r \<and> pointee_ok w st k c)" for k
    using v by (simp add: visits_ok_def)
  show "distinct (map snd ((A(l := xs)) k)) \<and> ((A(l := xs)) k \<noteq> [] \<longrightarrow> (\<exists>b. pc (E k) = Handling b)) \<and>
      (\<forall>(r, c) \<in> set ((A(l := xs)) k). hup_ok r \<and> pointee_ok w st k c)"
    using old [of k] old [of l] A by (cases "k = l") simp_all
qed

text \<open>
  The visit of one channel: afterwards the channels behind it are as good as before, and the visit was a step of the server on its threads.
\<close>

lemma visit_accept:
  assumes ctl: "epoll_ctl_spec ctl" and inv: "srv_inv w st" and v: "visits_ok w st E A"
    and f: "fresh_fd w f" "nextConnId (server w) < 2 ^ 31 - 1" and run: "TcpServer_newConnection ctl w f peer = Inr w'"
  shows "\<exists>st'. srv_inv w' st' \<and> visits_ok w' st' E A"
proof -
  obtain io t where "EventLoopThreadPool_getNextLoop (threadPool (server w)) (InetAddress_toIp peer) = Inr io"
      "TcpConnection_new (pollers w io) (next_obj w) f = Inr t"
    using run unfolding TcpServer_newConnection_def Let_def andthen_Inr_iff by auto
  from newConnection_ok [OF ctl inv f this] run obtain s where s: "srv_inv w' (st(next_obj w := s))" by auto
  have "objs w (next_obj w) = None" "next_obj w \<noteq> acceptChannel" using inv by (auto simp: srv_inv_def acceptChannel_def)
  then have "next_obj w \<notin> snd ` set (A k)" for k using v by (force simp: visits_ok_def pointee_ok_def)
  then have "visits_ok w' (st(next_obj w := s)) E A"
    using newConnection_same_pool [OF run] newConnection_objs [OF run]
    by (intro visits_frame [OF v]) (auto simp: same_pool_def intro: exI [of _ 0])
  then show ?thesis using s by blast
qed

lemma visit_conn:
  assumes ctl: "epoll_ctl_spec ctl" and msg: "message_ok onMessage" and inv: "srv_inv w st" and v: "visits_ok w st E A"
    and A: "A l = (r, c) # xs" and c: "c \<noteq> acceptChannel"
    and run: "run_callbacks ctl k onMessage c w (Channel_handleEvent True (chans (pollers w l) c\<lparr>revents := r\<rparr>)) = Inr w'"
  obtains ob where "objs w c = Some ob" and "conn_loop ob = l" and "watched (pollers w l) c \<noteq> None" and "hup_ok r"
    and "\<exists>st'. srv_inv w' st' \<and> visits_ok w' st' E (A(l := xs))"
proof -
  obtain ob where ob: "objs w c = Some ob" "conn_loop ob = l" "st c = Up" "hup_ok r"
    using v A c by (auto simp: visits_ok_def pointee_ok_def dest!: spec [of _ l])
  have w: "watched (pollers w (conn_loop ob)) c \<noteq> None" using watched_up [OF inv ob(1)] ob(3) by simp
  obtain s where s: "srv_inv w' (st(c := s))" using event_ok [OF ctl msg inv ob(1) w ob(4)] run unfolding ob(2) by blast
  have "c \<notin> snd ` set ((A(l := xs)) k)" for k
  proof (cases "k = l")
    case True
    have "distinct (map snd (A l))" using v by (simp add: visits_ok_def)
    then have "c \<notin> snd ` set xs" using A by simp
    then show ?thesis using True by simp
  next
    case False
    then show ?thesis using v ob(1,2) c by (force simp: visits_ok_def pointee_ok_def)
  qed
  moreover have "\<exists>n. (A(l := xs)) k = drop n (A k)" for k
    using A by (cases "k = l") (auto intro: exI [of _ 1] exI [of _ 0])
  ultimately have "visits_ok w' (st(c := s)) E (A(l := xs))"
    using callbacks_same_pool [OF run] run_callbacks_objs [OF run]
    by (intro visits_frame [OF v]) (simp_all add: same_pool_def)
  then show ?thesis using that ob w s by blast
qed

lemma visits_pc: "(\<And>l. pc (E' l) = pc (E l)) \<Longrightarrow> visits_ok w st E' A = visits_ok w st E A"
  by (simp add: visits_ok_def)

lemma visit_ok:
  assumes ctl: "epoll_ctl_spec ctl" and msg: "message_ok onMessage" and inv: "srv_inv w st" and v: "visits_ok w st E A"
    and pc: "pc (E l) = Handling b" and A: "A l = x # xs" and a: "accept_ok w a" and run: "visit ctl k a onMessage w l x = Inr w'"
  shows "(\<exists>st'. srv_inv w' st' \<and> visits_ok w' st' E (A(l := xs))) \<and>
     (threads_step K ctl onMessage)\<^sup>*\<^sup>* (w, E) (w', deliver K l (queue w) (queue w') E)"
proof -
  obtain r c where x: "x = (r, c)" by fastforce
  let ?cbs = "Channel_handleEvent True (chans (pollers w l) c\<lparr>revents := r\<rparr>)"
  note tail = visits_tail [OF v A]
  consider (conn) "c \<noteq> acceptChannel" "run_callbacks ctl k onMessage c w ?cbs = Inr w'"
    | (same) "w' = w"
    | (new) f peer where "c = acceptChannel" "a = Inr (f, peer)" "TcpServer_newConnection ctl w f peer = Inr w'"
        "Acceptor_handleRead ctl a w = Inr w'"
  proof (cases "c = acceptChannel \<and> Read_cb \<in> set ?cbs \<and> (\<exists>f peer. a = Inr (f, peer) \<and> TcpServer_newConnection ctl w f peer = Inr w')")
    case True
    then have "Acceptor_handleRead ctl a w = Inr w'" using run by (auto simp: visit_def x)
    then show ?thesis using True new by blast
  next
    case False
    show ?thesis
    proof (cases "c = acceptChannel")
      case acc: True
      have "w' = w \<or> Read_cb \<in> set ?cbs \<and> Acceptor_handleRead ctl a w = Inr w'" using run acc by (auto simp: visit_def x split: if_splits)
      then show ?thesis
        using same False acc by (cases a) (auto simp: Acceptor_handleRead_def Socket_accept_def split: if_splits)
    next
      case other: False
      then show ?thesis using conn run by (simp add: visit_def x andthen_Inr_iff)
    qed
  qed
  then show ?thesis
  proof cases
    case conn
    obtain ob where ob: "objs w c = Some ob" "conn_loop ob = l" "watched (pollers w l) c \<noteq> None" "hup_ok r"
        "\<exists>st'. srv_inv w' st' \<and> visits_ok w' st' E (A(l := xs))"
      by (rule visit_conn [OF ctl msg inv v A [unfolded x] conn])
    have "threads_step K ctl onMessage (w, E) (w', deliver K (conn_loop ob) (queue w) (queue w') E)"
      using ob pc conn(2) by (intro threads_step.event [where b = b and r = r]) simp_all
    then show ?thesis using ob(2,5) by auto
  next
    case same
    then show ?thesis using tail inv by auto
  next
    case new
    have l: "l = base w" using v A new(1) by (auto simp: x visits_ok_def pointee_ok_def dest!: spec [of _ l])
    have f: "fresh_fd w f" "nextConnId (server w) < 2 ^ 31 - 1" using a new(2) by (simp_all add: accept_ok_def)
    have "threads_step K ctl onMessage (w, E) (w', deliver K (base w) (queue w) (queue w') E)"
      using pc f new(2,4) l by (intro threads_step.accepted [where f = f and peer = peer and b = b]) simp_all
    then show ?thesis using visit_accept [OF ctl inv tail f new(3)] l by auto
  qed
qed

lemma dispatch_step_ok:
  assumes K: "eventfd_spec K" and ctl: "epoll_ctl_spec ctl" and msg: "message_ok onMessage" and inv: "dispatch_inv x"
    and step: "dispatch_step K ctl onMessage x y"
  shows "dispatch_inv y \<and> (threads_step K ctl onMessage)\<^sup>*\<^sup>* (fst x, fst (snd x)) (fst y, fst (snd y))"
proof -
  obtain w E A st where x: "x = (w, E, A)" and ti: "threads_inv (w, E)" and sv: "srv_inv w st" and v: "visits_ok w st E A"
    using inv unfolding dispatch_inv_def by (cases x) auto
  have "(\<exists>st'. srv_inv (fst y) st' \<and> visits_ok (fst y) st' (fst (snd y)) (snd (snd y))) \<and>
      (threads_step K ctl onMessage)\<^sup>*\<^sup>* (w, E) (fst y, fst (snd y))"
    using step unfolding x
  proof cases
    case (inner l e)
    have "threads_step K ctl onMessage (w, E) (w, E(l := e))" using inner(2) by (rule threads_step.inner)
    moreover have "visits_ok w st (E(l := e)) A" using inner(2,4) by (rule visits_inner [OF v])
    ultimately show ?thesis using sv inner(1) by auto
  next
    case (poll l b es)
    have "loop_step K (E l) ((E l)\<lparr>pc := Handling b\<rparr>)" using loop_step.poll [OF poll(2)] poll(3) by blast
    then have t: "threads_step K ctl onMessage (w, E) (w, E(l := (E l)\<lparr>pc := Handling b\<rparr>))" by (rule inner_intro) simp_all
    have "activeChannels_of (pollers w l) (Ready es) = es" using poll(4) by (simp add: kernel_report_def activeChannels_Ready)
    then show ?thesis using visits_poll [OF sv v poll(4), of b] sv t poll(1) by auto
  next
    case (visit l b x' xs a k w')
    then show ?thesis
      using visit_ok [OF ctl msg sv v visit(2-5), of K] visits_pc [of "deliver K l (queue w) (queue w') E" E] by simp
  next
    case (called l f fs v' w')
    note pop = pop_ok(1) [OF K ti called(2)]
    have run: "run_functor ctl (w\<lparr>queue := (queue w)(l := tl (queue w l))\<rparr>) f = Inr w'" using called(3,4) by simp
    let ?E = "deliver K l (queue v') (queue w') (E(l := (E l)\<lparr>pc := Running fs, executed := executed (E l) @ [f]\<rparr>))"
    have "\<exists>st'. srv_inv w' st' \<and> visits_ok w' st' ?E A" by (rule visits_called [OF ctl sv v pop called(2) _ run]) simp
    moreover have "threads_step K ctl onMessage (w, E) (w', ?E)" using called(2-4) by (rule threads_step.called)
    ultimately show ?thesis using called(1) by auto
  qed
  moreover from this have "threads_inv (fst y, fst (snd y))"
    using threads_server.inv_runs [of K ctl onMessage "(w, E)"] K ti by simp
  ultimately show ?thesis by (auto simp: dispatch_inv_def x split: prod.splits)
qed

interpretation dispatching: simulation
  "\<lambda>x y. eventfd_spec K \<and> epoll_ctl_spec ctl \<and> message_ok onMessage \<and> dispatch_step K ctl onMessage x y" dispatch_inv
  "threads_step K ctl onMessage" "\<lambda>x. (fst x, fst (snd x))" for K ctl onMessage
  by unfold_locales (blast dest: dispatch_step_ok)+

section \<open>Properties\<close>

text \<open>
  C15. No dangling pointer among the active channels. While a server runs on its loops, in any interleaving of its threads and for
  any reports of \<open>poll\<close>, every channel that a loop has still to visit in its turn is the acceptor's, in the base loop, or belongs to a connection object
  that exists, lives in this loop and is still registered with its poller; no channel is visited twice in a turn; functors
  are called only when all reported channels have been visited; and such a run is a run of the server on its threads.
\<close>

theorem TcpServer_active_channels_alive:
  assumes "epoll_ctl_spec ctl" and "message_ok onMessage" and "eventfd_spec K"
    and "server_up ctl hashFunc new_loop b s addr name n = Inr w0" and "0 \<le> s"
    and "(dispatch_step K ctl onMessage)\<^sup>*\<^sup>* (w0, \<lambda>_. EventLoop_new, \<lambda>_. []) (w, E, A)"
  shows "(threads_step K ctl onMessage)\<^sup>*\<^sup>* (w0, \<lambda>_. EventLoop_new) (w, E) \<and>
     (\<forall>l. distinct (map snd (A l)) \<and> (A l \<noteq> [] \<longrightarrow> (\<exists>b. pc (E l) = Handling b)) \<and>
        (\<forall>(r, c) \<in> set (A l). c = acceptChannel \<and> l = base w \<or>
           (\<exists>ob. objs w c = Some ob \<and> conn_loop ob = l \<and> watched (pollers w l) c \<noteq> None)))"
proof -
  obtain st where "srv_inv w0 st" "threads_inv (w0, \<lambda>_. EventLoop_new)"
    using threads_runs [OF assms(1-5) rtranclp.rtrancl_refl] by blast
  then have inv0: "dispatch_inv (w0, \<lambda>_. EventLoop_new, \<lambda>_. [])" by (auto simp: dispatch_inv_def visits_ok_def)
  have runs: "(\<lambda>x y. eventfd_spec K \<and> epoll_ctl_spec ctl \<and> message_ok onMessage \<and> dispatch_step K ctl onMessage x y)\<^sup>*\<^sup>*
      (w0, \<lambda>_. EventLoop_new, \<lambda>_. []) (w, E, A)" using assms(1-3,6) by simp
  obtain st where sv: "srv_inv w st" and v: "visits_ok w st E A" using dispatching.inv_runs [OF runs inv0] by (auto simp: dispatch_inv_def)
  have "c = acceptChannel \<and> l = base w \<or> (\<exists>ob. objs w c = Some ob \<and> conn_loop ob = l \<and> watched (pollers w l) c \<noteq> None)"
    if "pointee_ok w st l c" for l c
    using that watched_up [OF sv] by (auto simp: pointee_ok_def split: if_splits)
  moreover have "distinct (map snd (A l)) \<and> (A l \<noteq> [] \<longrightarrow> (\<exists>b. pc (E l) = Handling b)) \<and> (\<forall>(r, c) \<in> set (A l). pointee_ok w st l c)" for l
    using v unfolding visits_ok_def by blast
  moreover have "(threads_step K ctl onMessage)\<^sup>*\<^sup>* (w0, \<lambda>_. EventLoop_new) (w, E)" using dispatching.spec_runs [OF runs inv0] by simp
  ultimately show ?thesis by blast
qed

section \<open>Witnesses\<close>

text \<open>The base loop has entered its loop, and the kernel reports a connection on the listening socket.\<close>

theorem TcpServer_active_channels_alive_witness:
  "\<exists>w0 w E A. server_up kernel_ctl (\<lambda>_. 0) (\<lambda>i. 100 + i) 7 3 localhost ''srv'' 1 = Inr w0 \<and>
     (dispatch_step linux_eventfd kernel_ctl Inr)\<^sup>*\<^sup>* (w0, \<lambda>_. EventLoop_new, \<lambda>_. []) (w, E, A) \<and>
     A 7 = [(EPOLLIN, acceptChannel)] \<and> pc (E 7) = Handling False \<and> (threads_step linux_eventfd kernel_ctl Inr)\<^sup>*\<^sup>* (w0, \<lambda>_. EventLoop_new) (w, E)"
proof -
  let ?S = "dispatch_step linux_eventfd kernel_ctl Inr" and ?N = "\<lambda>_. EventLoop_new :: server_fn EventLoop" and ?A = "\<lambda>_. [] :: (event_mask \<times> chan) list"
  let ?e1 = "loop_begin EventLoop_new :: server_fn EventLoop" and ?e2 = "EventLoop_new\<lparr>looping := True, pc := Polling\<rparr> :: server_fn EventLoop"
  obtain w0 where w0: "server_up kernel_ctl (\<lambda>_. 0) (\<lambda>i. 100 + i) 7 3 localhost ''srv'' 1 = Inr w0" "watched (pollers w0 7) acceptChannel = Some kReadEvent"
    using server_up_ok [OF kernel_ctl_spec, of 3 "\<lambda>_. 0" "\<lambda>i. 100 + i" 7 localhost "''srv''" 1] by auto
  have "inner_step linux_eventfd (?N 7) ?e1"
    using loop_step.call [of "EventLoop_new :: server_fn EventLoop" linux_eventfd] by (simp add: inner_step_def EventLoop_new_def loop_begin_def)
  then have 1: "?S (w0, ?N, ?A) (w0, ?N(7 := ?e1), ?A)"
    by (rule dispatch_step.inner) (simp_all add: EventLoop_new_def)
  have "inner_step linux_eventfd ((?N(7 := ?e1)) 7) ?e2"
    using loop_step.test [of ?e1 linux_eventfd] by (simp add: inner_step_def loop_begin_def loop_test_def EventLoop_new_def)
  then have "?S (w0, ?N(7 := ?e1), ?A) (w0, (?N(7 := ?e1))(7 := ?e2), ?A)"
    by (rule dispatch_step.inner) (simp_all add: loop_begin_def)
  then have 2: "?S (w0, ?N(7 := ?e1), ?A) (w0, ?N(7 := ?e2), ?A)" by (simp only: fun_upd_upd)
  let ?E2 = "?N(7 := ?e2) :: loops_state"
  let ?es = "[(EPOLLIN, acceptChannel)]"
  have rep: "kernel_report (pollers w0 7) ?es" using w0(2) by (simp add: kernel_report_def hup_ok_def EPOLLIN_def EPOLLHUP_def)
  have 3: "?S (w0, ?N(7 := ?e2), ?A) (w0, ?E2(7 := (?E2 7)\<lparr>pc := Handling False\<rparr>),
      ?A(7 := activeChannels_of (pollers w0 7) (Ready ?es)))"
    by (rule dispatch_step.poll) (use rep in simp_all)
  let ?E = "?E2(7 := (?E2 7)\<lparr>pc := Handling False\<rparr>)" and ?A1 = "?A(7 := activeChannels_of (pollers w0 7) (Ready ?es))"
  have run: "?S\<^sup>*\<^sup>* (w0, ?N, ?A) (w0, ?E, ?A1)" using 1 2 3 by (meson r_into_rtranclp rtranclp.rtrancl_into_rtrancl)
  have s3: "0 \<le> (3 :: int)" by simp
  have "(threads_step linux_eventfd kernel_ctl Inr)\<^sup>*\<^sup>* (w0, ?N) (w0, ?E)"
    using TcpServer_active_channels_alive [OF kernel_ctl_spec message_ok_none linux_eventfd_spec w0(1) s3 run] by blast
  moreover have "?A1 7 = ?es" by (simp add: activeChannels_Ready)
  ultimately show ?thesis using w0(1) run by (intro exI [of _ w0] exI [of _ ?E] exI [of _ ?A1]) simp
qed

end
