(* ===== verification/Net_Calls.thy ===== *)
theory Net_Calls
  imports Net_Threads Net_EchoWorld
begin

unbundle bit_operations_syntax

text \<open>
  Calls of a connection from other threads (\<open>send\<close>, \<open>shutdown\<close> in \<open>src/net/TcpConnection.cc\<close>). In a thread that is not the loop's both hand a functor to the loop that
  is bound to the raw pointer \<open>this\<close>: nothing in it keeps the connection alive. Here the queue of each loop holds these functors
  between those of the server, in the order in which they came, so that it can be asked whether the connection still exists when
  they are called.

  There are two sets of steps. In \<open>calls_step\<close> a call checks the state and queues its functor in one go. The code does
  this without a lock: in \<open>race_step\<close> the thread first checks the state (and \<open>shutdown\<close> changes it), and hands the functor over in
  a later step, other threads running in between. The functors that hold the connection by a shared pointer, of the
  write-complete and high-water-mark callbacks and of \<open>sendFile\<close>, are not queued.
\<close>

section \<open>Steps\<close>

datatype loop_call = Server_call server_fn | Conn_call conn loop_functor

type_synonym calls_state = "world \<times> (loop \<Rightarrow> loop_call list)"

primrec server_part :: "loop_call list \<Rightarrow> server_fn list" where
  "server_part [] = []"
| "server_part (x # xs) = (case x of Server_call f \<Rightarrow> f # server_part xs | Conn_call c f \<Rightarrow> server_part xs)"

text \<open>What a call on a connection has handed to the loop, and what an operation of the server has.\<close>

definition queued_calls :: "conn \<Rightarrow> TcpConnection \<Rightarrow> TcpConnection \<Rightarrow> loop_call list" where
  "queued_calls c t t' =
     List.map_filter (\<lambda>e. case e of Queue f \<Rightarrow> Some (Conn_call c f) | _ \<Rightarrow> None) (drop (length (effects t)) (effects t'))"

definition push :: "world \<Rightarrow> world \<Rightarrow> (loop \<Rightarrow> loop_call list) \<Rightarrow> loop \<Rightarrow> loop_call list" where
  "push w w' Q l = Q l @ map Server_call (drop (length (queue w l)) (queue w' l))"

text \<open>
  The functors of \<open>shutdown\<close> and \<open>send\<close> when the loop calls them. What the pointer of \<open>send\<close> leads to by then is not known: \<open>bytes\<close> are any bytes of the
  length that was given.
\<close>

definition run_shutdown :: "world \<Rightarrow> conn \<Rightarrow> world result" where
  "run_shutdown w c = andthen (conn_at w c) (\<lambda>ob. Inr (store w c ob (TcpConnection_shutdownInLoop (load w ob))))"

definition run_send :: "epoll_ctl_call \<Rightarrow> write_call \<Rightarrow> byte list \<Rightarrow> world \<Rightarrow> conn \<Rightarrow> world result" where
  "run_send ctl write bytes w c =
     andthen (conn_at w c) (\<lambda>ob. andthen (TcpConnection_sendInLoop ctl write (load w ob) bytes) (\<lambda>t. Inr (store w c ob t)))"

text \<open>
  With \<open>late\<close>, bytes that are sent behind the close of their connection may be kept in the output buffer; without, the socket takes them
  all or is broken by then.
\<close>

inductive calls_step ::
  "epoll_ctl_call \<Rightarrow> (TcpConnection \<Rightarrow> TcpConnection result) \<Rightarrow> bool \<Rightarrow> calls_state \<Rightarrow> calls_state \<Rightarrow> bool" for ctl onMessage late where
  accepted: "fresh_fd w f \<Longrightarrow> nextConnId (server w) < 2 ^ 31 - 1 \<Longrightarrow> Acceptor_handleRead ctl (Inr (f, peer)) w = Inr w' \<Longrightarrow>
    calls_step ctl onMessage late (w, Q) (w', push w w' Q)"
| event: "objs w c = Some ob \<Longrightarrow> watched (pollers w (conn_loop ob)) c \<noteq> None \<Longrightarrow> hup_ok r \<Longrightarrow>
    run_callbacks ctl k onMessage c w
      (Channel_handleEvent True (chans (pollers w (conn_loop ob)) c\<lparr>revents := r\<rparr>)) = Inr w' \<Longrightarrow>
    calls_step ctl onMessage late (w, Q) (w', push w w' Q)"
| server_called: "Q l = Server_call f # xs \<Longrightarrow> v = w\<lparr>queue := (queue w)(l := server_part xs)\<rparr> \<Longrightarrow> run_functor ctl v f = Inr w' \<Longrightarrow>
    calls_step ctl onMessage late (w, Q) (w', push v w' (Q(l := xs)))"
| shutdown: "objs w c = Some ob \<Longrightarrow> t = TcpConnection_shutdown False (load w ob) \<Longrightarrow> l = conn_loop ob \<Longrightarrow>
    calls_step ctl onMessage late (w, Q) (store w c ob t, Q(l := Q l @ queued_calls c (load w ob) t))"
| send: "objs w c = Some ob \<Longrightarrow> TcpConnection_send ctl write False (load w ob) buf = Inr t \<Longrightarrow> l = conn_loop ob \<Longrightarrow>
    calls_step ctl onMessage late (w, Q) (store w c ob t, Q(l := Q l @ queued_calls c (load w ob) t))"
| shutdown_called: "Q l = Conn_call c Shutdown_fn # xs \<Longrightarrow> run_shutdown w c = Inr w' \<Longrightarrow>
    calls_step ctl onMessage late (w, Q) (w', Q(l := xs))"
| send_called: "Q l = Conn_call c (Send_fn (length bytes)) # xs \<Longrightarrow> run_send ctl write bytes w c = Inr w' \<Longrightarrow>
    (\<And>ob. \<not> late \<Longrightarrow> objs w c = Some ob \<Longrightarrow> state (tcp ob) = kDisconnected \<Longrightarrow> settled write (load w ob) bytes) \<Longrightarrow>
    calls_step ctl onMessage late (w, Q) (w', Q(l := xs))"

text \<open>
  The steps with the check and the hand-over apart: a thread that has found the connection connected is among \<open>callers\<close>, with the connection, its
  loop and the functor, until it queues the functor. With \<open>prompt\<close>, no thread does so after the connection's destruction has been queued.
  (Checking the state and setting it, in \<open>shutdown\<close>, are one step.)
\<close>

type_synonym callers = "(conn \<times> loop \<times> loop_functor) list"

definition call_checked :: "loop_functor \<Rightarrow> TcpConnection \<Rightarrow> TcpConnection" where
  "call_checked f t = (if f = Shutdown_fn then setState kDisconnecting t else t)"

inductive race_step ::
  "epoll_ctl_call \<Rightarrow> (TcpConnection \<Rightarrow> TcpConnection result) \<Rightarrow> bool \<Rightarrow> bool \<Rightarrow> calls_state \<times> callers \<Rightarrow> calls_state \<times> callers \<Rightarrow> bool"
  for ctl onMessage late prompt where
  fused: "calls_step ctl onMessage late x y \<Longrightarrow> race_step ctl onMessage late prompt (x, P) (y, P)"
| checked: "objs w c = Some ob \<Longrightarrow> state (tcp ob) = kConnected \<Longrightarrow> f = Shutdown_fn \<or> f = Send_fn n \<Longrightarrow>
    race_step ctl onMessage late prompt ((w, Q), P) ((store w c ob (call_checked f (load w ob)), Q), P @ [(c, conn_loop ob, f)])"
| handed: "P = xs @ (c, l, f) # ys \<Longrightarrow> prompt \<longrightarrow> objs w c \<noteq> None \<and> Destroyed_fn c \<notin> set (queue w l) \<Longrightarrow>
    race_step ctl onMessage late prompt ((w, Q), P) ((w, Q(l := Q l @ [Conn_call c f])), xs @ ys)"

section \<open>The invariant\<close>

text \<open>
  A functor of a connection is in the queue of the connection's loop, and the connection's destruction, once it is queued, is behind it.
\<close>

definition destroyed_last :: "loop_call list \<Rightarrow> bool" where
  "destroyed_last = sorted_wrt (\<lambda>x y. \<forall>c f. x = Server_call (Destroyed_fn c) \<longrightarrow> y \<noteq> Conn_call c f)"

definition bound_ok :: "world \<Rightarrow> (conn \<Rightarrow> stage) \<Rightarrow> loop \<Rightarrow> loop_call \<Rightarrow> bool" where
  "bound_ok w st l x \<longleftrightarrow> (\<forall>c f. x = Conn_call c f \<longrightarrow> st c \<noteq> Connecting \<and> (\<exists>ob. objs w c = Some ob \<and> conn_loop ob = l))"

definition calls_inv :: "world \<Rightarrow> (conn \<Rightarrow> stage) \<Rightarrow> (loop \<Rightarrow> loop_call list) \<Rightarrow> bool" where
  "calls_inv w st Q \<longleftrightarrow> srv_inv w st \<and>
     (\<forall>l. server_part (Q l) = queue w l \<and> destroyed_last (Q l) \<and> (\<forall>x \<in> set (Q l). bound_ok w st l x))"

lemma calls_invD:
  assumes "calls_inv w st Q"
  shows "srv_inv w st" and "server_part (Q l) = queue w l" and "destroyed_last (Q l)" and "x \<in> set (Q l) \<Longrightarrow> bound_ok w st l x"
  using assms unfolding calls_inv_def by blast+

lemma server_part_append [simp]: "server_part (xs @ ys) = server_part xs @ server_part ys"
  by (induction xs) (simp_all split: loop_call.split)

lemma server_part_calls [simp]: "server_part (map Server_call fs) = fs"
  by (induction fs) simp_all

lemma server_part_bound [simp]: "server_part (map (Conn_call c) gs) = []"
  by (induction gs) simp_all

lemma in_server_part: "Server_call f \<in> set xs \<longleftrightarrow> f \<in> set (server_part xs)"
  by (induction xs) (auto split: loop_call.split)

lemma destroyed_last_server: "destroyed_last xs \<Longrightarrow> destroyed_last (xs @ map Server_call fs)"
  by (auto simp: destroyed_last_def sorted_wrt_append sorted_wrt_map sorted_wrt_true)

lemma queued_calls_cases:
  "queued_calls c t (TcpConnection_shutdown False t) = (if state t = kConnected then [Conn_call c Shutdown_fn] else [])"
  "TcpConnection_send ctl write False t buf = Inr t' \<Longrightarrow>
     queued_calls c t t' = (if state t = kConnected then [Conn_call c (Send_fn (length buf))] else [])"
  by (auto simp: queued_calls_def TcpConnection_shutdown_def TcpConnection_send_def setState_def List.map_filter_def split: if_splits)

lemma bound_frame:
  assumes "bound_ok w st l x"
    and "\<And>d ob. objs w d = Some ob \<Longrightarrow> st d \<noteq> Connecting \<Longrightarrow> st' d \<noteq> Connecting \<and> (\<exists>ob'. objs w' d = Some ob' \<and> conn_loop ob' = conn_loop ob)"
  shows "bound_ok w' st' l x"
  using assms unfolding bound_ok_def by metis

text \<open>An operation of the server appends its functors; what was queued before stays as good as it was.\<close>

lemma calls_server_op:
  assumes Q: "\<And>l. server_part (Q l) = queue v l" "\<And>l. destroyed_last (Q l)" and app: "appends v w'" and inv: "srv_inv w' st'"
    and bound: "\<And>l x. x \<in> set (Q l) \<Longrightarrow> bound_ok w' st' l x"
  shows "calls_inv w' st' (push v w' Q)"
  unfolding calls_inv_def
proof (intro conjI allI ballI)
  fix l
  obtain new where new: "queue w' l = queue v l @ new" using app unfolding appends_def by blast
  show "server_part (push v w' Q l) = queue w' l" using Q(1) new by (simp add: push_def)
  show "destroyed_last (push v w' Q l)" unfolding push_def by (rule destroyed_last_server [OF Q(2)])
  fix x assume "x \<in> set (push v w' Q l)"
  then show "bound_ok w' st' l x" using bound by (auto simp: push_def bound_ok_def)
qed (rule inv)

lemma calls_event:
  assumes ctl: "epoll_ctl_spec ctl" and msg: "message_ok onMessage" and inv: "calls_inv w st Q"
    and event: "objs w c = Some ob" "watched (pollers w (conn_loop ob)) c \<noteq> None" "hup_ok r"
      "run_callbacks ctl k onMessage c w (Channel_handleEvent True (chans (pollers w (conn_loop ob)) c\<lparr>revents := r\<rparr>)) = Inr w'"
  shows "\<exists>st'. calls_inv w' st' (push w w' Q) \<and> (\<forall>d. d < next_obj w \<longrightarrow> st' d = Connecting \<longrightarrow> st d = Connecting)"
proof -
  obtain s where s: "srv_inv w' (st(c := s))" "s = Up \<or> s = Removing \<or> s = Destroying"
    using event_ok [OF ctl msg calls_invD(1) [OF inv] event] by blast
  have "calls_inv w' (st(c := s)) (push w w' Q)"
  proof (rule calls_server_op [OF calls_invD(2,3) [OF inv] run_callbacks_appends [OF event(4)] s(1)])
    show "bound_ok w' (st(c := s)) l x" if "x \<in> set (Q l)" for l x
      using s(2) run_callbacks_loop [OF event(4)] by (intro bound_frame [OF calls_invD(4) [OF inv that]]) auto
  qed
  then show ?thesis using s(2) by (intro exI [of _ "st(c := s)"]) auto
qed

lemma calls_accepted:
  assumes ctl: "epoll_ctl_spec ctl" and inv: "calls_inv w st Q" and f: "fresh_fd w f" "nextConnId (server w) < 2 ^ 31 - 1"
    and run: "Acceptor_handleRead ctl (Inr (f, peer)) w = Inr w'"
  shows "\<exists>st'. calls_inv w' st' (push w w' Q) \<and> (\<forall>d. d < next_obj w \<longrightarrow> st' d = Connecting \<longrightarrow> st d = Connecting)"
proof (cases "newConnectionCallback (acceptor (server w))")
  case True
  then have new: "TcpServer_newConnection ctl w f peer = Inr w'"
    using run f(1) by (simp add: Acceptor_handleRead_def Socket_accept_def fresh_fd_def)
  then obtain io t where "EventLoopThreadPool_getNextLoop (threadPool (server w)) (InetAddress_toIp peer) = Inr io"
      "TcpConnection_new (pollers w io) (next_obj w) f = Inr t"
    unfolding TcpServer_newConnection_def Let_def andthen_Inr_iff by auto
  from newConnection_ok [OF ctl calls_invD(1) [OF inv] f this] new obtain s where s: "srv_inv w' (st(next_obj w := s))" by auto
  have "objs w (next_obj w) = None" using calls_invD(1) [OF inv] by (simp add: srv_inv_def)
  then have "bound_ok w' (st(next_obj w := s)) l x" if "x \<in> set (Q l)" for l x
    using newConnection_objs [OF new] by (intro bound_frame [OF calls_invD(4) [OF inv that]]) auto
  then have "calls_inv w' (st(next_obj w := s)) (push w w' Q)"
    by (intro calls_server_op [OF calls_invD(2,3) [OF inv] handleRead_appends [OF run] s])
  then show ?thesis by (intro exI [of _ "st(next_obj w := s)"]) simp
next
  case False
  then have "w' = w" using run f(1) by (simp add: Acceptor_handleRead_def Socket_accept_def fresh_fd_def)
  moreover have "push w w Q = Q" by (simp add: push_def fun_eq_iff)
  ultimately show ?thesis using inv by auto
qed

text \<open>The destruction of a connection finds none of the connection's functors left.\<close>

lemma calls_server_called:
  assumes ctl: "epoll_ctl_spec ctl" and inv: "calls_inv w st Q" and Q: "Q l = Server_call f # xs"
    and run: "run_functor ctl (w\<lparr>queue := (queue w)(l := server_part xs)\<rparr>) f = Inr w'"
  shows "\<exists>st'. calls_inv w' st' (push (w\<lparr>queue := (queue w)(l := server_part xs)\<rparr>) w' (Q(l := xs))) \<and> (\<forall>d. d < next_obj w \<longrightarrow> st' d = Connecting \<longrightarrow> st d = Connecting)"
proof -
  let ?v = "w\<lparr>queue := (queue w)(l := server_part xs)\<rparr>" and ?c = "target f"
  have q: "queue w l = f # server_part xs" using calls_invD(2) [OF inv, of l] Q by simp
  obtain s where s: "srv_inv w' (st(?c := s))" "case f of Established_fn _ \<Rightarrow> s = Up \<and> objs w' ?c \<noteq> None
      | Remove_fn _ \<Rightarrow> s = Destroying \<and> objs w' ?c \<noteq> None | Destroyed_fn _ \<Rightarrow> s = Gone \<and> objs w' ?c = None"
    using functor_ok [OF ctl calls_invD(1) [OF inv] q] run by auto
  obtain ob where ob: "objs w ?c = Some ob" "due_fn (base w) (conn_loop ob) (st ?c) ?c = Some (l, f)"
    using due_of_queued [OF calls_invD(1) [OF inv], of f l] q by auto
  have last: "destroyed_last (Server_call f # xs)" using calls_invD(3) [OF inv, of l] Q by simp
  have bound: "bound_ok w' (st(?c := s)) k x" if x: "x \<in> set ((Q(l := xs)) k)" for k x
    unfolding bound_ok_def
  proof (intro allI impI)
    fix d g assume g: "x = Conn_call d g"
    have "x \<in> set (Q k)" using x Q by (cases "k = l") simp_all
    then obtain od where od: "objs w d = Some od" "conn_loop od = k" "st d \<noteq> Connecting"
      using calls_invD(4) [OF inv] g unfolding bound_ok_def by blast
    show "(st(?c := s)) d \<noteq> Connecting \<and> (\<exists>ob. objs w' d = Some ob \<and> conn_loop ob = k)"
    proof (cases "d = ?c")
      case False
      then show ?thesis using od run_functor_objs [OF run False] by simp
    next
      case True
      have "s \<noteq> Connecting \<and> objs w' ?c \<noteq> None"
      proof (cases f)
        case (Destroyed_fn c)
        then have "conn_loop ob = l" using ob(2) by (auto simp: due_fn_def split: stage.splits)
        then have "k = l" using od ob(1) True by simp
        then have "Conn_call c g \<in> set xs" using x g True Destroyed_fn by simp
        then show ?thesis using last Destroyed_fn by (auto simp: destroyed_last_def)
      qed (use s(2) in simp_all)
      then obtain ob' where "objs w' d = Some ob'" "s \<noteq> Connecting" using True by auto
      then show ?thesis using run_functor_loop [OF run, of d ob'] od True by auto
    qed
  qed
  have part: "server_part ((Q(l := xs)) k) = queue ?v k" for k using calls_invD(2) [OF inv] by simp
  have lasts: "destroyed_last ((Q(l := xs)) k)" for k using calls_invD(3) [OF inv] last by (simp add: destroyed_last_def)
  have "calls_inv w' (st(?c := s)) (push ?v w' (Q(l := xs)))"
    using calls_server_op [OF part lasts run_functor_appends [OF run] s(1) bound] by blast
  moreover have "s \<noteq> Connecting" using s(2) by (cases f) auto
  ultimately show ?thesis by (intro exI [of _ "st(?c := s)"]) simp
qed

text \<open>A call on a connection: the functors that it queues come from a connection that is up, whose destruction nobody has queued.\<close>

lemma calls_client:
  assumes inv: "calls_inv w st Q" and ob: "objs w c = Some ob" and own: "own (load w ob) t" and stage: "stage_ok (st c) (state t) (channel t)"
    and gs: "gs \<noteq> [] \<Longrightarrow> st c = Up" and l: "l = conn_loop ob"
  shows "calls_inv (store w c ob t) st (Q(l := Q l @ map (Conn_call c) gs))"
  unfolding calls_inv_def
proof (intro conjI allI ballI)
  show "srv_inv (store w c ob t) st" by (rule keep_ok [OF calls_invD(1) [OF inv] ob own stage])
  fix k
  show "server_part ((Q(l := Q l @ map (Conn_call c) gs)) k) = queue (store w c ob t) k"
    using calls_invD(2) [OF inv] by (simp add: store_def)
  have "Destroyed_fn c \<notin> set (queue w l)" if "gs \<noteq> []"
    using srv_invD(3) [OF calls_invD(1) [OF inv] ob] gs [OF that]
    by (auto simp: live_ok_def due_fn_def queued_once_def count_list_0_iff dest!: spec [of _ l])
  then have "gs \<noteq> [] \<Longrightarrow> Server_call (Destroyed_fn c) \<notin> set (Q l)" using calls_invD(2) [OF inv, of l] by (simp add: in_server_part)
  then have "destroyed_last (Q l @ map (Conn_call c) gs)"
    using calls_invD(3) [OF inv, of l]
    by (cases "gs = []") (auto simp: destroyed_last_def sorted_wrt_append sorted_wrt_map sorted_wrt_true)
  then show "destroyed_last ((Q(l := Q l @ map (Conn_call c) gs)) k)" using calls_invD(3) [OF inv] by simp
  fix x assume x: "x \<in> set ((Q(l := Q l @ map (Conn_call c) gs)) k)"
  show "bound_ok (store w c ob t) st k x"
  proof (cases "x \<in> set (Q k)")
    case True
    then show ?thesis by (intro bound_frame [OF calls_invD(4) [OF inv]]) (use ob in \<open>auto simp: store_def\<close>)
  next
    case False
    then have "k = l" "gs \<noteq> []" "\<exists>f. x = Conn_call c f" using x by (auto split: if_splits)
    then show ?thesis using gs l by (auto simp: bound_ok_def store_def)
  qed
qed

lemma calls_pop:
  assumes inv: "calls_inv w st Q" and Q: "Q l = Conn_call c f # xs"
  shows "calls_inv w st (Q(l := xs))" and "\<exists>ob. objs w c = Some ob \<and> conn_loop ob = l" and "st c \<noteq> Connecting"
proof -
  have q: "server_part xs = queue w l" "destroyed_last xs" "\<And>x. x \<in> set (Q l) \<Longrightarrow> bound_ok w st l x"
    using calls_invD(2) [OF inv, of l] calls_invD(3) [OF inv, of l] calls_invD(4) [OF inv] Q by (simp_all add: destroyed_last_def)
  then show "calls_inv w st (Q(l := xs))" using inv Q by (simp add: calls_inv_def)
  show "\<exists>ob. objs w c = Some ob \<and> conn_loop ob = l" "st c \<noteq> Connecting" using q(3) [of "Conn_call c f"] Q by (auto simp: bound_ok_def)
qed

lemma calls_run:
  assumes inv: "calls_inv w st Q" and Q: "Q l = Conn_call c f # xs" and ob: "objs w c = Some ob" and own: "own (load w ob) t"
    and stage: "stage_ok (st c) (state t) (channel t)"
  shows "calls_inv (store w c ob t) st (Q(l := xs))"
  using calls_client [OF calls_pop(1) [OF inv Q] ob own stage, of "[]" "conn_loop ob"]
  unfolding list.map append_Nil2 fun_upd_triv by simp

lemma load_stage:
  assumes "srv_inv w st" and "objs w c = Some ob"
  shows "stage_ok (st c) (state (load w ob)) (channel (load w ob))"
  using srv_invD(3) [OF assms] load_pbase(2) [OF assms] by (simp add: live_ok_def)

lemma run_send_stage:
  assumes ctl: "epoll_ctl_spec ctl" and inv: "srv_inv w st" and ob: "objs w c = Some ob" and st: "st c \<noteq> Connecting"
    and run: "TcpConnection_sendInLoop ctl write (load w ob) bytes = Inr t"
    and s: "state (tcp ob) = kDisconnected \<Longrightarrow> settled write (load w ob) bytes"
  shows "own (load w ob) t \<and> stage_ok (st c) (state t) (channel t)"
proof -
  have b: "pbase (load w ob)" by (rule load_pbase(1) [OF inv ob])
  note stage = load_stage [OF inv ob]
  show ?thesis
  proof (cases "st c = Up")
    case True
    then have "registered (load w ob)" using stage by (simp add: stage_ok_def registered_def)
    from sendInLoop_life [OF ctl b this run] show ?thesis using True stage by (simp add: stage_ok_def registered_def)
  next
    case False
    then have "closed (load w ob)" using stage st by (cases "st c") (simp_all add: stage_ok_def closed_def)
    moreover from this have "settled write (load w ob) bytes" using s by (simp add: closed_def load_def)
    ultimately show ?thesis using sendInLoop_closed [OF b _ _ run] False stage st by (cases "st c") (auto simp: stage_ok_def closed_def)
  qed
qed

lemma calls_step_ok:
  assumes ctl: "epoll_ctl_spec ctl" and msg: "message_ok onMessage" and inv: "calls_inv w st Q"
    and step: "calls_step ctl onMessage False (w, Q) (w', Q')"
  shows "\<exists>st'. calls_inv w' st' Q' \<and> (\<forall>d. d < next_obj w \<longrightarrow> st' d = Connecting \<longrightarrow> st d = Connecting)"
  using step
proof cases
  case (accepted f peer)
  then show ?thesis using calls_accepted [OF ctl inv] by blast
next
  case (event c ob r k)
  then show ?thesis using calls_event [OF ctl msg inv] by blast
next
  case (server_called l f xs v)
  then show ?thesis using calls_server_called [OF ctl inv] by blast
next
  case (shutdown c ob t l)
  note srv = calls_invD(1) [OF inv]
  have b: "pbase (load w ob)" by (rule load_pbase(1) [OF srv shutdown(3)])
  note stage = load_stage [OF srv shutdown(3)]
  have t: "own (load w ob) t" using shutdown(4) b by (auto simp: TcpConnection_shutdown_def own_def pbase_def Let_def)
  have up: "state (load w ob) = kConnected \<Longrightarrow> st c = Up" using stage by (cases "st c") (simp_all add: stage_ok_def)
  have "stage_ok (st c) (state t) (channel t)"
    using shutdown(4) stage up by (cases "state (load w ob) = kConnected") (simp_all add: TcpConnection_shutdown_def stage_ok_def Let_def)
  note client = calls_client [OF inv shutdown(3) t this, where gs = "if state (load w ob) = kConnected then [Shutdown_fn] else []"]
  show ?thesis using client [OF _ shutdown(5)] up shutdown(1,2,4) by (auto simp: queued_calls_cases split: if_splits)
next
  case (send c ob wr buf t l)
  note srv = calls_invD(1) [OF inv]
  have b: "pbase (load w ob)" by (rule load_pbase(1) [OF srv send(3)])
  note stage = load_stage [OF srv send(3)]
  have t: "own (load w ob) t" "stage_ok (st c) (state t) (channel t)"
    using send(4) b stage by (auto simp: TcpConnection_send_def own_def pbase_def split: if_splits)
  have up: "state (load w ob) = kConnected \<Longrightarrow> st c = Up" using stage by (cases "st c") (simp_all add: stage_ok_def)
  note client = calls_client [OF inv send(3) t, where gs = "if state (load w ob) = kConnected then [Send_fn (length buf)] else []"]
  show ?thesis using client [OF _ send(5)] up send(1,2) queued_calls_cases(2) [OF send(4)] by (auto split: if_splits)
next
  case (shutdown_called l c xs)
  obtain ob where ob: "objs w c = Some ob" using calls_pop(2) [OF inv shutdown_called(2)] by blast
  note srv = calls_invD(1) [OF inv]
  let ?t = "TcpConnection_shutdownInLoop (load w ob)"
  have "own (load w ob) ?t" using load_pbase(1) [OF srv ob] by (intro own_cong) (simp_all add: shutdownInLoop_same pbase_def)
  moreover have "stage_ok (st c) (state ?t) (channel ?t)" using load_stage [OF srv ob] by (simp only: shutdownInLoop_same)
  ultimately have "calls_inv (store w c ob ?t) st (Q(l := xs))" by (rule calls_run [OF inv shutdown_called(2) ob])
  then show ?thesis using shutdown_called(1,3) ob by (auto simp: run_shutdown_def conn_at_def)
next
  case (send_called l c bytes xs wr)
  obtain ob where ob: "objs w c = Some ob" using calls_pop(2) [OF inv send_called(2)] by blast
  obtain t where t: "TcpConnection_sendInLoop ctl wr (load w ob) bytes = Inr t" "w' = store w c ob t"
    using send_called(3) ob by (auto simp: run_send_def conn_at_def andthen_Inr_iff)
  have "own (load w ob) t \<and> stage_ok (st c) (state t) (channel t)"
    using run_send_stage [OF ctl calls_invD(1) [OF inv] ob calls_pop(3) [OF inv send_called(2)] t(1)] send_called(4) ob by blast
  then show ?thesis using calls_run [OF inv send_called(2) ob] t(2) send_called(1) by blast
qed

text \<open>Objects are not reused: an object that is there later was there, in the same loop.\<close>

lemma run_functor_next: "run_functor ctl w f = Inr w' \<Longrightarrow> next_obj w' = next_obj w"
  by (cases f) (auto simp: run_established_def run_destroyed_def TcpServer_removeConnectionInLoop_def andthen_Inr_iff
      store_def enqueue_def Let_def)

lemma run_callbacks_next: "run_callbacks ctl k onMessage c w cbs = Inr w' \<Longrightarrow> next_obj w' = next_obj w"
proof (induction cbs arbitrary: w)
  case (Cons cb cbs)
  then obtain w1 where w1: "run_callback ctl k onMessage c w cb = Inr w1" "next_obj w' = next_obj w1" by (auto simp: andthen_Inr_iff)
  then show ?case by (auto simp: run_callback_def TcpServer_removeConnection_def TcpServer_removeConnectionInLoop_def
      andthen_Inr_iff store_def enqueue_def Let_def split: if_splits)
qed simp

definition same_objects :: "world \<Rightarrow> world \<Rightarrow> bool" where
  "same_objects w w' \<longleftrightarrow> next_obj w \<le> next_obj w' \<and>
     (\<forall>d ob'. d < next_obj w \<and> objs w' d = Some ob' \<longrightarrow> (\<exists>ob. objs w d = Some ob \<and> conn_loop ob' = conn_loop ob))"

lemma same_objects_store: "objs w c = Some ob \<Longrightarrow> same_objects w (store w c ob t)"
  by (auto simp: same_objects_def store_def)

lemma same_objects_accept:
  assumes "Acceptor_handleRead ctl (Inr (f, peer)) w = Inr w'"
  shows "same_objects w w'"
proof (cases "w' = w")
  case False
  then have new: "TcpServer_newConnection ctl w f peer = Inr w'"
    using assms by (auto simp: Acceptor_handleRead_def Socket_accept_def split: if_splits)
  then have "next_obj w' = next_obj w + 1"
    by (auto simp: TcpServer_newConnection_def run_established_def andthen_Inr_iff store_def enqueue_def Let_def split: if_splits)
  then show ?thesis using newConnection_objs [OF new] by (auto simp: same_objects_def)
qed (simp add: same_objects_def)

lemma same_objects_callbacks:
  assumes "run_callbacks ctl k onMessage c w cbs = Inr w'" and "objs w c = Some ob"
  shows "same_objects w w'"
  unfolding same_objects_def
proof (intro conjI allI impI)
  show "next_obj w \<le> next_obj w'" using run_callbacks_next [OF assms(1)] by simp
  fix d ob' assume d: "d < next_obj w \<and> objs w' d = Some ob'"
  then obtain od where "objs w d = Some od" using run_callbacks_objs [OF assms(1), of d] assms(2) by (cases "d = c") auto
  then show "\<exists>ob. objs w d = Some ob \<and> conn_loop ob' = conn_loop ob" using run_callbacks_loop [OF assms(1)] d by fastforce
qed

lemma calls_same_objects:
  assumes "calls_step ctl onMessage late (w, Q) (w', Q')"
  shows "same_objects w w'"
  using assms
proof cases
  case (accepted f peer)
  then show ?thesis by (intro same_objects_accept)
next
  case (event c ob r k)
  then show ?thesis by (intro same_objects_callbacks)
next
  case (server_called l f xs v)
  have "next_obj w' = next_obj w" using run_functor_next [OF server_called(4)] server_called(3) by simp
  then show ?thesis using run_functor_loop [OF server_called(4)] server_called(3) by (simp add: same_objects_def)
next
  case (shutdown_called l c xs)
  then show ?thesis by (auto simp: run_shutdown_def andthen_Inr_iff conn_at_def split: option.splits intro: same_objects_store)
next
  case (send_called l c bytes xs wr)
  then show ?thesis by (auto simp: run_send_def andthen_Inr_iff conn_at_def split: option.splits intro: same_objects_store)
qed (auto intro: same_objects_store)

section \<open>The check and the hand-over apart\<close>

definition caller_ok :: "world \<Rightarrow> (conn \<Rightarrow> stage) \<Rightarrow> conn \<times> loop \<times> loop_functor \<Rightarrow> bool" where
  "caller_ok w st x \<longleftrightarrow> (case x of (c, l, f) \<Rightarrow> c < next_obj w \<and> st c \<noteq> Connecting \<and> (\<forall>ob. objs w c = Some ob \<longrightarrow> conn_loop ob = l))"

definition race_inv :: "calls_state \<times> callers \<Rightarrow> bool" where
  "race_inv x \<longleftrightarrow> (\<exists>st. calls_inv (fst (fst x)) st (snd (fst x)) \<and> (\<forall>y \<in> set (snd x). caller_ok (fst (fst x)) st y))"

lemma caller_later:
  assumes "caller_ok w st x" and "same_objects w w'" and "\<forall>d. d < next_obj w \<longrightarrow> st' d = Connecting \<longrightarrow> st d = Connecting"
  shows "caller_ok w' st' x"
  using assms unfolding caller_ok_def same_objects_def by (auto split: prod.splits)

lemma calls_handed:
  assumes inv: "calls_inv w st Q" and ob: "objs w c = Some ob" "conn_loop ob = l" and st: "st c \<noteq> Connecting"
    and last: "Destroyed_fn c \<notin> set (queue w l)"
  shows "calls_inv w st (Q(l := Q l @ [Conn_call c f]))"
proof -
  have "Server_call (Destroyed_fn c) \<notin> set (Q l)" using last calls_invD(2) [OF inv, of l] by (simp add: in_server_part)
  then have "destroyed_last (Q l @ [Conn_call c f])"
    using calls_invD(3) [OF inv, of l] by (auto simp: destroyed_last_def sorted_wrt_append)
  moreover have "bound_ok w st l (Conn_call c f)" using ob st by (auto simp: bound_ok_def)
  ultimately show ?thesis using inv by (simp add: calls_inv_def)
qed

lemma call_checked_simps [simp]:
  "poller (call_checked f t) = poller t" "chan (call_checked f t) = chan t"
  "state (call_checked f t) = (if f = Shutdown_fn then kDisconnecting else state t)"
  by (simp_all add: call_checked_def setState_def)

lemma calls_checked:
  assumes inv: "calls_inv w st Q" and ob: "objs w c = Some ob" "state (tcp ob) = kConnected"
  shows "calls_inv (store w c ob (call_checked f (load w ob))) st Q" and "st c = Up"
proof -
  note srv = calls_invD(1) [OF inv]
  note stage = load_stage [OF srv ob(1)]
  show up: "st c = Up" using stage ob(2) by (cases "st c") (simp_all add: stage_ok_def load_def)
  have "own (load w ob) (call_checked f (load w ob))"
    using load_pbase(1) [OF srv ob(1)] by (intro own_cong) (simp_all add: pbase_def)
  moreover have "stage_ok (st c) (state (call_checked f (load w ob))) (channel (call_checked f (load w ob)))"
    using stage up by (simp add: stage_ok_def)
  ultimately show "calls_inv (store w c ob (call_checked f (load w ob))) st Q"
    using calls_client [OF inv ob(1), where gs = "[]" and l = "conn_loop ob"] by simp
qed

lemma race_step_ok:
  assumes ctl: "epoll_ctl_spec ctl" and msg: "message_ok onMessage" and inv: "race_inv x"
    and step: "race_step ctl onMessage False True x y"
  shows "race_inv y"
  using step
proof cases
  case (fused a b P)
  obtain w Q w' Q' where ab: "a = (w, Q)" "b = (w', Q')" by fastforce
  from inv obtain st where st: "calls_inv w st Q" "\<forall>z \<in> set P. caller_ok w st z" unfolding race_inv_def fused(1) ab by auto
  have step: "calls_step ctl onMessage False (w, Q) (w', Q')" using fused(3) ab by simp
  obtain st' where st': "calls_inv w' st' Q'" "\<forall>d. d < next_obj w \<longrightarrow> st' d = Connecting \<longrightarrow> st d = Connecting"
    using calls_step_ok [OF ctl msg st(1) step] by blast
  have "\<forall>z \<in> set P. caller_ok w' st' z" using st(2) caller_later [OF _ calls_same_objects [OF step] st'(2)] by blast
  then show ?thesis unfolding race_inv_def fused(2) ab using st'(1) by auto
next
  case (checked w c ob f n Q P)
  from inv obtain st where st: "calls_inv w st Q" "\<forall>z \<in> set P. caller_ok w st z" unfolding race_inv_def checked(1) by auto
  let ?w = "store w c ob (call_checked f (load w ob))"
  note ok = calls_checked [OF st(1) checked(3,4)]
  have "c < next_obj w" using calls_invD(1) [OF st(1)] checked(3) unfolding srv_inv_def by (metis linorder_not_less option.distinct(1))
  then have "caller_ok ?w st (c, conn_loop ob, f)" using ok(2) by (simp add: caller_ok_def store_def)
  moreover have "\<forall>z \<in> set P. caller_ok ?w st z" using st(2) caller_later [OF _ same_objects_store [OF checked(3)]] by blast
  ultimately show ?thesis unfolding race_inv_def checked(2) using ok(1) by auto
next
  case (handed P xs c l f ys w Q)
  from inv obtain st where st: "calls_inv w st Q" "\<forall>z \<in> set P. caller_ok w st z" unfolding race_inv_def handed(1) by auto
  obtain ob where ob: "objs w c = Some ob" "Destroyed_fn c \<notin> set (queue w l)" using handed(4) by auto
  have "caller_ok w st (c, l, f)" using st(2) handed(3) by simp
  then have "calls_inv w st (Q(l := Q l @ [Conn_call c f]))" using ob by (intro calls_handed [OF st(1)]) (auto simp: caller_ok_def)
  then show ?thesis unfolding race_inv_def handed(2) using st(2) handed(3) by auto
qed

lemma race_runs:
  assumes ctl: "epoll_ctl_spec ctl" and msg: "message_ok onMessage"
    and up: "server_up ctl hashFunc new_loop b s addr name n = Inr w0" and s: "0 \<le> s"
    and run: "(race_step ctl onMessage False True)\<^sup>*\<^sup>* ((w0, \<lambda>_. []), []) x"
  shows "race_inv x"
  using run
proof (induction rule: rtranclp_induct)
  case base
  have w0: "srv_inv w0 (\<lambda>_. Gone)" "objs w0 = Map.empty" using server_up_ok [OF ctl s, of hashFunc new_loop b addr name n] up by auto
  have "calls_inv w0 (\<lambda>_. Gone) (\<lambda>_. [])"
    using w0 no_objects_no_functors [OF w0] by (simp add: calls_inv_def destroyed_last_def)
  then show ?case by (auto simp: race_inv_def)
next
  case (step y z)
  then show ?case using race_step_ok [OF ctl msg] by blast
qed

lemma race_fused: "(calls_step ctl onMessage late)\<^sup>*\<^sup>* x y \<Longrightarrow> (race_step ctl onMessage late prompt)\<^sup>*\<^sup>* (x, P) (y, P)"
  by (induction rule: rtranclp_induct) (auto intro: rtranclp.rtrancl_into_rtrancl race_step.fused)

section \<open>Sending behind the close\<close>

text \<open>A hang-up that the poller reports on a registered channel closes the connection, whatever its state.\<close>

lemma hup_reported: "closeCallback ch \<Longrightarrow> Channel_handleEvent True (ch\<lparr>revents := EPOLLHUP\<rparr>) = [Close_cb]"
  by (simp add: Channel_handleEvent_def Channel_handleEventWithGuard_def EPOLLIN_def EPOLLPRI_def EPOLLOUT_def EPOLLERR_def EPOLLHUP_def)

lemma hup_closes:
  assumes ctl: "epoll_ctl_spec ctl" and ob: "objs w c = Some ob" "chan (tcp ob) = c" "conn_loop ob \<noteq> base w"
    and t: "pbase (load w ob)" "index (channel (load w ob)) = kAdded" "hooked (load w ob)"
  shows "\<exists>t. run_callbacks ctl k onMessage c w (Channel_handleEvent True (chans (pollers w (conn_loop ob)) c\<lparr>revents := EPOLLHUP\<rparr>)) =
      Inr (enqueue (store w c ob t) (base w) (Remove_fn c)) \<and> own (load w ob) t \<and> closed t \<and> hooked t \<and>
      inputBuffer t = inputBuffer (tcp ob) \<and> outputBuffer t = outputBuffer (tcp ob)"
proof -
  obtain t' where t': "TcpConnection_handleClose ctl (load w ob) = Inr t'" "own (load w ob) t'" "closed t'"
      "effects t' = effects (load w ob) @ [ConnectionCallback kDisconnected, CloseCallback]"
    using close_life [OF ctl t(1,2)] by blast
  have news: "CloseCallback \<in> news (load w ob) t'" "MessageCallback \<notin> news (load w ob) t'" using t'(4) by (simp_all add: news_def)
  have buf: "inputBuffer t' = inputBuffer (tcp ob)" "outputBuffer t' = outputBuffer (tcp ob)"
    using t'(1) by (auto simp: TcpConnection_handleClose_def andthen_Inr_iff on_channel_def setState_def load_def)
  have "closeCallback (chans (pollers w (conn_loop ob)) c)" using t(3) ob(2) by (simp add: hooked_def load_def)
  then have "Channel_handleEvent True (chans (pollers w (conn_loop ob)) c\<lparr>revents := EPOLLHUP\<rparr>) = [Close_cb]" by (rule hup_reported)
  moreover have "run_callback ctl k onMessage c w Close_cb = Inr (enqueue (store w c ob t') (base w) (Remove_fn c))"
    using ob t'(1) news by (simp add: run_callback_def conn_at_def TcpServer_removeConnection_def store_def)
  ultimately show ?thesis using t'(2,3) close_hooked [OF t'(1)] t(3) buf by (intro exI [of _ t']) simp
qed

lemma hup_step:
  assumes ctl: "epoll_ctl_spec ctl" and ob: "objs w c = Some ob" "chan (tcp ob) = c" "conn_loop ob \<noteq> base w"
    and t: "pbase (load w ob)" "index (channel (load w ob)) = kAdded" "hooked (load w ob)"
  obtains t where "calls_step ctl onMessage late (w, Q)
      (enqueue (store w c ob t) (base w) (Remove_fn c), push w (enqueue (store w c ob t) (base w) (Remove_fn c)) Q)"
    and "message_ok onMessage \<Longrightarrow> srv_inv w st \<Longrightarrow> \<exists>st'. srv_inv (enqueue (store w c ob t) (base w) (Remove_fn c)) st'"
    and "closed t" and "hooked t" and "inputBuffer t = inputBuffer (tcp ob)" and "outputBuffer t = outputBuffer (tcp ob)" and "chan t = c"
proof -
  fix k
  obtain t' where t': "run_callbacks ctl k onMessage c w (Channel_handleEvent True (chans (pollers w (conn_loop ob)) c\<lparr>revents := EPOLLHUP\<rparr>)) =
      Inr (enqueue (store w c ob t') (base w) (Remove_fn c))" "own (load w ob) t'" "closed t'" "hooked t'"
      "inputBuffer t' = inputBuffer (tcp ob)" "outputBuffer t' = outputBuffer (tcp ob)"
    using hup_closes [OF assms] by blast
  have "watched (poller (load w ob)) (chan (load w ob)) \<noteq> None" using watched_iff [OF pbaseD(1) [OF t(1)]] t(2) by simp
  then have watch: "watched (pollers w (conn_loop ob)) c \<noteq> None" using ob(2) by (simp add: load_def)
  have hup: "hup_ok EPOLLHUP" by (simp add: hup_ok_def EPOLLHUP_def EPOLLPRI_def)
  show thesis
  proof (rule that [of t'])
    show "calls_step ctl onMessage late (w, Q)
        (enqueue (store w c ob t') (base w) (Remove_fn c), push w (enqueue (store w c ob t') (base w) (Remove_fn c)) Q)"
      by (rule calls_step.event [OF ob(1) watch hup t'(1)])
    show "message_ok onMessage \<Longrightarrow> srv_inv w st \<Longrightarrow> \<exists>st'. srv_inv (enqueue (store w c ob t') (base w) (Remove_fn c)) st'"
      using event_ok [OF ctl _ _ ob(1) watch hup t'(1)] by blast
    show "chan t' = c" using t'(2) ob(2) by (simp add: own_def load_def)
  qed (use t' in simp_all)
qed

text \<open>
  \<open>sendInLoop\<close> on a closed connection whose socket is full: the bytes go to the output buffer, and the channel is registered again.
\<close>

lemma late_send:
  assumes ctl: "epoll_ctl_spec ctl" and t: "conn_base t" "closed t" "pending t = []" and bytes: "bytes \<noteq> []" "Buffer_room (outputBuffer t) (length bytes)"
  shows "\<exists>t'. TcpConnection_sendInLoop ctl full_socket t bytes = Inr t' \<and> conn_base t' \<and> chan t' = chan t \<and> index (channel t') = kAdded \<and> hooked t' = hooked t"
proof -
  let ?t = "emit LogError t"
  have b: "conn_base ?t" using t(1) by (simp add: conn_base_def)
  have "send_direct full_socket ?t bytes = (?t, 0, False)" by (simp add: send_direct_def full_socket_def)
  then have run: "TcpConnection_sendInLoop ctl full_socket t bytes = send_rest ctl ?t bytes"
    using t(2) bytes(1) by (simp add: TcpConnection_sendInLoop_def closed_def)
  have "\<not> Channel_isWriting (channel ?t)" using t(2) by (simp add: closed_def Channel_isWriting_def)
  then obtain t' where t': "send_rest ctl ?t bytes = Inr t'" "conn_base t'" "chan t' = chan t" "index (channel t') = kAdded"
    using send_rest_ok [OF ctl b, of bytes] bytes(2) by auto
  have "hooked t' = hooked ?t" using t'(1) by (auto simp: send_rest_def Let_def andthen_Inr_iff split: if_splits dest!: channel_hooked)
  then show ?thesis using run t' by auto
qed

lemma load_store [simp]: "load (store w c ob t) (ob\<lparr>tcp := t\<rparr>) = t" "load (enqueue w l f) ob = load w ob"
  by (simp_all add: load_def store_def enqueue_def)

text \<open>The functor of \<open>send\<close>, called behind the close while the socket is full, and the hang-up, which is reported again.\<close>

lemma late_close_run:
  assumes ctl: "epoll_ctl_spec ctl" and ob: "objs w c = Some ob" "chan (tcp ob) = c" "conn_loop ob \<noteq> base w"
    and t: "conn_base (load w ob)" "closed (load w ob)" "pending (tcp ob) = []" "hooked (load w ob)" "Buffer_room (outputBuffer (tcp ob)) 1"
    and Q: "Q (conn_loop ob) = [Conn_call c (Send_fn 1)]"
  shows "\<exists>w' Q'. (calls_step ctl onMessage True)\<^sup>*\<^sup>* (w, Q) (w', Q') \<and> queue w' (base w) = queue w (base w) @ [Remove_fn c]"
proof -
  let ?S = "calls_step ctl onMessage True" and ?b = "''x''"
  have Q': "Q (conn_loop ob) = [Conn_call c (Send_fn (length ?b))]" using Q by simp
  have "pending (load w ob) = []" "Buffer_room (outputBuffer (load w ob)) (length ?b)" using t(3,5) by (simp_all add: load_def)
  then obtain t3 where t3: "TcpConnection_sendInLoop ctl full_socket (load w ob) ?b = Inr t3" "conn_base t3" "chan t3 = c" "index (channel t3) = kAdded" "hooked t3"
    using late_send [OF ctl t(1,2), of ?b] ob(2) t(4) by (auto simp: load_def)
  define w3 where "w3 = store w c ob t3"
  have "run_send ctl full_socket ?b w c = Inr w3" using ob(1) t3(1) by (simp add: run_send_def conn_at_def w3_def)
  with Q' have s3: "?S (w, Q) (w3, Q(conn_loop ob := []))" by (rule calls_step.send_called) simp
  define ob3 where "ob3 = ob\<lparr>tcp := t3\<rparr>"
  have o3: "objs w3 c = Some ob3" "chan (tcp ob3) = c" "conn_loop ob3 \<noteq> base w3" "load w3 ob3 = t3"
    using ob t3(3) by (simp_all add: w3_def ob3_def store_def load_def)
  have h3: "pbase (load w3 ob3)" "index (channel (load w3 ob3)) = kAdded" "hooked (load w3 ob3)"
    using o3(4) t3(2,4,5) by (simp_all add: conn_base_def pbase_def)
  define W4 where "W4 t = enqueue (store w3 c ob3 t) (base w3) (Remove_fn c)" for t
  obtain t4 where s4: "?S (w3, Q(conn_loop ob := [])) (W4 t4, push w3 (W4 t4) (Q(conn_loop ob := [])))"
    using hup_step [OF ctl o3(1-3) h3, of onMessage True] unfolding W4_def by metis
  have "queue (W4 t4) (base w) = queue w (base w) @ [Remove_fn c]" by (simp add: W4_def w3_def enqueue_def store_def)
  then show ?thesis using s3 s4 by (meson r_into_rtranclp rtranclp.rtrancl_into_rtrancl)
qed

text \<open>From an open connection without pending bytes: another thread sends a byte, the peer hangs up, the loop calls the functor while the socket is full, and the
  hang-up, still pending, is reported again.\<close>

lemma late_send_run:
  assumes ctl: "epoll_ctl_spec ctl" and msg: "message_ok onMessage" and inv: "srv_inv w st"
    and ob: "objs w c = Some ob" "state (tcp ob) = kConnected" "conn_loop ob \<noteq> base w"
    and t: "conn_base (load w ob)" "hooked (load w ob)" "pending (tcp ob) = []" "Buffer_room (outputBuffer (tcp ob)) 1" and Q: "Q (conn_loop ob) = []"
  shows "\<exists>w' Q'. (calls_step ctl onMessage True)\<^sup>*\<^sup>* (w, Q) (w', Q') \<and> queue w' (base w) = queue w (base w) @ [Remove_fn c, Remove_fn c]"
proof -
  let ?S = "calls_step ctl onMessage True" and ?l = "conn_loop ob" and ?b = "''x''"
  note stage = load_stage [OF inv ob(1)] and pb = load_pbase [OF inv ob(1)]
  define t1 where "t1 = emit (Queue (Send_fn (length ?b))) (load w ob)"
  define w1 where "w1 = store w c ob t1"
  define ob1 where "ob1 = ob\<lparr>tcp := t1\<rparr>"
  define Q1 where "Q1 = Q(?l := Q ?l @ queued_calls c (load w ob) t1)"
  have send: "TcpConnection_send ctl full_socket False (load w ob) ?b = Inr t1" using ob(2) by (simp add: TcpConnection_send_def t1_def load_def)
  have s1: "?S (w, Q) (w1, Q1)" unfolding w1_def Q1_def using ob(1) send refl by (rule calls_step.send)
  have Q1: "Q1 ?l = [Conn_call c (Send_fn (length ?b))]" using Q queued_calls_cases(2) [OF send, of c] ob(2) by (simp add: Q1_def load_def)
  have up: "st c = Up" using stage ob(2) by (cases "st c") (simp_all add: stage_ok_def load_def)
  have inv1: "srv_inv w1 st" unfolding w1_def using pb(1) stage by (intro keep_ok [OF inv ob(1)] own_cong) (simp_all add: t1_def pbase_def)
  have o1: "objs w1 c = Some ob1" "conn_loop ob1 = ?l" "base w1 = base w" "load w1 ob1 = t1" "chan (tcp ob1) = c"
    using pb(2) by (simp_all add: w1_def ob1_def store_def load_def t1_def)
  have k1: "index (channel t1) = kAdded" using stage up by (simp add: stage_ok_def t1_def)
  have pb1: "pbase (load w1 ob1)" by (rule load_pbase(1) [OF inv1 o1(1)])
  have h1: "conn_loop ob1 \<noteq> base w1" "index (channel (load w1 ob1)) = kAdded" "hooked (load w1 ob1)"
    using ob(3) o1 k1 t(2) by (simp_all add: t1_def)
  define W2 where "W2 t = enqueue (store w1 c ob1 t) (base w1) (Remove_fn c)" for t
  obtain t2 where s2: "?S (w1, Q1) (W2 t2, push w1 (W2 t2) Q1)" and inv2: "\<exists>st'. srv_inv (W2 t2) st'"
    and t2: "closed t2" "hooked t2" "inputBuffer t2 = inputBuffer (tcp ob1)" "outputBuffer t2 = outputBuffer (tcp ob1)" "chan t2 = c"
    using hup_step [OF ctl o1(1,5) h1(1) pb1 h1(2,3), of onMessage True Q1 st] msg inv1 unfolding W2_def by metis
  define ob2 where "ob2 = ob1\<lparr>tcp := t2\<rparr>"
  have o2: "objs (W2 t2) c = Some ob2" "conn_loop ob2 = ?l" "base (W2 t2) = base w" "load (W2 t2) ob2 = t2" "chan (tcp ob2) = c"
    using o1 t2(5) by (simp_all add: W2_def ob2_def enqueue_def store_def load_def)
  have Q2: "push w1 (W2 t2) Q1 ?l = [Conn_call c (Send_fn (length ?b))]"
    using Q1 ob(3) o1(3) by (simp add: push_def W2_def enqueue_def store_def)
  have "pbase t2" using inv2 load_pbase(1) [OF _ o2(1)] unfolding o2(4) by blast
  then have "conn_base t2" using t(1) t2(3,4) by (simp add: conn_base_def pbase_def ob1_def t1_def load_def)
  moreover have "pending (tcp ob2) = []" "Buffer_room (outputBuffer (tcp ob2)) 1" "conn_loop ob2 \<noteq> base (W2 t2)"
    using t(3,4) t2(4) ob(3) o2(2,3) by (simp_all add: ob2_def ob1_def t1_def load_def)
  ultimately obtain w' Q' where run: "?S\<^sup>*\<^sup>* (W2 t2, push w1 (W2 t2) Q1) (w', Q')" "queue w' (base w) = queue (W2 t2) (base w) @ [Remove_fn c]"
    using late_close_run [OF ctl o2(1,5)] o2(2,3,4) t2(1,2) Q2 by (metis One_nat_def length_Cons list.size(3))
  have "queue (W2 t2) (base w) = queue w (base w) @ [Remove_fn c]" using o1(3) by (simp add: W2_def w1_def enqueue_def store_def)
  then show ?thesis using run s1 s2 by (metis append.assoc append_Cons append_Nil converse_rtranclp_into_rtranclp)
qed

section \<open>Properties\<close>

text \<open>
  C16. Calls from other threads find their connection, under two conditions. Other threads call \<open>send\<close> and \<open>shutdown\<close> on the connections of a
  running server, checking the state in one step and queueing the functor in a later one; no thread queues its functor only after the connection's
  destruction has been queued (\<open>prompt\<close>), and no bytes have to be kept behind a close (not \<open>late\<close>). Then a functor bound to a connection is in the queue of
  the connection's loop, and when the loop calls it the object is still there, although nothing in the functor holds it; a shutdown returns, and so does
  every functor of the server; and no connection is removed or destroyed twice. What keeps the connection is the order of the queue: its
  destruction is queued behind every functor that was bound to it. Both conditions are needed: \<open>TcpConnection_shutdown_races_with_close\<close> below shows
  a freed object used without the first, and bytes sent behind a close make the server remove a connection twice without the second (last property of
  this theory); nothing in the code ensures either.
\<close>

theorem TcpConnection_calls_find_connection:
  assumes "epoll_ctl_spec ctl" and "message_ok onMessage" and "server_up ctl hashFunc new_loop b s addr name n = Inr w0" and "0 \<le> s"
    and "(race_step ctl onMessage False True)\<^sup>*\<^sup>* ((w0, \<lambda>_. []), []) ((w, Q), P)"
  shows "(\<forall>l c f. Conn_call c f \<in> set (Q l) \<longrightarrow> (\<exists>ob. objs w c = Some ob \<and> conn_loop ob = l \<and> state (tcp ob) \<noteq> kConnecting)) \<and>
     (\<forall>l c xs. Q l = Conn_call c Shutdown_fn # xs \<longrightarrow> (\<exists>w'. run_shutdown w c = Inr w')) \<and>
     (\<forall>l f xs. Q l = Server_call f # xs \<longrightarrow> (\<exists>w'. run_functor ctl (w\<lparr>queue := (queue w)(l := server_part xs)\<rparr>) f = Inr w')) \<and>
     (\<forall>l f. queue w l = server_part (Q l) \<and> count_list (queue w l) f \<le> 1)"
proof (intro conjI allI impI)
  obtain st where inv: "calls_inv w st Q" using race_runs [OF assms] by (auto simp: race_inv_def)
  note srv = calls_invD(1) [OF inv]
  have found: "\<exists>ob. objs w c = Some ob \<and> conn_loop ob = l \<and> state (tcp ob) \<noteq> kConnecting" if q: "Conn_call c f \<in> set (Q l)" for l c f
  proof -
    obtain ob where ob: "objs w c = Some ob" "conn_loop ob = l" "st c \<noteq> Connecting"
      using calls_invD(4) [OF inv q] unfolding bound_ok_def by blast
    then show ?thesis using load_stage [OF srv ob(1)] by (cases "st c") (auto simp: stage_ok_def load_def)
  qed
  show "Conn_call c f \<in> set (Q l) \<Longrightarrow> \<exists>ob. objs w c = Some ob \<and> conn_loop ob = l \<and> state (tcp ob) \<noteq> kConnecting" for l c f by (rule found)
  show "\<exists>w'. run_shutdown w c = Inr w'" if "Q l = Conn_call c Shutdown_fn # xs" for l c xs
    using found [of c Shutdown_fn l] that by (auto simp: run_shutdown_def conn_at_def)
  show q: "queue w l = server_part (Q l)" for l using calls_invD(2) [OF inv, of l] by simp
  show "\<exists>w'. run_functor ctl (w\<lparr>queue := (queue w)(l := server_part xs)\<rparr>) f = Inr w'" if "Q l = Server_call f # xs" for l f xs
    using functor_ok [OF assms(1) srv, of l f "server_part xs"] q [of l] that by auto
  show "count_list (queue w l) f \<le> 1" for l f
  proof (cases "objs w (target f)")
    case None
    then show ?thesis using srv_invD(2) [OF srv None] by (simp add: dead_ok_def queued_once_def)
  next
    case (Some ob)
    then show ?thesis using srv_invD(3) [OF srv Some] by (simp add: live_ok_def queued_once_def)
  qed
qed

section \<open>A server with an open connection\<close>

text \<open>A server with one thread has accepted a connection, and the thread has established it.\<close>

lemma example_open:
  "\<exists>w0 w ob st. server_up kernel_ctl (\<lambda>_. 0) (\<lambda>i. 100 + i) 7 3 localhost ''srv'' 1 = Inr w0 \<and>
     (calls_step kernel_ctl Inr late)\<^sup>*\<^sup>* (w0, \<lambda>_. []) (w, \<lambda>_. []) \<and> srv_inv w st \<and> queue w 7 = [] \<and> queue w 100 = [] \<and>
     objs w 1 = Some ob \<and> conn_loop ob = 100 \<and> base w = 7 \<and> state (tcp ob) = kConnected \<and>
     conn_base (load w ob) \<and> hooked (load w ob) \<and> pending (tcp ob) = [] \<and> Buffer_room (outputBuffer (tcp ob)) 1"
proof -
  let ?S = "calls_step kernel_ctl Inr late"
  obtain w0 where w0: "server_up kernel_ctl (\<lambda>_. 0) (\<lambda>i. 100 + i) 7 3 localhost ''srv'' 1 = Inr w0" "nextConnId (server w0) = 1"
      "fresh_fd w0 9" "next_obj w0 = 1" and inv: "srv_inv w0 (\<lambda>_. Gone)" "threadPool (server w0) = started_pool (\<lambda>_. 0) (\<lambda>i. 100 + i) 7 ''srv'' 1"
      "newConnectionCallback (acceptor (server w0))" "base w0 = 7" "objs w0 = Map.empty"
    using example_server_0 server_up_ok [OF kernel_ctl_spec, of 3 "\<lambda>_. 0" "\<lambda>i. 100 + i" 7 localhost "''srv''" 1] by fastforce
  have n: "nextConnId (server w0) < 2 ^ 31 - 1" using w0(2) by simp
  have q0: "queue w0 = (\<lambda>_. [])" using no_objects_no_functors [OF inv(1,5)] by auto
  have "\<not> srv_writeCompleteCallback (server w0)"
    using w0(1) by (auto simp: server_up_def TcpServer_new_def TcpServer_start_def TcpServer_setThreadNum_def Let_def andthen_Inr_iff split: if_splits)
  then have e0: "echo_world w0 (\<lambda>_. Gone) (\<lambda>_. [])" using inv(1,5) by (simp add: echo_world_def)
  obtain b where b: "Buffer_new kInitialSize = Inr b" by (rule Buffer_new_wf [OF kInitialSize_room])
  have size: "unat (writerIndex b) = 8" using b by (auto simp: Buffer_new_def vec_resize_def kInitialSize_def kCheapPrepend_def vec_max_def)
  obtain t where t: "TcpConnection_new (pollers w0 (100 + 0)) (next_obj w0) 9 = Inr t" "outputBuffer t = b" using b by (simp add: TcpConnection_new_def)
  have io: "EventLoopThreadPool_getNextLoop (threadPool (server w0)) (InetAddress_toIp localhost) = Inr (100 + 0)"
    using zero_hash_loop unfolding inv(2) by blast
  obtain w1 where w1: "TcpServer_newConnection kernel_ctl w0 9 localhost = Inr w1"
    using newConnection_ok [OF kernel_ctl_spec inv(1) w0(3) n io t(1)] by blast
  then have acc: "Acceptor_handleRead kernel_ctl (Inr (9, localhost)) w0 = Inr w1" using inv(3) by (simp add: Acceptor_handleRead_def Socket_accept_def)
  obtain st1 where e1: "echo_world w1 st1 (\<lambda>_. [])" using echo_accept_ok [OF kernel_ctl_spec e0 w0(3) n w1] by blast
  have o1: "\<exists>ob. objs w1 1 = Some ob \<and> conn_loop ob = 100 \<and> outputBuffer (tcp ob) = b" and q1: "queue w1 = (\<lambda>_. [])(100 := [Established_fn 1])" "base w1 = 7"
    using w1 io t w0(4) inv(4) q0
    by (auto simp: TcpServer_newConnection_def store_def enqueue_def Let_def andthen_Inr_iff TcpConnection_setWriteCompleteCallback_def)
  then obtain ob1 where ob1: "objs w1 1 = Some ob1" "conn_loop ob1 = 100" "outputBuffer (tcp ob1) = b" by blast
  let ?v = "w1\<lparr>queue := (queue w1)(100 := server_part [])\<rparr>" and ?Q1 = "push w0 w1 (\<lambda>_. [])"
  have Q1: "?Q1 100 = [Server_call (Established_fn 1)]" "?Q1(100 := []) = (\<lambda>_. [])" using q0 q1 by (auto simp: push_def)
  have head: "queue w1 100 = Established_fn 1 # server_part []" using q1 by simp
  obtain w where w: "run_functor kernel_ctl ?v (Established_fn 1) = Inr w" using functor_ok [OF kernel_ctl_spec echo_worldD(1) [OF e1] head] by blast
  obtain st where e: "echo_world w st (\<lambda>_. [])" using echo_functor_ok(1) [OF kernel_ctl_spec e1 head w] by blast
  have o2: "\<exists>ob. objs w 1 = Some ob \<and> conn_loop ob = 100 \<and> outputBuffer (tcp ob) = b \<and> state (tcp ob) = kConnected" "queue w = (\<lambda>_. [])" "base w = 7"
    using w ob1 q1 by (auto simp: run_established_def TcpConnection_connectEstablished_def on_channel_def conn_at_def store_def load_def setState_def andthen_Inr_iff Let_def)
  then obtain ob where ob: "objs w 1 = Some ob" "conn_loop ob = 100" "outputBuffer (tcp ob) = b" "state (tcp ob) = kConnected" by blast
  have "?S\<^sup>*\<^sup>* (w0, \<lambda>_. []) (w, \<lambda>_. [])"
  proof (rule rtranclp_trans [OF r_into_rtranclp r_into_rtranclp])
    show "?S (w0, \<lambda>_. []) (w1, ?Q1)" by (rule calls_step.accepted [OF w0(3) n acc])
    have "?S (w1, ?Q1) (w, push ?v w (?Q1(100 := [])))" using Q1(1) refl w by (rule calls_step.server_called)
    moreover have "push ?v w (?Q1(100 := [])) = (\<lambda>_. [])" unfolding Q1(2) using o2(2) by (simp add: push_def fun_eq_iff)
    ultimately show "?S (w1, ?Q1) (w, \<lambda>_. [])" by simp
  qed
  moreover have "conn_base (load w ob) \<and> hooked (load w ob) \<and> pending (tcp ob) = []"
    using echo_worldD(3) [OF e ob(1)] echo_objD(1,6) [of "load w ob" "[]"] by (auto simp: conn_inv_def load_def)
  moreover have "Buffer_room (outputBuffer (tcp ob)) 1" using ob(3) size by (simp add: Buffer_room_def vec_max_def)
  ultimately show ?thesis using w0(1) echo_worldD(1) [OF e] o2(2,3) ob by auto
qed

text \<open>
  C27. \<open>sendInLoop\<close> says that it gives up on a disconnected connection, but does not. When another thread sends while the peer hangs up and
  the socket is full, the closed connection is registered again, the hang-up is reported a second time, and the connection is closed a
  second time: the callbacks for the close are called twice, and the server has two functors to remove the same connection.
\<close>

theorem TcpConnection_late_send_closes_twice:
  "\<exists>w0 w Q. server_up kernel_ctl (\<lambda>_. 0) (\<lambda>i. 100 + i) 7 3 localhost ''srv'' 1 = Inr w0 \<and>
     (calls_step kernel_ctl Inr True)\<^sup>*\<^sup>* (w0, \<lambda>_. []) (w, Q) \<and> queue w 7 = [Remove_fn 1, Remove_fn 1]"
proof -
  obtain w0 w ob st where w: "server_up kernel_ctl (\<lambda>_. 0) (\<lambda>i. 100 + i) 7 3 localhost ''srv'' 1 = Inr w0"
      "(calls_step kernel_ctl Inr True)\<^sup>*\<^sup>* (w0, \<lambda>_. []) (w, \<lambda>_. [])" "srv_inv w st" "queue w 7 = []"
      "objs w 1 = Some ob" "state (tcp ob) = kConnected" "conn_loop ob = 100" "base w = 7"
      "conn_base (load w ob)" "hooked (load w ob)" "pending (tcp ob) = []" "Buffer_room (outputBuffer (tcp ob)) 1"
    using example_open [of True] by blast
  have "conn_loop ob \<noteq> base w" using w(7,8) by simp
  from late_send_run [where Q = "\<lambda>_. []", OF kernel_ctl_spec message_ok_none w(3,5,6) this w(9-12) refl] obtain w' Q' where
      run: "(calls_step kernel_ctl Inr True)\<^sup>*\<^sup>* (w, \<lambda>_. []) (w', Q')" "queue w' (base w) = queue w (base w) @ [Remove_fn 1, Remove_fn 1]"
    by blast
  have "queue w' 7 = [Remove_fn 1, Remove_fn 1]" using run(2) unfolding w(4,8) by simp
  then show ?thesis using w(1) rtranclp_trans [OF w(2) run(1)] by blast
qed

text \<open>
  Without the lock the order can be lost. A thread that is about to call \<open>shutdown\<close> has found the connection connected and set its state; before it
  queues the functor, the peer hangs up, the server removes the connection, and the loop destroys it. The functor that comes then is bound to an
  object that is no more: \<open>shutdownInLoop\<close> is called on a dangling pointer. (The thread's own pointer keeps the object until it returns from
  \<open>shutdown\<close>, not until the functor is called.)
\<close>

lemma race_removed:
  assumes ctl: "epoll_ctl_spec ctl" and inv: "srv_inv w st" and ob: "objs w c = Some ob" "conn_loop ob = l" and l: "base w \<noteq> l"
    and q: "queue w (base w) = [Remove_fn c]" "queue w l = []" and Q: "Q (base w) = [Server_call (Remove_fn c)]" "Q l = []"
  shows "\<exists>w' Q'. (calls_step ctl onMessage late)\<^sup>*\<^sup>* (w, Q) (w', Q') \<and> objs w' c = None \<and> Q' l = []"
proof -
  let ?S = "calls_step ctl onMessage late" and ?b = "base w"
  let ?v = "w\<lparr>queue := (queue w)(?b := server_part [])\<rparr>"
  have head: "queue w ?b = Remove_fn c # server_part []" using q(1) by simp
  obtain w1 s where w1: "run_functor ctl ?v (Remove_fn c) = Inr w1" "srv_inv w1 (st(c := s))"
    using functor_ok [OF ctl inv head] by auto
  let ?Q1 = "push ?v w1 (Q(?b := []))"
  have s1: "?S (w, Q) (w1, ?Q1)" using Q(1) refl w1(1) by (rule calls_step.server_called)
  have q1: "queue w1 l = [Destroyed_fn c]"
    using w1(1) ob q(2) l by (auto simp: TcpServer_removeConnectionInLoop_def conn_at_def andthen_Inr_iff enqueue_def Let_def)
  then have Q1: "?Q1 l = [Server_call (Destroyed_fn c)]" using Q(2) l q(2) by (auto simp: push_def)
  let ?u = "w1\<lparr>queue := (queue w1)(l := server_part [])\<rparr>"
  have head1: "queue w1 l = Destroyed_fn c # server_part []" using q1 by simp
  obtain w2 where w2: "run_functor ctl ?u (Destroyed_fn c) = Inr w2" "objs w2 c = None"
    using functor_ok [OF ctl w1(2) head1] by auto
  let ?Q2 = "push ?u w2 (?Q1(l := []))"
  have s2: "?S (w1, ?Q1) (w2, ?Q2)" using Q1 refl w2(1) by (rule calls_step.server_called)
  have "queue w2 l = []" using w2(1) by (auto simp: run_destroyed_def andthen_Inr_iff store_def Let_def)
  then have "?Q2 l = []" by (simp add: push_def)
  moreover have "?S\<^sup>*\<^sup>* (w, Q) (w2, ?Q2)" using s1 s2 by (meson r_into_rtranclp rtranclp.rtrancl_into_rtrancl)
  ultimately show ?thesis using w2(2) by blast
qed

theorem TcpConnection_shutdown_races_with_close:
  "\<exists>w0 w Q. server_up kernel_ctl (\<lambda>_. 0) (\<lambda>i. 100 + i) 7 3 localhost ''srv'' 1 = Inr w0 \<and>
     (race_step kernel_ctl Inr False False)\<^sup>*\<^sup>* ((w0, \<lambda>_. []), []) ((w, Q), []) \<and> Q 100 = [Conn_call 1 Shutdown_fn] \<and>
     run_shutdown w 1 = Inl Dangling_deref"
proof -
  let ?S = "race_step kernel_ctl Inr False False"
  obtain w0 w ob st where w: "server_up kernel_ctl (\<lambda>_. 0) (\<lambda>i. 100 + i) 7 3 localhost ''srv'' 1 = Inr w0"
      "(calls_step kernel_ctl Inr False)\<^sup>*\<^sup>* (w0, \<lambda>_. []) (w, \<lambda>_. [])" "srv_inv w st" "objs w 1 = Some ob" "state (tcp ob) = kConnected"
      "conn_loop ob = 100" "base w = 7" "queue w 7 = []" "queue w 100 = []" "hooked (load w ob)"
    using example_open [of False] by blast
  let ?t1 = "call_checked Shutdown_fn (load w ob)"
  let ?w1 = "store w 1 ob ?t1" and ?ob1 = "ob\<lparr>tcp := ?t1\<rparr>" and ?P = "[(1, 100, Shutdown_fn)]"
  have s1: "?S ((w, \<lambda>_. []), []) ((?w1, \<lambda>_. []), ?P)" using race_step.checked [OF w(4,5), of Shutdown_fn 0 kernel_ctl Inr False False "\<lambda>_. []" "[]"] w(6) by simp
  note stage = load_stage [OF w(3,4)] and pb = load_pbase [OF w(3,4)]
  have up: "st 1 = Up" using stage w(5) by (cases "st 1") (simp_all add: stage_ok_def load_def)
  have inv1: "srv_inv ?w1 st"
    using pb(1) stage up by (intro keep_ok [OF w(3,4)] own_cong) (simp_all add: pbase_def stage_ok_def)
  have o1: "objs ?w1 1 = Some ?ob1" "chan (tcp ?ob1) = 1" "conn_loop ?ob1 \<noteq> base ?w1" "load ?w1 ?ob1 = ?t1" "base ?w1 = 7"
    using w(6,7) pb(2) by (simp_all add: store_def load_def)
  have t1: "pbase (load ?w1 ?ob1)" "index (channel (load ?w1 ?ob1)) = kAdded" "hooked (load ?w1 ?ob1)"
    using load_pbase(1) [OF inv1 o1(1)] stage up w(10) unfolding o1(4) by (simp_all add: stage_ok_def hooked_def)
  define W2 where "W2 t = enqueue (store ?w1 1 ?ob1 t) 7 (Remove_fn 1)" for t
  obtain t2 where s2: "calls_step kernel_ctl Inr False (?w1, \<lambda>_. []) (W2 t2, push ?w1 (W2 t2) (\<lambda>_. []))" and inv2: "\<exists>st'. srv_inv (W2 t2) st'"
    using hup_step [OF kernel_ctl_spec o1(1-3) t1, of Inr False "\<lambda>_. []" st] message_ok_none inv1 unfolding W2_def o1(5) by metis
  obtain st2 where inv2: "srv_inv (W2 t2) st2" using inv2 by blast
  have o2: "objs (W2 t2) 1 = Some (?ob1\<lparr>tcp := t2\<rparr>)" "conn_loop (?ob1\<lparr>tcp := t2\<rparr>) = 100" "base (W2 t2) = 7"
    "queue (W2 t2) (base (W2 t2)) = [Remove_fn 1]" "queue (W2 t2) 100 = []"
    "push ?w1 (W2 t2) (\<lambda>_. []) (base (W2 t2)) = [Server_call (Remove_fn 1)]" "push ?w1 (W2 t2) (\<lambda>_. []) 100 = []"
    using w(6-9) by (simp_all add: W2_def enqueue_def store_def push_def)
  have "base (W2 t2) \<noteq> 100" using o2(3) by simp
  from race_removed [OF kernel_ctl_spec inv2 o2(1,2) this o2(4-7)] obtain w3 Q3 where
      s3: "(calls_step kernel_ctl Inr False)\<^sup>*\<^sup>* (W2 t2, push ?w1 (W2 t2) (\<lambda>_. [])) (w3, Q3)" "objs w3 1 = None" "Q3 100 = []" by blast
  have s4: "?S ((w3, Q3), [] @ (1, 100, Shutdown_fn) # []) ((w3, Q3(100 := Q3 100 @ [Conn_call 1 Shutdown_fn])), [] @ [])"
    by (rule race_step.handed) simp_all
  have "(calls_step kernel_ctl Inr False)\<^sup>*\<^sup>* (?w1, \<lambda>_. []) (w3, Q3)" using s2 s3(1) by (rule converse_rtranclp_into_rtranclp)
  then have "?S\<^sup>*\<^sup>* ((?w1, \<lambda>_. []), ?P) ((w3, Q3), ?P)" by (rule race_fused)
  with s1 have "?S\<^sup>*\<^sup>* ((w, \<lambda>_. []), []) ((w3, Q3), ?P)" by (rule converse_rtranclp_into_rtranclp)
  with race_fused [OF w(2)] have "?S\<^sup>*\<^sup>* ((w0, \<lambda>_. []), []) ((w3, Q3), ?P)" by (rule rtranclp_trans)
  then have "?S\<^sup>*\<^sup>* ((w0, \<lambda>_. []), []) ((w3, Q3(100 := Q3 100 @ [Conn_call 1 Shutdown_fn])), [])"
    using s4 by (simp add: rtranclp.rtrancl_into_rtrancl)
  moreover have "run_shutdown w3 1 = Inl Dangling_deref" using s3(2) by (simp add: run_shutdown_def conn_at_def)
  ultimately show ?thesis using w(1) s3(3)
    by (intro exI [of _ w0] exI [of _ w3] exI [of _ "Q3(100 := Q3 100 @ [Conn_call 1 Shutdown_fn])"]) simp
qed

section \<open>Witnesses\<close>

theorem TcpConnection_calls_find_connection_witness:
  "\<exists>w0 w Q w'. server_up kernel_ctl (\<lambda>_. 0) (\<lambda>i. 100 + i) 7 3 localhost ''srv'' 1 = Inr w0 \<and>
     (race_step kernel_ctl Inr False True)\<^sup>*\<^sup>* ((w0, \<lambda>_. []), []) ((w, Q), []) \<and> Q 100 = [Conn_call 1 Shutdown_fn] \<and> run_shutdown w 1 = Inr w'"
proof -
  obtain w0 w ob where w: "server_up kernel_ctl (\<lambda>_. 0) (\<lambda>i. 100 + i) 7 3 localhost ''srv'' 1 = Inr w0"
      "(calls_step kernel_ctl Inr False)\<^sup>*\<^sup>* (w0, \<lambda>_. []) (w, \<lambda>_. [])" "objs w 1 = Some ob" "conn_loop ob = 100" "state (tcp ob) = kConnected"
      "queue w 100 = []"
    using example_open [of False] by blast
  let ?S = "race_step kernel_ctl Inr False True" and ?w = "store w 1 ob (call_checked Shutdown_fn (load w ob))"
  let ?Q = "(\<lambda>_. [])(100 := [] @ [Conn_call 1 Shutdown_fn])"
  have "?S ((w, \<lambda>_. []), []) ((?w, \<lambda>_. []), [] @ [(1, 100, Shutdown_fn)])"
    using race_step.checked [OF w(3,5), of Shutdown_fn 0 kernel_ctl Inr False True "\<lambda>_. []" "[]"] w(4) by simp
  moreover have "?S ((?w, \<lambda>_. []), [] @ [(1, 100, Shutdown_fn)]) ((?w, ?Q), [] @ [])"
    by (rule race_step.handed) (use w(6) in \<open>simp_all add: store_def\<close>)
  ultimately have run: "?S\<^sup>*\<^sup>* ((w0, \<lambda>_. []), []) ((?w, ?Q), [])"
    using race_fused [OF w(2), of True "[]"] by (simp add: rtranclp.rtrancl_into_rtrancl)
  have s3: "0 \<le> (3 :: int)" by simp
  have "\<exists>w'. run_shutdown ?w 1 = Inr w'"
    using TcpConnection_calls_find_connection [OF kernel_ctl_spec message_ok_none w(1) s3 run] by simp
  then obtain w' where "run_shutdown ?w 1 = Inr w'" by blast
  then show ?thesis using w(1) run by (intro exI [of _ w0] exI [of _ ?w] exI [of _ ?Q] exI [of _ w']) simp
qed

end
