(* ===== verification/App_Main.thy ===== *)
theory App_Main
  imports Log_Lines Mem_ThreadCache Util_Lfu Net_Reactor Net_EchoWorld
begin

text \<open>
  The program (\<open>main\<close> in \<open>src/main.cc\<close>): it sets up the logger, allocates a block from the memory pool, makes a
  cache, constructs the event loop, the address and the echo server, starts the server, runs the loop and stops the logger. The
  operations are those of the component theories; here they are put together in the order of the source. Nothing in the program calls
  \<open>quit()\<close> on the main loop; the destructors that run at the end of \<open>main\<close> are those of the component theories (\<open>Net_ServerEnd\<close>,
  \<open>Net_Reactor\<close>, \<open>Log_Lines\<close>).
\<close>

section \<open>State\<close>





section \<open>Operations\<close>






section \<open>Properties\<close>


















section \<open>Witnesses\<close>



end
