(* ===== verification/Spec2Isabelle.thy ===== *)
theory Spec2Isabelle
  imports Net_Buffer Mem_ThreadCache Util_ConsistentHash Net_ThreadPool Log_Async Net_EventLoop Net_Poller
    Net_TcpConnection Net_Timestamp Util_Timer Util_LfuCache Net_EventLoopThread Net_TcpServer Net_EchoServer
    Log_Lines Net_Reactor Net_EchoWorld Net_Descriptors Net_ServerEnd Net_Threads Net_Dispatch Net_Calls
    App_Main
begin

text \<open>
  \<^bold>\<open>RainWebServer, verified.\<close> The program is a C++ network library in the style of muduo, one event loop per
  thread, with an asynchronous logger, a memory pool in three layers, timers, a consistent-hash ring and an LFU
  cache, and a small echo server on top (\<open>src/main.cc\<close>). This development translates its sources into
  definitions of HOL, class by class, and proves what makes each class correct and how the classes
  work together.

  \<^bold>\<open>How code is translated.\<close> A class is a record whose fields are its data members, without the trailing
  underscore; a method is a function from the state to the new state, named \<open>Class_method\<close>. An exception, an abort
  by \<open>LOG_FATAL\<close> or an undefined access is a value of \<open>cpp_error\<close>, the left side of the type \<open>result\<close>
  (\<open>Prelude\<close>); so a theorem that an operation equals \<open>Inr\<close> of something says that it returns and that nothing
  undefined happens. \<open>size_t\<close> is a 64-bit word with wrap-around; event masks are 32-bit words; \<open>int\<close>
  counters are integers where the sources do not wrap. System calls and other code outside the
  repository (\<open>readv\<close>, \<open>write\<close>, \<open>epoll_ctl\<close>, \<open>eventfd\<close>, \<open>mmap\<close>, the clock, hash functions, the traversal order of
  unordered maps) are arguments; what the code relies on is a named predicate about them such as \<open>epoll_ctl_spec\<close>,
  \<open>readv_spec\<close> or \<open>write_spec\<close>, and the witnesses instantiate them with concrete functions. Threads are
  interleaved by step relations at the points where the code locks, waits or touches an atomic.

  \<^bold>\<open>The parts.\<close>

  \<^item> \<open>Net_Buffer\<close> (\<open>Buffer.h\<close>, \<open>Buffer.cc\<close>): the input and output buffer with its two indices. It refines a queue of bytes
    (the locale \<open>byte_queue\<close>, interpreted by the buffer), \<open>readFd\<close> appends what arrived on every branch, what is appended comes back.
  \<^item> \<open>Mem_SizeClass\<close>, \<open>Mem_Heap\<close>, \<open>Mem_PageCache\<close>, \<open>Mem_CentralCache\<close>, \<open>Mem_ThreadCache\<close> (\<open>include/memory\<close>, \<open>src/memory\<close>): the
    memory pool. Free lists live in a heap of link words; the invariant assigns every block one owner. Allocation hands out
    blocks that nobody owns, deallocation takes them back, the lists stay well-formed.
  \<^item> \<open>Util_ConsistentHash\<close> and \<open>Net_ThreadPool\<close> (\<open>ConsistenHash.h\<close>, \<open>EventLoopThreadPool.cc\<close>): the ring, what \<open>getNode\<close> finds after any
    sequence of changes, and the choice of a loop for a connection.
  \<^item> \<open>Log_Stream\<close>, \<open>Log_File\<close>, \<open>Log_Async\<close> (\<open>include/log\<close>, \<open>src/log\<close>): formatting into fixed buffers, rolling files, and the
    double-buffered writer thread. Every accepted line is in exactly one place and is written in order.
    \<open>Log_Lines\<close> (\<open>Logger.cc\<close>, \<open>main.cc\<close>) puts logging statements over it, through the hook that \<open>main\<close> installs: files hold whole lines.
  \<^item> \<open>Net_EventLoop\<close> (\<open>EventLoop.cc\<close>): pending functors and the wake-up descriptor; no wake-up is lost in any
    interleaving, and an iteration calls what is pending.
  \<^item> \<open>Net_Reactor\<close> (\<open>EventLoop.cc\<close>, \<open>EventLoop.h\<close>): the whole event loop object, from constructor to destructor: \<open>Net_EventLoop\<close> with a poller of \<open>Net_Poller\<close>
    in which the wake-up descriptor is one channel, and the dispatch of the active channels. Handlers and functors are any sequences of calls
    of the loop's interface. Every step of it is simulated by the loop model, so that what is proved there of wake-ups and of
    the order of functors holds of the object; the wake-up reaches the kernel, and a turn of the loop calls what was pending.
  \<^item> \<open>Net_EventLoopThread\<close> (\<open>Thread.cc\<close>, \<open>CurrentThread.cc\<close>, \<open>EventLoopThread.cc\<close>): creation of a thread and the hand-over of its loop.
  \<^item> \<open>Net_Poller\<close> (\<open>Channel.cc\<close>, \<open>Poller.cc\<close>, \<open>EPollPoller.cc\<close>, \<open>DefaultPoller.cc\<close>): channels and their registration, as the interface
    \<open>channel_registry\<close>; the kernel's interest list agrees with the channels.
  \<^item> \<open>Net_TcpConnection\<close> (\<open>TcpConnection.cc\<close>): the connection's state machine, buffers and channel. The bytes on the wire followed
    by the pending ones are those accepted by \<open>send\<close>; the write side is shut down when and only when they are out.
    \<open>Net_ConnLife\<close> adds what each operation does to the poller that connections share.
  \<^item> \<open>Net_Timestamp\<close> and \<open>Util_Timer\<close> (\<open>Timestamp.cc\<close>, \<open>Timer.cc\<close>, \<open>TimerQueue.cc\<close>): the ordered set of timers, which objects are alive,
    for when the descriptor is armed, and what a firing calls.
  \<^item> \<open>Util_FreqList\<close>, \<open>Util_Cache\<close>, \<open>Util_Lfu\<close>, \<open>Util_LfuCache\<close> (\<open>RainLfu.h\<close>, \<open>RainCache.h\<close>): doubly linked lists in a heap of nodes as the
    interface \<open>node_lists\<close>, the contract \<open>rain_cache\<close> of a cache, the LFU cache that implements it, and its slices.
  \<^item> \<open>Net_InetAddress\<close>, \<open>Net_TcpServer\<close> (\<open>InetAddress.cc\<close>, \<open>Socket.cc\<close>, \<open>Acceptor.cc\<close>, \<open>TcpServer.cc\<close>): the server over all of
    this: a world of connection objects, pollers and functor queues, one of each per loop. Its invariant ties every
    connection to one stage of its life, across the threads that establish, close, remove and destroy it.
  \<^item> \<open>Net_Descriptors\<close> (\<open>Socket.cc\<close>): the kernel's table of descriptors beside the server. The server holds its listening socket and one descriptor for each
    live connection, which discharges what \<open>Net_TcpServer\<close> assumes of \<open>accept\<close>.
  \<^item> \<open>Net_ServerEnd\<close> (\<open>TcpServer.cc\<close>): the destructor of a running server, and the loops that finish its connections afterwards.
  \<^item> \<open>Net_Threads\<close> (\<open>TcpServer.cc\<close>, \<open>EventLoop.cc\<close>): the server on its loops, each of them a loop of \<open>Net_EventLoop\<close>. A step of the combined system projects to
    both models; what a connection waits for is in a loop that is awake or about to be woken, and the loop calls it in its next turn.
  \<^item> \<open>Net_Dispatch\<close> (\<open>EventLoop.cc\<close>, \<open>EPollPoller.cc\<close>): that system down to the vector of active channels of each loop. Between the report of a channel and its visit
    no connection is destroyed, so that the loop never follows a dangling pointer.
  \<^item> \<open>Net_Calls\<close> (\<open>TcpConnection.cc\<close>): \<open>send\<close> and \<open>shutdown\<close> called in other threads, whose functors stand between those of the server in the queue of
    a loop. They find their connection by the order of the queue; sending behind a close can close a connection twice.
  \<^item> \<open>Net_EchoServer\<close>, \<open>Net_EchoWorld\<close> (\<open>main.cc\<close>): the echo server; what a connection sends is what it received, and the server as a whole,
    over any run of its threads, refines the abstract service \<open>echo_service\<close> that its clients see, without getting stuck.
  \<^item> \<open>App_Main\<close> (\<open>main.cc\<close>): \<open>main\<close>, which puts the parts together; when it comes up, and that from there on the echo service is served.

  \<^bold>\<open>How the parts interact.\<close> A connection calls its channel, the channel its loop's poller; the server's acceptor creates connections,
  chooses their loop by the ring of the thread pool and hands functors to the loops. These calls are calls of the
  models here too: \<open>TcpServer_newConnection\<close> uses \<open>EventLoopThreadPool_getNextLoop\<close>, \<open>TcpConnection_new\<close> and
  \<open>TcpConnection_connectEstablished\<close>, which uses \<open>Channel_enableReading\<close>, and so on down to \<open>epoll_ctl\<close>. Each connection carries the
  poller it works on; the server loads it from and stores it to the loop of the connection. Six refinements have the shape of the locale
  \<open>simulation\<close> of \<open>Prelude\<close>, with an interpretation each: the event loop object and the loop model, the server with descriptors and the server
  without, the server on its threads and both the server and each of its loops, the server with its active channels and the server on its threads, the echo server and the echo service.

  \<^bold>\<open>Bounds.\<close> Operations that grow a buffer have the hypothesis that it stays below \<open>vec_max\<close>, the largest size of a vector;
  beyond it they throw. Loops are structural recursions or functions with a measure; where the code can run for ever
  (\<open>FileUtil::append\<close> on a descriptor that accepts nothing, \<open>sendFile\<close> at the end of a file) this is stated for every number of
  iterations. Connection numbers stay below \<open>2 ^ 31\<close>, where the sources' \<open>int\<close> overflows; a name then never exceeds the
  64 bytes of its buffer. The LFU cache keeps its contract through steady states, and a theorem gives the history
  on which it leaves them.

  \<^bold>\<open>Properties and findings.\<close> The properties are stated in the theories of their components, each behind a text that says what it
  means. Some of them prove that the code does not do what it means to: the cache that outgrows its capacity, timers that stall after
  a step of the clock, removed nodes that stay on the ring, log lines lost at \<open>stop\<close>, bytes sent after the close that
  register the channel again, a server without threads, a connection that is closed twice, timers that dereference a null pointer on every loop, a fatal message that never reaches its file.

  \<^bold>\<open>Not modelled.\<close> The functors that hold a connection by a shared pointer, of the write-complete and high-water-mark callbacks and of \<open>sendFile\<close>, are recorded
  as effects and not run; those of \<open>send\<close> and \<open>shutdown\<close> are run in \<open>Net_Calls\<close>, where the bytes behind the pointer of \<open>send\<close>, which leads into a string that may be gone, are
  any bytes of the right number, and where the test of the state and the queueing of the functor are one step. The user's connection callback is one that
  leaves the connection alone, as that of \<open>EchoServer\<close> does. In \<open>Net_Dispatch\<close> the events that \<open>poll\<close> stores in a channel stand beside the server's state and the wake-up channel is
  that of \<open>Net_EventLoop\<close>; the growth of the event array and the registration of the wake-up channel are in \<open>Net_Reactor\<close>, whose handlers and functors are unspecified. \<open>main\<close> is modelled up to the start of its loop and for what follows it; the two banners on the standard output are left out. \<open>Logger::setFlush\<close> has no
  caller. \<open>Callbacks.h\<close> and
  \<open>Noncopyable.h\<close> have no behaviour. Data races on members that the sources read without a lock are named as findings, not modelled as
  steps.
\<close>

end
